(* ===== verification/Prelude.thy ===== *)
theory Prelude
  imports Main "HOL-Library.Word"
begin

text \<open>
  What every component shares: the types of the wire (bytes, 16- and 64-bit words), the error
  values of the package and the result type built on them, Go's big-endian integer codecs of
  \<^verbatim>\<open>encoding/binary\<close> and \<^verbatim>\<open>appendU16\<close> of \<^verbatim>\<open>src/hello.go\<close>, and the generic lemmas on
  lists, results and words the component proofs rest on.
\<close>

unbundle bit_operations_syntax

section \<open>Types of the wire\<close>

type_synonym byte = "8 word"
type_synonym bytes = "8 word list"
type_synonym u16 = "16 word"
type_synonym u32 = "32 word"
type_synonym u64 = "64 word"

text \<open>Go strings are byte sequences; \<open>str\<close> turns an ASCII literal into one.\<close>

definition str :: "string \<Rightarrow> bytes" where
  "str s = map of_char s"

section \<open>Errors and results\<close>

text \<open>
  The sentinel errors the package compares against are constructors of their own; every other
  error is \<open>Err\<close> with the constant part of its message.
\<close>

datatype err =
    ErrMalformed        \<comment> \<open>\<^verbatim>\<open>errMalformed\<close>, src/hello.go\<close>
  | ErrNotOurs          \<comment> \<open>\<^verbatim>\<open>ErrNotOurs\<close>, src/handshake.go\<close>
  | ErrUnknownCover     \<comment> \<open>\<^verbatim>\<open>ErrUnknownCover\<close>, src/cover.go\<close>
  | ErrNoResume         \<comment> \<open>\<^verbatim>\<open>ErrNoResume\<close>, src/harvest/coverprobe/coverprobe.go\<close>
  | ErrRand             \<comment> \<open>the entropy source failed\<close>
  | ErrEOF              \<comment> \<open>\<^verbatim>\<open>io.EOF\<close>\<close>
  | ErrUnexpectedEOF    \<comment> \<open>\<^verbatim>\<open>io.ErrUnexpectedEOF\<close>: the stream ended inside what was asked for\<close>
  | ErrIO               \<comment> \<open>a write to the socket failed\<close>
  | Err string

type_synonym 'a res = "err + 'a"

fun bindE :: "'e + 'a \<Rightarrow> ('a \<Rightarrow> 'e + 'b) \<Rightarrow> 'e + 'b" where
  "bindE (Inl e) f = Inl e"
| "bindE (Inr x) f = f x"

named_theorems res_simps \<open>how a chain of fallible steps returns\<close>

lemma bindE_eq_Inr [res_simps]: "bindE m f = Inr y \<longleftrightarrow> (\<exists>x. m = Inr x \<and> f x = Inr y)"
  by (cases m) auto

lemma bindE_eq_Inl [res_simps]:
  "bindE m f = Inl e \<longleftrightarrow> m = Inl e \<or> (\<exists>x. m = Inr x \<and> f x = Inl e)"
  by (cases m) auto

lemma bindE_cong [fundef_cong]:
  assumes "m = m'" and "\<And>x. m' = Inr x \<Longrightarrow> f x = f' x"
  shows "bindE m f = bindE m' f'"
  using assms by (cases m') auto

lemma bindE_assoc: "bindE (bindE m f) g = bindE m (\<lambda>x. bindE (f x) g)"
  by (cases m) auto

lemma if_Inl_eq_Inr [res_simps]:
  "(if b then Inl e else m) = Inr y \<longleftrightarrow> \<not> b \<and> m = Inr y"
  by simp

section \<open>Big-endian integers\<close>

text \<open>Natural numbers to a fixed number of big-endian bytes and back.\<close>

fun nat_be :: "nat \<Rightarrow> nat \<Rightarrow> bytes" where
  "nat_be 0 v = []"
| "nat_be (Suc n) v = nat_be n (v div 256) @ [of_nat v]"

definition be_nat :: "bytes \<Rightarrow> nat" where
  "be_nat bs = foldl (\<lambda>a b. a * 256 + unat b) 0 bs"

text \<open>\<^verbatim>\<open>binary.BigEndian.Uint16\<close>, \<^verbatim>\<open>Uint64\<close> and the inverse \<^verbatim>\<open>PutUint16\<close>, \<^verbatim>\<open>PutUint64\<close>.\<close>

definition Uint16 :: "bytes \<Rightarrow> u16" where
  "Uint16 bs = of_nat (be_nat (take 2 bs))"

definition Uint64 :: "bytes \<Rightarrow> u64" where
  "Uint64 bs = of_nat (be_nat (take 8 bs))"

definition PutUint16 :: "u16 \<Rightarrow> bytes" where
  "PutUint16 v = [ucast (drop_bit 8 v), ucast v]"

definition PutUint32 :: "u32 \<Rightarrow> bytes" where
  "PutUint32 v = nat_be 4 (unat v)"

definition PutUint64 :: "u64 \<Rightarrow> bytes" where
  "PutUint64 v = nat_be 8 (unat v)"

definition appendU16 :: "bytes \<Rightarrow> u16 \<Rightarrow> bytes" where
  "appendU16 b v = b @ [ucast (drop_bit 8 v), ucast v]"

named_theorems wire_simps \<open>lengths and round trips of the integer codecs\<close>

lemma length_nat_be [wire_simps, simp]: "length (nat_be n v) = n"
  by (induction n arbitrary: v) auto

lemma be_nat_Nil [simp]: "be_nat [] = 0"
  by (simp add: be_nat_def)

lemma be_nat_snoc [simp]: "be_nat (bs @ [b]) = be_nat bs * 256 + unat b"
  by (simp add: be_nat_def)

lemma unat_byte_of_nat: "unat (of_nat v :: byte) = v mod 256"
  by (simp add: unat_of_nat)

lemma byte_of_nat_mod [simp]: "(of_nat (v mod 256) :: byte) = of_nat v"
  by (simp add: word_unat_eq_iff unat_byte_of_nat)

lemma unat_byte_less [simp]: "unat (b :: byte) < 256"
  using unsigned_less [of b] by simp

lemma be_nat_nat_be: "be_nat (nat_be n v) = v mod 256 ^ n"
proof (induction n arbitrary: v)
  case 0
  then show ?case by simp
next
  case (Suc n)
  have "v mod (256 * 256 ^ n) = 256 * (v div 256 mod 256 ^ n) + v mod 256"
    by (rule mod_mult2_eq)
  with Suc show ?case by (simp add: unat_byte_of_nat algebra_simps)
qed

lemma be_nat_less: "be_nat bs < 256 ^ length bs"
proof (induction bs rule: rev_induct)
  case Nil
  then show ?case by simp
next
  case (snoc b bs)
  have "be_nat bs * 256 + unat b < (be_nat bs + 1) * 256"
    by simp
  also have "\<dots> \<le> 256 ^ length bs * 256"
    using snoc by (intro mult_right_mono) auto
  finally show ?case by simp
qed

lemma nat_be_be_nat: "nat_be (length bs) (be_nat bs) = bs"
proof (induction bs rule: rev_induct)
  case Nil
  then show ?case by simp
next
  case (snoc b bs)
  have "(be_nat bs * 256 + unat b) div 256 = be_nat bs"
    by simp
  moreover have "(of_nat (be_nat bs * 256 + unat b) :: byte) = b"
    by (simp only: word_unat_eq_iff unat_byte_of_nat) simp
  ultimately show ?case using snoc by simp
qed

lemma nat_be_mod: "nat_be n (v mod 256 ^ n) = nat_be n v"
proof (induction n arbitrary: v)
  case 0
  then show ?case by simp
next
  case (Suc n)
  have m: "v mod (256 * 256 ^ n) = 256 * (v div 256 mod 256 ^ n) + v mod 256"
    by (rule mod_mult2_eq)
  have "v mod (256 * 256 ^ n) div 256 = v div 256 mod 256 ^ n"
    by (simp add: m)
  moreover have "(of_nat (v mod (256 * 256 ^ n)) :: byte) = of_nat v"
    by (simp add: word_unat_eq_iff unat_byte_of_nat m mod_add_left_eq del: of_nat_add)
  ultimately show ?case using Suc by simp
qed

lemma PutUint16_nat_be: "PutUint16 v = nat_be 2 (unat v)"
proof -
  have "unat (drop_bit 8 v) = unat v div 256"
    by (simp only: unat_drop_bit_eq) (simp add: drop_bit_eq_div)
  then have "ucast (drop_bit 8 v) = (of_nat (unat v div 256) :: byte)"
    by (metis of_nat_unat)
  moreover have "ucast v = (of_nat (unat v) :: byte)"
    by simp
  ultimately show ?thesis
    by (simp add: PutUint16_def numeral_2_eq_2)
qed

lemma appendU16_eq [wire_simps]: "appendU16 b v = b @ PutUint16 v"
  by (simp add: appendU16_def PutUint16_def)

lemma length_PutUint16 [wire_simps, simp]: "length (PutUint16 v) = 2"
  by (simp add: PutUint16_def)

lemma length_PutUint32 [wire_simps, simp]: "length (PutUint32 v) = 4"
  by (simp add: PutUint32_def)

lemma length_PutUint64 [wire_simps, simp]: "length (PutUint64 v) = 8"
  by (simp add: PutUint64_def)

lemma take_exact_append [simp]: "n = length xs \<Longrightarrow> take n (xs @ ys) = xs"
  by simp

lemma drop_exact_append [simp]: "n = length xs \<Longrightarrow> drop n (xs @ ys) = ys"
  by simp

lemma u16_unat_less [simp]: "unat (v :: u16) < 65536"
  using unsigned_less [of v] by simp

lemma Uint16_PutUint16 [wire_simps, simp]: "Uint16 (PutUint16 v @ xs) = v"
proof -
  have "be_nat (PutUint16 v) = unat v"
    by (simp add: PutUint16_nat_be be_nat_nat_be)
  then show ?thesis by (simp add: Uint16_def)
qed

lemma Uint16_PutUint16_exact [wire_simps, simp]: "Uint16 (PutUint16 v) = v"
  using Uint16_PutUint16 [of v "[]"] by simp

lemma PutUint16_Uint16 [wire_simps]: "2 \<le> length bs \<Longrightarrow> PutUint16 (Uint16 bs) = take 2 bs"
proof -
  assume "2 \<le> length bs"
  then have len: "length (take 2 bs) = 2" by simp
  have "be_nat (take 2 bs) < 65536"
    using be_nat_less [of "take 2 bs"] len by simp
  then have "unat (Uint16 bs) = be_nat (take 2 bs)"
    by (simp add: Uint16_def unat_of_nat)
  then show ?thesis
    using nat_be_be_nat [of "take 2 bs"] len by (simp add: PutUint16_nat_be)
qed

lemma Uint64_PutUint64 [wire_simps, simp]: "Uint64 (PutUint64 v @ xs) = v"
proof -
  have "unat v < 256 ^ 8"
    using unsigned_less [of v] by simp
  then have "be_nat (PutUint64 v) = unat v"
    by (simp only: PutUint64_def be_nat_nat_be) simp
  then show ?thesis by (simp add: Uint64_def)
qed

lemma unat_u16_of_nat: "unat (of_nat n :: u16) = n mod 65536"
  by (simp add: unat_of_nat)

lemma unat_u16_small [simp]: "n < 65536 \<Longrightarrow> unat (of_nat n :: u16) = n"
  by (simp add: unat_of_nat)

lemma unat_byte_small [simp]: "n < 256 \<Longrightarrow> unat (of_nat n :: byte) = n"
  by (simp add: unat_of_nat)

section \<open>Slices\<close>

text \<open>
  Go's \<^verbatim>\<open>b[i:j]\<close> for bounds the caller has checked, and \<^verbatim>\<open>copy(dst[i:], src)\<close>, which writes no more
  than fits.
\<close>

definition slice :: "'a list \<Rightarrow> nat \<Rightarrow> nat \<Rightarrow> 'a list" where
  "slice b i j = take (j - i) (drop i b)"

definition go_copy :: "nat \<Rightarrow> 'a list \<Rightarrow> 'a list \<Rightarrow> 'a list" where
  "go_copy i src dst = take i dst @ take (length dst - i) src @ drop (i + length src) dst"

named_theorems slice_simps \<open>slices of concatenations\<close>

lemma length_slice [slice_simps, simp]: "j \<le> length b \<Longrightarrow> length (slice b i j) = j - i"
  by (simp add: slice_def)

lemma slice_middle [slice_simps]:
  "i = length xs \<Longrightarrow> j = length xs + length ys \<Longrightarrow> slice (xs @ ys @ zs) i j = ys"
  by (simp add: slice_def)

lemma slice_end [slice_simps]:
  "i = length xs \<Longrightarrow> j = length xs + length ys \<Longrightarrow> slice (xs @ ys) i j = ys"
  by (simp add: slice_def)

lemma slice_prefix [slice_simps]: "j \<le> length xs \<Longrightarrow> slice (xs @ ys) i j = slice xs i j"
  by (simp add: slice_def)

lemma slice_skip [slice_simps]:
  "length xs \<le> i \<Longrightarrow> slice (xs @ ys) i j = slice ys (i - length xs) (j - length xs)"
  by (simp add: slice_def)

lemma slice_all [slice_simps, simp]: "j = length b \<Longrightarrow> slice b 0 j = b"
  by (simp add: slice_def)

lemma slice_split:
  "i \<le> j \<Longrightarrow> j \<le> length b \<Longrightarrow> b = take i b @ slice b i j @ drop j b"
  by (simp add: slice_def) (metis append_take_drop_id drop_drop le_add_diff_inverse2)

lemma slice_join: "i \<le> j \<Longrightarrow> j \<le> k \<Longrightarrow> slice b i j @ slice b j k = slice b i k"
  using take_add [of "j - i" "k - j" "drop i b"] by (simp add: slice_def)

lemma length_go_copy [slice_simps, simp]: "i \<le> length dst \<Longrightarrow> length (go_copy i src dst) = length dst"
  by (auto simp: go_copy_def min_def)

lemma go_copy_exact:
  "length ys = length src \<Longrightarrow> i = length xs \<Longrightarrow> go_copy i src (xs @ ys @ zs) = xs @ src @ zs"
  by (simp add: go_copy_def)

lemma Uint16_take [slice_simps]: "2 \<le> n \<Longrightarrow> Uint16 (take n bs) = Uint16 bs"
  by (simp add: Uint16_def min_absorb1)

lemma Uint16_slice [slice_simps]: "i + 2 \<le> j \<Longrightarrow> Uint16 (slice b i j) = Uint16 (drop i b)"
  by (simp add: slice_def Uint16_take)

section \<open>Lists\<close>

lemma filter_idem [simp]: "filter P (filter P xs) = filter P xs"
  by simp

lemma filter_all: "\<forall>x\<in>set xs. P x \<Longrightarrow> filter P xs = xs"
  by (induction xs) auto

lemma drop_take_split: "i + n \<le> length xs \<Longrightarrow> drop i xs = take n (drop i xs) @ drop (i + n) xs"
  by (metis add.commute append_take_drop_id drop_drop)

lemma drop_Cons_nth: "i < length xs \<Longrightarrow> drop i xs = xs ! i # drop (Suc i) xs"
  by (rule Cons_nth_drop_Suc [symmetric])

end
