(* ===== verification/Entropy.thy ===== *)
theory Entropy
  imports Prelude
begin

text \<open>
  Go's \<^verbatim>\<open>crypto/rand\<close> as the package uses it. The entropy source is an explicit tape of bytes
  that each draw consumes; a draw from a tape that is too short is the read error every caller
  checks for, so that every error branch of the source is reachable. \<open>rand_Int\<close> is the rejection
  sampling of \<^verbatim>\<open>crypto/rand.Int\<close>, byte for byte.
\<close>

section \<open>Computations that draw entropy\<close>

type_synonym tape = bytes
type_synonym 'a rnd = "tape \<Rightarrow> err + 'a \<times> tape"

definition returnR :: "'a \<Rightarrow> 'a rnd" where
  "returnR x = (\<lambda>t. Inr (x, t))"

definition failR :: "err \<Rightarrow> 'a rnd" where
  "failR e = (\<lambda>t. Inl e)"

definition liftR :: "'a res \<Rightarrow> 'a rnd" where
  "liftR m = (\<lambda>t. case m of Inl e \<Rightarrow> Inl e | Inr x \<Rightarrow> Inr (x, t))"

definition bindR :: "'a rnd \<Rightarrow> ('a \<Rightarrow> 'b rnd) \<Rightarrow> 'b rnd" where
  "bindR m f = (\<lambda>t. case m t of Inl e \<Rightarrow> Inl e | Inr (x, t') \<Rightarrow> f x t')"

lemma returnR_eq_Inr [res_simps]: "returnR x t = Inr r \<longleftrightarrow> r = (x, t)"
  by (auto simp: returnR_def)

lemma returnR_eq_Inl [res_simps]: "returnR x t = Inl e \<longleftrightarrow> False"
  by (auto simp: returnR_def)

lemma failR_eq_Inr [res_simps]: "failR e t = Inr r \<longleftrightarrow> False"
  by (auto simp: failR_def)

lemma failR_eq_Inl [res_simps]: "failR e t = Inl e' \<longleftrightarrow> e' = e"
  by (auto simp: failR_def)

lemma liftR_eq_Inr [res_simps]: "liftR m t = Inr r \<longleftrightarrow> (\<exists>x. m = Inr x \<and> r = (x, t))"
  by (auto simp: liftR_def split: sum.splits)

lemma liftR_eq_Inl [res_simps]: "liftR m t = Inl e \<longleftrightarrow> m = Inl e"
  by (auto simp: liftR_def split: sum.splits)

lemma bindR_eq_Inr [res_simps]:
  "bindR m f t = Inr r \<longleftrightarrow> (\<exists>x t'. m t = Inr (x, t') \<and> f x t' = Inr r)"
  by (auto simp: bindR_def split: sum.splits)

lemma bindR_eq_Inl [res_simps]:
  "bindR m f t = Inl e \<longleftrightarrow> m t = Inl e \<or> (\<exists>x t'. m t = Inr (x, t') \<and> f x t' = Inl e)"
  by (auto simp: bindR_def split: sum.splits)

lemma bindR_returnR [simp]: "bindR (returnR x) f = f x"
  by (simp add: bindR_def returnR_def fun_eq_iff)

lemma bindR_liftR [simp]: "bindR (liftR (Inr x)) f = f x" "bindR (liftR (Inl e)) f = failR e"
  by (simp_all add: bindR_def liftR_def failR_def fun_eq_iff)

lemma bindR_failR [simp]: "bindR (failR e) f = failR e"
  by (simp add: bindR_def failR_def)

lemma bindR_cong:
  "(\<And>x t'. m t = Inr (x, t') \<Longrightarrow> f x t' = g x t') \<Longrightarrow> bindR m f t = bindR m g t"
  by (auto simp: bindR_def split: sum.splits)

lemma bindR_assoc: "bindR (bindR m f) g = bindR m (\<lambda>x. bindR (f x) g)"
  by (auto simp: bindR_def fun_eq_iff split: sum.splits)

primrec mapR :: "('a \<Rightarrow> 'b rnd) \<Rightarrow> 'a list \<Rightarrow> 'b list rnd" where
  "mapR f [] = returnR []"
| "mapR f (x # xs) = bindR (f x) (\<lambda>y. bindR (mapR f xs) (\<lambda>ys. returnR (y # ys)))"

lemma mapR_all2:
  assumes "mapR f xs t = Inr (ys, t')" and "\<And>x t y t'. x \<in> set xs \<Longrightarrow> f x t = Inr (y, t') \<Longrightarrow> P x y"
  shows "list_all2 P xs ys"
  using assms
proof (induction xs arbitrary: t ys)
  case Nil
  then show ?case by (simp add: returnR_def)
next
  case (Cons x xs)
  from Cons.prems(1) obtain y t1 zs where y: "f x t = Inr (y, t1)" and zs: "mapR f xs t1 = Inr (zs, t')"
    and "ys = y # zs"
    by (auto simp: bindR_def returnR_def split: sum.splits)
  moreover have "P x y" by (rule Cons.prems(2) [OF _ y]) simp
  moreover have "list_all2 P xs zs" by (rule Cons.IH [OF zs Cons.prems(2)]) simp_all
  ultimately show ?case by simp
qed

section \<open>Drawing bytes and integers\<close>

definition rand_Read :: "nat \<Rightarrow> bytes rnd" where
  "rand_Read n = (\<lambda>t. if n \<le> length t then Inr (take n t, drop n t) else Inl ErrRand)"

fun BitLen :: "nat \<Rightarrow> nat" where
  "BitLen v = (if v = 0 then 0 else Suc (BitLen (v div 2)))"

declare BitLen.simps [simp del]

text \<open>
  The loop of \<^verbatim>\<open>rand.Int\<close>: \<open>k\<close> bytes a time, the first cut to its \<open>b\<close> low bits, until the
  candidate is below the bound. \<open>k\<close> is at least 1 wherever it is called.
\<close>

function rand_Int_loop :: "nat \<Rightarrow> nat \<Rightarrow> nat \<Rightarrow> nat rnd" where
  "rand_Int_loop bound k b t =
     (if k = 0 \<or> length t < k then Inl ErrRand
      else let n = be_nat ((t ! 0 AND mask b) # drop 1 (take k t))
           in if n < bound then Inr (n, drop k t) else rand_Int_loop bound k b (drop k t))"
  by pat_completeness auto
termination
  by (relation "measure (\<lambda>(bound, k, b, t). length t)") auto

declare rand_Int_loop.simps [simp del]

text \<open>\<^verbatim>\<open>rand.Int(rand.Reader, max)\<close> for \<open>bound > 0\<close> (it panics otherwise).\<close>

definition rand_Int :: "nat \<Rightarrow> nat rnd" where
  "rand_Int bound =
     (let bitLen = BitLen (bound - 1)
      in if bitLen = 0 then returnR 0
         else let k = (bitLen + 7) div 8;
                  b = (if bitLen mod 8 = 0 then 8 else bitLen mod 8)
              in rand_Int_loop bound k b)"

lemma rand_Read_eq_Inr [res_simps]:
  "rand_Read n t = Inr (x, t') \<longleftrightarrow> n \<le> length t \<and> x = take n t \<and> t' = drop n t"
  by (auto simp: rand_Read_def)

lemma rand_Read_eq_Inl [res_simps]: "rand_Read n t = Inl e \<longleftrightarrow> length t < n \<and> e = ErrRand"
  by (auto simp: rand_Read_def)

lemma rand_Read_length: "rand_Read n t = Inr (x, t') \<Longrightarrow> length x = n"
  by (auto simp: res_simps)

lemma rand_Int_loop_less: "rand_Int_loop bound k b t = Inr (n, t') \<Longrightarrow> n < bound"
proof (induction bound k b t rule: rand_Int_loop.induct)
  case (1 bound k b t)
  then show ?case
    by (subst (asm) (2) rand_Int_loop.simps) (auto simp: Let_def split: if_splits)
qed

lemma rand_Int_loop_shorter: "rand_Int_loop bound k b t = Inr (n, t') \<Longrightarrow> length t' < length t"
proof (induction bound k b t rule: rand_Int_loop.induct)
  case (1 bound k b t)
  then show ?case
    by (subst (asm) (2) rand_Int_loop.simps) (fastforce simp: Let_def split: if_splits)
qed

lemma BitLen_eq_0 [simp]: "BitLen v = 0 \<longleftrightarrow> v = 0"
  by (subst BitLen.simps) simp

lemma rand_Int_less:
  assumes "rand_Int bound t = Inr (n, t')" and "0 < bound"
  shows "n < bound"
  using assms
  by (auto simp: rand_Int_def Let_def res_simps dest: rand_Int_loop_less split: if_splits)

lemma rand_Int_shorter:
  assumes "rand_Int bound t = Inr (n, t')" and "1 < bound"
  shows "length t' < length t"
  using assms by (auto simp: rand_Int_def Let_def dest: rand_Int_loop_shorter)

text \<open>Every value below the bound can be drawn: some bytes in front of any tape yield it.\<close>

lemma BitLen_bound: "v < 2 ^ BitLen v"
proof (induction v rule: BitLen.induct)
  case (1 v)
  show ?case
  proof (cases "v = 0")
    case False
    with 1 have "v div 2 < 2 ^ BitLen (v div 2)" by simp
    then have "v < 2 ^ Suc (BitLen (v div 2))" by simp
    with False show ?thesis by (subst BitLen.simps) simp
  qed (simp add: BitLen.simps)
qed

lemma be_nat_Cons: "be_nat (x # xs) = unat x * 256 ^ length xs + be_nat xs"
proof (induction xs rule: rev_induct)
  case Nil
  then show ?case by (simp add: be_nat_def)
next
  case (snoc y ys)
  have "be_nat (x # ys @ [y]) = be_nat (x # ys) * 256 + unat y"
    using be_nat_snoc [of "x # ys" y] by simp
  with snoc show ?case by (simp add: algebra_simps)
qed

lemma mask_small: "unat (x :: byte) < 2 ^ b \<Longrightarrow> x AND mask b = x"
  by (simp add: take_bit_eq_mask [symmetric] word_unat_eq_iff unsigned_take_bit_eq take_bit_nat_eq_self)

text \<open>A bit length cut into the bits of the first byte and whole bytes.\<close>

lemma bits_of_bytes:
  fixes n :: nat
  assumes "n \<noteq> 0"
  shows "(if n mod 8 = 0 then 8 else n mod 8) + 8 * ((n + 7) div 8 - 1) = n"
proof (cases "n mod 8 = 0")
  case True
  then obtain q where "n = 8 * q" by auto
  then show ?thesis using assms by simp
next
  case False
  define q where "q = n div 8"
  define m where "m = n mod 8"
  have n: "n = 8 * q + m" and m: "0 < m" "m < 8" using False by (simp_all add: q_def m_def)
  have "(n + 7) div 8 = q + (m + 7) div 8" unfolding n by simp
  moreover have "(m + 7) div 8 = 1" using m by simp
  ultimately show ?thesis using m by (simp add: n)
qed

lemma rand_Int_reaches:
  assumes "n < bound"
  shows "\<exists>r. \<forall>s. rand_Int bound (r @ s) = Inr (n, s)"
proof (cases "BitLen (bound - 1) = 0")
  case True
  then have "n = 0" using assms by simp
  then have "\<forall>s. rand_Int bound ([] @ s) = Inr (n, s)"
    using True by (simp add: rand_Int_def returnR_def)
  then show ?thesis by blast
next
  case False
  define L where "L = BitLen (bound - 1)"
  define k where "k = (L + 7) div 8"
  define b where "b = (if L mod 8 = 0 then 8 else L mod 8)"
  have L0: "L \<noteq> 0" using False by (simp add: L_def)
  have k: "0 < k" using L0 by (simp add: k_def)
  have bk: "b + 8 * (k - 1) = L" unfolding b_def k_def by (rule bits_of_bytes [OF L0])
  have nL: "n < 2 ^ L" using assms BitLen_bound [of "bound - 1"] by (simp add: L_def)
  define r where "r = nat_be k n"
  obtain x xs where r: "r = x # xs" using k by (cases r) (auto simp: r_def dest: arg_cong [of _ _ length])
  have xs: "length xs = k - 1" using arg_cong [OF r, of length] by (simp add: r_def)
  have "(2 :: nat) ^ L = 2 ^ b * 256 ^ (k - 1)"
    by (simp add: bk [symmetric] power_add power_mult)
  moreover have "(2 :: nat) ^ b \<le> 256"
    using power_increasing [of b 8 "2 :: nat"] mod_less_divisor [of 8 L] by (simp add: b_def)
  ultimately have "2 ^ L \<le> (256 :: nat) ^ k"
    using k by (cases k) simp_all
  then have val: "be_nat r = n" using nL by (simp add: r_def be_nat_nat_be)
  have "unat x * 256 ^ (k - 1) \<le> n"
    using val by (simp add: r be_nat_Cons xs)
  then have "unat x * 256 ^ (k - 1) < 2 ^ b * 256 ^ (k - 1)"
    using nL \<open>2 ^ L = 2 ^ b * 256 ^ (k - 1)\<close> by (simp only: le_less_trans)
  then have m: "x AND mask b = x" by (intro mask_small) simp
  have "rand_Int_loop bound k b (r @ s) = Inr (n, s)" for s
  proof -
    have len: "length r = k" by (simp add: r_def)
    then have rs: "take k (r @ s) = r" "drop k (r @ s) = s" by simp_all
    have hd: "(r @ s) ! 0 = x" "x # drop 1 r = r" by (simp_all add: r)
    show ?thesis
      using k assms len
      by (subst rand_Int_loop.simps) (simp only: Let_def rs hd m val length_append if_True if_False, simp)
  qed
  then have "\<forall>s. rand_Int bound (r @ s) = Inr (n, s)"
    using L0 unfolding rand_Int_def Let_def L_def [symmetric] k_def b_def by simp
  then show ?thesis by blast
qed

section \<open>Computations that fail only for want of entropy\<close>

definition entropy_only :: "'a rnd \<Rightarrow> bool" where
  "entropy_only m \<longleftrightarrow> (\<forall>t e. m t = Inl e \<longrightarrow> e = ErrRand)"

named_theorems entropy_intros \<open>how steps that can only run out of entropy compose\<close>

lemma entropy_onlyD: "entropy_only m \<Longrightarrow> m t = Inl e \<Longrightarrow> e = ErrRand"
  by (auto simp: entropy_only_def)

lemma entropy_only_returnR [entropy_intros]: "entropy_only (returnR x)"
  by (simp add: entropy_only_def res_simps)

lemma entropy_only_rand_Read [entropy_intros]: "entropy_only (rand_Read n)"
  by (simp add: entropy_only_def res_simps)

lemma rand_Int_loop_err: "rand_Int_loop bound k b t = Inl e \<Longrightarrow> e = ErrRand"
proof (induction bound k b t rule: rand_Int_loop.induct)
  case (1 bound k b t)
  then show ?case
    by (subst (asm) (2) rand_Int_loop.simps) (auto simp: Let_def split: if_splits)
qed

lemma entropy_only_rand_Int [entropy_intros]: "entropy_only (rand_Int n)"
  by (auto simp: entropy_only_def rand_Int_def Let_def res_simps dest: rand_Int_loop_err)

lemma entropy_only_bindR [entropy_intros]:
  assumes "entropy_only m" and "\<And>t x t'. m t = Inr (x, t') \<Longrightarrow> entropy_only (f x)"
  shows "entropy_only (bindR m f)"
  using assms by (auto simp: entropy_only_def res_simps)

lemma entropy_only_if [entropy_intros]:
  "(b \<Longrightarrow> entropy_only m) \<Longrightarrow> (\<not> b \<Longrightarrow> entropy_only m') \<Longrightarrow> entropy_only (if b then m else m')"
  by simp

lemma entropy_only_liftR [entropy_intros]: "m = Inr x \<Longrightarrow> entropy_only (liftR m)"
  by (simp add: entropy_only_def liftR_def)

section \<open>Computations that can succeed\<close>

text \<open>
  \<open>yields m x\<close>: some entropy makes \<open>m\<close> return \<open>x\<close>, whatever entropy follows; \<open>can m\<close>: some
  entropy makes it return.
\<close>

definition yields :: "'a rnd \<Rightarrow> 'a \<Rightarrow> bool" where
  "yields m x \<longleftrightarrow> (\<exists>r. \<forall>s. m (r @ s) = Inr (x, s))"

definition can :: "'a rnd \<Rightarrow> bool" where
  "can m \<longleftrightarrow> (\<exists>x. yields m x)"

named_theorems can_intros \<open>how computations that can succeed compose\<close>

lemma yieldsD: "yields m x \<Longrightarrow> \<exists>t. m t = Inr (x, [])"
proof -
  assume "yields m x"
  then obtain r where "\<forall>s. m (r @ s) = Inr (x, s)" unfolding yields_def ..
  then have "m (r @ []) = Inr (x, [])" ..
  then show ?thesis ..
qed

lemma canE:
  assumes "can m"
  obtains x t where "yields m x" "m t = Inr (x, [])"
proof -
  obtain x where y: "yields m x" using assms unfolding can_def ..
  obtain t where "m t = Inr (x, [])" using yieldsD [OF y] ..
  with y show ?thesis by (rule that)
qed

lemma yields_can: "yields m x \<Longrightarrow> can m"
  by (auto simp: can_def)

lemma yields_returnR: "yields (returnR x) x"
  unfolding yields_def by (rule exI [of _ "[]"]) (simp add: returnR_def)

lemma yields_rand_Read: "length x = n \<Longrightarrow> yields (rand_Read n) x"
  unfolding yields_def by (rule exI [of _ x]) (simp add: rand_Read_def)

lemma yields_rand_Int: "n < bound \<Longrightarrow> yields (rand_Int bound) n"
  using rand_Int_reaches by (auto simp: yields_def)

lemma yields_bindR: "yields m x \<Longrightarrow> yields (f x) y \<Longrightarrow> yields (bindR m f) y"
proof -
  assume "yields m x" "yields (f x) y"
  then obtain r q where "\<forall>s. m (r @ s) = Inr (x, s)" "\<forall>s. f x (q @ s) = Inr (y, s)"
    by (auto simp: yields_def)
  then have "\<forall>s. bindR m f ((r @ q) @ s) = Inr (y, s)" by (simp add: bindR_def)
  then show ?thesis unfolding yields_def by blast
qed

lemma can_bind_yields: "yields m x \<Longrightarrow> can (f x) \<Longrightarrow> can (bindR m f)"
  unfolding can_def by (elim exE) (rule exI, rule yields_bindR)

lemma can_returnR [can_intros]: "can (returnR x)"
  by (rule yields_can [OF yields_returnR])

lemma can_rand_Read [can_intros]: "can (rand_Read n)"
  by (rule yields_can [OF yields_rand_Read [of "replicate n 0"]]) simp

lemma can_rand_Int [can_intros]: "0 < n \<Longrightarrow> can (rand_Int n)"
  by (rule yields_can [OF yields_rand_Int])

lemma can_bindR [can_intros]:
  assumes "can m" and "\<And>x t t'. m t = Inr (x, t') \<Longrightarrow> can (f x)"
  shows "can (bindR m f)"
proof (rule canE [OF assms(1)])
  fix x t
  assume y: "yields m x" and r: "m t = Inr (x, [])"
  show ?thesis by (rule can_bind_yields [OF y]) (rule assms(2) [OF r])
qed

lemma can_liftR [can_intros]: "m = Inr x \<Longrightarrow> can (liftR m)"
  unfolding can_def yields_def by (rule exI [of _ x], rule exI [of _ "[]"]) (simp add: liftR_def)

lemma can_mapR [can_intros]: "(\<And>x. x \<in> set xs \<Longrightarrow> can (f x)) \<Longrightarrow> can (mapR f xs)"
  by (induction xs) (auto intro!: can_intros)

text \<open>An all-zero tape satisfies every draw: the smallest witness of an entropy source.\<close>

lemma rand_Int_loop_zeros:
  assumes "0 < bound" and "0 < k" and "k \<le> n"
  shows "rand_Int_loop bound k b (replicate n 0) = Inr (0, replicate (n - k) 0)"
proof -
  have z: "be_nat (replicate m 0) = 0" for m
    by (induction m) (auto simp: be_nat_def)
  have "(0 # drop 1 (take k (replicate n 0)) :: bytes) = replicate (Suc (min k n - 1)) 0"
    by (simp add: min_def)
  then have "be_nat (0 # drop 1 (take k (replicate n 0))) = 0"
    by (simp only: z)
  with assms show ?thesis
    by (subst rand_Int_loop.simps) (simp add: Let_def)
qed

end
