(* ===== verification/GoCrypto.thy ===== *)
theory GoCrypto
  imports Entropy
begin

text \<open>
  The symmetric primitives of Go's standard library that the package calls, as their standards
  define them: SHA-256 and SHA-384 (FIPS 180-4), HMAC (FIPS 198), HKDF (RFC 5869), AES
  (FIPS 197) and AES-GCM with a 12-byte nonce (SP 800-38D). The proofs of the package rest on
  four facts of these definitions only: the digest lengths, that a sealed message opens to what
  was sealed, and how long it is. The asymmetric primitives (X25519 and ML-KEM-768) are a
  parameter of the model, the record \<open>kex\<close>, with the laws the package relies on in \<open>kex_ok\<close>.
\<close>

section \<open>SHA-2\<close>

type_synonym 'w sha2_state = "'w \<times> 'w \<times> 'w \<times> 'w \<times> 'w \<times> 'w \<times> 'w \<times> 'w"

text \<open>The four mixing functions of a SHA-2 member: big sigma 0 and 1, small sigma 0 and 1.\<close>

type_synonym 'w sha2_mix = "('w \<Rightarrow> 'w) \<times> ('w \<Rightarrow> 'w) \<times> ('w \<Rightarrow> 'w) \<times> ('w \<Rightarrow> 'w)"

primrec sha2_expand :: "'w::len word sha2_mix \<Rightarrow> nat \<Rightarrow> 'w word list \<Rightarrow> 'w word list" where
  "sha2_expand mix 0 w = w"
| "sha2_expand mix (Suc n) w =
     (let (_, _, s0, s1) = mix; t = length w
      in sha2_expand mix n
           (w @ [s1 (w ! (t - 2)) + w ! (t - 7) + s0 (w ! (t - 15)) + w ! (t - 16)]))"

fun sha2_round :: "'w::len word sha2_mix \<Rightarrow> 'w word \<times> 'w word \<Rightarrow> 'w word sha2_state \<Rightarrow> 'w word sha2_state" where
  "sha2_round (S0, S1, _, _) (k, w) (a, b, c, d, e, f, g, h) =
     (let t1 = h + S1 e + ((e AND f) XOR (NOT e AND g)) + k + w;
          t2 = S0 a + ((a AND b) XOR (a AND c) XOR (b AND c))
      in (t1 + t2, a, b, c, d + t1, e, f, g))"

fun sha2_add :: "'w::len word sha2_state \<Rightarrow> 'w word sha2_state \<Rightarrow> 'w word sha2_state" where
  "sha2_add (a, b, c, d, e, f, g, h) (a', b', c', d', e', f', g', h') =
     (a + a', b + b', c + c', d + d', e + e', f + f', g + g', h + h')"

definition sha2_words :: "nat \<Rightarrow> bytes \<Rightarrow> 'w::len word list" where
  "sha2_words wb blk = map (\<lambda>i. of_nat (be_nat (take wb (drop (i * wb) blk)))) [0..<16]"

definition sha2_block ::
    "'w::len word sha2_mix \<Rightarrow> 'w word list \<Rightarrow> nat \<Rightarrow> bytes \<Rightarrow> 'w word sha2_state \<Rightarrow> 'w word sha2_state" where
  "sha2_block mix K wb blk st =
     sha2_add st (fold (sha2_round mix) (zip K (sha2_expand mix (length K - 16) (sha2_words wb blk))) st)"

definition sha2_pad :: "nat \<Rightarrow> bytes \<Rightarrow> bytes" where
  "sha2_pad wb m =
     (let n = length m + 1 + 2 * wb
      in m @ [0x80] @ replicate ((16 * wb - n mod (16 * wb)) mod (16 * wb)) 0
           @ nat_be (2 * wb) (8 * length m))"

definition sha2_hash ::
    "'w::len word sha2_mix \<Rightarrow> 'w word list \<Rightarrow> 'w word sha2_state \<Rightarrow> nat \<Rightarrow> bytes \<Rightarrow> 'w word sha2_state" where
  "sha2_hash mix K init wb m =
     (let p = sha2_pad wb m
      in fold (\<lambda>i. sha2_block mix K wb (take (16 * wb) (drop (i * 16 * wb) p)))
              [0..<length p div (16 * wb)] init)"

fun sha2_digest :: "nat \<Rightarrow> 'w::len word sha2_state \<Rightarrow> bytes" where
  "sha2_digest wb (a, b, c, d, e, f, g, h) =
     concat (map (\<lambda>w. nat_be wb (unat w)) [a, b, c, d, e, f, g, h])"

text \<open>
  The round constants: the fractional parts of the cube roots of the first eighty primes, to 64
  bits, two to a row. SHA-256 uses the leading 32 bits of the first sixty-four.
\<close>

definition sha512_K :: "u64 list" where
  "sha512_K = concat (map (\<lambda>r :: 128 word. [ucast (drop_bit 64 r), ucast r]) [
     0x428a2f98d728ae227137449123ef65cd, 0xb5c0fbcfec4d3b2fe9b5dba58189dbbc,
     0x3956c25bf348b53859f111f1b605d019, 0x923f82a4af194f9bab1c5ed5da6d8118,
     0xd807aa98a303024212835b0145706fbe, 0x243185be4ee4b28c550c7dc3d5ffb4e2,
     0x72be5d74f27b896f80deb1fe3b1696b1, 0x9bdc06a725c71235c19bf174cf692694,
     0xe49b69c19ef14ad2efbe4786384f25e3, 0x0fc19dc68b8cd5b5240ca1cc77ac9c65,
     0x2de92c6f592b02754a7484aa6ea6e483, 0x5cb0a9dcbd41fbd476f988da831153b5,
     0x983e5152ee66dfaba831c66d2db43210, 0xb00327c898fb213fbf597fc7beef0ee4,
     0xc6e00bf33da88fc2d5a79147930aa725, 0x06ca6351e003826f142929670a0e6e70,
     0x27b70a8546d22ffc2e1b21385c26c926, 0x4d2c6dfc5ac42aed53380d139d95b3df,
     0x650a73548baf63de766a0abb3c77b2a8, 0x81c2c92e47edaee692722c851482353b,
     0xa2bfe8a14cf10364a81a664bbc423001, 0xc24b8b70d0f89791c76c51a30654be30,
     0xd192e819d6ef5218d69906245565a910, 0xf40e35855771202a106aa07032bbd1b8,
     0x19a4c116b8d2d0c81e376c085141ab53, 0x2748774cdf8eeb9934b0bcb5e19b48a8,
     0x391c0cb3c5c95a634ed8aa4ae3418acb, 0x5b9cca4f7763e373682e6ff3d6b2b8a3,
     0x748f82ee5defb2fc78a5636f43172f60, 0x84c87814a1f0ab728cc702081a6439ec,
     0x90befffa23631e28a4506cebde82bde9, 0xbef9a3f7b2c67915c67178f2e372532b,
     0xca273eceea26619cd186b8c721c0c207, 0xeada7dd6cde0eb1ef57d4f7fee6ed178,
     0x06f067aa72176fba0a637dc5a2c898a6, 0x113f9804bef90dae1b710b35131c471b,
     0x28db77f523047d8432caab7b40c72493, 0x3c9ebe0a15c9bebc431d67c49c100d4c,
     0x4cc5d4becb3e42b6597f299cfc657e2a, 0x5fcb6fab3ad6faec6c44198c4a475817])"

definition sha256_K :: "u32 list" where
  "sha256_K = map (\<lambda>k. ucast (drop_bit 32 k)) (take 64 sha512_K)"

definition sha256_mix :: "u32 sha2_mix" where
  "sha256_mix =
     (\<lambda>x. word_rotr 2 x XOR word_rotr 13 x XOR word_rotr 22 x,
      \<lambda>x. word_rotr 6 x XOR word_rotr 11 x XOR word_rotr 25 x,
      \<lambda>x. word_rotr 7 x XOR word_rotr 18 x XOR drop_bit 3 x,
      \<lambda>x. word_rotr 17 x XOR word_rotr 19 x XOR drop_bit 10 x)"

definition sha256 :: "bytes \<Rightarrow> bytes" where
  "sha256 m = sha2_digest 4 (sha2_hash sha256_mix sha256_K
     (0x6a09e667, 0xbb67ae85, 0x3c6ef372, 0xa54ff53a,
      0x510e527f, 0x9b05688c, 0x1f83d9ab, 0x5be0cd19) 4 m)"

definition sha512_mix :: "u64 sha2_mix" where
  "sha512_mix =
     (\<lambda>x. word_rotr 28 x XOR word_rotr 34 x XOR word_rotr 39 x,
      \<lambda>x. word_rotr 14 x XOR word_rotr 18 x XOR word_rotr 41 x,
      \<lambda>x. word_rotr 1 x XOR word_rotr 8 x XOR drop_bit 7 x,
      \<lambda>x. word_rotr 19 x XOR word_rotr 61 x XOR drop_bit 6 x)"

definition sha384 :: "bytes \<Rightarrow> bytes" where
  "sha384 m = take 48 (sha2_digest 8 (sha2_hash sha512_mix sha512_K
     (0xcbbb9d5dc1059ed8, 0x629a292a367cd507, 0x9159015a3070dd17, 0x152fecd8f70e5939,
      0x67332667ffc00b31, 0x8eb44a8768581511, 0xdb0c2e0d64f98fa7, 0x47b5481dbefa4fa4) 8 m))"

lemma length_sha2_digest: "length (sha2_digest wb st) = 8 * wb"
  by (cases "(wb, st)" rule: sha2_digest.cases) simp

lemma length_sha256 [simp]: "length (sha256 m) = 32"
  by (simp add: sha256_def length_sha2_digest)

lemma length_sha384 [simp]: "length (sha384 m) = 48"
  by (simp add: sha384_def length_sha2_digest)

section \<open>HMAC and HKDF\<close>

text \<open>The two hashes the package keys an HMAC or an HKDF with.\<close>

datatype hash_alg = SHA256 | SHA384

fun hash_fun :: "hash_alg \<Rightarrow> bytes \<Rightarrow> bytes" where
  "hash_fun SHA256 = sha256"
| "hash_fun SHA384 = sha384"

fun hash_size :: "hash_alg \<Rightarrow> nat" where
  "hash_size SHA256 = 32"
| "hash_size SHA384 = 48"

fun hash_block :: "hash_alg \<Rightarrow> nat" where
  "hash_block SHA256 = 64"
| "hash_block SHA384 = 128"

lemma length_hash_fun [simp]: "length (hash_fun a m) = hash_size a"
  by (cases a) auto

definition hmac :: "hash_alg \<Rightarrow> bytes \<Rightarrow> bytes \<Rightarrow> bytes" where
  "hmac a key m =
     (let k0 = (if hash_block a < length key then hash_fun a key else key);
          k = k0 @ replicate (hash_block a - length k0) 0
      in hash_fun a (map (\<lambda>b. b XOR 0x5c) k @ hash_fun a (map (\<lambda>b. b XOR 0x36) k @ m)))"

lemma length_hmac [simp]: "length (hmac a key m) = hash_size a"
  by (simp add: hmac_def Let_def)

text \<open>\<open>hkdf_expand a prk info prev i n\<close> yields the blocks \<open>T(i), T(i + 1), \<dots>\<close>, \<open>n\<close> of them.\<close>

primrec hkdf_expand :: "hash_alg \<Rightarrow> bytes \<Rightarrow> bytes \<Rightarrow> bytes \<Rightarrow> nat \<Rightarrow> nat \<Rightarrow> bytes" where
  "hkdf_expand a prk info prev i 0 = []"
| "hkdf_expand a prk info prev i (Suc n) =
     (let t = hmac a prk (prev @ info @ [of_nat i])
      in t @ hkdf_expand a prk info t (Suc i) n)"

text \<open>\<^verbatim>\<open>hkdf.Key(hash, secret, salt, info, keyLength)\<close>; it refuses more than 255 blocks.\<close>

definition hkdf_Key :: "hash_alg \<Rightarrow> bytes \<Rightarrow> bytes \<Rightarrow> bytes \<Rightarrow> nat \<Rightarrow> bytes res" where
  "hkdf_Key a secret salt info n =
     (if 255 * hash_size a < n then Inl (Err ''hkdf: requested key length too large'')
      else let prk = hmac a salt secret
           in Inr (take n (hkdf_expand a prk info [] 1 ((n + hash_size a - 1) div hash_size a))))"

lemma length_hkdf_expand: "length (hkdf_expand a prk info prev i n) = n * hash_size a"
  by (induction n arbitrary: prev i) (auto simp: Let_def)

lemma hkdf_Key_length: "hkdf_Key a secret salt info n = Inr k \<Longrightarrow> length k = n"
proof -
  assume "hkdf_Key a secret salt info n = Inr k"
  then have k: "k = take n (hkdf_expand a (hmac a salt secret) info [] 1 ((n + hash_size a - 1) div hash_size a))"
    by (auto simp: hkdf_Key_def Let_def split: if_splits)
  have "n \<le> (n + hash_size a - 1) div hash_size a * hash_size a"
    by (cases a) simp_all
  with k show ?thesis by (simp add: length_hkdf_expand)
qed

lemma hkdf_Key_total: "n \<le> 255 * hash_size a \<Longrightarrow> \<exists>k. hkdf_Key a secret salt info n = Inr k"
  by (simp add: hkdf_Key_def Let_def)

section \<open>AES\<close>

definition aes_sbox :: "byte list" where
  "aes_sbox = [
     0x63, 0x7c, 0x77, 0x7b, 0xf2, 0x6b, 0x6f, 0xc5, 0x30, 0x01, 0x67, 0x2b, 0xfe, 0xd7, 0xab, 0x76,
     0xca, 0x82, 0xc9, 0x7d, 0xfa, 0x59, 0x47, 0xf0, 0xad, 0xd4, 0xa2, 0xaf, 0x9c, 0xa4, 0x72, 0xc0,
     0xb7, 0xfd, 0x93, 0x26, 0x36, 0x3f, 0xf7, 0xcc, 0x34, 0xa5, 0xe5, 0xf1, 0x71, 0xd8, 0x31, 0x15,
     0x04, 0xc7, 0x23, 0xc3, 0x18, 0x96, 0x05, 0x9a, 0x07, 0x12, 0x80, 0xe2, 0xeb, 0x27, 0xb2, 0x75,
     0x09, 0x83, 0x2c, 0x1a, 0x1b, 0x6e, 0x5a, 0xa0, 0x52, 0x3b, 0xd6, 0xb3, 0x29, 0xe3, 0x2f, 0x84,
     0x53, 0xd1, 0x00, 0xed, 0x20, 0xfc, 0xb1, 0x5b, 0x6a, 0xcb, 0xbe, 0x39, 0x4a, 0x4c, 0x58, 0xcf,
     0xd0, 0xef, 0xaa, 0xfb, 0x43, 0x4d, 0x33, 0x85, 0x45, 0xf9, 0x02, 0x7f, 0x50, 0x3c, 0x9f, 0xa8,
     0x51, 0xa3, 0x40, 0x8f, 0x92, 0x9d, 0x38, 0xf5, 0xbc, 0xb6, 0xda, 0x21, 0x10, 0xff, 0xf3, 0xd2,
     0xcd, 0x0c, 0x13, 0xec, 0x5f, 0x97, 0x44, 0x17, 0xc4, 0xa7, 0x7e, 0x3d, 0x64, 0x5d, 0x19, 0x73,
     0x60, 0x81, 0x4f, 0xdc, 0x22, 0x2a, 0x90, 0x88, 0x46, 0xee, 0xb8, 0x14, 0xde, 0x5e, 0x0b, 0xdb,
     0xe0, 0x32, 0x3a, 0x0a, 0x49, 0x06, 0x24, 0x5c, 0xc2, 0xd3, 0xac, 0x62, 0x91, 0x95, 0xe4, 0x79,
     0xe7, 0xc8, 0x37, 0x6d, 0x8d, 0xd5, 0x4e, 0xa9, 0x6c, 0x56, 0xf4, 0xea, 0x65, 0x7a, 0xae, 0x08,
     0xba, 0x78, 0x25, 0x2e, 0x1c, 0xa6, 0xb4, 0xc6, 0xe8, 0xdd, 0x74, 0x1f, 0x4b, 0xbd, 0x8b, 0x8a,
     0x70, 0x3e, 0xb5, 0x66, 0x48, 0x03, 0xf6, 0x0e, 0x61, 0x35, 0x57, 0xb9, 0x86, 0xc1, 0x1d, 0x9e,
     0xe1, 0xf8, 0x98, 0x11, 0x69, 0xd9, 0x8e, 0x94, 0x9b, 0x1e, 0x87, 0xe9, 0xce, 0x55, 0x28, 0xdf,
     0x8c, 0xa1, 0x89, 0x0d, 0xbf, 0xe6, 0x42, 0x68, 0x41, 0x99, 0x2d, 0x0f, 0xb0, 0x54, 0xbb, 0x16]"

definition aes_sub :: "byte \<Rightarrow> byte" where
  "aes_sub b = aes_sbox ! unat b"

definition xtime :: "byte \<Rightarrow> byte" where
  "xtime b = push_bit 1 b XOR (if bit b 7 then 0x1b else 0)"

definition xor_bytes :: "bytes \<Rightarrow> bytes \<Rightarrow> bytes" where
  "xor_bytes xs ys = map2 (XOR) xs ys"

text \<open>Key expansion over 4-byte words; \<open>nk\<close> is the key length in words.\<close>

definition aes_next :: "nat \<Rightarrow> byte \<Rightarrow> bytes list \<Rightarrow> bytes" where
  "aes_next nk rcon w =
     (let i = length w; prev = w ! (i - 1);
          t = (if i mod nk = 0 then xor_bytes (map aes_sub (rotate1 prev)) [rcon, 0, 0, 0]
               else if 6 < nk \<and> i mod nk = 4 then map aes_sub prev else prev)
      in xor_bytes (w ! (i - nk)) t)"

primrec aes_expand :: "nat \<Rightarrow> nat \<Rightarrow> byte \<Rightarrow> bytes list \<Rightarrow> bytes list" where
  "aes_expand nk 0 rcon w = w"
| "aes_expand nk (Suc n) rcon w =
     aes_expand nk n (if length w mod nk = 0 then xtime rcon else rcon) (w @ [aes_next nk rcon w])"

definition aes_words :: "bytes \<Rightarrow> bytes list" where
  "aes_words key = map (\<lambda>i. take 4 (drop (4 * i) key)) [0..<length key div 4]"

definition aes_schedule :: "bytes \<Rightarrow> bytes list" where
  "aes_schedule key =
     (let nk = length key div 4 in aes_expand nk (4 * (nk + 7) - nk) 1 (aes_words key))"

definition aes_round_key :: "bytes list \<Rightarrow> nat \<Rightarrow> bytes" where
  "aes_round_key w r = concat (take 4 (drop (4 * r) w))"

text \<open>The state is 16 bytes, column by column.\<close>

definition aes_shift_rows :: "bytes \<Rightarrow> bytes" where
  "aes_shift_rows s = map (\<lambda>i. s ! ((i + 4 * (i mod 4)) mod 16)) [0..<16]"

definition aes_mix_column :: "bytes \<Rightarrow> bytes" where
  "aes_mix_column c =
     map (\<lambda>i. xtime (c ! i) XOR (xtime (c ! ((i + 1) mod 4)) XOR c ! ((i + 1) mod 4))
              XOR c ! ((i + 2) mod 4) XOR c ! ((i + 3) mod 4)) [0..<4]"

definition aes_mix_columns :: "bytes \<Rightarrow> bytes" where
  "aes_mix_columns s = concat (map (\<lambda>j. aes_mix_column (take 4 (drop (4 * j) s))) [0..<4])"

definition aes_encrypt :: "bytes \<Rightarrow> bytes \<Rightarrow> bytes" where
  "aes_encrypt key blk =
     (let w = aes_schedule key; nr = length key div 4 + 6;
          s = fold (\<lambda>r s. xor_bytes (aes_mix_columns (aes_shift_rows (map aes_sub s))) (aes_round_key w r))
                   [1..<nr] (xor_bytes blk (aes_round_key w 0))
      in xor_bytes (aes_shift_rows (map aes_sub s)) (aes_round_key w nr))"

section \<open>AES-GCM\<close>

primrec gf_mult_aux :: "nat \<Rightarrow> 128 word \<Rightarrow> 128 word \<Rightarrow> 128 word \<Rightarrow> 128 word" where
  "gf_mult_aux 0 x v z = z"
| "gf_mult_aux (Suc n) x v z =
     gf_mult_aux n x
       (drop_bit 1 v XOR (if bit v 0 then 0xe1000000000000000000000000000000 else 0))
       (if bit x n then z XOR v else z)"

definition gf_mult :: "128 word \<Rightarrow> 128 word \<Rightarrow> 128 word" where
  "gf_mult x y = gf_mult_aux 128 x y 0"

definition ghash :: "128 word \<Rightarrow> bytes \<Rightarrow> 128 word" where
  "ghash h m =
     fold (\<lambda>i y. gf_mult (y XOR of_nat (be_nat (take 16 (drop (16 * i) m)))) h) [0..<length m div 16] 0"

definition pad16 :: "bytes \<Rightarrow> bytes" where
  "pad16 m = m @ replicate ((16 - length m mod 16) mod 16) 0"

text \<open>The key stream for a message of \<open>n\<close> bytes, from counter \<open>c\<close>.\<close>

definition gcm_stream :: "bytes \<Rightarrow> bytes \<Rightarrow> nat \<Rightarrow> bytes" where
  "gcm_stream key nonce n =
     take n (concat (map (\<lambda>i. aes_encrypt key (nonce @ nat_be 4 (i + 2))) [0..<(n + 15) div 16]))"

definition gcm_tag :: "bytes \<Rightarrow> bytes \<Rightarrow> bytes \<Rightarrow> bytes \<Rightarrow> bytes" where
  "gcm_tag key nonce ct aad =
     (let h = of_nat (be_nat (aes_encrypt key (replicate 16 0)));
          s = ghash h (pad16 aad @ pad16 ct @ nat_be 8 (8 * length aad) @ nat_be 8 (8 * length ct))
      in nat_be 16 (unat (s XOR of_nat (be_nat (aes_encrypt key (nonce @ nat_be 4 1))))))"

text \<open>
  A key is accepted at 16, 24 or 32 bytes (\<^verbatim>\<open>aes.NewCipher\<close>); \<open>gcm_Seal\<close> and \<open>gcm_Open\<close> are
  \<^verbatim>\<open>cipher.AEAD\<close>'s \<^verbatim>\<open>Seal\<close> and \<^verbatim>\<open>Open\<close>, and 16 is their \<^verbatim>\<open>Overhead\<close>. The key stream is
  defined for every length so that both functions are total; for a key and nonce of the lengths
  the package uses it has exactly as many bytes as the message.
\<close>

definition aes_key_ok :: "bytes \<Rightarrow> bool" where
  "aes_key_ok key \<longleftrightarrow> length key = 16 \<or> length key = 24 \<or> length key = 32"

definition gcm_crypt :: "bytes \<Rightarrow> bytes \<Rightarrow> bytes \<Rightarrow> bytes" where
  "gcm_crypt key nonce m = xor_bytes m (gcm_stream key nonce (length m))"

definition gcm_Seal :: "bytes \<Rightarrow> bytes \<Rightarrow> bytes \<Rightarrow> bytes \<Rightarrow> bytes" where
  "gcm_Seal key nonce plain aad =
     (let ct = gcm_crypt key nonce plain in ct @ gcm_tag key nonce ct aad)"

definition gcm_Open :: "bytes \<Rightarrow> bytes \<Rightarrow> bytes \<Rightarrow> bytes \<Rightarrow> bytes option" where
  "gcm_Open key nonce sealed aad =
     (if length sealed < 16 then None
      else let n = length sealed - 16; ct = take n sealed
           in if drop n sealed = gcm_tag key nonce ct aad then Some (gcm_crypt key nonce ct) else None)"

lemma length_xor_bytes [simp]: "length (xor_bytes xs ys) = min (length xs) (length ys)"
  by (simp add: xor_bytes_def)

lemma xor_bytes_involution:
  assumes "length xs \<le> length ys"
  shows "xor_bytes (xor_bytes xs ys) ys = xs"
  using assms by (auto simp: xor_bytes_def intro!: nth_equalityI simp: xor.assoc)

lemma length_aes_shift_rows [simp]: "length (aes_shift_rows s) = 16"
  by (simp add: aes_shift_rows_def)

lemma aes_expand_words:
  assumes "\<forall>x\<in>set w. length x = 4" and "0 < nk" and "nk \<le> length w"
  shows "length (aes_expand nk n rcon w) = length w + n \<and> (\<forall>x\<in>set (aes_expand nk n rcon w). length x = 4)"
  using assms
proof (induction n arbitrary: rcon w)
  case 0
  then show ?case by simp
next
  case (Suc n)
  have "length (w ! (length w - 1)) = 4" "length (w ! (length w - nk)) = 4"
    using Suc.prems by auto
  then have "length (aes_next nk rcon w) = 4"
    by (simp add: aes_next_def Let_def)
  with Suc.prems(1) have "\<forall>x\<in>set (w @ [aes_next nk rcon w]). length x = 4"
    by auto
  from Suc.IH [OF this] Suc.prems(2,3) show ?case
    by simp
qed

lemma length_concat_uniform: "\<forall>x\<in>set xs. length x = n \<Longrightarrow> length (concat xs) = length xs * n"
  by (induction xs) auto

lemma length_aes_encrypt:
  assumes "aes_key_ok key"
  shows "length (aes_encrypt key blk) = 16"
proof -
  define nk where "nk = length key div 4"
  have nk: "0 < nk" and len: "length key = 4 * nk"
    using assms by (auto simp: nk_def aes_key_ok_def)
  have words: "\<forall>x\<in>set (aes_words key). length x = 4" "length (aes_words key) = nk"
    by (auto simp: aes_words_def len)
  have sched: "length (aes_schedule key) = 4 * (nk + 7)" "\<forall>x\<in>set (aes_schedule key). length x = 4"
    using aes_expand_words [OF words(1) nk, of "4 * (nk + 7) - nk" 1] words(2)
    by (simp_all add: aes_schedule_def Let_def nk_def [symmetric])
  have "set (take 4 (drop (4 * (nk + 6)) (aes_schedule key))) \<subseteq> set (aes_schedule key)"
    by (meson set_drop_subset set_take_subset subset_trans)
  then have "length (aes_round_key (aes_schedule key) (nk + 6))
      = length (take 4 (drop (4 * (nk + 6)) (aes_schedule key))) * 4"
    unfolding aes_round_key_def using sched(2) by (intro length_concat_uniform) blast
  also have "\<dots> = 16"
    using sched(1) by simp
  finally show ?thesis
    by (simp add: aes_encrypt_def Let_def nk_def [symmetric])
qed

lemma length_gcm_stream:
  assumes "aes_key_ok key"
  shows "length (gcm_stream key nonce n) = n"
proof -
  have "length (concat (map (\<lambda>i. aes_encrypt key (nonce @ nat_be 4 (i + 2))) [0..<(n + 15) div 16]))
      = length (map (\<lambda>i. aes_encrypt key (nonce @ nat_be 4 (i + 2))) [0..<(n + 15) div 16]) * 16"
    by (rule length_concat_uniform) (auto simp: length_aes_encrypt [OF assms])
  then show ?thesis by (simp add: gcm_stream_def)
qed

lemma length_gcm_crypt: "aes_key_ok key \<Longrightarrow> length (gcm_crypt key nonce m) = length m"
  by (simp add: gcm_crypt_def length_gcm_stream)

lemma gcm_crypt_involution: "aes_key_ok key \<Longrightarrow> gcm_crypt key nonce (gcm_crypt key nonce m) = m"
  using xor_bytes_involution [of m "gcm_stream key nonce (length m)"]
  by (simp add: gcm_crypt_def length_gcm_stream)

lemma length_gcm_tag [simp]: "length (gcm_tag key nonce ct aad) = 16"
  by (simp add: gcm_tag_def Let_def)

section \<open>The AEAD interface\<close>

text \<open>
  What tickets and records rely on of \<^verbatim>\<open>cipher.AEAD\<close>: a sealed message opens to what was sealed,
  and the ciphertext is \<open>overhead\<close> bytes longer than the plaintext.
\<close>

locale aead =
  fixes seal :: "bytes \<Rightarrow> bytes \<Rightarrow> bytes \<Rightarrow> bytes \<Rightarrow> bytes"
    and unseal :: "bytes \<Rightarrow> bytes \<Rightarrow> bytes \<Rightarrow> bytes \<Rightarrow> bytes option"
    and key_ok :: "bytes \<Rightarrow> bool"
    and overhead :: nat
  assumes unseal_seal: "key_ok k \<Longrightarrow> unseal k n (seal k n p a) a = Some p"
    and length_seal: "key_ok k \<Longrightarrow> length (seal k n p a) = length p + overhead"
    and length_unseal: "key_ok k \<Longrightarrow> unseal k n c a = Some p \<Longrightarrow> length c = length p + overhead"
    and seal_unseal: "key_ok k \<Longrightarrow> unseal k n c a = Some p \<Longrightarrow> c = seal k n p a"
begin

lemma seal_inj: "key_ok k \<Longrightarrow> seal k n p a = seal k n p' a \<Longrightarrow> p = p'"
  by (metis option.inject unseal_seal)

lemma unseal_iff: "key_ok k \<Longrightarrow> unseal k n c a = Some p \<longleftrightarrow> c = seal k n p a"
  by (metis seal_unseal unseal_seal)

lemma unseal_short: "key_ok k \<Longrightarrow> length c < overhead \<Longrightarrow> unseal k n c a = None"
  by (cases "unseal k n c a") (auto dest: length_unseal)

text \<open>A nonce-prefixed box, as a ticket is: the nonce travels in front of the ciphertext.\<close>

lemma unseal_box:
  assumes "key_ok k" and "length nonce = m"
  shows "unseal k (take m (nonce @ seal k nonce p a)) (drop m (nonce @ seal k nonce p a)) a = Some p"
  using assms by (simp add: unseal_seal)

lemma length_box: "key_ok k \<Longrightarrow> length (nonce @ seal k nonce p a) = length nonce + length p + overhead"
  by (simp add: length_seal)

end

interpretation gcm: aead gcm_Seal gcm_Open aes_key_ok 16
proof
  fix k n p a
  assume k: "aes_key_ok k"
  show "gcm_Open k n (gcm_Seal k n p a) a = Some p"
    using k by (simp add: gcm_Open_def gcm_Seal_def Let_def length_gcm_crypt gcm_crypt_involution)
  show "length (gcm_Seal k n p a) = length p + 16"
    using k by (simp add: gcm_Seal_def Let_def length_gcm_crypt)
next
  fix k n c a p
  assume k: "aes_key_ok k" and "gcm_Open k n c a = Some p"
  then have len: "16 \<le> length c"
    and tag: "drop (length c - 16) c = gcm_tag k n (take (length c - 16) c) a"
    and p: "p = gcm_crypt k n (take (length c - 16) c)"
    by (auto simp: gcm_Open_def Let_def split: if_splits)
  show "length c = length p + 16"
    using k len by (simp add: p length_gcm_crypt)
  have "gcm_crypt k n p = take (length c - 16) c"
    using k by (simp add: p gcm_crypt_involution)
  then show "c = gcm_Seal k n p a"
    using tag by (simp add: gcm_Seal_def Let_def) (metis append_take_drop_id)
qed

section \<open>X25519 and ML-KEM-768\<close>

text \<open>
  \<open>kex_x25519 K s u\<close> is the X25519 function of RFC 7748, \<open>kex_mlkem K seed\<close> the ML-KEM-768
  encapsulation key a 64-byte seed generates. \<open>kex_ok\<close> is what their documentation promises: the
  sizes, and that the two sides of a Diffie-Hellman agreement compute the same value.
\<close>

record kex =
  kex_x25519 :: "bytes \<Rightarrow> bytes \<Rightarrow> bytes"
  kex_mlkem :: "bytes \<Rightarrow> bytes"

definition x25519_base :: bytes where
  "x25519_base = 9 # replicate 31 0"

definition x25519_public :: "kex \<Rightarrow> bytes \<Rightarrow> bytes" where
  "x25519_public K s = kex_x25519 K s x25519_base"

definition kex_ok :: "kex \<Rightarrow> bool" where
  "kex_ok K \<longleftrightarrow>
     (\<forall>s u. length (kex_x25519 K s u) = 32) \<and>
     (\<forall>seed. length (kex_mlkem K seed) = 1184) \<and>
     (\<forall>a b. kex_x25519 K a (x25519_public K b) = kex_x25519 K b (x25519_public K a))"

text \<open>\<^verbatim>\<open>ecdh.X25519().GenerateKey\<close>, \<^verbatim>\<open>NewPublicKey\<close>, \<^verbatim>\<open>PrivateKey.ECDH\<close> and \<^verbatim>\<open>mlkem.GenerateKey768\<close>.\<close>

definition x25519_GenerateKey :: "bytes rnd" where
  "x25519_GenerateKey = rand_Read 32"

definition x25519_NewPublicKey :: "bytes \<Rightarrow> bytes res" where
  "x25519_NewPublicKey b =
     (if length b = 32 then Inr b else Inl (Err ''crypto/ecdh: invalid public key''))"

definition x25519_ECDH :: "kex \<Rightarrow> bytes \<Rightarrow> bytes \<Rightarrow> bytes res" where
  "x25519_ECDH K s u =
     (let z = kex_x25519 K s u
      in if z = replicate 32 0 then Inl (Err ''crypto/ecdh: bad X25519 remote ECDH input: low order point'')
         else Inr z)"

definition mlkem_GenerateKey768 :: "kex \<Rightarrow> bytes rnd" where
  "mlkem_GenerateKey768 K = bindR (rand_Read 64) (\<lambda>seed. returnR (kex_mlkem K seed))"

lemma kex_ok_lengths [simp]:
  "kex_ok K \<Longrightarrow> length (kex_x25519 K s u) = 32"
  "kex_ok K \<Longrightarrow> length (x25519_public K s) = 32"
  "kex_ok K \<Longrightarrow> length (kex_mlkem K seed) = 1184"
  by (simp_all add: kex_ok_def x25519_public_def)

lemma x25519_commute:
  "kex_ok K \<Longrightarrow> kex_x25519 K a (x25519_public K b) = kex_x25519 K b (x25519_public K a)"
  unfolding kex_ok_def by blast

lemma x25519_agree:
  "kex_ok K \<Longrightarrow> x25519_ECDH K a (x25519_public K b) = x25519_ECDH K b (x25519_public K a)"
  using x25519_commute [of K a b] by (simp only: x25519_ECDH_def)

lemma entropy_only_keygen [entropy_intros]:
  "entropy_only x25519_GenerateKey" "entropy_only (mlkem_GenerateKey768 K)"
  by (auto simp: x25519_GenerateKey_def mlkem_GenerateKey768_def intro: entropy_intros)

text \<open>
  A parameter that satisfies \<open>kex_ok\<close>, for witnesses only: the shared value is the exclusive or
  of both scalars and the base point.
\<close>

definition xor_pad :: "nat \<Rightarrow> bytes \<Rightarrow> bytes" where
  "xor_pad n b = take n (b @ replicate n 0)"

definition kex_demo :: kex where
  "kex_demo = \<lparr>kex_x25519 = (\<lambda>s u. xor_bytes (xor_pad 32 s) (xor_pad 32 u)),
               kex_mlkem = (\<lambda>seed. replicate 1184 0)\<rparr>"

lemma xor_pad_id: "length b = n \<Longrightarrow> xor_pad n b = b"
  by (simp add: xor_pad_def)

lemma length_xor_pad [simp]: "length (xor_pad n b) = n"
  by (simp add: xor_pad_def)

lemma xor_bytes_left_commute: "xor_bytes xs (xor_bytes ys zs) = xor_bytes ys (xor_bytes xs zs)"
  by (auto simp: xor_bytes_def intro!: nth_equalityI simp: xor.left_commute)

lemma kex_demo_ok: "kex_ok kex_demo"
proof -
  have "xor_pad 32 (xor_bytes (xor_pad 32 s) (xor_pad 32 u)) = xor_bytes (xor_pad 32 s) (xor_pad 32 u)" for s u
    by (rule xor_pad_id) simp
  then have "kex_x25519 kex_demo a (x25519_public kex_demo b) = kex_x25519 kex_demo b (x25519_public kex_demo a)" for a b
    unfolding kex_demo_def x25519_public_def kex.simps
    by (simp only:) (rule xor_bytes_left_commute)
  moreover have "length (kex_x25519 kex_demo s u) = 32" "length (kex_mlkem kex_demo seed) = 1184" for s u seed
    by (simp_all add: kex_demo_def)
  ultimately show ?thesis
    unfolding kex_ok_def by blast
qed

end
