(* ===== verification/Hello.thy ===== *)
theory Hello
  imports GoCrypto
begin

text \<open>
  \<^verbatim>\<open>src/hello.go\<close>: the ClientHello held as opaque extensions, its parser over a cursor with a
  sticky error, its serialiser, and the operations on one hello (\<open>Find\<close>, \<open>SNI\<close>, \<open>SetSNI\<close>,
  \<open>dropExtension\<close>). The main facts are an exact characterisation of the records the parser
  accepts (\<open>parse_iff_wire\<close>) and, from it, the two round trips between \<open>ParseClientHello\<close> and
  \<open>Marshal\<close>.
\<close>

section \<open>Data\<close>

datatype Extension = Extension (ExtType: u16) (ExtData: bytes)

record ClientHello =
  LegacyVersion :: u16
  Random :: bytes
  SessionID :: bytes
  CipherSuites :: "u16 list"
  Compression :: bytes
  Extensions :: "Extension list"

abbreviation ExtServerName :: u16 where "ExtServerName \<equiv> 0x0000"
abbreviation ExtSessionTicket :: u16 where "ExtSessionTicket \<equiv> 0x0023"
abbreviation ExtPreSharedKey :: u16 where "ExtPreSharedKey \<equiv> 0x0029"
abbreviation ExtEarlyData :: u16 where "ExtEarlyData \<equiv> 0x002a"
abbreviation ExtKeyShare :: u16 where "ExtKeyShare \<equiv> 0x0033"
abbreviation ExtECH :: u16 where "ExtECH \<equiv> 0xfe0d"
abbreviation ExtSupportedGroups :: u16 where "ExtSupportedGroups \<equiv> 0x000a"
abbreviation ExtSignatureAlgorithms :: u16 where "ExtSignatureAlgorithms \<equiv> 0x000d"
abbreviation ExtSupportedVersions :: u16 where "ExtSupportedVersions \<equiv> 0x002b"

definition IsGREASE :: "u16 \<Rightarrow> bool" where
  "IsGREASE v \<longleftrightarrow> v AND 0x0f0f = 0x0a0a \<and> (ucast (drop_bit 8 v) :: byte) = ucast v"

section \<open>The cursor\<close>

record reader =
  r_b :: bytes
  r_i :: nat
  r_err :: bool

definition reader_u8 :: "reader \<Rightarrow> nat \<times> reader" where
  "reader_u8 r =
     (if r_err r \<or> length (r_b r) < r_i r + 1 then (0, r\<lparr>r_err := True\<rparr>)
      else (unat (r_b r ! r_i r), r\<lparr>r_i := r_i r + 1\<rparr>))"

definition reader_u16 :: "reader \<Rightarrow> nat \<times> reader" where
  "reader_u16 r =
     (if r_err r \<or> length (r_b r) < r_i r + 2 then (0, r\<lparr>r_err := True\<rparr>)
      else (unat (Uint16 (take 2 (drop (r_i r) (r_b r)))), r\<lparr>r_i := r_i r + 2\<rparr>))"

definition reader_bytes :: "nat \<Rightarrow> reader \<Rightarrow> bytes \<times> reader" where
  "reader_bytes n r =
     (if r_err r \<or> length (r_b r) < r_i r + n then ([], r\<lparr>r_err := True\<rparr>)
      else (take n (drop (r_i r) (r_b r)), r\<lparr>r_i := r_i r + n\<rparr>))"

section \<open>Parsing\<close>

text \<open>The cipher-suite loop: a list of big-endian 16-bit values.\<close>

fun u16_list :: "bytes \<Rightarrow> u16 list" where
  "u16_list (a # b # cs) = Uint16 [a, b] # u16_list cs"
| "u16_list cs = []"

text \<open>
  The extension loop \<^verbatim>\<open>for r.i < end && r.err == nil\<close>. It ends because the cursor moves or the
  sticky error is set.
\<close>

function parse_exts :: "nat \<Rightarrow> reader \<Rightarrow> Extension list \<Rightarrow> Extension list \<times> reader" where
  "parse_exts ende r acc =
     (if r_i r < ende \<and> \<not> r_err r
      then let (t, r1) = reader_u16 r;
               (n, r2) = reader_u16 r1;
               (d, r3) = reader_bytes n r2
           in parse_exts ende r3 (acc @ [Extension (of_nat t) d])
      else (acc, r))"
  by pat_completeness auto
termination
  by (relation "measure (\<lambda>(ende, r, acc). if r_err r then 0 else Suc (ende - r_i r))")
     (auto simp: reader_u16_def reader_bytes_def split: if_splits)

declare parse_exts.simps [simp del]

definition ParseClientHello :: "bytes \<Rightarrow> ClientHello res" where
  "ParseClientHello rec =
     (if length rec < 9 \<or> rec ! 0 \<noteq> 0x16 then Inl (Err ''twiddle: not a handshake record'')
      else if length rec \<noteq> 5 + unat (Uint16 (take 2 (drop 3 rec)))
      then Inl (Err ''twiddle: record length does not match'')
      else
        let r = \<lparr>r_b = drop 5 rec, r_i = 0, r_err = False\<rparr>;
            (ty, r) = reader_u8 r
        in if ty \<noteq> 0x01 then Inl (Err ''twiddle: not a ClientHello'')
           else
             let (hi, r) = reader_u8 r;
                 (lo, r) = reader_u16 r;
                 bodyLen = hi * 65536 + lo
             in if bodyLen \<noteq> length (r_b r) - 4 then Inl (Err ''twiddle: handshake length does not match'')
                else
                  let (ver, r) = reader_u16 r;
                      (rnd, r) = reader_bytes 32 r;
                      (sidLen, r) = reader_u8 r;
                      (sid, r) = reader_bytes sidLen r;
                      (csLen, r) = reader_u16 r
                  in if csLen mod 2 \<noteq> 0 then Inl ErrMalformed
                     else
                       let (cs, r) = reader_bytes csLen r;
                           (compLen, r) = reader_u8 r;
                           (comp, r) = reader_bytes compLen r;
                           (extTotal, r) = reader_u16 r;
                           (exts, r) = parse_exts (r_i r + extTotal) r []
                       in if r_err r then Inl ErrMalformed
                          else if r_i r \<noteq> length (r_b r)
                          then Inl (Err ''twiddle: trailing bytes after extensions'')
                          else Inr \<lparr>LegacyVersion = of_nat ver, Random = rnd, SessionID = sid,
                                    CipherSuites = u16_list cs, Compression = comp,
                                    Extensions = exts\<rparr>)"

section \<open>Serialising\<close>

definition Marshal :: "ClientHello \<Rightarrow> bytes" where
  "Marshal h =
     (let ext = foldl (\<lambda>ext e. appendU16 (appendU16 ext (ExtType e)) (of_nat (length (ExtData e))) @ ExtData e)
                      [] (Extensions h);
          body = appendU16 [] (LegacyVersion h);
          body = body @ Random h;
          body = body @ [of_nat (length (SessionID h))];
          body = body @ SessionID h;
          body = appendU16 body (of_nat (length (CipherSuites h) * 2));
          body = foldl appendU16 body (CipherSuites h);
          body = body @ [of_nat (length (Compression h))];
          body = body @ Compression h;
          body = appendU16 body (of_nat (length ext));
          body = body @ ext;
          out = [0x16, 0x03, 0x01];
          out = appendU16 out (of_nat (length body + 4));
          out = out @ [0x01, of_nat (length body div 65536), of_nat (length body div 256), of_nat (length body)]
      in out @ body)"

section \<open>Operations on one hello\<close>

definition Find :: "u16 \<Rightarrow> ClientHello \<Rightarrow> Extension option" where
  "Find t h = find (\<lambda>e. ExtType e = t) (Extensions h)"

text \<open>
  \<open>Find\<close> returns a pointer into the hello, and its callers write through it. \<open>set_first\<close> is such
  a write: it replaces the body of the first extension of the type.
\<close>

fun set_first :: "u16 \<Rightarrow> bytes \<Rightarrow> Extension list \<Rightarrow> Extension list" where
  "set_first t d [] = []"
| "set_first t d (e # es) = (if ExtType e = t then Extension t d # es else e # set_first t d es)"

definition SetExtData :: "u16 \<Rightarrow> bytes \<Rightarrow> ClientHello \<Rightarrow> ClientHello" where
  "SetExtData t d h = h\<lparr>Extensions := set_first t d (Extensions h)\<rparr>"

definition SNI :: "ClientHello \<Rightarrow> bytes" where
  "SNI h =
     (case Find ExtServerName h of
        None \<Rightarrow> []
      | Some e \<Rightarrow>
          if length (ExtData e) < 5 then []
          else let n = unat (Uint16 (take 2 (drop 3 (ExtData e))))
               in if length (ExtData e) < 5 + n then [] else take n (drop 5 (ExtData e)))"

definition SetSNI :: "bytes \<Rightarrow> ClientHello \<Rightarrow> ClientHello res" where
  "SetSNI name h =
     (case Find ExtServerName h of
        None \<Rightarrow> Inl (Err ''twiddle: hello has no server_name extension'')
      | Some e \<Rightarrow>
          if 0xffff - 5 < length name then Inl (Err ''twiddle: server name too long'')
          else let d = appendU16 [] (of_nat (length name + 3));
                   d = d @ [0x00];
                   d = appendU16 d (of_nat (length name))
               in Inr (SetExtData ExtServerName (d @ name) h))"

definition dropExtension :: "u16 \<Rightarrow> ClientHello \<Rightarrow> ClientHello \<times> bool" where
  "dropExtension t h =
     (let out = filter (\<lambda>e. ExtType e \<noteq> t) (Extensions h)
      in (h\<lparr>Extensions := out\<rparr>, length out \<noteq> length (Extensions h)))"

section \<open>The wire format\<close>

text \<open>
  The layout of a ClientHello record, written as a grammar: what \<open>Marshal\<close> prints is
  \<open>hello_wire 0x03 0x01\<close> with the true length of the extension block.
\<close>

definition ext_bytes :: "Extension \<Rightarrow> bytes" where
  "ext_bytes e = PutUint16 (ExtType e) @ PutUint16 (of_nat (length (ExtData e))) @ ExtData e"

definition exts_bytes :: "Extension list \<Rightarrow> bytes" where
  "exts_bytes es = concat (map ext_bytes es)"

definition suites_bytes :: "u16 list \<Rightarrow> bytes" where
  "suites_bytes cs = concat (map PutUint16 cs)"

definition hello_prefix :: "ClientHello \<Rightarrow> bytes" where
  "hello_prefix h =
     PutUint16 (LegacyVersion h) @ Random h
     @ [of_nat (length (SessionID h))] @ SessionID h
     @ PutUint16 (of_nat (length (CipherSuites h) * 2)) @ suites_bytes (CipherSuites h)
     @ [of_nat (length (Compression h))] @ Compression h"

definition body_len :: "ClientHello \<Rightarrow> nat" where
  "body_len h = length (hello_prefix h) + 2 + length (exts_bytes (Extensions h))"

definition hello_wire :: "byte \<Rightarrow> byte \<Rightarrow> nat \<Rightarrow> ClientHello \<Rightarrow> bytes" where
  "hello_wire v1 v2 t h =
     [0x16, v1, v2] @ PutUint16 (of_nat (body_len h + 4)) @ [0x01] @ nat_be 3 (body_len h)
     @ hello_prefix h @ PutUint16 (of_nat t) @ exts_bytes (Extensions h)"

text \<open>A hello whose every length fits its field on the wire.\<close>

definition wf_hello :: "ClientHello \<Rightarrow> bool" where
  "wf_hello h \<longleftrightarrow>
     length (Random h) = 32 \<and> length (SessionID h) < 256 \<and> length (CipherSuites h) * 2 < 65536
     \<and> length (Compression h) < 256 \<and> (\<forall>e\<in>set (Extensions h). length (ExtData e) < 65536)
     \<and> body_len h + 4 < 65536"

text \<open>
  The declared lengths of the extension block the parser lets through: it must reach into the
  last extension, and not past it.
\<close>

definition block_len_ok :: "nat \<Rightarrow> Extension list \<Rightarrow> bool" where
  "block_len_ok t es \<longleftrightarrow>
     t \<le> length (exts_bytes es) \<and> (es \<noteq> [] \<longrightarrow> length (exts_bytes (butlast es)) < t)"

lemma exts_bytes_simps [simp]:
  "exts_bytes [] = []" "exts_bytes (e # es) = ext_bytes e @ exts_bytes es"
  "exts_bytes (es @ es') = exts_bytes es @ exts_bytes es'"
  by (simp_all add: exts_bytes_def)

lemma suites_bytes_simps [simp]:
  "suites_bytes [] = []" "suites_bytes (c # cs) = PutUint16 c @ suites_bytes cs"
  by (simp_all add: suites_bytes_def)

lemma length_ext_bytes [simp]: "length (ext_bytes e) = 4 + length (ExtData e)"
  by (simp add: ext_bytes_def)

lemma length_suites_bytes [simp]: "length (suites_bytes cs) = 2 * length cs"
  by (induction cs) auto

lemma marshal_exts_fold:
  "foldl (\<lambda>ext e. appendU16 (appendU16 ext (ExtType e)) (of_nat (length (ExtData e))) @ ExtData e) x es
     = x @ exts_bytes es"
  by (induction es arbitrary: x) (auto simp: appendU16_eq ext_bytes_def)

lemma marshal_suites_fold: "foldl appendU16 x cs = x @ suites_bytes cs"
  by (induction cs arbitrary: x) (auto simp: appendU16_eq)

lemma nat_be_3: "nat_be 3 n = [of_nat (n div 65536), of_nat (n div 256), of_nat n]"
  by (simp add: numeral_3_eq_3 div_mult2_eq [symmetric])

lemma Marshal_eq_wire: "Marshal h = hello_wire 0x03 0x01 (length (exts_bytes (Extensions h))) h"
  unfolding Marshal_def Let_def marshal_exts_fold marshal_suites_fold
  by (simp add: hello_wire_def hello_prefix_def body_len_def appendU16_eq nat_be_3 algebra_simps)

section \<open>What the cursor reads\<close>

text \<open>
  \<open>took r xs r'\<close>: from \<open>r\<close> the cursor moved over exactly the bytes \<open>xs\<close> and no error was set.
\<close>

definition took :: "reader \<Rightarrow> bytes \<Rightarrow> reader \<Rightarrow> bool" where
  "took r xs r' \<longleftrightarrow>
     \<not> r_err r \<and> \<not> r_err r' \<and> r_b r' = r_b r \<and> r_i r' = r_i r + length xs
     \<and> r_i r' \<le> length (r_b r) \<and> take (length xs) (drop (r_i r) (r_b r)) = xs"

lemma took_trans: "took r xs r' \<Longrightarrow> took r' ys r'' \<Longrightarrow> took r (xs @ ys) r''"
  by (auto simp: took_def take_add add.commute)

lemma took_append: "took r xs r' \<Longrightarrow> took r' ys r'' \<Longrightarrow> took r (xs @ ys) r''"
  by (rule took_trans)

lemma took_start: "\<not> r_err r \<Longrightarrow> r_i r \<le> length (r_b r) \<Longrightarrow> took r [] r"
  by (simp add: took_def)

lemma reader_u8_took:
  assumes "reader_u8 r = (v, r')" and "\<not> r_err r'"
  shows "\<exists>x. took r [x] r' \<and> v = unat x"
  using assms
  by (auto simp: reader_u8_def took_def take_Suc_conv_app_nth split: if_splits)

lemma reader_u16_took:
  assumes "reader_u16 r = (v, r')" and "\<not> r_err r'"
  shows "\<exists>w. took r (PutUint16 w) r' \<and> v = unat w"
proof -
  let ?xs = "take 2 (drop (r_i r) (r_b r))"
  from assms have ok: "\<not> r_err r" "r_i r + 2 \<le> length (r_b r)"
    and v: "v = unat (Uint16 ?xs)" and r': "r' = r\<lparr>r_i := r_i r + 2\<rparr>"
    by (auto simp: reader_u16_def split: if_splits)
  have "PutUint16 (Uint16 ?xs) = ?xs"
    using ok PutUint16_Uint16 [of ?xs] by simp
  then have "took r (PutUint16 (Uint16 ?xs)) r'"
    using ok r' by (simp add: took_def)
  with v show ?thesis by blast
qed

lemma reader_bytes_took:
  assumes "reader_bytes n r = (v, r')" and "\<not> r_err r'"
  shows "took r v r' \<and> length v = n"
  using assms by (auto simp: reader_bytes_def took_def split: if_splits)

lemma took_ok: "took r xs r' \<Longrightarrow> \<not> r_err r"
  by (simp add: took_def)

lemma parse_exts_sticky: "r_err r \<Longrightarrow> r_err (snd (parse_exts e r acc))"
  by (subst parse_exts.simps) simp

lemma parse_exts_took:
  assumes "parse_exts ende r acc = (es, r')" and "\<not> r_err r'" and "r_i r \<le> length (r_b r)"
  shows "\<exists>new. es = acc @ new \<and> took r (exts_bytes new) r' \<and> ende \<le> r_i r'
           \<and> (\<forall>e\<in>set new. length (ExtData e) < 65536)
           \<and> (if new = [] then ende \<le> r_i r else r_i r + length (exts_bytes (butlast new)) < ende)"
  using assms
proof (induction ende r acc arbitrary: es r' rule: parse_exts.induct)
  case (1 ende r acc)
  show ?case
  proof (cases "r_i r < ende \<and> \<not> r_err r")
    case False
    with "1.prems" have "es = acc \<and> r' = r"
      by (subst (asm) parse_exts.simps) auto
    with False "1.prems" show ?thesis
      by (intro exI [of _ "[]"]) (auto simp: took_start)
  next
    case True
    obtain t r1 where r1: "reader_u16 r = (t, r1)" by fastforce
    obtain n r2 where r2: "reader_u16 r1 = (n, r2)" by fastforce
    obtain d r3 where r3: "reader_bytes n r2 = (d, r3)" by fastforce
    have rest: "parse_exts ende r3 (acc @ [Extension (of_nat t) d]) = (es, r')"
      using "1.prems"(1) True r1 r2 r3 by (subst (asm) parse_exts.simps) simp
    have e3: "\<not> r_err r3"
      using parse_exts_sticky [of r3 ende "acc @ [Extension (of_nat t) d]"] rest "1.prems"(2) by auto
    have d: "took r2 d r3" "length d = n"
      using reader_bytes_took [OF r3 e3] by auto
    obtain w2 where w2: "took r1 (PutUint16 w2) r2" "n = unat w2"
      using reader_u16_took [OF r2 took_ok [OF d(1)]] by blast
    obtain w1 where w1: "took r (PutUint16 w1) r1" "t = unat w1"
      using reader_u16_took [OF r1 took_ok [OF w2(1)]] by blast
    let ?e = "Extension (of_nat t) d"
    have eb: "ext_bytes ?e = PutUint16 w1 @ PutUint16 w2 @ d"
      using w1(2) w2(2) d(2) by (simp add: ext_bytes_def)
    have t3: "took r (ext_bytes ?e) r3"
      unfolding eb by (rule took_trans [OF w1(1) took_trans [OF w2(1) d(1)]])
    then have i3: "r_i r3 = r_i r + length (ext_bytes ?e)" "r_i r3 \<le> length (r_b r3)" "r_b r3 = r_b r"
      by (simp_all add: took_def)
    have "\<exists>new. es = (acc @ [?e]) @ new \<and> took r3 (exts_bytes new) r' \<and> ende \<le> r_i r'
           \<and> (\<forall>e\<in>set new. length (ExtData e) < 65536)
           \<and> (if new = [] then ende \<le> r_i r3 else r_i r3 + length (exts_bytes (butlast new)) < ende)"
      using "1.IH" [OF True r1 [symmetric] refl r2 [symmetric] refl r3 [symmetric] refl]
        rest "1.prems"(2) i3(2) by blast
    then obtain new where new: "es = (acc @ [?e]) @ new" "took r3 (exts_bytes new) r'" "ende \<le> r_i r'"
      "\<forall>e\<in>set new. length (ExtData e) < 65536"
      "if new = [] then ende \<le> r_i r3 else r_i r3 + length (exts_bytes (butlast new)) < ende"
      by blast
    have "length d < 65536" using d(2) w2(2) by simp
    with new took_trans [OF t3 new(2)] True i3(1) show ?thesis
      by (intro exI [of _ "?e # new"]) (auto split: if_splits)
  qed
qed

lemma u16_list_suites: "even (length cs) \<Longrightarrow> suites_bytes (u16_list cs) = cs"
proof (induction cs rule: u16_list.induct)
  case (1 a b cs)
  then show ?case
    using PutUint16_Uint16 [of "[a, b]"] by simp
qed auto

lemma length_u16_list: "length (u16_list cs) = length cs div 2"
  by (induction cs rule: u16_list.induct) auto

lemma u16_list_of_suites [simp]: "u16_list (suites_bytes cs) = cs"
proof (induction cs)
  case Nil
  then show ?case by simp
next
  case (Cons c cs)
  have "u16_list (PutUint16 c @ suites_bytes cs) = Uint16 (PutUint16 c) # u16_list (suites_bytes cs)"
    by (simp only: PutUint16_def append.simps u16_list.simps)
  then show ?case using Cons by simp
qed

section \<open>The records the parser accepts\<close>

lemma list5: "9 \<le> length xs \<Longrightarrow> take 5 xs = [xs ! 0, xs ! 1, xs ! 2] @ take 2 (drop 3 xs)"
  by (cases xs; cases "tl xs"; cases "tl (tl xs)") (auto simp: numeral_eq_Suc)

lemma nat_be_3_split: "nat_be 3 n = nat_be 1 (n div 65536) @ nat_be 2 n"
  by (simp add: nat_be_3 numeral_2_eq_2)

lemma nat_be_3_parts:
  assumes "n = unat (x :: byte) * 65536 + unat (w :: u16)"
  shows "nat_be 3 n = [x] @ PutUint16 w"
proof -
  have "n div 65536 = unat x" "n mod 65536 = unat w"
    using assms by simp_all
  moreover have "nat_be 2 n = nat_be 2 (n mod 65536)"
    using nat_be_mod [of 2 n] by simp
  ultimately show ?thesis
    by (simp add: nat_be_3_split PutUint16_nat_be)
qed

text \<open>The reads of the parser, from the last back to the first: what each took, and that none failed if the last did not.\<close>

lemma reads_took:
  assumes "reader_u8 r0 = (ty, r1)" and "reader_u8 r1 = (hi, r2)" and "reader_u16 r2 = (lo, r3)" and "reader_u16 r3 = (ver, r4)"
    and "reader_bytes 32 r4 = (rnd, r5)" and "reader_u8 r5 = (sidLen, r6)" and "reader_bytes sidLen r6 = (sid, r7)"
    and "reader_u16 r7 = (csLen, r8)" and "reader_bytes csLen r8 = (cs, r9)" and "reader_u8 r9 = (compLen, r10)"
    and "reader_bytes compLen r10 = (cm, r11)" and "reader_u16 r11 = (extTotal, r12)"
    and "parse_exts (r_i r12 + extTotal) r12 [] = (exts, r13)" and "\<not> r_err r13"
  obtains x1 x2 w3 w4 x6 w8 x10 w12 where
    "took r0 ([x1] @ [x2] @ PutUint16 w3) r3" "ty = unat x1" "hi = unat x2" "lo = unat w3"
    "took r3 (PutUint16 w4 @ rnd @ [x6] @ sid @ PutUint16 w8 @ cs @ [x10] @ cm) r11"
    "ver = unat w4" "length rnd = 32" "sidLen = unat x6" "length sid = sidLen" "csLen = unat w8" "length cs = csLen"
    "compLen = unat x10" "length cm = compLen" "took r11 (PutUint16 w12) r12" "extTotal = unat w12"
proof -
  have "\<not> r_err r12" using parse_exts_sticky [of r12 "r_i r12 + extTotal" "[]"] assms(13,14) by auto
  then obtain w12 where w12: "took r11 (PutUint16 w12) r12" "extTotal = unat w12" using reader_u16_took [OF assms(12)] by blast
  have b11: "took r10 cm r11" "length cm = compLen" using reader_bytes_took [OF assms(11) took_ok [OF w12(1)]] by auto
  obtain x10 where x10: "took r9 [x10] r10" "compLen = unat x10" using reader_u8_took [OF assms(10) took_ok [OF b11(1)]] by blast
  have b9: "took r8 cs r9" "length cs = csLen" using reader_bytes_took [OF assms(9) took_ok [OF x10(1)]] by auto
  obtain w8 where w8: "took r7 (PutUint16 w8) r8" "csLen = unat w8" using reader_u16_took [OF assms(8) took_ok [OF b9(1)]] by blast
  have b7: "took r6 sid r7" "length sid = sidLen" using reader_bytes_took [OF assms(7) took_ok [OF w8(1)]] by auto
  obtain x6 where x6: "took r5 [x6] r6" "sidLen = unat x6" using reader_u8_took [OF assms(6) took_ok [OF b7(1)]] by blast
  have b5: "took r4 rnd r5" "length rnd = 32" using reader_bytes_took [OF assms(5) took_ok [OF x6(1)]] by auto
  obtain w4 where w4: "took r3 (PutUint16 w4) r4" "ver = unat w4" using reader_u16_took [OF assms(4) took_ok [OF b5(1)]] by blast
  obtain w3 where w3: "took r2 (PutUint16 w3) r3" "lo = unat w3" using reader_u16_took [OF assms(3) took_ok [OF w4(1)]] by blast
  obtain x2 where x2: "took r1 [x2] r2" "hi = unat x2" using reader_u8_took [OF assms(2) took_ok [OF w3(1)]] by blast
  obtain x1 where x1: "took r0 [x1] r1" "ty = unat x1" using reader_u8_took [OF assms(1) took_ok [OF x2(1)]] by blast
  show thesis
    by (rule that [of x1 x2 w3 w4 x6 w8 x10 w12])
       (intro took_trans [OF x1(1)] took_trans [OF x2(1)] took_trans [OF w4(1)] took_trans [OF b5(1)] took_trans [OF x6(1)]
          took_trans [OF b7(1)] took_trans [OF w8(1)] took_trans [OF b9(1)] took_trans [OF x10(1)] w3 b11
          x1 x2 w4 b5 x6 b7 w8 b9 x10 w12)+
qed

lemma parse_fields_took:
  assumes "ParseClientHello rec = Inr h"
  shows "\<exists>w t r0 r'. 9 \<le> length rec \<and> rec ! 0 = 0x16
    \<and> length rec = 5 + unat (Uint16 (take 2 (drop 3 rec)))
    \<and> r0 = \<lparr>r_b = drop 5 rec, r_i = 0, r_err = False\<rparr>
    \<and> took r0 ([0x01] @ nat_be 3 (length rec - 9) @ hello_prefix h @ PutUint16 w @ exts_bytes (Extensions h)) r'
    \<and> r_i r' = length rec - 5 \<and> t = unat w \<and> block_len_ok t (Extensions h)
    \<and> length (Random h) = 32 \<and> length (SessionID h) < 256 \<and> length (CipherSuites h) * 2 < 65536
    \<and> length (Compression h) < 256 \<and> (\<forall>e\<in>set (Extensions h). length (ExtData e) < 65536)"
proof -
  let ?r0 = "\<lparr>r_b = drop 5 rec, r_i = 0, r_err = False\<rparr>"
  obtain ty r1 hi r2 lo r3 ver r4 rnd r5 sidLen r6 where rs1: "reader_u8 ?r0 = (ty, r1)" "reader_u8 r1 = (hi, r2)"
      "reader_u16 r2 = (lo, r3)" "reader_u16 r3 = (ver, r4)" "reader_bytes 32 r4 = (rnd, r5)" "reader_u8 r5 = (sidLen, r6)"
    by (metis surj_pair)
  obtain sid r7 csLen r8 cs r9 compLen r10 cm r11 extTotal r12 exts r13 where rs2: "reader_bytes sidLen r6 = (sid, r7)"
      "reader_u16 r7 = (csLen, r8)" "reader_bytes csLen r8 = (cs, r9)" "reader_u8 r9 = (compLen, r10)"
      "reader_bytes compLen r10 = (cm, r11)" "reader_u16 r11 = (extTotal, r12)" "parse_exts (r_i r12 + extTotal) r12 [] = (exts, r13)"
    by (metis surj_pair)
  define n where "n = unat (Uint16 (take 2 (drop 3 rec)))"
  note parsed = assms [unfolded ParseClientHello_def, folded n_def]
  from parsed have hdr: "9 \<le> length rec" "rec ! 0 = 0x16" "length rec = 5 + n"
    by (auto split: if_splits)
  from parsed have chk: "ty = 1" "hi * 65536 + lo = length (r_b r3) - 4" "even csLen" "\<not> r_err r13"
      "r_i r13 = length (r_b r13)"
    and h: "h = \<lparr>LegacyVersion = of_nat ver, Random = rnd, SessionID = sid, CipherSuites = u16_list cs,
                 Compression = cm, Extensions = exts\<rparr>"
    by (simp_all add: Let_def rs1 rs2 even_iff_mod_2_eq_zero split: if_splits)
  obtain x1 x2 w3 w4 x6 w8 x10 w12 where t1: "took ?r0 ([x1] @ [x2] @ PutUint16 w3) r3"
      and v: "ty = unat x1" "hi = unat x2" "lo = unat w3"
      and t2: "took r3 (PutUint16 w4 @ rnd @ [x6] @ sid @ PutUint16 w8 @ cs @ [x10] @ cm) r11"
      and u: "ver = unat w4" "length rnd = 32" "sidLen = unat x6" "length sid = sidLen" "csLen = unat w8" "length cs = csLen"
        "compLen = unat x10" "length cm = compLen"
      and t3: "took r11 (PutUint16 w12) r12" and w12: "extTotal = unat w12"
    by (rule reads_took [OF rs1 rs2 chk(4)])
  have "r_i r12 \<le> length (r_b r12)" using t3 by (simp add: took_def)
  with parse_exts_took [OF rs2(7) chk(4)] have ex: "took r12 (exts_bytes exts) r13"
      "\<forall>e\<in>set exts. length (ExtData e) < 65536" "r_i r12 + extTotal \<le> r_i r13"
      "if exts = [] then r_i r12 + extTotal \<le> r_i r12 else r_i r12 + length (exts_bytes (butlast exts)) < r_i r12 + extTotal"
    by auto
  have "x1 = 1" using v(1) chk(1) by (simp add: word_unat_eq_iff)
  have bl: "length (r_b r3) = length rec - 5" "length (r_b r13) = length rec - 5"
    using t1 t2 t3 ex(1) by (simp_all add: took_def)
  have n3: "nat_be 3 (length rec - 9) = [x2] @ PutUint16 w3"
    using chk(2) bl(1) hdr(1) v(2,3) by (intro nat_be_3_parts) simp
  have cs2: "length (u16_list cs) * 2 = csLen" using chk(3) u(6) by (simp add: length_u16_list)
  have pre: "hello_prefix h = PutUint16 w4 @ rnd @ [x6] @ sid @ PutUint16 w8 @ cs @ [x10] @ cm"
    using u chk(3) by (simp add: hello_prefix_def h cs2 u16_list_suites)
  have "took ?r0 ([0x01] @ nat_be 3 (length rec - 9) @ hello_prefix h @ PutUint16 w12 @ exts_bytes (Extensions h)) r13"
    using took_trans [OF took_trans [OF t1 t2] took_trans [OF t3 ex(1)]] \<open>x1 = 1\<close> by (simp add: n3 pre) (simp add: h)
  moreover have "block_len_ok extTotal exts"
    using ex(1,3,4) by (auto simp: block_len_ok_def took_def split: if_splits)
  moreover have "length sid < 256" "length cm < 256" "length (u16_list cs) * 2 < 65536"
    using u(3-8) cs2 by simp_all
  moreover have "Random h = rnd" "SessionID h = sid" "Compression h = cm" "CipherSuites h = u16_list cs" "Extensions h = exts"
    by (simp_all add: h)
  ultimately show ?thesis
    using hdr(1,2) hdr(3) [unfolded n_def] chk(5) bl(2) w12 ex(2) u(2)
    by (intro exI [of _ w12] exI [of _ extTotal] exI [of _ ?r0] exI [of _ r13]) (simp only:)
qed

lemma parse_is_wire:
  assumes "ParseClientHello rec = Inr h"
  shows "\<exists>v1 v2 t. t < 65536 \<and> wf_hello h \<and> block_len_ok t (Extensions h) \<and> rec = hello_wire v1 v2 t h"
proof -
  obtain w t r0 r' where hdr: "9 \<le> length rec" "rec ! 0 = 0x16"
      "length rec = 5 + unat (Uint16 (take 2 (drop 3 rec)))"
    and r0: "r0 = \<lparr>r_b = drop 5 rec, r_i = 0, r_err = False\<rparr>"
    and tk: "took r0 ([0x01] @ nat_be 3 (length rec - 9) @ hello_prefix h @ PutUint16 w @ exts_bytes (Extensions h)) r'"
    and i: "r_i r' = length rec - 5" and t: "t = unat w" "block_len_ok t (Extensions h)"
    and len: "length (Random h) = 32" "length (SessionID h) < 256" "length (CipherSuites h) * 2 < 65536"
      "length (Compression h) < 256" "\<forall>e\<in>set (Extensions h). length (ExtData e) < 65536"
    using parse_fields_took [OF assms] by blast
  let ?xs = "[0x01] @ nat_be 3 (length rec - 9) @ hello_prefix h @ PutUint16 w @ exts_bytes (Extensions h)"
  have "length ?xs = length rec - 5" and "take (length ?xs) (drop 5 rec) = ?xs"
    using tk i unfolding r0 took_def by simp_all
  then have xs: "drop 5 rec = ?xs" by simp
  then have "length (drop 5 rec) = length ?xs" by (rule arg_cong)
  then have bl: "body_len h = length rec - 9"
    using hdr(1) by (simp add: body_len_def)
  define n where "n = Uint16 (take 2 (drop 3 rec))"
  have "body_len h + 4 = unat n"
    using bl hdr(1) hdr(3) [folded n_def] by simp
  then have "of_nat (body_len h + 4) = n" and wf: "body_len h + 4 < 65536"
    by (simp_all del: of_nat_add)
  moreover have "PutUint16 n = take 2 (drop 3 rec)"
    using PutUint16_Uint16 [of "take 2 (drop 3 rec)"] hdr(1) by (simp add: n_def)
  ultimately have "take 2 (drop 3 rec) = PutUint16 (of_nat (body_len h + 4))" by simp
  with list5 [OF hdr(1)] hdr(2)
  have "take 5 rec = [0x16, rec ! 1, rec ! 2] @ PutUint16 (of_nat (body_len h + 4))" by simp
  then have "rec = hello_wire (rec ! 1) (rec ! 2) t h"
    using append_take_drop_id [of 5 rec] xs t(1) bl by (simp add: hello_wire_def)
  moreover have "wf_hello h" using len wf by (simp add: wf_hello_def)
  ultimately show ?thesis using t by (intro exI [of _ "rec ! 1"] exI [of _ "rec ! 2"] exI [of _ t]) simp
qed

text \<open>The other direction runs the cursor over the wire; \<open>at pre post\<close> stands between the two.\<close>

definition at :: "bytes \<Rightarrow> bytes \<Rightarrow> reader" where
  "at pre post = \<lparr>r_b = pre @ post, r_i = length pre, r_err = False\<rparr>"

lemma at_sel [simp]: "r_b (at pre post) = pre @ post" "r_i (at pre post) = length pre" "\<not> r_err (at pre post)"
  by (simp_all add: at_def)

lemma reader_u8_at [simp]: "reader_u8 (at pre (x # post)) = (unat x, at (pre @ [x]) post)"
  by (simp add: reader_u8_def at_def)

lemma reader_u16_at [simp]: "reader_u16 (at pre (PutUint16 w @ post)) = (unat w, at (pre @ PutUint16 w) post)"
  by (simp add: reader_u16_def at_def)

lemma reader_bytes_at [simp]:
  "n = length d \<Longrightarrow> reader_bytes n (at pre (d @ post)) = (d, at (pre @ d) post)"
  by (simp add: reader_bytes_def at_def)

lemma parse_exts_at:
  assumes "\<forall>e\<in>set es. length (ExtData e) < 65536" and "ende = length pre + t"
    and "t \<le> length (exts_bytes es)" and "es \<noteq> [] \<longrightarrow> length (exts_bytes (butlast es)) < t"
  shows "parse_exts ende (at pre (exts_bytes es)) acc = (acc @ es, at (pre @ exts_bytes es) [])"
  using assms
proof (induction es arbitrary: pre t acc)
  case Nil
  then show ?case by (subst parse_exts.simps) simp
next
  case (Cons e es)
  have lt: "length pre < ende" using Cons.prems by (cases es) auto
  have le: "length (ExtData e) < 65536" using Cons.prems(1) by simp
  have eb: "exts_bytes (e # es) = PutUint16 (ExtType e) @ PutUint16 (of_nat (length (ExtData e))) @ ExtData e @ exts_bytes es"
    by (simp add: ext_bytes_def)
  have step: "parse_exts ende (at pre (exts_bytes (e # es))) acc
      = parse_exts ende (at (pre @ ext_bytes e) (exts_bytes es)) (acc @ [e])"
    using lt le by (subst parse_exts.simps) (simp add: eb ext_bytes_def)
  show ?case
  proof (cases "length (ext_bytes e) \<le> t")
    case True
    have "parse_exts ende (at (pre @ ext_bytes e) (exts_bytes es)) (acc @ [e])
        = ((acc @ [e]) @ es, at ((pre @ ext_bytes e) @ exts_bytes es) [])"
      using Cons.prems True
      by (intro Cons.IH [where t = "t - length (ext_bytes e)"]) (auto split: if_splits)
    with step show ?thesis by simp
  next
    case False
    then have "es = []" using Cons.prems(4) by (cases es) auto
    moreover have "parse_exts ende (at (pre @ ext_bytes e) []) (acc @ [e]) = (acc @ [e], at (pre @ ext_bytes e) [])"
      using False Cons.prems(2) by (subst parse_exts.simps) simp
    ultimately show ?thesis using step by simp
  qed
qed

lemma wire_parses:
  assumes wf: "wf_hello h" and t: "t < 65536" and blk: "block_len_ok t (Extensions h)"
  shows "ParseClientHello (hello_wire v1 v2 t h) = Inr h"
proof -
  define B where "B = body_len h"
  define wB wN wC wT :: u16 where "wB = of_nat B" and "wN = of_nat (B + 4)"
    and "wC = of_nat (length (CipherSuites h) * 2)" and "wT = of_nat t"
  define bS bC :: byte where "bS = of_nat (length (SessionID h))" and "bC = of_nat (length (Compression h))"
  have B4: "B + 4 < 65536" using wf by (simp add: wf_hello_def B_def)
  have len: "length (hello_wire v1 v2 t h) = B + 9"
    by (simp add: hello_wire_def body_len_def B_def)
  have b3: "nat_be 3 B = 0 # PutUint16 wB"
    using nat_be_3_parts [of B 0 wB] B4 by (simp add: wB_def)
  define rest where "rest = 0x01 # 0 # PutUint16 wB @ PutUint16 (LegacyVersion h) @ Random h
      @ bS # SessionID h @ PutUint16 wC @ suites_bytes (CipherSuites h)
      @ bC # Compression h @ PutUint16 wT @ exts_bytes (Extensions h)"
  have wire: "hello_wire v1 v2 t h = ([0x16, v1, v2] @ PutUint16 wN) @ rest"
    unfolding hello_wire_def hello_prefix_def B_def [symmetric] b3 rest_def wN_def wC_def wT_def bS_def bC_def
    by simp
  have d5: "drop 5 (hello_wire v1 v2 t h) = rest"
    unfolding wire by (rule drop_exact_append) simp
  have n: "take 2 (drop 3 (hello_wire v1 v2 t h)) = PutUint16 wN"
    by (simp add: wire numeral_3_eq_3)
  have w0: "hello_wire v1 v2 t h ! 0 = 0x16" by (simp add: wire)
  have start: "\<lparr>r_b = b, r_i = 0, r_err = False\<rparr> = at [] b" for b
    by (simp add: at_def)
  have lens: "unat bS = length (SessionID h)" "unat bC = length (Compression h)"
      "unat wC = 2 * length (CipherSuites h)" "unat wB = B" "unat wN = B + 4" "unat wT = t"
      "length (Random h) = 32"
    using wf B4 t
    by (simp_all add: wf_hello_def bS_def bC_def wC_def wB_def wN_def wT_def del: of_nat_mult of_nat_add)
  have exts: "parse_exts ende (at pre (exts_bytes (Extensions h))) [] = (Extensions h, at (pre @ exts_bytes (Extensions h)) [])"
    if "ende = length pre + t" for pre ende
    using parse_exts_at [of "Extensions h" ende pre t "[]"] wf blk that
    by (simp add: wf_hello_def block_len_ok_def)
  have total: "B = 40 + (length (SessionID h) + (2 * length (CipherSuites h) + (length (Compression h) + length (exts_bytes (Extensions h)))))"
    using lens(7) by (simp add: B_def body_len_def hello_prefix_def)
  show ?thesis
    unfolding ParseClientHello_def n len w0 d5 start rest_def
    using total by (simp add: lens exts)
qed

lemma parse_iff_wire_aux:
  "ParseClientHello rec = Inr h \<longleftrightarrow>
     (\<exists>v1 v2 t. t < 65536 \<and> wf_hello h \<and> block_len_ok t (Extensions h) \<and> rec = hello_wire v1 v2 t h)"
  using parse_is_wire wire_parses by blast

text \<open>
  C15. The parser accepts a record exactly when it is laid out by the ClientHello grammar: the
  record, handshake and field lengths agree with what follows, nothing trails, and the declared
  length of the extension block reaches into the last extension and not past it. The two bytes of
  \<^verbatim>\<open>legacy_record_version\<close> are free.
\<close>

theorem parse_iff_wire:
  "ParseClientHello rec = Inr h \<longleftrightarrow>
     (\<exists>v1 v2 t. t < 65536 \<and> wf_hello h \<and> block_len_ok t (Extensions h) \<and> rec = hello_wire v1 v2 t h)"
  by (rule parse_iff_wire_aux)

section \<open>Round trips\<close>

lemma block_len_ok_exact: "block_len_ok (length (exts_bytes es)) es"
proof (cases es rule: rev_cases)
  case (snoc ys y)
  then show ?thesis by (simp add: block_len_ok_def)
qed (simp add: block_len_ok_def)

lemma wf_exts_len: "wf_hello h \<Longrightarrow> length (exts_bytes (Extensions h)) < 65536"
  by (simp add: wf_hello_def body_len_def)

lemma parse_Marshal_wf: "wf_hello h \<Longrightarrow> ParseClientHello (Marshal h) = Inr h"
  unfolding Marshal_eq_wire by (rule wire_parses) (simp_all add: block_len_ok_exact wf_exts_len)

lemma parse_wf: "ParseClientHello rec = Inr h \<Longrightarrow> wf_hello h"
  using parse_iff_wire_aux by blast

text \<open>
  Whatever a hello holds, if its lengths fit their fields then the record \<open>Marshal\<close> prints
  parses back to exactly that hello, extensions in order and bodies untouched.
\<close>

theorem parse_Marshal: "wf_hello h \<Longrightarrow> ParseClientHello (Marshal h) = Inr h"
  by (rule parse_Marshal_wf)

text \<open>A hello with one extension, for the witnesses.\<close>

definition small_hello :: ClientHello where
  "small_hello = \<lparr>LegacyVersion = 0x0303, Random = replicate 32 7, SessionID = replicate 32 9,
     CipherSuites = [0x1301, 0x1302], Compression = [0],
     Extensions = [Extension ExtServerName [0, 6, 0, 0, 3, 97, 46, 98]]\<rparr>"

lemma small_hello_wf: "wf_hello small_hello"
  by (simp add: wf_hello_def small_hello_def body_len_def hello_prefix_def)

theorem parse_Marshal_witness:
  "wf_hello small_hello \<and> ParseClientHello (Marshal small_hello) = Inr small_hello"
  using small_hello_wf parse_Marshal [OF small_hello_wf] by simp

text \<open>Where the declared length of the extension block stands in the record.\<close>

definition block_pos :: "ClientHello \<Rightarrow> nat" where
  "block_pos h = 9 + length (hello_prefix h)"

lemma wire_split:
  "hello_wire v1 v2 t h =
     0x16 # v1 # v2 # (PutUint16 (of_nat (body_len h + 4)) @ [0x01] @ nat_be 3 (body_len h) @ hello_prefix h)
     @ PutUint16 (of_nat t) @ exts_bytes (Extensions h)"
  by (simp add: hello_wire_def)

lemma wire_update_version: "(hello_wire v1 v2 t h)[1 := a, 2 := b] = hello_wire a b t h"
  by (simp add: wire_split)

lemma list_update_two:
  "length p = n \<Longrightarrow> (p @ [x, y] @ s)[n := a, Suc n := b] = p @ [a, b] @ s"
  by (simp add: list_update_append)

lemma wire_update_block:
  "(hello_wire v1 v2 t h)[block_pos h := ucast (drop_bit 8 (of_nat t' :: u16)), Suc (block_pos h) := ucast (of_nat t' :: u16)]
     = hello_wire v1 v2 t' h"
proof -
  let ?p = "0x16 # v1 # v2 # (PutUint16 (of_nat (body_len h + 4)) @ [0x01] @ nat_be 3 (body_len h) @ hello_prefix h)"
  have w: "hello_wire v1 v2 u h = ?p @ [ucast (drop_bit 8 (of_nat u :: u16)), ucast (of_nat u :: u16)] @ exts_bytes (Extensions h)" for u
    by (simp add: wire_split PutUint16_def)
  have "length ?p = block_pos h" by (simp add: block_pos_def)
  then show ?thesis unfolding w by (rule list_update_two)
qed

text \<open>
  Re-serialising an accepted record changes at most four bytes of it: the record version
  becomes 0x0301 and the declared length of the extension block becomes the true one.
\<close>

theorem Marshal_of_parsed:
  assumes "ParseClientHello rec = Inr h"
  shows "Marshal h =
     rec[1 := 3, 2 := 1,
         block_pos h := ucast (drop_bit 8 (of_nat (length (exts_bytes (Extensions h))) :: u16)),
         Suc (block_pos h) := ucast (of_nat (length (exts_bytes (Extensions h))) :: u16)]"
proof -
  obtain v1 v2 t where "rec = hello_wire v1 v2 t h"
    using assms parse_iff_wire_aux by blast
  then show ?thesis by (simp only: Marshal_eq_wire wire_update_version wire_update_block)
qed

theorem Marshal_of_parsed_witness:
  "ParseClientHello (hello_wire 3 3 12 small_hello) = Inr small_hello \<and>
   Marshal small_hello =
     (hello_wire 3 3 12 small_hello)[1 := 3, 2 := 1,
         block_pos small_hello := ucast (drop_bit 8 (of_nat (length (exts_bytes (Extensions small_hello))) :: u16)),
         Suc (block_pos small_hello) := ucast (of_nat (length (exts_bytes (Extensions small_hello))) :: u16)]"
proof -
  have h: "ParseClientHello (hello_wire 3 3 12 small_hello) = Inr small_hello"
    by (rule wire_parses) (simp_all add: small_hello_wf, simp add: small_hello_def block_len_ok_def)
  show ?thesis using h Marshal_of_parsed [OF h] by simp
qed

text \<open>The wire form determines the version bytes and the declared length.\<close>

lemma hello_wire_inj:
  assumes "t < 65536" and "t' < 65536"
  shows "hello_wire v1 v2 t h = hello_wire w1 w2 t' h \<longleftrightarrow> (v1, v2, t) = (w1, w2, t')"
proof
  assume "hello_wire v1 v2 t h = hello_wire w1 w2 t' h"
  then have v: "v1 = w1" "v2 = w2" and "PutUint16 (of_nat t :: u16) = PutUint16 (of_nat t')"
    by (simp_all add: hello_wire_def)
  then have "(of_nat t :: u16) = of_nat t'" by (metis Uint16_PutUint16)
  then show "(v1, v2, t) = (w1, w2, t')" using assms v by (simp add: word_unat_eq_iff unat_of_nat)
qed simp

definition overrun_record :: bytes where
  "overrun_record = hello_wire 0x03 0x01 5 small_hello"

lemma overrun_record_parses: "ParseClientHello overrun_record = Inr small_hello"
  unfolding overrun_record_def
  by (rule wire_parses) (simp_all add: small_hello_wf, simp add: small_hello_def block_len_ok_def)

lemma Marshal_wire_iff:
  assumes "ParseClientHello (hello_wire v1 v2 t h) = Inr h" and "t < 65536"
  shows "Marshal h = hello_wire v1 v2 t h \<longleftrightarrow> (v1, v2, t) = (3, 1, length (exts_bytes (Extensions h)))"
  unfolding Marshal_eq_wire using hello_wire_inj [of _ t 3 1 h v1 v2] wf_exts_len [OF parse_wf [OF assms(1)]] assms(2)
  by auto

text \<open>
  C16. Parsing and printing a record gives it back byte for byte exactly for the records laid out by
  the grammar with version 0x0301 and the true length of the extension block; and it accepts a record
  and gives back another exactly for those with another version or another declared length that
  the parser lets through. Such records there are: \<open>overrun_record\<close> declares a block that ends inside
  its last extension.
\<close>

theorem reproduced_iff:
  "((case ParseClientHello rec of Inr h \<Rightarrow> Marshal h = rec | Inl _ \<Rightarrow> False) \<longleftrightarrow>
      (\<exists>h. wf_hello h \<and> rec = hello_wire 3 1 (length (exts_bytes (Extensions h))) h))
   \<and> ((case ParseClientHello rec of Inr h \<Rightarrow> Marshal h \<noteq> rec | Inl _ \<Rightarrow> False) \<longleftrightarrow>
      (\<exists>h v1 v2 t. wf_hello h \<and> t < 65536 \<and> block_len_ok t (Extensions h) \<and> rec = hello_wire v1 v2 t h
         \<and> (v1, v2, t) \<noteq> (3, 1, length (exts_bytes (Extensions h)))))
   \<and> ParseClientHello overrun_record = Inr small_hello \<and> Marshal small_hello \<noteq> overrun_record"
  (is "(?l1 \<longleftrightarrow> ?r1) \<and> (?l2 \<longleftrightarrow> ?r2) \<and> _ \<and> _")
proof (intro conjI)
  have wire: "\<exists>v1 v2 t. t < 65536 \<and> wf_hello h \<and> block_len_ok t (Extensions h) \<and> rec = hello_wire v1 v2 t h"
    if "ParseClientHello rec = Inr h" for h using that parse_iff_wire_aux by blast
  have parses: "ParseClientHello (hello_wire v1 v2 t h) = Inr h"
    if "t < 65536" "wf_hello h" "block_len_ok t (Extensions h)" for v1 v2 t h
    using that by (simp add: wire_parses)
  show "?l1 \<longleftrightarrow> ?r1"
  proof
    assume ?l1
    then obtain h where "ParseClientHello rec = Inr h" "Marshal h = rec" by (auto split: sum.splits)
    then show ?r1 using parse_wf Marshal_eq_wire by blast
  next
    assume ?r1
    then show ?l1 using parse_Marshal_wf by (auto simp: Marshal_eq_wire)
  qed
  show "?l2 \<longleftrightarrow> ?r2"
  proof
    assume ?l2
    then obtain h where p: "ParseClientHello rec = Inr h" and n: "Marshal h \<noteq> rec" by (auto split: sum.splits)
    obtain v1 v2 t where w: "t < 65536" "wf_hello h" "block_len_ok t (Extensions h)" "rec = hello_wire v1 v2 t h"
      using wire [OF p] by blast
    then show ?r2 using n Marshal_wire_iff [OF parses [OF w(1-3)] w(1), of v1 v2] by blast
  next
    assume ?r2
    then obtain h v1 v2 t where w: "t < 65536" "wf_hello h" "block_len_ok t (Extensions h)" "rec = hello_wire v1 v2 t h"
      and n: "(v1, v2, t) \<noteq> (3, 1, length (exts_bytes (Extensions h)))" by blast
    show ?l2 using Marshal_wire_iff [OF parses [OF w(1-3)] w(1), of v1 v2] n parses [OF w(1-3), of v1 v2]
      unfolding w(4) by simp
  qed
  show "ParseClientHello overrun_record = Inr small_hello" by (rule overrun_record_parses)
  have "length (exts_bytes (Extensions small_hello)) = 12" by (simp add: small_hello_def)
  then show "Marshal small_hello \<noteq> overrun_record"
    using Marshal_wire_iff [OF overrun_record_parses [unfolded overrun_record_def]] by (simp add: overrun_record_def)
qed

section \<open>Finding and replacing extensions\<close>

named_theorems hello_simps \<open>how the operations on a hello see one another\<close>

lemma Find_type [dest]: "Find t h = Some e \<Longrightarrow> ExtType e = t"
  by (auto simp: Find_def find_Some_iff)

lemma Find_in: "Find t h = Some e \<Longrightarrow> e \<in> set (Extensions h)"
  by (auto simp: Find_def find_Some_iff in_set_conv_nth)

lemma Find_None: "Find t h = None \<longleftrightarrow> (\<forall>e\<in>set (Extensions h). ExtType e \<noteq> t)"
  by (auto simp: Find_def find_None_iff)

lemma find_set_first:
  "find (\<lambda>e. ExtType e = u) (set_first t d es)
     = (if u = t then map_option (\<lambda>e. Extension t d) (find (\<lambda>e. ExtType e = t) es)
        else find (\<lambda>e. ExtType e = u) es)"
  by (induction es) auto

lemma Find_SetExtData [hello_simps]:
  "Find u (SetExtData t d h) = (if u = t then map_option (\<lambda>e. Extension t d) (Find t h) else Find u h)"
  by (simp add: Find_def SetExtData_def find_set_first)

lemma SetExtData_sel [hello_simps]:
  "LegacyVersion (SetExtData t d h) = LegacyVersion h" "Random (SetExtData t d h) = Random h"
  "SessionID (SetExtData t d h) = SessionID h" "CipherSuites (SetExtData t d h) = CipherSuites h"
  "Compression (SetExtData t d h) = Compression h"
  "Extensions (SetExtData t d h) = set_first t d (Extensions h)"
  by (simp_all add: SetExtData_def)

lemma length_set_first [simp]: "length (set_first t d es) = length es"
  by (induction es) auto

lemma types_set_first [hello_simps]: "map ExtType (set_first t d es) = map ExtType es"
  by (induction es) auto

lemma find_filter_other:
  "u \<noteq> t \<Longrightarrow> find (\<lambda>e. ExtType e = u) (filter (\<lambda>e. ExtType e \<noteq> t) es) = find (\<lambda>e. ExtType e = u) es"
  by (induction es) auto

lemma Find_dropExtension [hello_simps]:
  "Find u (fst (dropExtension t h)) = (if u = t then None else Find u h)"
  by (auto simp: dropExtension_def Let_def Find_def find_filter_other find_None_iff)

lemma dropExtension_removed: "snd (dropExtension t h) \<longleftrightarrow> Find t h \<noteq> None"
proof -
  have "length (filter P es) = length es \<longleftrightarrow> (\<forall>e\<in>set es. P e)" for P and es :: "Extension list"
    by (metis filter_True length_filter_less less_irrefl)
  then show ?thesis by (simp add: dropExtension_def Let_def Find_None)
qed

definition sni_body :: "bytes \<Rightarrow> bytes" where
  "sni_body name = PutUint16 (of_nat (length name + 3)) @ [0] @ PutUint16 (of_nat (length name)) @ name"

lemma SetSNI_eq:
  "SetSNI name h =
     (if Find ExtServerName h = None then Inl (Err ''twiddle: hello has no server_name extension'')
      else if 65530 < length name then Inl (Err ''twiddle: server name too long'')
      else Inr (SetExtData ExtServerName (sni_body name) h))"
  by (simp add: SetSNI_def sni_body_def Let_def appendU16_eq split: option.splits)

lemma SNI_of_body:
  assumes "Find ExtServerName h = Some e" and "ExtData e = sni_body name" and "length name < 65536"
  shows "SNI h = name"
proof -
  let ?p = "PutUint16 (of_nat (length name + 3) :: u16) @ [0]"
  have len: "length ?p = 3" by simp
  have body: "sni_body name = ?p @ PutUint16 (of_nat (length name)) @ name" by (simp add: sni_body_def)
  have d3: "drop 3 (sni_body name) = PutUint16 (of_nat (length name)) @ name"
    unfolding body by (rule drop_exact_append) (simp add: len)
  have d5: "drop 5 (sni_body name) = name"
    using arg_cong [OF d3, of "drop 2"] by simp
  have len: "length (sni_body name) = 5 + length name" by (simp add: sni_body_def)
  have n: "unat (Uint16 (take 2 (drop 3 (sni_body name)))) = length name"
    using assms(3) by (simp add: d3)
  show ?thesis unfolding SNI_def by (simp add: assms(1,2) len n d5)
qed

text \<open>
  \<open>SetSNI\<close> succeeds exactly on a hello with a server_name extension and a name of at most
  65530 bytes, and then \<open>SNI\<close> reads back that name; no other extension or field changes.
\<close>

theorem SetSNI_SNI:
  "(SetSNI name h = Inr h' \<longrightarrow>
      SNI h' = name \<and> map ExtType (Extensions h') = map ExtType (Extensions h)
      \<and> (\<forall>u. u \<noteq> ExtServerName \<longrightarrow> Find u h' = Find u h))
   \<and> ((\<exists>h'. SetSNI name h = Inr h') \<longleftrightarrow> Find ExtServerName h \<noteq> None \<and> length name \<le> 65530)"
proof -
  have "SNI (SetExtData ExtServerName (sni_body name) h) = name"
    if "Find ExtServerName h \<noteq> None" "length name \<le> 65530"
    using that by (intro SNI_of_body) (auto simp: Find_SetExtData)
  then show ?thesis by (auto simp: SetSNI_eq hello_simps)
qed

theorem SetSNI_SNI_witness:
  "\<exists>h'. SetSNI (str ''www.google.com'') small_hello = Inr h' \<and> SNI h' = str ''www.google.com''"
proof -
  have "Find ExtServerName small_hello \<noteq> None" by (simp add: Find_def small_hello_def)
  moreover have "length (str ''www.google.com'') \<le> 65530" by (simp add: str_def)
  ultimately obtain h' where "SetSNI (str ''www.google.com'') small_hello = Inr h'"
    using SetSNI_SNI [of "str ''www.google.com''" small_hello small_hello] by blast
  then show ?thesis
    using SetSNI_SNI [of "str ''www.google.com''" small_hello h'] by blast
qed

end
