(* ===== verification/ServerHello.thy ===== *)
theory ServerHello
  imports Hello
begin

text \<open>
  \<^verbatim>\<open>src/serverhello.go\<close>: the server's half of the opening. \<open>SynthesizeServerHello\<close> draws the ML-KEM
  stand-in and the server random from the entropy tape and lays out the record;
  \<open>ServerEphemeralFromShare\<close> is the client's reading of it. The facts are the measured lengths and
  the round trip of the X25519 key and of the extensions.
\<close>

section \<open>Parameters\<close>

abbreviation GroupX25519MLKEM768 :: u16 where "GroupX25519MLKEM768 \<equiv> 0x11ec"
abbreviation mlkem768CiphertextLen :: nat where "mlkem768CiphertextLen \<equiv> 1088"
abbreviation mlkem768EncapKeyLen :: nat where "mlkem768EncapKeyLen \<equiv> 1184"
abbreviation hybridServerShareLen :: nat where "hybridServerShareLen \<equiv> 1120"
abbreviation TLS_AES_128_GCM_SHA256 :: u16 where "TLS_AES_128_GCM_SHA256 \<equiv> 0x1301"
abbreviation TLS_AES_256_GCM_SHA384 :: u16 where "TLS_AES_256_GCM_SHA384 \<equiv> 0x1302"
abbreviation ServerHelloResumedLen :: nat where "ServerHelloResumedLen \<equiv> 1221"
abbreviation ServerHelloFullLen :: nat where "ServerHelloFullLen \<equiv> 1215"

text \<open>\<open>sp_ServerEphemeral\<close> is the nil-able public key, held as its 32 bytes.\<close>

record ServerHelloParams =
  sp_SessionIDEcho :: bytes
  sp_CipherSuite :: u16
  sp_ServerEphemeral :: "bytes option"
  sp_SelectedIdentity :: u16
  sp_PSKFirst :: bool
  sp_FullHandshake :: bool

section \<open>Operations\<close>

definition SynthesizeServerHello :: "ServerHelloParams \<Rightarrow> bytes rnd" where
  "SynthesizeServerHello p =
     (if sp_SessionIDEcho p = [] \<or> 32 < length (sp_SessionIDEcho p)
      then failR (Err ''twiddle: session_id echo must be 1..32 bytes'')
      else case sp_ServerEphemeral p of
        None \<Rightarrow> failR (Err ''twiddle: no server ephemeral'')
      | Some eph \<Rightarrow>
          let suite = (if sp_CipherSuite p = 0 then TLS_AES_128_GCM_SHA256 else sp_CipherSuite p)
          in bindR (rand_Read mlkem768CiphertextLen) (\<lambda>ct.
             let share = go_copy mlkem768CiphertextLen eph (ct @ replicate 32 0);
                 psk = (if sp_FullHandshake p then []
                        else appendU16 (appendU16 (appendU16 [] ExtPreSharedKey) 2) (sp_SelectedIdentity p));
                 rest = appendU16 [] 0x002b;
                 rest = appendU16 rest 2;
                 rest = appendU16 rest 0x0304;
                 rest = appendU16 rest ExtKeyShare;
                 rest = appendU16 rest (of_nat (4 + length share));
                 rest = appendU16 rest GroupX25519MLKEM768;
                 rest = appendU16 rest (of_nat (length share));
                 rest = rest @ share;
                 ext = (if sp_PSKFirst p then psk @ rest else rest @ psk);
                 body = appendU16 [] 0x0303
             in bindR (rand_Read 32) (\<lambda>random.
                let body = body @ random;
                    body = body @ [of_nat (length (sp_SessionIDEcho p))];
                    body = body @ sp_SessionIDEcho p;
                    body = appendU16 body suite;
                    body = body @ [0x00];
                    body = appendU16 body (of_nat (length ext));
                    body = body @ ext;
                    out = [0x16, 0x03, 0x03];
                    out = appendU16 out (of_nat (length body + 4));
                    out = out @ [0x02, of_nat (length body div 65536), of_nat (length body div 256), of_nat (length body)]
                in returnR (out @ body))))"

definition ChangeCipherSpec :: bytes where
  "ChangeCipherSpec = [0x14, 0x03, 0x03, 0x00, 0x01, 0x01]"

text \<open>The extension loop of \<^verbatim>\<open>parseServerHelloExtensions\<close>; a later extension overwrites an earlier one.\<close>

function psh_loop :: "bytes \<Rightarrow> nat \<Rightarrow> nat \<Rightarrow> (u16 \<rightharpoonup> bytes) \<Rightarrow> (u16 \<rightharpoonup> bytes) res" where
  "psh_loop b ende p out =
     (if p + 4 \<le> ende \<and> p + 4 \<le> length b
      then let t = Uint16 (slice b p (p + 2));
               n = unat (Uint16 (slice b (p + 2) (p + 4)))
           in if length b < p + 4 + n then Inl ErrMalformed
              else psh_loop b ende (p + 4 + n) (out(t \<mapsto> slice b (p + 4) (p + 4 + n)))
      else Inr out)"
  by pat_completeness auto
termination
  by (relation "measure (\<lambda>(b, ende, p, out). length b - p)") auto

declare psh_loop.simps [simp del]

definition parseServerHelloExtensions :: "bytes \<Rightarrow> (u16 \<rightharpoonup> bytes) res" where
  "parseServerHelloExtensions rec =
     (if length rec < 9 \<or> rec ! 0 \<noteq> 0x16 \<or> rec ! 5 \<noteq> 0x02
      then Inl (Err ''twiddle: not a ServerHello record'')
      else
        let b = drop 9 rec;
            p = 2 + 32
        in if length b \<le> p then Inl ErrMalformed
           else
             let p = p + 1 + unat (b ! p);
                 p = p + 2 + 1
             in if length b < p + 2 then Inl ErrMalformed
                else psh_loop b (p + 2 + unat (Uint16 (slice b p (p + 2)))) (p + 2) Map.empty)"

definition ServerEphemeralFromShare :: "bytes \<Rightarrow> bytes res" where
  "ServerEphemeralFromShare sh =
     bindE (parseServerHelloExtensions sh) (\<lambda>h.
       case h ExtKeyShare of
         None \<Rightarrow> Inl (Err ''twiddle: ServerHello has no key_share'')
       | Some share \<Rightarrow>
           if length share < 4 then Inl (Err ''twiddle: ServerHello has no key_share'')
           else let n = unat (Uint16 (slice share 2 4))
                in if length share < 4 + n \<or> n < 32 then Inl ErrMalformed
                   else x25519_NewPublicKey (slice share (4 + n - 32) (4 + n)))"

section \<open>The layout\<close>

text \<open>The extensions of the synthesised hello, and the record around them.\<close>

definition server_exts :: "ServerHelloParams \<Rightarrow> bytes \<Rightarrow> bytes \<Rightarrow> Extension list" where
  "server_exts p eph ct =
     (let psk = (if sp_FullHandshake p then [] else [Extension ExtPreSharedKey (PutUint16 (sp_SelectedIdentity p))]);
          rest = [Extension ExtSupportedVersions [0x03, 0x04],
                  Extension ExtKeyShare (PutUint16 GroupX25519MLKEM768 @ PutUint16 1120 @ ct @ eph)]
      in if sp_PSKFirst p then psk @ rest else rest @ psk)"

definition server_head :: "ServerHelloParams \<Rightarrow> bytes \<Rightarrow> bytes" where
  "server_head p random =
     [0x03, 0x03] @ random @ [of_nat (length (sp_SessionIDEcho p))] @ sp_SessionIDEcho p
     @ PutUint16 (if sp_CipherSuite p = 0 then TLS_AES_128_GCM_SHA256 else sp_CipherSuite p) @ [0x00]"

definition server_wire :: "ServerHelloParams \<Rightarrow> bytes \<Rightarrow> bytes \<Rightarrow> bytes \<Rightarrow> bytes" where
  "server_wire p eph ct random =
     (let ext = exts_bytes (server_exts p eph ct);
          body = server_head p random @ PutUint16 (of_nat (length ext)) @ ext
      in [0x16, 0x03, 0x03] @ PutUint16 (of_nat (length body + 4)) @ [0x02] @ nat_be 3 (length body) @ body)"

lemma PutUint16_const: "PutUint16 (numeral w) = [ucast (drop_bit 8 (numeral w :: u16)), ucast (numeral w :: u16)]"
  by (simp add: PutUint16_def)

lemma server_exts_bytes:
  assumes "length ct = 1088" and "length eph = 32"
  shows "(if sp_PSKFirst p
          then (if sp_FullHandshake p then []
                else PutUint16 ExtPreSharedKey @ PutUint16 2 @ PutUint16 (sp_SelectedIdentity p))
            @ PutUint16 0x002b @ PutUint16 2 @ PutUint16 0x0304 @ PutUint16 ExtKeyShare @ PutUint16 1124
            @ PutUint16 GroupX25519MLKEM768 @ PutUint16 1120 @ ct @ eph
          else PutUint16 0x002b @ PutUint16 2 @ PutUint16 0x0304 @ PutUint16 ExtKeyShare @ PutUint16 1124
            @ PutUint16 GroupX25519MLKEM768 @ PutUint16 1120 @ ct @ eph
            @ (if sp_FullHandshake p then []
               else PutUint16 ExtPreSharedKey @ PutUint16 2 @ PutUint16 (sp_SelectedIdentity p)))
     = exts_bytes (server_exts p eph ct)"
  using assms by (auto simp: server_exts_def ext_bytes_def Let_def PutUint16_const)

lemma length_server_exts:
  assumes "length ct = 1088" and "length eph = 32"
  shows "length (exts_bytes (server_exts p eph ct)) = (if sp_FullHandshake p then 1134 else 1140)"
  using assms by (auto simp: server_exts_def Let_def)

lemma length_server_head: "length random = 32 \<Longrightarrow> length (server_head p random) = 38 + length (sp_SessionIDEcho p)"
  by (simp add: server_head_def)

lemma length_server_wire:
  assumes "length ct = 1088" and "length eph = 32" and "length random = 32"
  shows "length (server_wire p eph ct random)
     = length (sp_SessionIDEcho p) + (if sp_FullHandshake p then 1183 else 1189)"
  using assms by (simp add: server_wire_def Let_def length_server_exts length_server_head)

text \<open>When the server can answer, and what it then writes.\<close>

lemma synth_wire:
  assumes eph: "sp_ServerEphemeral p = Some eph" "length eph = 32"
    and sid: "sp_SessionIDEcho p \<noteq> []" "length (sp_SessionIDEcho p) \<le> 32"
  shows "SynthesizeServerHello p t =
     (if length t < 1120 then Inl ErrRand
      else Inr (server_wire p eph (take 1088 t) (slice t 1088 1120), drop 1120 t))"
proof -
  have copy: "go_copy 1088 eph (ct @ replicate 32 0) = ct @ eph" if "length ct = 1088" for ct
    using that eph(2) by (simp add: go_copy_def)
  show ?thesis
  proof (cases "length t < 1088")
    case True
    then show ?thesis
      using eph sid by (simp add: SynthesizeServerHello_def bindR_def rand_Read_def)
  next
    case False
    define ct where "ct = take 1088 t"
    have ct: "length ct = 1088" using False by (simp add: ct_def)
    have read: "rand_Read 1088 t = Inr (ct, drop 1088 t)"
      using False by (simp add: rand_Read_def ct_def)
    have c: "go_copy 1088 eph (ct @ replicate 32 0) = ct @ eph" by (rule copy [OF ct])
    show ?thesis
    proof (cases "length t < 1120")
      case True
      then have "rand_Read 32 (drop 1088 t) = Inl ErrRand" by (auto simp: rand_Read_def)
      with True read eph sid show ?thesis
        by (simp add: SynthesizeServerHello_def bindR_def Let_def)
    next
      case False
      define random where "random = slice t 1088 1120"
      have r: "rand_Read 32 (drop 1088 t) = Inr (random, drop 1120 t)"
        using False by (simp add: rand_Read_def random_def slice_def)
      have "SynthesizeServerHello p t = Inr (server_wire p eph ct random, drop 1120 t)"
        using eph sid read r ct
        unfolding SynthesizeServerHello_def server_wire_def
        unfolding server_exts_bytes [OF ct eph(2), symmetric]
        by (simp add: bindR_def returnR_def Let_def c appendU16_eq server_head_def nat_be_3
            PutUint16_const [of "_ :: num"])
      then show ?thesis using False by (simp add: ct_def random_def)
    qed
  qed
qed

section \<open>Reading it back\<close>

definition ext_map :: "Extension list \<Rightarrow> (u16 \<rightharpoonup> bytes)" where
  "ext_map es = foldl (\<lambda>m e. m(ExtType e \<mapsto> ExtData e)) Map.empty es"

lemma psh_loop_stop: "ende = length b \<Longrightarrow> p = length b \<Longrightarrow> psh_loop b ende p out = Inr out"
  by (subst psh_loop.simps) simp

lemma psh_loop_step:
  assumes "p + 4 \<le> ende" and "p + 4 + n \<le> length b" and "Uint16 (slice b p (p + 2)) = t"
    and "unat (Uint16 (slice b (p + 2) (p + 4))) = n" and "slice b (p + 4) (p + 4 + n) = d"
  shows "psh_loop b ende p out = psh_loop b ende (p + 4 + n) (out(t \<mapsto> d))"
  using assms by (subst psh_loop.simps) (simp add: Let_def)

lemma psh_loop_ext:
  assumes "length (ExtData e) < 65536"
  shows "psh_loop (pre @ ext_bytes e @ suf) (length (pre @ ext_bytes e @ suf)) (length pre) out
     = psh_loop ((pre @ ext_bytes e) @ suf) (length ((pre @ ext_bytes e) @ suf)) (length (pre @ ext_bytes e))
         (out(ExtType e \<mapsto> ExtData e))"
proof -
  let ?b = "pre @ ext_bytes e @ suf"
  have t: "Uint16 (slice ?b (length pre) (length pre + 2)) = ExtType e"
    by (simp add: slice_def ext_bytes_def)
  have n: "unat (Uint16 (slice ?b (length pre + 2) (length pre + 4))) = length (ExtData e)"
    using assms by (simp add: slice_def ext_bytes_def)
  have d: "slice ?b (length pre + 4) (length pre + 4 + length (ExtData e)) = ExtData e"
    by (simp add: slice_def ext_bytes_def)
  have "psh_loop ?b (length ?b) (length pre) out
      = psh_loop ?b (length ?b) (length pre + 4 + length (ExtData e)) (out(ExtType e \<mapsto> ExtData e))"
    by (rule psh_loop_step [OF _ _ t n d]) simp_all
  then show ?thesis by (simp add: add.assoc)
qed

lemma psh_loop_exts:
  assumes "\<forall>e\<in>set es. length (ExtData e) < 65536"
  shows "psh_loop (pre @ exts_bytes es) (length (pre @ exts_bytes es)) (length pre) out
     = Inr (foldl (\<lambda>m e. m(ExtType e \<mapsto> ExtData e)) out es)"
  using assms
proof (induction es arbitrary: pre out)
  case Nil
  then show ?case by (simp add: psh_loop_stop)
next
  case (Cons e es)
  have "psh_loop (pre @ ext_bytes e @ exts_bytes es) (length (pre @ ext_bytes e @ exts_bytes es)) (length pre) out
      = psh_loop ((pre @ ext_bytes e) @ exts_bytes es) (length ((pre @ ext_bytes e) @ exts_bytes es))
          (length (pre @ ext_bytes e)) (out(ExtType e \<mapsto> ExtData e))"
    using Cons.prems by (intro psh_loop_ext) simp
  also have "\<dots> = Inr (foldl (\<lambda>m e. m(ExtType e \<mapsto> ExtData e)) (out(ExtType e \<mapsto> ExtData e)) es)"
    using Cons.prems by (intro Cons.IH) simp
  finally show ?case by (simp only: exts_bytes_simps foldl.simps)
qed

lemma parse_server_wire:
  assumes ct: "length ct = 1088" and eph: "length eph = 32" and rnd: "length random = 32"
    and sid: "length (sp_SessionIDEcho p) \<le> 32"
  shows "parseServerHelloExtensions (server_wire p eph ct random) = Inr (ext_map (server_exts p eph ct))"
proof -
  define ext where "ext = exts_bytes (server_exts p eph ct)"
  define pre where "pre = server_head p random @ PutUint16 (of_nat (length ext))"
  define s where "s = length (sp_SessionIDEcho p)"
  define b where "b = pre @ ext"
  define hdr where "hdr = [0x16, 0x03, 0x03] @ PutUint16 (of_nat (length b + 4)) @ [0x02] @ nat_be 3 (length b)"
  have wire: "server_wire p eph ct random = hdr @ b"
    by (simp add: server_wire_def Let_def hdr_def b_def pre_def ext_def)
  have hdr: "length hdr = 9" "hdr ! 0 = 0x16" "hdr ! 5 = 0x02"
    by (simp_all add: hdr_def PutUint16_def)
  have lpre: "length pre = 40 + s" using rnd by (simp add: pre_def length_server_head s_def)
  have lext: "length ext = (if sp_FullHandshake p then 1134 else 1140)"
    using ct eph by (simp add: ext_def length_server_exts)
  have b34: "b ! 34 = of_nat s"
    using rnd by (simp add: b_def pre_def server_head_def nth_append s_def)
  have s: "unat (b ! 34) = s" using sid by (simp add: b34 s_def)
  have lenb: "length b = length pre + length ext" by (simp add: b_def)
  have n: "unat (Uint16 (slice b (34 + 1 + s + 2 + 1) (34 + 1 + s + 2 + 1 + 2))) = length ext"
  proof -
    have "slice b (34 + 1 + s + 2 + 1) (34 + 1 + s + 2 + 1 + 2) = PutUint16 (of_nat (length ext))"
      using rnd unfolding b_def pre_def append_assoc
      by (intro slice_middle) (simp_all add: length_server_head s_def)
    then show ?thesis using lext by (simp split: if_splits)
  qed
  have loop: "psh_loop b (length b) (length pre) Map.empty = Inr (ext_map (server_exts p eph ct))"
    unfolding b_def ext_def ext_map_def
    by (rule psh_loop_exts) (use ct eph in \<open>auto simp: server_exts_def Let_def\<close>)
  have d9: "drop 9 (hdr @ b) = b" using hdr by simp
  have i: "(hdr @ b) ! 0 = 0x16" "(hdr @ b) ! 5 = 0x02" using hdr by (simp_all add: nth_append)
  have "parseServerHelloExtensions (hdr @ b)
      = psh_loop b (34 + 1 + s + 2 + 1 + 2 + length ext) (34 + 1 + s + 2 + 1 + 2) Map.empty"
    unfolding parseServerHelloExtensions_def d9 i Let_def
    using hdr lenb lpre n s by simp
  moreover have "34 + 1 + s + 2 + 1 + 2 + length ext = length b" "34 + 1 + s + 2 + 1 + 2 = length pre"
    using lpre lenb by simp_all
  ultimately show ?thesis using loop wire by simp
qed

lemma ext_map_server:
  "ext_map (server_exts p eph ct) = (\<lambda>t.
     if t = ExtSupportedVersions then Some [0x03, 0x04]
     else if t = ExtKeyShare then Some (PutUint16 GroupX25519MLKEM768 @ PutUint16 1120 @ ct @ eph)
     else if t = ExtPreSharedKey \<and> \<not> sp_FullHandshake p then Some (PutUint16 (sp_SelectedIdentity p))
     else None)"
  by (auto simp: ext_map_def server_exts_def Let_def fun_eq_iff)

lemma share_ephemeral:
  assumes "length ct = 1088" and "length eph = 32" and "length random = 32"
    and "length (sp_SessionIDEcho p) \<le> 32"
  shows "ServerEphemeralFromShare (server_wire p eph ct random) = Inr eph"
proof -
  let ?share = "(PutUint16 GroupX25519MLKEM768 @ PutUint16 1120) @ ct @ eph"
  have n: "slice ?share 2 4 = PutUint16 1120" by (simp add: slice_def)
  have e: "slice ?share 1092 1124 = eph" using assms(1,2) by (simp add: slice_def)
  have "length ?share = 1124" using assms(1,2) by simp
  with n e assms show ?thesis
    by (simp add: ServerEphemeralFromShare_def parse_server_wire ext_map_server x25519_NewPublicKey_def Let_def)
qed

text \<open>The failures of the synthesis, and its success, in one equation.\<close>

lemma synth_cases:
  assumes "\<forall>e. sp_ServerEphemeral p = Some e \<longrightarrow> length e = 32"
  shows "SynthesizeServerHello p t = Inr (out, t') \<longleftrightarrow>
     sp_SessionIDEcho p \<noteq> [] \<and> length (sp_SessionIDEcho p) \<le> 32 \<and> 1120 \<le> length t \<and> t' = drop 1120 t
     \<and> (\<exists>eph. sp_ServerEphemeral p = Some eph \<and> length eph = 32
          \<and> out = server_wire p eph (take 1088 t) (slice t 1088 1120))"
proof (cases "sp_SessionIDEcho p \<noteq> [] \<and> length (sp_SessionIDEcho p) \<le> 32 \<and> sp_ServerEphemeral p \<noteq> None")
  case True
  then obtain eph where e: "sp_ServerEphemeral p = Some eph" by blast
  with True assms show ?thesis by (auto simp: synth_wire [OF e] not_less)
next
  case False
  have bad: "SynthesizeServerHello p = failR (Err ''twiddle: session_id echo must be 1..32 bytes'')"
    if "sp_SessionIDEcho p = [] \<or> 32 < length (sp_SessionIDEcho p)"
    using that by (simp only: SynthesizeServerHello_def if_True)
  have nokey: "SynthesizeServerHello p = failR (Err ''twiddle: no server ephemeral'')"
    if "\<not> (sp_SessionIDEcho p = [] \<or> 32 < length (sp_SessionIDEcho p))" "sp_ServerEphemeral p = None"
    using that by (simp only: SynthesizeServerHello_def if_False option.case)
  from False bad nokey show ?thesis
    by (cases "sp_SessionIDEcho p = [] \<or> 32 < length (sp_SessionIDEcho p)")
       (auto simp: failR_eq_Inr not_less)
qed

text \<open>
  For the 32-byte session id every browser sends, a synthesised ServerHello is exactly as long
  as the measured ones: 1221 bytes resumed and 1215 full, whichever place the cover puts
  pre_shared_key in. For any id the two differ by the six bytes of that extension.
\<close>

theorem SynthesizeServerHello_length:
  assumes "SynthesizeServerHello p t = Inr (out, t')"
    and "\<forall>e. sp_ServerEphemeral p = Some e \<longrightarrow> length e = 32"
  shows "length out + 32 = length (sp_SessionIDEcho p)
           + (if sp_FullHandshake p then ServerHelloFullLen else ServerHelloResumedLen)"
proof -
  obtain eph where "sp_ServerEphemeral p = Some eph" "length eph = 32" "1120 \<le> length t"
    "out = server_wire p eph (take 1088 t) (slice t 1088 1120)"
    using assms by (auto simp: synth_cases)
  then show ?thesis by (simp add: length_server_wire)
qed

definition demo_params :: ServerHelloParams where
  "demo_params = \<lparr>sp_SessionIDEcho = replicate 32 5, sp_CipherSuite = TLS_AES_256_GCM_SHA384,
     sp_ServerEphemeral = Some (replicate 32 9), sp_SelectedIdentity = 0, sp_PSKFirst = True, sp_FullHandshake = False\<rparr>"

lemma demo_synth:
  "SynthesizeServerHello demo_params (replicate 1120 3)
     = Inr (server_wire demo_params (replicate 32 9) (replicate 1088 3) (replicate 32 3), [])"
  by (subst synth_wire [of _ "replicate 32 9"]) (simp_all add: demo_params_def slice_def)

theorem SynthesizeServerHello_length_witness:
  "\<exists>out t'. SynthesizeServerHello demo_params (replicate 1120 3) = Inr (out, t') \<and> length out = 1221"
  using SynthesizeServerHello_length [OF demo_synth] demo_synth by (simp add: demo_params_def)

text \<open>
  C37. What the server writes, the client reads: parsing a synthesised ServerHello yields exactly
  the three extensions (pre_shared_key only on a resumption), and the X25519 key found in the
  hybrid share is the one the server put there.
\<close>

theorem ServerEphemeral_roundtrip:
  assumes "SynthesizeServerHello p t = Inr (out, t')"
    and "\<forall>e. sp_ServerEphemeral p = Some e \<longrightarrow> length e = 32"
  shows "map_option Inr (sp_ServerEphemeral p) = Some (ServerEphemeralFromShare out)
     \<and> (\<exists>m. parseServerHelloExtensions out = Inr m
          \<and> dom m = {ExtSupportedVersions, ExtKeyShare} \<union> (if sp_FullHandshake p then {} else {ExtPreSharedKey})
          \<and> (\<not> sp_FullHandshake p \<longrightarrow> m ExtPreSharedKey = Some (PutUint16 (sp_SelectedIdentity p))))"
proof -
  obtain eph where e: "sp_ServerEphemeral p = Some eph" "length eph = 32" "1120 \<le> length t"
    "length (sp_SessionIDEcho p) \<le> 32" "out = server_wire p eph (take 1088 t) (slice t 1088 1120)"
    using assms by (auto simp: synth_cases)
  then have "parseServerHelloExtensions out = Inr (ext_map (server_exts p eph (take 1088 t)))"
    by (simp add: parse_server_wire)
  moreover have "ServerEphemeralFromShare out = Inr eph" using e by (simp add: share_ephemeral)
  ultimately show ?thesis using e(1) by (auto simp: ext_map_server dom_def split: if_splits)
qed

theorem ServerEphemeral_roundtrip_witness:
  "\<exists>out t'. SynthesizeServerHello demo_params (replicate 1120 3) = Inr (out, t')
     \<and> ServerEphemeralFromShare out = Inr (replicate 32 9)"
  using ServerEphemeral_roundtrip [OF demo_synth] demo_synth by (simp add: demo_params_def)

end
