(* ===== verification/Rerand.thy ===== *)
theory Rerand
  imports ServerHello "HOL-Library.Multiset"
begin

text \<open>
  The per-connection refresh of \<^verbatim>\<open>src/twiddle.go\<close>: \<open>Shuffle\<close> (Fisher-Yates between the pinned ends),
  the GREASE redraw over its six slots, fresh key shares and the GREASE ECH extension, composed by
  \<open>Rerandomize\<close>. The in-place loops over extension bodies are shown equal to what they mean on the
  grammar of those bodies: a list of 16-bit values, a list of key-share entries.
\<close>

section \<open>Shuffling\<close>

text \<open>The Fisher-Yates loop, \<open>i\<close> downwards; \<open>fisher_yates (length xs - 1) xs\<close> runs it on \<open>xs\<close>.\<close>

primrec fisher_yates :: "nat \<Rightarrow> 'a list \<Rightarrow> 'a list rnd" where
  "fisher_yates 0 xs = returnR xs"
| "fisher_yates (Suc i) xs =
     bindR (rand_Int (Suc i + 1)) (\<lambda>k. fisher_yates i (xs[Suc i := xs ! k, k := xs ! Suc i]))"

definition Shuffle :: "ClientHello \<Rightarrow> ClientHello rnd" where
  "Shuffle h =
     (let n = length (Extensions h)
      in if n < 3 then failR (Err ''twiddle: too few extensions to shuffle'')
         else if \<not> IsGREASE (ExtType (Extensions h ! 0))
         then failR (Err ''twiddle: first extension is not GREASE'')
         else
           let head = Extensions h ! 0;
               body = drop 1 (Extensions h);
               last = body ! (length body - 1)
           in bindR (liftR (
                if ExtType last = ExtPreSharedKey
                then if length body < 2 \<or> \<not> IsGREASE (ExtType (body ! (length body - 2)))
                     then Inl (Err ''twiddle: pre_shared_key not preceded by GREASE'')
                     else Inr ([body ! (length body - 2), last], take (length body - 2) body)
                else if \<not> IsGREASE (ExtType last)
                then Inl (Err ''twiddle: last extension is neither GREASE nor pre_shared_key'')
                else Inr ([last], take (length body - 1) body))) (\<lambda>(tail, body).
              bindR (fisher_yates (length body - 1) body) (\<lambda>interior.
              returnR (h\<lparr>Extensions := [head] @ interior @ tail\<rparr>))))"

section \<open>Fresh key shares\<close>

abbreviation GroupX25519 :: u16 where "GroupX25519 \<equiv> 0x001d"

definition freshKeyShare :: "kex \<Rightarrow> u16 \<Rightarrow> bytes \<Rightarrow> bytes rnd" where
  "freshKeyShare K grp out =
     (if grp = GroupX25519 \<and> length out = 32
      then bindR x25519_GenerateKey (\<lambda>k. returnR (go_copy 0 (x25519_public K k) out))
      else if grp = GroupX25519MLKEM768 \<and> length out = mlkem768EncapKeyLen + 32
      then bindR (mlkem_GenerateKey768 K) (\<lambda>dk.
           let out = go_copy 0 (take mlkem768EncapKeyLen dk) out
           in bindR x25519_GenerateKey (\<lambda>k. returnR (go_copy mlkem768EncapKeyLen (x25519_public K k) out)))
      else returnR (replicate (length out) 0))"

text \<open>The loop of \<^verbatim>\<open>rerandKeyShare\<close> from position \<open>p\<close>: each entry's body is overwritten in place.\<close>

function rerandKeyShare_loop :: "kex \<Rightarrow> nat \<Rightarrow> bytes \<Rightarrow> bytes rnd" where
  "rerandKeyShare_loop K p d =
     (if p + 4 \<le> length d
      then let grp = Uint16 (slice d p (p + 2));
               n = unat (Uint16 (slice d (p + 2) (p + 4)))
           in if length d < p + 4 + n then failR ErrMalformed
              else bindR (freshKeyShare K grp (slice d (p + 4) (p + 4 + n))) (\<lambda>k.
                   rerandKeyShare_loop K (p + 4 + n) (go_copy (p + 4) k d))
      else returnR d)"
  by pat_completeness auto
termination
  by (relation "measure (\<lambda>(K, p, d). length d - p)") auto


declare rerandKeyShare_loop.simps [simp del]

definition rerandKeyShare :: "kex \<Rightarrow> bytes \<Rightarrow> bytes rnd" where
  "rerandKeyShare K d = (if length d < 2 then failR ErrMalformed else rerandKeyShare_loop K 2 d)"

section \<open>The GREASE redraw\<close>

abbreviation greaseCount :: nat where "greaseCount \<equiv> 16"

definition greaseValue :: "u16 rnd" where
  "greaseValue = bindR (rand_Int greaseCount) (\<lambda>n. returnR (0x0a0a + of_nat n * 0x1010))"

lemma greaseValue_shorter: "greaseValue t = Inr (v, t') \<Longrightarrow> length t' < length t"
  by (auto simp: greaseValue_def res_simps dest: rand_Int_shorter)

text \<open>\<^verbatim>\<open>for ext2 == ext1\<close>: draw again until the two differ.\<close>

function redraw :: "u16 \<Rightarrow> u16 \<Rightarrow> u16 rnd" where
  "redraw ext1 ext2 t =
     (if ext2 = ext1
      then (case greaseValue t of Inl e \<Rightarrow> Inl e | Inr (v, t') \<Rightarrow> redraw ext1 v t')
      else Inr (ext2, t))"
  by pat_completeness auto
termination
  by (relation "measure (\<lambda>(ext1, ext2, t). length t)") (auto dest: greaseValue_shorter)

declare redraw.simps [simp del]

text \<open>The loop over the positions of the GREASE extensions: \<open>cnt\<close> of them, the \<open>n\<close>-th next.\<close>

fun regrease :: "u16 \<Rightarrow> u16 \<Rightarrow> nat \<Rightarrow> nat \<Rightarrow> nat list \<Rightarrow> Extension list \<Rightarrow> Extension list rnd" where
  "regrease ext1 ext2 cnt n [] es = returnR es"
| "regrease ext1 ext2 cnt n (i # is) es =
     bindR (if n = 0 then returnR ext1 else if n = cnt - 1 then returnR ext2 else greaseValue) (\<lambda>v.
       regrease ext1 ext2 cnt (n + 1) is (es[i := Extension v (ExtData (es ! i))]))"

text \<open>The loop of \<^verbatim>\<open>replaceGREASEInU16List\<close> over the positions \<open>p, p + 2, ...\<close> below \<open>ende\<close>.\<close>

function replace_u16_loop :: "u16 \<Rightarrow> nat \<Rightarrow> nat \<Rightarrow> bytes \<Rightarrow> bytes" where
  "replace_u16_loop v ende p d =
     (if p + 2 \<le> ende
      then replace_u16_loop v ende (p + 2)
             (if IsGREASE (Uint16 (slice d p (p + 2))) then go_copy p (PutUint16 v) d else d)
      else d)"
  by pat_completeness auto
termination
  by (relation "measure (\<lambda>(v, ende, p, d). ende - p)") auto

declare replace_u16_loop.simps [simp del]

definition replaceGREASEInU16List :: "bytes \<Rightarrow> nat \<Rightarrow> u16 \<Rightarrow> bytes" where
  "replaceGREASEInU16List d hdr v =
     (if length d < hdr then d
      else if hdr \<noteq> 1 \<and> hdr \<noteq> 2 then d
      else let n = (if hdr = 1 then unat (d ! 0) else unat (Uint16 (slice d 0 2)));
               ende = hdr + n;
               ende = (if length d < ende then length d else ende)
           in replace_u16_loop v ende hdr d)"

function replace_group_loop :: "u16 \<Rightarrow> nat \<Rightarrow> bytes \<Rightarrow> bytes" where
  "replace_group_loop v p d =
     (if p + 4 \<le> length d
      then let n = unat (Uint16 (slice d (p + 2) (p + 4)));
               d' = (if IsGREASE (Uint16 (slice d p (p + 2))) then go_copy p (PutUint16 v) d else d)
           in if length d < p + 4 + n then d' else replace_group_loop v (p + 4 + n) d'
      else d)"
  by pat_completeness auto
termination
  by (relation "measure (\<lambda>(v, p, d). length d - p)") auto

declare replace_group_loop.simps [simp del]

definition replaceGREASEKeyShareGroup :: "bytes \<Rightarrow> u16 \<Rightarrow> bytes" where
  "replaceGREASEKeyShareGroup d v = (if length d < 2 then d else replace_group_loop v 2 d)"

text \<open>An update through the pointer \<open>Find\<close> returns, when there is such an extension.\<close>

definition on_ext :: "u16 \<Rightarrow> (bytes \<Rightarrow> bytes) \<Rightarrow> ClientHello \<Rightarrow> ClientHello" where
  "on_ext t f h = (case Find t h of None \<Rightarrow> h | Some e \<Rightarrow> SetExtData t (f (ExtData e)) h)"

definition rerandGREASE :: "ClientHello \<Rightarrow> ClientHello rnd" where
  "rerandGREASE h =
     bindR greaseValue (\<lambda>cipher.
     bindR greaseValue (\<lambda>ext1.
     bindR greaseValue (\<lambda>ext2.
     bindR (redraw ext1 ext2) (\<lambda>ext2.
     bindR greaseValue (\<lambda>grp.
     bindR greaseValue (\<lambda>version.
     bindR greaseValue (\<lambda>sigAlg.
       let h = h\<lparr>CipherSuites := map (\<lambda>c. if IsGREASE c then cipher else c) (CipherSuites h)\<rparr>;
           greased = filter (\<lambda>i. IsGREASE (ExtType (Extensions h ! i))) [0..<length (Extensions h)]
       in bindR (regrease ext1 ext2 (length greased) 0 greased (Extensions h)) (\<lambda>es.
          let h = h\<lparr>Extensions := es\<rparr>;
              h = on_ext ExtSupportedGroups (\<lambda>d. replaceGREASEInU16List d 2 grp) h;
              h = on_ext ExtKeyShare (\<lambda>d. replaceGREASEKeyShareGroup d grp) h;
              h = on_ext ExtSupportedVersions (\<lambda>d. replaceGREASEInU16List d 1 version) h;
              h = on_ext ExtSignatureAlgorithms (\<lambda>d. replaceGREASEInU16List d 2 sigAlg) h
          in returnR h))))))))"

section \<open>GREASE ECH\<close>

definition echGREASELengths :: "nat list" where
  "echGREASELengths = [144, 176, 208, 240]"

definition rerandECHGrease :: "bytes \<Rightarrow> bytes rnd" where
  "rerandECHGrease d =
     (if length d < 1 \<or> d ! 0 \<noteq> 0x00 then returnR d
      else bindR (rand_Int (length echGREASELengths)) (\<lambda>pick.
        let payloadLen = echGREASELengths ! pick
        in bindR (rand_Read 32) (\<lambda>enc.
           bindR (rand_Read payloadLen) (\<lambda>payload.
           bindR (rand_Read 1) (\<lambda>cfg.
           let (kdf, aid) = (if 5 \<le> length d then (Uint16 (slice d 1 3), Uint16 (slice d 3 5)) else (1, 1));
               d = [0x00];
               d = appendU16 d kdf;
               d = appendU16 d aid;
               d = d @ [cfg ! 0];
               d = appendU16 d (of_nat (length enc));
               d = d @ enc;
               d = appendU16 d (of_nat (length payload))
           in returnR (d @ payload))))))"

section \<open>Rerandomize\<close>

text \<open>A fallible update through the pointer \<open>Find\<close> returns.\<close>

definition on_extR :: "u16 \<Rightarrow> (bytes \<Rightarrow> bytes rnd) \<Rightarrow> ClientHello \<Rightarrow> ClientHello rnd" where
  "on_extR t f h =
     (case Find t h of None \<Rightarrow> returnR h
      | Some e \<Rightarrow> bindR (f (ExtData e)) (\<lambda>d. returnR (SetExtData t d h)))"

definition Rerandomize :: "kex \<Rightarrow> ClientHello \<Rightarrow> ClientHello rnd" where
  "Rerandomize K h =
     bindR (rerandGREASE h) (\<lambda>h.
     bindR (rand_Read 32) (\<lambda>random.
     let h = h\<lparr>Random := random\<rparr>
     in bindR (if 0 < length (SessionID h)
               then bindR (rand_Read (length (SessionID h))) (\<lambda>sid. returnR (h\<lparr>SessionID := sid\<rparr>))
               else returnR h) (\<lambda>h.
        bindR (on_extR ExtKeyShare (rerandKeyShare K) h) (on_extR ExtECH rerandECHGrease))))"

section \<open>Shuffling is a permutation, and every permutation\<close>

lemma fisher_yates_mset:
  "fisher_yates i xs t = Inr (ys, t') \<Longrightarrow> i < length xs \<Longrightarrow> mset ys = mset xs"
proof (induction i arbitrary: xs t)
  case 0
  then show ?case by (simp add: res_simps)
next
  case (Suc i)
  from Suc.prems obtain k t1 where k: "rand_Int (Suc i + 1) t = Inr (k, t1)"
    and rest: "fisher_yates i (xs[Suc i := xs ! k, k := xs ! Suc i]) t1 = Inr (ys, t')"
    by (auto simp: res_simps)
  have "k < length xs" using rand_Int_less [OF k] Suc.prems(2) by simp
  then have "mset (xs[Suc i := xs ! k, k := xs ! Suc i]) = mset xs"
    using Suc.prems(2) by (intro mset_swap)
  with Suc.IH [OF rest] Suc.prems(2) show ?case by simp
qed

lemma fisher_yates_empty: "fisher_yates 0 xs = returnR xs"
  by simp

lemma fisher_yates_body_mset:
  "fisher_yates (length xs - 1) xs t = Inr (ys, t') \<Longrightarrow> mset ys = mset xs"
  by (cases "xs = []") (auto simp: res_simps intro: fisher_yates_mset)

lemma fisher_yates_suffix:
  "i < length xs \<Longrightarrow> fisher_yates i xs t = Inr (ys, t') \<Longrightarrow> drop (Suc i) ys = drop (Suc i) xs"
proof (induction i arbitrary: xs t)
  case 0
  then show ?case by (simp add: res_simps)
next
  case (Suc i)
  from Suc.prems obtain k t1 where k: "rand_Int (Suc i + 1) t = Inr (k, t1)"
    and rest: "fisher_yates i (xs[Suc i := xs ! k, k := xs ! Suc i]) t1 = Inr (ys, t')"
    by (auto simp: res_simps)
  have kl: "k < Suc (Suc i)" using rand_Int_less [OF k] by simp
  have "drop (Suc i) ys = drop (Suc i) (xs[Suc i := xs ! k, k := xs ! Suc i])"
    using Suc.IH [OF _ rest] Suc.prems(1) by simp
  then have "drop 1 (drop (Suc i) ys) = drop 1 (drop (Suc i) (xs[Suc i := xs ! k, k := xs ! Suc i]))"
    by simp
  with kl show ?case by simp
qed

text \<open>
  Every arrangement of the first \<open>Suc i\<close> elements can come out: choose for each position, from the
  last down, the index where the wanted element stands.
\<close>

lemma fisher_yates_reaches:
  assumes "i < length xs" and "mset ys = mset xs" and "drop (Suc i) ys = drop (Suc i) xs"
  shows "\<exists>r. \<forall>s. fisher_yates i xs (r @ s) = Inr (ys, s)"
  using assms
proof (induction i arbitrary: xs)
  case 0
  have "ys = xs"
  proof (cases xs)
    case (Cons x xs')
    with 0 obtain y where "ys = y # xs'" by (cases ys) auto
    with 0 Cons show ?thesis by simp
  qed (use 0 in simp)
  then have "\<forall>s. fisher_yates 0 xs ([] @ s) = Inr (ys, s)" by (simp add: returnR_def)
  then show ?case by blast
next
  case (Suc i)
  have len: "length ys = length xs" using Suc.prems(2) by (metis size_mset)
  let ?z = "ys ! Suc i"
  have "mset (take (Suc (Suc i)) ys) = mset (take (Suc (Suc i)) xs)"
    using Suc.prems(2,3) by (metis add_right_imp_eq append_take_drop_id mset_append)
  moreover have "?z \<in> set (take (Suc (Suc i)) ys)"
    using Suc.prems(1) len by (simp add: take_Suc_conv_app_nth)
  ultimately have "?z \<in> set (take (Suc (Suc i)) xs)" by (metis mset_eq_setD)
  then obtain k where k: "k < Suc (Suc i)" "xs ! k = ?z"
    using Suc.prems(1) by (auto simp: in_set_conv_nth)
  define xs' where "xs' = xs[Suc i := xs ! k, k := xs ! Suc i]"
  have len': "length xs' = length xs" by (simp add: xs'_def)
  have m: "mset xs' = mset xs"
    unfolding xs'_def using k Suc.prems(1) by (intro mset_swap) simp_all
  have at: "xs' ! Suc i = ?z"
    using k Suc.prems(1) by (auto simp: xs'_def nth_list_update)
  have "drop (Suc (Suc i)) xs' = drop (Suc (Suc i)) xs" using k by (simp add: xs'_def)
  then have d: "drop (Suc i) ys = drop (Suc i) xs'"
    using Suc.prems(1,3) len len' at by (simp add: drop_Cons_nth)
  obtain r where r: "\<forall>s. fisher_yates i xs' (r @ s) = Inr (ys, s)"
    using Suc.IH [of xs'] Suc.prems m d len' by auto
  obtain q where q: "\<forall>s. rand_Int (Suc i + 1) (q @ s) = Inr (k, s)"
    using rand_Int_reaches [of k "Suc i + 1"] k by auto
  have "fisher_yates (Suc i) xs ((q @ r) @ s) = Inr (ys, s)" for s
    using q r by (simp add: bindR_def xs'_def)
  then show ?case by blast
qed

text \<open>A hello Chrome could have sent: GREASE at both ends, pre_shared_key only after the second.\<close>

definition shuffle_parts :: "Extension list \<Rightarrow> Extension \<Rightarrow> Extension list \<Rightarrow> Extension list \<Rightarrow> bool" where
  "shuffle_parts es a mid tail \<longleftrightarrow>
     es = a # mid @ tail \<and> 3 \<le> length es \<and> IsGREASE (ExtType a)
     \<and> ((\<exists>g. tail = [g] \<and> IsGREASE (ExtType g))
        \<or> (\<exists>g p. tail = [g, p] \<and> IsGREASE (ExtType g) \<and> ExtType p = ExtPreSharedKey))"

lemma not_GREASE_psk: "\<not> IsGREASE ExtPreSharedKey"
  by (simp add: IsGREASE_def)

lemma Shuffle_of_parts:
  assumes "shuffle_parts (Extensions h) a mid tail"
  shows "Shuffle h = bindR (fisher_yates (length mid - 1) mid) (\<lambda>m. returnR (h\<lparr>Extensions := a # m @ tail\<rparr>))"
proof -
  from assms have es: "Extensions h = a # mid @ tail" and n: "\<not> length (Extensions h) < 3"
    and a: "IsGREASE (ExtType a)" by (auto simp: shuffle_parts_def)
  from assms consider g where "tail = [g]" "IsGREASE (ExtType g)" "ExtType g \<noteq> ExtPreSharedKey"
    | g p where "tail = [g, p]" "IsGREASE (ExtType g)" "ExtType p = ExtPreSharedKey"
    using not_GREASE_psk unfolding shuffle_parts_def by metis
  then show ?thesis
  proof cases
    case 1
    then show ?thesis using es n a by (simp add: Shuffle_def nth_append)
  next
    case 2
    then show ?thesis using es n a by (simp add: Shuffle_def nth_append)
  qed
qed

lemma Shuffle_refuses:
  "length (Extensions h) < 3 \<Longrightarrow> Shuffle h = failR (Err ''twiddle: too few extensions to shuffle'')"
  "Extensions h = a # body \<Longrightarrow> 2 \<le> length body \<Longrightarrow> \<not> IsGREASE (ExtType a)
     \<Longrightarrow> Shuffle h = failR (Err ''twiddle: first extension is not GREASE'')"
  "Extensions h = a # mid @ [g, l] \<Longrightarrow> IsGREASE (ExtType a) \<Longrightarrow> ExtType l = ExtPreSharedKey
     \<Longrightarrow> \<not> IsGREASE (ExtType g) \<Longrightarrow> Shuffle h = failR (Err ''twiddle: pre_shared_key not preceded by GREASE'')"
  "Extensions h = a # mid @ [g, l] \<Longrightarrow> IsGREASE (ExtType a) \<Longrightarrow> ExtType l \<noteq> ExtPreSharedKey
     \<Longrightarrow> \<not> IsGREASE (ExtType l)
     \<Longrightarrow> Shuffle h = failR (Err ''twiddle: last extension is neither GREASE nor pre_shared_key'')"
     apply (simp only: Shuffle_def Let_def if_True)
    apply (simp add: Shuffle_def)
   apply (simp add: Shuffle_def nth_append liftR_def bindR_def failR_def)
  apply (simp add: Shuffle_def nth_append liftR_def bindR_def failR_def)
  done

lemma Shuffle_has_parts:
  assumes "Shuffle h t = Inr r"
  shows "\<exists>a mid tail. shuffle_parts (Extensions h) a mid tail"
proof -
  have ok: "Shuffle h \<noteq> failR e" for e
    using assms by (auto simp: failR_def)
  have "3 \<le> length (Extensions h)" using ok Shuffle_refuses(1) by (metis not_less)
  then obtain a body where es: "Extensions h = a # body" and n: "2 \<le> length body"
    by (cases "Extensions h") auto
  obtain l rest where "body = rest @ [l]" using n by (cases body rule: rev_cases) auto
  moreover obtain g mid where "rest = mid @ [g]"
    using n \<open>body = rest @ [l]\<close> by (cases rest rule: rev_cases) auto
  ultimately have body: "body = mid @ [g, l]" by simp
  have a: "IsGREASE (ExtType a)" using ok Shuffle_refuses(2) [OF es n] by blast
  have es': "Extensions h = a # mid @ [g, l]" using es body by simp
  show ?thesis
  proof (cases "ExtType l = ExtPreSharedKey")
    case True
    have "IsGREASE (ExtType g)" using ok Shuffle_refuses(3) [OF es' a True] by blast
    with es' a True have "shuffle_parts (Extensions h) a mid [g, l]"
      by (simp add: shuffle_parts_def)
    then show ?thesis by blast
  next
    case False
    have "IsGREASE (ExtType l)" using ok Shuffle_refuses(4) [OF es' a False] by blast
    with es' a have "shuffle_parts (Extensions h) a (mid @ [g]) [l]"
      by (simp add: shuffle_parts_def)
    then show ?thesis by blast
  qed
qed

lemma Shuffle_result:
  assumes "Shuffle h t = Inr (h', t')"
  obtains a mid tail mid' where "shuffle_parts (Extensions h) a mid tail" "mset mid' = mset mid"
    "h' = h\<lparr>Extensions := a # mid' @ tail\<rparr>"
proof -
  obtain a mid tail where p: "shuffle_parts (Extensions h) a mid tail"
    using Shuffle_has_parts [OF assms] by blast
  then obtain m where "fisher_yates (length mid - 1) mid t = Inr (m, t')" "h' = h\<lparr>Extensions := a # m @ tail\<rparr>"
    using assms by (auto simp: Shuffle_of_parts res_simps)
  with fisher_yates_body_mset p that show thesis by blast
qed

text \<open>
  C22. A successful shuffle permutes the extensions and nothing else: the GREASE extension in front
  stays in front, and so do the last one and, when that is pre_shared_key, the GREASE extension
  before it.
\<close>

theorem Shuffle_permutes:
  assumes "Shuffle h t = Inr (h', t')"
  shows "\<exists>a mid mid' tail. shuffle_parts (Extensions h) a mid tail \<and> shuffle_parts (Extensions h') a mid' tail
     \<and> mset mid' = mset mid \<and> h' = h\<lparr>Extensions := Extensions h'\<rparr>"
proof -
  obtain a mid tail mid' where p: "shuffle_parts (Extensions h) a mid tail" "mset mid' = mset mid"
    "h' = h\<lparr>Extensions := a # mid' @ tail\<rparr>"
    using Shuffle_result [OF assms] by blast
  moreover have "length mid' = length mid" using p(2) by (metis size_mset)
  ultimately have "shuffle_parts (Extensions h') a mid' tail" by (auto simp: shuffle_parts_def)
  with p show ?thesis by (intro exI [of _ a] exI [of _ mid] exI [of _ mid'] exI [of _ tail]) simp
qed

definition shuffle_hello :: ClientHello where
  "shuffle_hello = small_hello\<lparr>Extensions :=
     [Extension 0x1a1a [], Extension 0 [1], Extension 0x17 [], Extension 0x2a2a [0]]\<rparr>"

lemma shuffle_hello_parts:
  "shuffle_parts (Extensions shuffle_hello) (Extension 0x1a1a []) [Extension 0 [1], Extension 0x17 []]
     [Extension 0x2a2a [0]]"
  by (simp add: shuffle_parts_def shuffle_hello_def IsGREASE_def)

text \<open>
  Nothing in the middle is pinned: for every arrangement of the interior extensions there is
  entropy that makes \<open>Shuffle\<close> produce it.
\<close>

theorem Shuffle_reaches:
  assumes "shuffle_parts (Extensions h) a mid tail" and "mset mid' = mset mid"
  shows "\<exists>t. Shuffle h t = Inr (h\<lparr>Extensions := a # mid' @ tail\<rparr>, [])"
proof (cases "mid = []")
  case True
  with assms have "Shuffle h [] = Inr (h\<lparr>Extensions := a # mid' @ tail\<rparr>, [])"
    by (simp add: Shuffle_of_parts returnR_def bindR_def)
  then show ?thesis by blast
next
  case False
  have "length mid' = length mid" using assms(2) by (metis size_mset)
  then obtain r where "\<forall>s. fisher_yates (length mid - 1) mid (r @ s) = Inr (mid', s)"
    using fisher_yates_reaches [of "length mid - 1" mid mid'] False assms(2) by auto
  then have "Shuffle h (r @ []) = Inr (h\<lparr>Extensions := a # mid' @ tail\<rparr>, [])"
    using assms(1) by (simp only: Shuffle_of_parts bindR_def returnR_def) simp
  then show ?thesis by blast
qed

theorem Shuffle_reaches_witness:
  "\<exists>t. Shuffle shuffle_hello t = Inr (shuffle_hello\<lparr>Extensions :=
     [Extension 0x1a1a [], Extension 0x17 [], Extension 0 [1], Extension 0x2a2a [0]]\<rparr>, [])"
  using Shuffle_reaches [OF shuffle_hello_parts, of "[Extension 0x17 [], Extension 0 [1]]"] by simp

theorem Shuffle_permutes_witness:
  "\<exists>h' t'. Shuffle shuffle_hello [0] = Inr (h', t')
     \<and> (\<exists>mid. shuffle_parts (Extensions h') (Extension 0x1a1a []) mid [Extension 0x2a2a [0]])"
proof -
  have "\<exists>h' t'. Shuffle shuffle_hello [0] = Inr (h', t')"
    using rand_Int_loop_zeros [of "Suc (Suc 0)" "Suc 0" "Suc 0" "Suc 0"]
    by (simp add: Shuffle_of_parts [OF shuffle_hello_parts] bindR_def rand_Int_def Let_def BitLen.simps returnR_def)
  then obtain h' t' where r: "Shuffle shuffle_hello [0] = Inr (h', t')" by blast
  from Shuffle_permutes [OF r] shuffle_hello_parts r show ?thesis
    by (auto simp: shuffle_parts_def)
qed

section \<open>The in-place loops on the grammar of the bodies\<close>

lemma length_replace_u16_loop [simp]:
  "ende \<le> length d \<Longrightarrow> length (replace_u16_loop v ende p d) = length d"
proof (induction v ende p d rule: replace_u16_loop.induct)
  case (1 v ende p d)
  then show ?case by (subst replace_u16_loop.simps) (auto split: if_splits)
qed

lemma length_replaceGREASEInU16List [simp]: "length (replaceGREASEInU16List d hdr v) = length d"
  by (simp add: replaceGREASEInU16List_def Let_def)

lemma length_replace_group_loop [simp]: "length (replace_group_loop v p d) = length d"
proof (induction v p d rule: replace_group_loop.induct)
  case (1 v p d)
  then show ?case by (subst replace_group_loop.simps) (auto simp: Let_def split: if_splits)
qed

lemma length_replaceGREASEKeyShareGroup [simp]: "length (replaceGREASEKeyShareGroup d v) = length d"
  by (simp add: replaceGREASEKeyShareGroup_def)

definition regrease_u16 :: "u16 \<Rightarrow> u16 \<Rightarrow> u16" where
  "regrease_u16 v g = (if IsGREASE g then v else g)"

lemma replace_u16_loop_suites:
  "length pre + 2 * length gs \<le> ende \<Longrightarrow> ende < length pre + 2 * length gs + 2 \<Longrightarrow>
     replace_u16_loop v ende (length pre) (pre @ suites_bytes gs @ suf) = pre @ suites_bytes (map (regrease_u16 v) gs) @ suf"
proof (induction gs arbitrary: pre)
  case Nil
  then show ?case by (subst replace_u16_loop.simps) simp
next
  case (Cons g gs)
  let ?d = "pre @ suites_bytes (g # gs) @ suf"
  have s: "slice ?d (length pre) (length pre + 2) = PutUint16 g" by (simp add: slice_def)
  have upd: "(if IsGREASE g then go_copy (length pre) (PutUint16 v) ?d else ?d)
      = (pre @ PutUint16 (regrease_u16 v g)) @ suites_bytes gs @ suf"
    by (auto simp: regrease_u16_def go_copy_def)
  have "replace_u16_loop v ende (length pre) ?d
      = replace_u16_loop v ende (length pre + 2) (if IsGREASE g then go_copy (length pre) (PutUint16 v) ?d else ?d)"
    using Cons.prems by (subst replace_u16_loop.simps) (simp only: s Uint16_PutUint16_exact, simp)
  also have "\<dots> = replace_u16_loop v ende (length (pre @ PutUint16 (regrease_u16 v g)))
      ((pre @ PutUint16 (regrease_u16 v g)) @ suites_bytes gs @ suf)"
    unfolding upd by simp
  also have "\<dots> = (pre @ PutUint16 (regrease_u16 v g)) @ suites_bytes (map (regrease_u16 v) gs) @ suf"
    using Cons.prems by (intro Cons.IH) (simp_all add: algebra_simps)
  finally show ?case by simp
qed

lemma replace_u16_loop_split:
  assumes "p \<le> ende" and "ende \<le> length d"
  shows "\<exists>gs suf. d = take p d @ suites_bytes gs @ suf \<and> p + 2 * length gs \<le> ende \<and> ende < p + 2 * length gs + 2"
proof -
  let ?n = "(ende - p) div 2"
  have n: "p + 2 * ?n \<le> ende" "ende < p + 2 * ?n + 2" using assms(1) by linarith+
  let ?xs = "take (2 * ?n) (drop p d)"
  have "length ?xs = 2 * ?n" using n(1) assms(2) by simp
  then have "suites_bytes (u16_list ?xs) = ?xs" "length (u16_list ?xs) = ?n"
    by (simp_all add: u16_list_suites length_u16_list)
  then have "d = take p d @ suites_bytes (u16_list ?xs) @ drop (2 * ?n) (drop p d)"
    by (metis append_take_drop_id)
  then show ?thesis using n \<open>length (u16_list ?xs) = ?n\<close> by metis
qed

text \<open>A second rewrite undoes the first: only where the GREASE stands matters.\<close>

lemma replace_u16_loop_twice:
  assumes "IsGREASE v" and "p \<le> ende" and "ende \<le> length d"
  shows "replace_u16_loop w ende p (replace_u16_loop v ende p d) = replace_u16_loop w ende p d
     \<and> take p (replace_u16_loop v ende p d) = take p d"
proof -
  obtain gs suf where d: "d = take p d @ suites_bytes gs @ suf" and n: "p + 2 * length gs \<le> ende" "ende < p + 2 * length gs + 2"
    using replace_u16_loop_split [OF assms(2,3)] by blast
  have p: "length (take p d) = p" using assms by simp
  note r = replace_u16_loop_suites [of "take p d" _ ende _ suf, unfolded p]
  have l: "replace_u16_loop v ende p d = take p d @ suites_bytes (map (regrease_u16 v) gs) @ suf"
    by (subst d, rule r) (use n in simp_all)
  have "replace_u16_loop w ende p d = take p d @ suites_bytes (map (regrease_u16 w) gs) @ suf"
    by (subst d, rule r) (use n in simp_all)
  moreover have "replace_u16_loop w ende p (take p d @ suites_bytes (map (regrease_u16 v) gs) @ suf)
      = take p d @ suites_bytes (map (regrease_u16 w) (map (regrease_u16 v) gs)) @ suf"
    by (rule r) (use n in simp_all)
  moreover have "map (regrease_u16 w) (map (regrease_u16 v) gs) = map (regrease_u16 w) gs"
    using assms(1) by (simp add: regrease_u16_def)
  ultimately show ?thesis using l p by (simp only: take_exact_append)
qed

lemma replaceGREASEInU16List_twice:
  assumes "IsGREASE v"
  shows "replaceGREASEInU16List (replaceGREASEInU16List d hdr v) hdr w = replaceGREASEInU16List d hdr w"
proof (cases "length d < hdr \<or> hdr \<noteq> 1 \<and> hdr \<noteq> 2")
  case True
  then show ?thesis by (auto simp: replaceGREASEInU16List_def)
next
  case False
  define ende where "ende x = (let n = (if hdr = 1 then unat (x ! 0) else unat (Uint16 (slice x 0 2)))
      in if length x < hdr + n then length x else hdr + n)" for x :: bytes
  have R: "replaceGREASEInU16List x hdr u = replace_u16_loop u (ende x) hdr x" if "length x = length d" for x u
    using False that by (auto simp: replaceGREASEInU16List_def ende_def Let_def)
  let ?d = "replace_u16_loop v (ende d) hdr d"
  have e: "hdr \<le> ende d" "ende d \<le> length d" using False by (auto simp: ende_def Let_def)
  note tw = replace_u16_loop_twice [OF assms e]
  have len: "length ?d = length d" using e(2) by simp
  have h: "take hdr ?d = take hdr d" using tw by blast
  have "ende x = ende y" if "length x = length y" and "take hdr x = take hdr y" for x y
  proof -
    have "x ! 0 = y ! 0 \<or> hdr \<noteq> 1" using arg_cong [OF that(2), of "\<lambda>x. x ! 0"] by auto
    moreover have "slice x 0 2 = slice y 0 2 \<or> hdr \<noteq> 2" using that(2) by (auto simp: slice_def)
    ultimately show ?thesis using that(1) False by (auto simp: ende_def Let_def)
  qed
  from this [OF len h] have "ende ?d = ende d" .
  then show ?thesis using R [of d] R [of ?d] len tw by simp
qed

lemma replace_in_list:
  assumes "2 * length gs < 65536"
  shows "replaceGREASEInU16List (PutUint16 (of_nat (2 * length gs)) @ suites_bytes gs @ suf) 2 v
     = PutUint16 (of_nat (2 * length gs)) @ suites_bytes (map (regrease_u16 v) gs) @ suf"
proof -
  let ?p = "PutUint16 (of_nat (2 * length gs))"
  have "unat (Uint16 (slice (?p @ suites_bytes gs @ suf) 0 2)) = 2 * length gs"
    using assms by (simp add: slice_def unat_u16_of_nat del: of_nat_mult)
  then show ?thesis
    using replace_u16_loop_suites [of ?p gs "2 + 2 * length gs" v suf]
    by (simp add: replaceGREASEInU16List_def Let_def)
qed

lemma replace_in_list1:
  assumes "2 * length gs < 256"
  shows "replaceGREASEInU16List (of_nat (2 * length gs) # suites_bytes gs @ suf) 1 v
     = of_nat (2 * length gs) # suites_bytes (map (regrease_u16 v) gs) @ suf"
  using assms replace_u16_loop_suites [of "[of_nat (2 * length gs)]" gs "1 + 2 * length gs" v suf]
  by (simp add: replaceGREASEInU16List_def Let_def unat_byte_of_nat del: of_nat_mult)

text \<open>A key-share entry has the layout of an extension: a group, a length and that many bytes.\<close>

definition regroup :: "u16 \<Rightarrow> Extension \<Rightarrow> Extension" where
  "regroup v k = Extension (regrease_u16 v (ExtType k)) (ExtData k)"

lemma entry_slices:
  fixes pre suf e
  defines "d \<equiv> pre @ ext_bytes e @ suf"
  assumes "length (ExtData e) < 65536"
  shows "Uint16 (slice d (length pre) (length pre + 2)) = ExtType e"
    and "unat (Uint16 (slice d (length pre + 2) (length pre + 4))) = length (ExtData e)"
    and "slice d (length pre + 4) (length pre + 4 + length (ExtData e)) = ExtData e"
    and "length pre + 4 + length (ExtData e) \<le> length d"
  using assms(2) by (simp_all add: d_def slice_def ext_bytes_def)

lemma replace_group_loop_step:
  assumes "p + 4 + n \<le> length d" and "Uint16 (slice d p (p + 2)) = g"
    and "unat (Uint16 (slice d (p + 2) (p + 4))) = n"
  shows "replace_group_loop v p d
     = replace_group_loop v (p + 4 + n) (if IsGREASE g then go_copy p (PutUint16 v) d else d)"
  using assms by (subst replace_group_loop.simps) (simp add: Let_def)

lemma replace_group_loop_entries:
  assumes "\<forall>k\<in>set ks. length (ExtData k) < 65536"
  shows "replace_group_loop v (length pre) (pre @ exts_bytes ks) = pre @ exts_bytes (map (regroup v) ks)"
  using assms
proof (induction ks arbitrary: pre)
  case Nil
  then show ?case by (subst replace_group_loop.simps) simp
next
  case (Cons k ks)
  let ?d = "pre @ ext_bytes k @ exts_bytes ks"
  have len: "length (ExtData k) < 65536" using Cons.prems by simp
  note sl = entry_slices [OF len, of pre "exts_bytes ks"]
  have "(if IsGREASE (ExtType k) then go_copy (length pre) (PutUint16 v) ?d else ?d)
      = (pre @ ext_bytes (regroup v k)) @ exts_bytes ks"
    by (auto simp: regroup_def regrease_u16_def go_copy_def ext_bytes_def)
  then have "replace_group_loop v (length pre) ?d
      = replace_group_loop v (length (pre @ ext_bytes (regroup v k))) ((pre @ ext_bytes (regroup v k)) @ exts_bytes ks)"
    using replace_group_loop_step [OF sl(4) sl(1) sl(2), of v] by (simp add: regroup_def add.assoc)
  then show ?case using Cons.IH [of "pre @ ext_bytes (regroup v k)"] Cons.prems by simp
qed

lemma replace_in_key_share:
  assumes "\<forall>k\<in>set ks. length (ExtData k) < 65536" and "length pre = 2"
  shows "replaceGREASEKeyShareGroup (pre @ exts_bytes ks) v = pre @ exts_bytes (map (regroup v) ks)"
  using replace_group_loop_entries [OF assms(1), of v pre] assms(2)
  by (simp add: replaceGREASEKeyShareGroup_def)

text \<open>
  The in-place GREASE rewrites mean what they say on the bodies they are used on: in
  supported_groups, signature_algorithms and supported_versions exactly the GREASE values of the
  list become the draw, in key_share exactly the GREASE groups do, and no other byte changes. So
  one draw for supported_groups and key_share keeps every GREASE key share among the offered
  groups.
\<close>

theorem GREASE_replacement:
  assumes "2 * length gs < 65536" and "2 * length vs < 256"
    and "\<forall>k\<in>set ks. length (ExtData k) < 65536" and "length hdr = 2"
  shows "replaceGREASEInU16List (PutUint16 (of_nat (2 * length gs)) @ suites_bytes gs) 2 v
       = PutUint16 (of_nat (2 * length gs)) @ suites_bytes (map (regrease_u16 v) gs)
     \<and> replaceGREASEInU16List (of_nat (2 * length vs) # suites_bytes vs) 1 v
       = of_nat (2 * length vs) # suites_bytes (map (regrease_u16 v) vs)
     \<and> replaceGREASEKeyShareGroup (hdr @ exts_bytes ks) v = hdr @ exts_bytes (map (regroup v) ks)
     \<and> (ExtType ` set ks \<subseteq> set gs
       \<longrightarrow> ExtType ` set (map (regroup v) ks) \<subseteq> set (map (regrease_u16 v) gs))"
proof -
  have "replaceGREASEInU16List (PutUint16 (of_nat (2 * length gs)) @ suites_bytes gs) 2 v
       = PutUint16 (of_nat (2 * length gs)) @ suites_bytes (map (regrease_u16 v) gs)"
    using replace_in_list [OF assms(1), of "[]" v] by (simp only: append_Nil2)
  moreover have "replaceGREASEInU16List (of_nat (2 * length vs) # suites_bytes vs) 1 v
       = of_nat (2 * length vs) # suites_bytes (map (regrease_u16 v) vs)"
    using replace_in_list1 [OF assms(2), of "[]" v] by (simp only: append_Nil2)
  moreover have "replaceGREASEKeyShareGroup (hdr @ exts_bytes ks) v = hdr @ exts_bytes (map (regroup v) ks)"
    by (rule replace_in_key_share [OF assms(3,4)])
  moreover have "ExtType ` set ks \<subseteq> set gs
       \<longrightarrow> ExtType ` set (map (regroup v) ks) \<subseteq> set (map (regrease_u16 v) gs)"
    by (auto simp: regroup_def)
  ultimately show ?thesis by blast
qed

theorem GREASE_replacement_witness:
  "replaceGREASEKeyShareGroup ([0, 5] @ exts_bytes [Extension 0x1a1a [0], Extension 0x1d [7]]) 0xfafa
     = [0, 5] @ exts_bytes [Extension 0xfafa [0], Extension 0x1d [7]]"
proof -
  have "replaceGREASEKeyShareGroup ([0, 5] @ exts_bytes [Extension 0x1a1a [0], Extension 0x1d [7]]) 0xfafa
      = [0, 5] @ exts_bytes (map (regroup 0xfafa) [Extension 0x1a1a [0], Extension 0x1d [7]])"
    using GREASE_replacement [where gs = "[]" and vs = "[]" and ks = "[Extension 0x1a1a [0], Extension 0x1d [7]]" and hdr = "[0, 5]" and v = "0xfafa"]
    by simp
  then show ?thesis by (simp add: regroup_def regrease_u16_def IsGREASE_def)
qed

section \<open>Fresh key shares\<close>

definition fresh_entry :: "kex \<Rightarrow> Extension \<Rightarrow> Extension rnd" where
  "fresh_entry K k = bindR (freshKeyShare K (ExtType k) (ExtData k)) (\<lambda>d. returnR (Extension (ExtType k) d))"

lemma length_freshKeyShare: "freshKeyShare K g out t = Inr (d, t') \<Longrightarrow> length d = length out"
  by (auto simp: freshKeyShare_def Let_def res_simps split: if_splits)

lemma rerandKeyShare_loop_step:
  assumes "p + 4 + n \<le> length d" and "Uint16 (slice d p (p + 2)) = g"
    and "unat (Uint16 (slice d (p + 2) (p + 4))) = n" and "slice d (p + 4) (p + 4 + n) = out"
  shows "rerandKeyShare_loop K p d
     = bindR (freshKeyShare K g out) (\<lambda>k. rerandKeyShare_loop K (p + 4 + n) (go_copy (p + 4) k d))"
  using assms by (subst rerandKeyShare_loop.simps) (simp add: Let_def)

lemma rerandKeyShare_loop_entries:
  assumes "\<forall>k\<in>set ks. length (ExtData k) < 65536"
  shows "rerandKeyShare_loop K (length pre) (pre @ exts_bytes ks) t
     = bindR (mapR (fresh_entry K) ks) (\<lambda>ks'. returnR (pre @ exts_bytes ks')) t"
  using assms
proof (induction ks arbitrary: pre t)
  case Nil
  then show ?case by (subst rerandKeyShare_loop.simps) simp
next
  case (Cons k ks)
  let ?d = "pre @ ext_bytes k @ exts_bytes ks"
  have len: "length (ExtData k) < 65536" using Cons.prems by simp
  note sl = entry_slices [OF len, of pre "exts_bytes ks"]
  have wr: "rerandKeyShare_loop K (length pre + 4 + length (ExtData k)) (go_copy (length pre + 4) d ?d) t1
      = bindR (mapR (fresh_entry K) ks) (\<lambda>ks'. returnR (pre @ exts_bytes (Extension (ExtType k) d # ks'))) t1"
    if d: "freshKeyShare K (ExtType k) (ExtData k) t = Inr (d, t1)" for d t1
  proof -
    let ?k' = "Extension (ExtType k) d"
    have ld: "length d = length (ExtData k)" by (rule length_freshKeyShare [OF d])
    then have "go_copy (length pre + 4) d ?d = (pre @ ext_bytes ?k') @ exts_bytes ks"
      by (simp add: go_copy_def ext_bytes_def)
    moreover have "length pre + 4 + length (ExtData k) = length (pre @ ext_bytes ?k')" using ld by simp
    ultimately show ?thesis using Cons.IH [of "pre @ ext_bytes ?k'" t1] Cons.prems by (simp add: add.assoc)
  qed
  have "rerandKeyShare_loop K (length pre) ?d t
      = bindR (freshKeyShare K (ExtType k) (ExtData k))
          (\<lambda>d. bindR (mapR (fresh_entry K) ks) (\<lambda>ks'. returnR (pre @ exts_bytes (Extension (ExtType k) d # ks')))) t"
    unfolding rerandKeyShare_loop_step [OF sl(4) sl(1) sl(2) sl(3)]
    by (rule bindR_cong) (rule wr)
  then show ?case by (simp add: fresh_entry_def [of K k] bindR_assoc)
qed

lemma rerandKeyShare_entries:
  assumes "\<forall>k\<in>set ks. length (ExtData k) < 65536" and "length hdr = 2"
  shows "rerandKeyShare K (hdr @ exts_bytes ks) t
     = bindR (mapR (fresh_entry K) ks) (\<lambda>ks'. returnR (hdr @ exts_bytes ks')) t"
  using rerandKeyShare_loop_entries [OF assms(1), of K hdr t] assms(2) by (simp add: rerandKeyShare_def)

text \<open>What a refreshed entry holds: a public key of its group, or zeros.\<close>

definition fresh_ok :: "kex \<Rightarrow> Extension \<Rightarrow> Extension \<Rightarrow> bool" where
  "fresh_ok K k k' \<longleftrightarrow>
     ExtType k' = ExtType k \<and> length (ExtData k') = length (ExtData k)
     \<and> (if ExtType k = GroupX25519 \<and> length (ExtData k) = 32
        then \<exists>s. length s = 32 \<and> ExtData k' = x25519_public K s
        else if ExtType k = GroupX25519MLKEM768 \<and> length (ExtData k) = 1216
        then \<exists>seed s. length seed = 64 \<and> length s = 32 \<and> ExtData k' = kex_mlkem K seed @ x25519_public K s
        else ExtData k' = replicate (length (ExtData k)) 0)"

lemma go_copy_hybrid:
  "length a = 1184 \<Longrightarrow> length b = 32 \<Longrightarrow> length out = 1216 \<Longrightarrow>
     go_copy 1184 b (go_copy 0 (take 1184 a) out) = a @ b"
  by (simp add: go_copy_def)

lemma freshKeyShare_x25519:
  "length out = 32 \<Longrightarrow> freshKeyShare K GroupX25519 out
     = bindR (rand_Read 32) (\<lambda>s. returnR (go_copy 0 (x25519_public K s) out))"
  by (simp add: freshKeyShare_def x25519_GenerateKey_def)

lemma freshKeyShare_hybrid:
  "length out = 1216 \<Longrightarrow> freshKeyShare K GroupX25519MLKEM768 out
     = bindR (rand_Read 64) (\<lambda>seed. bindR (rand_Read 32) (\<lambda>s.
         returnR (go_copy 1184 (x25519_public K s) (go_copy 0 (take 1184 (kex_mlkem K seed)) out))))"
  by (simp add: freshKeyShare_def x25519_GenerateKey_def mlkem_GenerateKey768_def bindR_assoc Let_def)

lemma fresh_entry_ok:
  assumes K: "kex_ok K" and "fresh_entry K k t = Inr (k', t')"
  shows "fresh_ok K k k'"
proof -
  obtain d where d: "freshKeyShare K (ExtType k) (ExtData k) t = Inr (d, t')" and k': "k' = Extension (ExtType k) d"
    using assms(2) by (auto simp: fresh_entry_def bindR_def returnR_def split: sum.splits)
  have len: "length d = length (ExtData k)" by (rule length_freshKeyShare [OF d])
  consider "ExtType k = GroupX25519 \<and> length (ExtData k) = 32"
    | "ExtType k = GroupX25519MLKEM768 \<and> length (ExtData k) = 1216"
    | "\<not> (ExtType k = GroupX25519 \<and> length (ExtData k) = 32)"
      "\<not> (ExtType k = GroupX25519MLKEM768 \<and> length (ExtData k) = 1216)"
    by blast
  then show ?thesis
  proof cases
    case 1
    with d obtain s t1 where "rand_Read 32 t = Inr (s, t1)" "d = go_copy 0 (x25519_public K s) (ExtData k)"
      by (auto simp: freshKeyShare_x25519 bindR_eq_Inr returnR_eq_Inr)
    then have "length s = 32" "d = x25519_public K s"
      using 1 K by (auto simp: go_copy_def dest: rand_Read_length)
    with 1 len k' show ?thesis by (auto simp: fresh_ok_def)
  next
    case 2
    with d obtain seed s t1 t2 where "rand_Read 64 t = Inr (seed, t1)" "rand_Read 32 t1 = Inr (s, t2)"
      and dd: "d = go_copy 1184 (x25519_public K s) (go_copy 0 (take 1184 (kex_mlkem K seed)) (ExtData k))"
      by (auto simp: freshKeyShare_hybrid bindR_eq_Inr returnR_eq_Inr)
    then have "length seed = 64" "length s = 32" by (auto dest: rand_Read_length)
    moreover have "d = kex_mlkem K seed @ x25519_public K s"
      using 2 K dd by (simp only: go_copy_hybrid kex_ok_lengths)
    ultimately show ?thesis using 2 len k' by (auto simp: fresh_ok_def)
  next
    case 3
    then have "d = replicate (length (ExtData k)) 0"
      using d by (auto simp: freshKeyShare_def returnR_eq_Inr split: if_splits)
    with 3 k' show ?thesis by (auto simp: fresh_ok_def)
  qed
qed

lemma rerandKeyShare_fresh:
  assumes "kex_ok K" and "\<forall>k\<in>set ks. length (ExtData k) < 65536" and "length hdr = 2"
    and "rerandKeyShare K (hdr @ exts_bytes ks) t = Inr (d, t')"
  shows "\<exists>ks'. d = hdr @ exts_bytes ks' \<and> list_all2 (fresh_ok K) ks ks'"
proof -
  from assms(4) obtain ks' where ks: "mapR (fresh_entry K) ks t = Inr (ks', t')" and "d = hdr @ exts_bytes ks'"
    unfolding rerandKeyShare_entries [OF assms(2,3)]
    by (auto simp: bindR_def returnR_def split: sum.splits)
  moreover have "list_all2 (fresh_ok K) ks ks'"
    by (rule mapR_all2 [OF ks]) (rule fresh_entry_ok [OF assms(1)])
  ultimately show ?thesis by blast
qed

text \<open>
  Refreshing a key_share body keeps its entries, their groups and their lengths, and fills
  every X25519 entry and every hybrid entry with a genuine public key of a freshly drawn secret;
  any other entry, a GREASE placeholder, becomes zeros.
\<close>

theorem rerandKeyShare_valid:
  assumes "kex_ok K" and "\<forall>k\<in>set ks. length (ExtData k) < 65536" and "length hdr = 2"
    and "rerandKeyShare K (hdr @ exts_bytes ks) t = Inr (d, t')"
  shows "\<exists>ks'. d = hdr @ exts_bytes ks' \<and> list_all2 (fresh_ok K) ks ks'"
  by (rule rerandKeyShare_fresh [OF assms])

theorem rerandKeyShare_valid_witness:
  "\<exists>d t'. rerandKeyShare kex_demo ([0, 36] @ exts_bytes [Extension GroupX25519 (replicate 32 1)]) (replicate 32 2)
     = Inr (d, t') \<and> (\<exists>k. d = [0, 36] @ exts_bytes [k] \<and> fresh_ok kex_demo (Extension GroupX25519 (replicate 32 1)) k)"
proof -
  let ?ks = "[Extension GroupX25519 (replicate 32 (1 :: byte))]"
  have "\<exists>d t'. rerandKeyShare kex_demo ([0, 36] @ exts_bytes ?ks) (replicate 32 2) = Inr (d, t')"
    by (subst rerandKeyShare_entries)
       (simp_all add: fresh_entry_def freshKeyShare_def x25519_GenerateKey_def rand_Read_def bindR_def returnR_def)
  then obtain d t' where r: "rerandKeyShare kex_demo ([0, 36] @ exts_bytes ?ks) (replicate 32 2) = Inr (d, t')"
    by blast
  have "\<exists>ks'. d = [0, 36] @ exts_bytes ks' \<and> list_all2 (fresh_ok kex_demo) ?ks ks'"
    by (rule rerandKeyShare_valid [OF kex_demo_ok _ _ r]) simp_all
  then show ?thesis using r by (auto simp: list_all2_Cons1)
qed

section \<open>The draws\<close>

lemma grease_codepoint: "n < 16 \<Longrightarrow> IsGREASE (0x0a0a + of_nat n * 0x1010)"
proof -
  have "list_all (\<lambda>n. IsGREASE (0x0a0a + of_nat n * 0x1010)) [0..<16]"
    by code_simp
  then show "n < 16 \<Longrightarrow> IsGREASE (0x0a0a + of_nat n * 0x1010)"
    by (simp add: list_all_iff)
qed

lemma greaseValue_GREASE: "greaseValue t = Inr (v, t') \<Longrightarrow> IsGREASE v"
  by (auto simp: greaseValue_def bindR_eq_Inr returnR_eq_Inr dest: rand_Int_less intro!: grease_codepoint)

lemma redraw_differs: "redraw e1 e2 t = Inr (v, t') \<Longrightarrow> v \<noteq> e1 \<and> (v = e2 \<or> IsGREASE v)"
proof (induction e1 e2 t rule: redraw.induct)
  case (1 e1 e2 t)
  show ?case
  proof (cases "e2 = e1")
    case True
    then have "redraw e1 e2 t = bindR greaseValue (redraw e1) t"
      by (subst redraw.simps) (simp add: bindR_def)
    with "1.prems" have "bindR greaseValue (redraw e1) t = Inr (v, t')" by (rule back_subst [of "\<lambda>x. x = _"])
    then obtain w t1 where w: "greaseValue t = Inr (w, t1)" "redraw e1 w t1 = Inr (v, t')"
      unfolding bindR_eq_Inr by blast
    with "1.IH" [OF True w(1) refl w(2)] greaseValue_GREASE [OF w(1)] show ?thesis by blast
  next
    case False
    with "1.prems" show ?thesis by (subst (asm) redraw.simps) simp
  qed
qed

lemma regrease_spec:
  assumes "regrease e1 e2 cnt n is es t = Inr (es', t')" and "distinct is" and "\<forall>i\<in>set is. i < length es"
    and "IsGREASE e1" and "IsGREASE e2"
  shows "length es' = length es \<and> (\<forall>i. i \<notin> set is \<longrightarrow> es' ! i = es ! i)
     \<and> map ExtData es' = map ExtData es
     \<and> (\<forall>j<length is. IsGREASE (ExtType (es' ! (is ! j)))
          \<and> (n + j = 0 \<longrightarrow> ExtType (es' ! (is ! j)) = e1)
          \<and> (n + j \<noteq> 0 \<and> n + j = cnt - 1 \<longrightarrow> ExtType (es' ! (is ! j)) = e2))"
  using assms
proof (induction "is" arbitrary: n es t)
  case Nil
  then show ?case by (simp add: returnR_eq_Inr)
next
  case (Cons i "is")
  from Cons.prems(1) obtain v t1 where
    v: "(if n = 0 then returnR e1 else if n = cnt - 1 then returnR e2 else greaseValue) t = Inr (v, t1)"
    and rest: "regrease e1 e2 cnt (n + 1) is (es[i := Extension v (ExtData (es ! i))]) t1 = Inr (es', t')"
    by (auto simp: bindR_eq_Inr)
  let ?es = "es[i := Extension v (ExtData (es ! i))]"
  have vg: "IsGREASE v" "n = 0 \<longrightarrow> v = e1" "n \<noteq> 0 \<and> n = cnt - 1 \<longrightarrow> v = e2"
    using v Cons.prems(4,5) by (auto simp: returnR_eq_Inr dest: greaseValue_GREASE split: if_splits)
  have IH: "length es' = length ?es \<and> (\<forall>i. i \<notin> set is \<longrightarrow> es' ! i = ?es ! i)
     \<and> map ExtData es' = map ExtData ?es
     \<and> (\<forall>j<length is. IsGREASE (ExtType (es' ! (is ! j)))
          \<and> (n + 1 + j = 0 \<longrightarrow> ExtType (es' ! (is ! j)) = e1)
          \<and> (n + 1 + j \<noteq> 0 \<and> n + 1 + j = cnt - 1 \<longrightarrow> ExtType (es' ! (is ! j)) = e2))"
    by (rule Cons.IH [OF rest]) (use Cons.prems in auto)
  have i: "i < length es" "i \<notin> set is" using Cons.prems(2,3) by simp_all
  then have "es' ! i = Extension v (ExtData (es ! i))" using IH by simp
  moreover have "map ExtData ?es = map ExtData es"
    using i by (simp add: map_update) (metis length_map list_update_id nth_map)
  moreover have "es' ! k = es ! k" if "k \<notin> set (i # is)" for k
    using IH that by simp
  moreover have "\<forall>j<length (i # is). IsGREASE (ExtType (es' ! ((i # is) ! j)))
          \<and> (n + j = 0 \<longrightarrow> ExtType (es' ! ((i # is) ! j)) = e1)
          \<and> (n + j \<noteq> 0 \<and> n + j = cnt - 1 \<longrightarrow> ExtType (es' ! ((i # is) ! j)) = e2)"
  proof (intro allI impI)
    fix j
    assume j: "j < length (i # is)"
    show "IsGREASE (ExtType (es' ! ((i # is) ! j)))
          \<and> (n + j = 0 \<longrightarrow> ExtType (es' ! ((i # is) ! j)) = e1)
          \<and> (n + j \<noteq> 0 \<and> n + j = cnt - 1 \<longrightarrow> ExtType (es' ! ((i # is) ! j)) = e2)"
    proof (cases j)
      case 0
      then show ?thesis using \<open>es' ! i = Extension v (ExtData (es ! i))\<close> vg by simp
    next
      case (Suc m)
      then show ?thesis using IH j by simp
    qed
  qed
  ultimately show ?case using IH by simp
qed

text \<open>Types before and after the redraw: GREASE stays GREASE, and the two ends get the two draws.\<close>

definition regreased :: "u16 \<Rightarrow> u16 \<Rightarrow> u16 list \<Rightarrow> u16 list \<Rightarrow> bool" where
  "regreased e1 e2 ts ts' \<longleftrightarrow>
     list_all2 (\<lambda>a b. if IsGREASE a then IsGREASE b else b = a) ts ts'
     \<and> (filter IsGREASE ts' \<noteq> [] \<longrightarrow> hd (filter IsGREASE ts') = e1)
     \<and> (2 \<le> length (filter IsGREASE ts') \<longrightarrow> last (filter IsGREASE ts') = e2)"

lemma filter_positions: "filter P xs = map (\<lambda>i. xs ! i) (filter (\<lambda>i. P (xs ! i)) [0..<length xs])"
  by (subst map_nth [symmetric, of xs]) (simp only: filter_map comp_def length_map length_upt)

lemma regrease_types:
  assumes r: "regrease e1 e2 (length gs) 0 gs es t = Inr (es', t')"
    and gs: "gs = filter (\<lambda>i. IsGREASE (ExtType (es ! i))) [0..<length es]"
    and g: "IsGREASE e1" "IsGREASE e2"
  shows "regreased e1 e2 (map ExtType es) (map ExtType es') \<and> map ExtData es' = map ExtData es"
proof -
  have gd: "distinct gs" and gl: "\<forall>i\<in>set gs. i < length es" by (simp_all add: gs)
  note sp = regrease_spec [OF r gd gl g]
  have len: "length es' = length es" using sp by blast
  have inG: "IsGREASE (ExtType (es' ! i))" if "i \<in> set gs" for i
    using that sp by (auto simp: in_set_conv_nth)
  have out: "es' ! i = es ! i" if "i \<notin> set gs" for i
    using that sp by blast
  have pos: "(if IsGREASE (ExtType (es ! i)) then IsGREASE (ExtType (es' ! i)) else es' ! i = es ! i)"
    if "i < length es" for i
    using that inG [of i] out [of i] by (auto simp: gs)
  have all2: "list_all2 (\<lambda>a b. if IsGREASE a then IsGREASE b else b = a) (map ExtType es) (map ExtType es')"
    using len pos by (auto simp: list_all2_conv_all_nth)
  have "filter (\<lambda>i. IsGREASE (ExtType (es' ! i))) [0..<length es'] = gs"
    unfolding gs len
  proof (rule filter_cong [OF refl])
    fix i
    assume "i \<in> set [0..<length es]"
    then show "IsGREASE (ExtType (es' ! i)) = IsGREASE (ExtType (es ! i))"
      using pos [of i] by (cases "IsGREASE (ExtType (es ! i))") simp_all
  qed
  then have f: "filter IsGREASE (map ExtType es') = map (\<lambda>i. ExtType (es' ! i)) gs"
    using filter_positions [of "\<lambda>e. IsGREASE (ExtType e)" es'] by (simp add: filter_map comp_def)
  have "hd (filter IsGREASE (map ExtType es')) = e1" if "gs \<noteq> []"
    using that sp unfolding f by (cases gs) auto
  moreover have "last (filter IsGREASE (map ExtType es')) = e2" if "2 \<le> length gs"
  proof -
    have "ExtType (es' ! (gs ! (length gs - 1))) = e2"
      using that sp by (elim conjE) (drule spec [of _ "length gs - 1"], auto)
    moreover have "gs \<noteq> []" using that by auto
    ultimately show ?thesis unfolding f by (simp add: last_map last_conv_nth)
  qed
  ultimately show ?thesis using all2 sp f by (auto simp: regreased_def)
qed

text \<open>Updates through \<open>Find\<close> leave the types, and the other extensions, as they were.\<close>

lemma on_ext_types [hello_simps]: "map ExtType (Extensions (on_ext t f h)) = map ExtType (Extensions h)"
  by (simp add: on_ext_def hello_simps split: option.split)

lemma on_ext_sel [hello_simps]:
  "LegacyVersion (on_ext t f h) = LegacyVersion h" "Random (on_ext t f h) = Random h"
  "SessionID (on_ext t f h) = SessionID h" "CipherSuites (on_ext t f h) = CipherSuites h"
  "Compression (on_ext t f h) = Compression h"
  by (simp_all add: on_ext_def hello_simps split: option.split)

lemma Find_on_ext [hello_simps]:
  "Find u (on_ext t f h) = (if u = t then map_option (\<lambda>e. Extension t (f (ExtData e))) (Find t h) else Find u h)"
  by (auto simp: on_ext_def hello_simps split: option.split)

lemma set_first_lengths:
  assumes "find (\<lambda>e. ExtType e = t) es = Some e" and "length d = length (ExtData e)"
  shows "map (length \<circ> ExtData) (set_first t d es) = map (length \<circ> ExtData) es"
  using assms by (induction es) (auto split: if_splits)

lemma on_ext_lengths:
  assumes "\<And>d. length (f d) = length d"
  shows "map (length \<circ> ExtData) (Extensions (on_ext t f h)) = map (length \<circ> ExtData) (Extensions h)"
  using assms by (auto simp: on_ext_def Find_def SetExtData_def set_first_lengths split: option.split)

lemma find_types_only:
  assumes "list_all2 (\<lambda>a b. ExtType a = u \<longleftrightarrow> ExtType b = u) es es'" and "map ExtData es' = map ExtData es"
  shows "map_option ExtData (find (\<lambda>e. ExtType e = u) es') = map_option ExtData (find (\<lambda>e. ExtType e = u) es)"
  using assms by (induction rule: list_all2_induct) auto

lemma regreased_find:
  assumes "list_all2 (\<lambda>a b. if IsGREASE a then IsGREASE b else b = a) (map ExtType es) (map ExtType es')"
    and "map ExtData es' = map ExtData es" and "\<not> IsGREASE u"
  shows "map_option ExtData (find (\<lambda>e. ExtType e = u) es') = map_option ExtData (find (\<lambda>e. ExtType e = u) es)"
proof (rule find_types_only)
  show "list_all2 (\<lambda>a b. ExtType a = u \<longleftrightarrow> ExtType b = u) es es'"
    using assms(1,3) unfolding list_all2_map1 list_all2_map2
    by (elim list_all2_mono) (auto split: if_splits)
qed (rule assms(2))

lemma rerandGREASE_result:
  assumes "rerandGREASE h t = Inr (h', t')"
  obtains cipher e1 e2 grp version sigAlg es where "IsGREASE cipher" "IsGREASE e1" "IsGREASE e2" "e2 \<noteq> e1"
    "IsGREASE grp" "IsGREASE version" "IsGREASE sigAlg"
    "regreased e1 e2 (map ExtType (Extensions h)) (map ExtType es)" "map ExtData es = map ExtData (Extensions h)"
    "h' = on_ext ExtSignatureAlgorithms (\<lambda>d. replaceGREASEInU16List d 2 sigAlg)
        (on_ext ExtSupportedVersions (\<lambda>d. replaceGREASEInU16List d 1 version)
        (on_ext ExtKeyShare (\<lambda>d. replaceGREASEKeyShareGroup d grp)
        (on_ext ExtSupportedGroups (\<lambda>d. replaceGREASEInU16List d 2 grp)
          (h\<lparr>CipherSuites := map (regrease_u16 cipher) (CipherSuites h), Extensions := es\<rparr>))))"
proof -
  from assms obtain cipher e1 e0 e2 grp version sigAlg es t1 t2 t3 t4 t5 t6 t7 where
    d: "greaseValue t = Inr (cipher, t1)" "greaseValue t1 = Inr (e1, t2)" "greaseValue t2 = Inr (e0, t3)"
      "redraw e1 e0 t3 = Inr (e2, t4)" "greaseValue t4 = Inr (grp, t5)" "greaseValue t5 = Inr (version, t6)"
      "greaseValue t6 = Inr (sigAlg, t7)"
    and r: "regrease e1 e2 (length (filter (\<lambda>i. IsGREASE (ExtType (Extensions h ! i))) [0..<length (Extensions h)])) 0
        (filter (\<lambda>i. IsGREASE (ExtType (Extensions h ! i))) [0..<length (Extensions h)]) (Extensions h) t7 = Inr (es, t')"
    and h': "h' = on_ext ExtSignatureAlgorithms (\<lambda>d. replaceGREASEInU16List d 2 sigAlg)
        (on_ext ExtSupportedVersions (\<lambda>d. replaceGREASEInU16List d 1 version)
        (on_ext ExtKeyShare (\<lambda>d. replaceGREASEKeyShareGroup d grp)
        (on_ext ExtSupportedGroups (\<lambda>d. replaceGREASEInU16List d 2 grp)
          (h\<lparr>CipherSuites := map (\<lambda>c. if IsGREASE c then cipher else c) (CipherSuites h), Extensions := es\<rparr>))))"
    by (auto simp: rerandGREASE_def Let_def bindR_eq_Inr returnR_eq_Inr)
  have g: "IsGREASE cipher" "IsGREASE e1" "IsGREASE grp" "IsGREASE version" "IsGREASE sigAlg"
    using d by (auto dest: greaseValue_GREASE)
  have e2: "e2 \<noteq> e1" "IsGREASE e2"
    using redraw_differs [OF d(4)] greaseValue_GREASE [OF d(3)] by auto
  have R: "regreased e1 e2 (map ExtType (Extensions h)) (map ExtType es) \<and> map ExtData es = map ExtData (Extensions h)"
    by (rule regrease_types [OF r refl g(2) e2(2)])
  have m: "(\<lambda>c. if IsGREASE c then cipher else c) = regrease_u16 cipher"
    by (simp add: fun_eq_iff regrease_u16_def)
  show thesis
    by (rule that [OF g(1,2) e2(2,1) g(3-5) conjunct1 [OF R] conjunct2 [OF R] h' [unfolded m]])
qed

text \<open>
  Every GREASE codepoint is redrawn and nothing else moves: the GREASE suites become one drawn
  codepoint; every GREASE extension type stays a GREASE type, the first and the last draw
  different ones, and other types and all body lengths are kept; and supported_groups and key_share
  receive the same draw.
\<close>

theorem rerandGREASE_slots:
  assumes "rerandGREASE h t = Inr (h', t')"
  shows "\<exists>cipher e1 e2 grp. IsGREASE cipher \<and> IsGREASE e1 \<and> IsGREASE e2 \<and> e2 \<noteq> e1 \<and> IsGREASE grp
     \<and> CipherSuites h' = map (regrease_u16 cipher) (CipherSuites h)
     \<and> regreased e1 e2 (map ExtType (Extensions h)) (map ExtType (Extensions h'))
     \<and> map (length \<circ> ExtData) (Extensions h') = map (length \<circ> ExtData) (Extensions h)
     \<and> map_option ExtData (Find ExtSupportedGroups h')
         = map_option (\<lambda>e. replaceGREASEInU16List (ExtData e) 2 grp) (Find ExtSupportedGroups h)
     \<and> map_option ExtData (Find ExtKeyShare h')
         = map_option (\<lambda>e. replaceGREASEKeyShareGroup (ExtData e) grp) (Find ExtKeyShare h)"
proof -
  obtain cipher e1 e2 grp version sigAlg es where g: "IsGREASE cipher" "IsGREASE e1" "IsGREASE e2" "e2 \<noteq> e1" "IsGREASE grp"
    and r: "regreased e1 e2 (map ExtType (Extensions h)) (map ExtType es)" "map ExtData es = map ExtData (Extensions h)"
    and h': "h' = on_ext ExtSignatureAlgorithms (\<lambda>d. replaceGREASEInU16List d 2 sigAlg)
        (on_ext ExtSupportedVersions (\<lambda>d. replaceGREASEInU16List d 1 version)
        (on_ext ExtKeyShare (\<lambda>d. replaceGREASEKeyShareGroup d grp)
        (on_ext ExtSupportedGroups (\<lambda>d. replaceGREASEInU16List d 2 grp)
          (h\<lparr>CipherSuites := map (regrease_u16 cipher) (CipherSuites h), Extensions := es\<rparr>))))"
    using rerandGREASE_result [OF assms] by metis
  have F: "map_option ExtData (find (\<lambda>e. ExtType e = u) es) = map_option ExtData (Find u h)" if "\<not> IsGREASE u" for u
    using regreased_find [of "Extensions h" es u] r that by (simp add: regreased_def Find_def)
  have ng: "\<not> IsGREASE ExtSupportedGroups" "\<not> IsGREASE ExtKeyShare" by (simp_all add: IsGREASE_def)
  have "map_option ExtData (Find ExtSupportedGroups h')
         = map_option (\<lambda>e. replaceGREASEInU16List (ExtData e) 2 grp) (Find ExtSupportedGroups h)"
    using F [OF ng(1)] by (simp add: h' hello_simps option.map_comp comp_def)
      (cases "Find ExtSupportedGroups h", auto simp: Find_def)
  moreover have "map_option ExtData (Find ExtKeyShare h')
         = map_option (\<lambda>e. replaceGREASEKeyShareGroup (ExtData e) grp) (Find ExtKeyShare h)"
    using F [OF ng(2)] by (simp add: h' hello_simps option.map_comp comp_def)
      (cases "Find ExtKeyShare h", auto simp: Find_def)
  moreover have "map (length \<circ> ExtData) (Extensions h') = map (length \<circ> ExtData) (Extensions h)"
    using arg_cong [OF r(2), of "map length"] by (simp add: h' on_ext_lengths)
  ultimately show ?thesis using g r(1) by (auto simp: h' hello_simps)
qed

text \<open>Zeros are entropy enough, but for the second extension draw, which must differ from the first.\<close>

lemma greaseValue_step: "greaseValue (b # t) = Inr (0x0a0a + of_nat (unat (b AND 15)) * 0x1010, t)"
proof -
  have "unat (b AND 15) < 16"
    using word_and_le1 [of b 15] by (simp add: word_le_nat_alt)
  moreover have "mask 4 = (15 :: byte)" by (simp add: mask_eq_exp_minus_1)
  ultimately have "rand_Int_loop 16 1 4 (b # t) = Inr (unat (b AND 15), t)"
    by (subst rand_Int_loop.simps) (simp add: Let_def be_nat_def)
  moreover have "BitLen 15 = 4" by (simp add: BitLen.simps)
  ultimately show ?thesis
    by (simp add: greaseValue_def rand_Int_def Let_def bindR_def returnR_def)
qed

theorem rerandGREASE_slots_witness:
  "\<exists>h' t'. rerandGREASE shuffle_hello [0, 0, 1, 0, 0, 0] = Inr (h', t')
     \<and> (\<exists>e1 e2. e2 \<noteq> e1 \<and> regreased e1 e2 (map ExtType (Extensions shuffle_hello)) (map ExtType (Extensions h')))"
proof -
  have g: "greaseValue (0 # t) = Inr (0x0a0a, t)" "greaseValue (1 # t) = Inr (0x1a1a, t)" for t
    by (simp_all add: greaseValue_step)
  have d: "redraw 0x0a0a 0x1a1a t = Inr (0x1a1a, t)" for t
    by (subst redraw.simps) simp
  have "filter (\<lambda>i. IsGREASE (ExtType (Extensions shuffle_hello ! i))) [0..<length (Extensions shuffle_hello)] = [0, 3]"
    by (simp add: shuffle_hello_def IsGREASE_def upt_conv_Cons)
  then have "\<exists>r. rerandGREASE shuffle_hello [0, 0, 1, 0, 0, 0] = Inr r"
    by (simp add: rerandGREASE_def bindR_def g d returnR_def)
  then obtain h' t' where r: "rerandGREASE shuffle_hello [0, 0, 1, 0, 0, 0] = Inr (h', t')" by auto
  from rerandGREASE_slots [OF r] r show ?thesis by blast
qed

section \<open>GREASE ECH\<close>

definition ech_body :: "u16 \<Rightarrow> u16 \<Rightarrow> byte \<Rightarrow> bytes \<Rightarrow> bytes \<Rightarrow> bytes" where
  "ech_body kdf aid cfg enc payload =
     [0] @ PutUint16 kdf @ PutUint16 aid @ [cfg] @ PutUint16 (of_nat (length enc)) @ enc
     @ PutUint16 (of_nat (length payload)) @ payload"

lemma rerandECHGrease_result:
  assumes "rerandECHGrease d t = Inr (d', t')"
  shows "(d = [] \<or> d ! 0 \<noteq> 0) \<and> d' = d \<and> t' = t
     \<or> d \<noteq> [] \<and> d ! 0 = 0
       \<and> (\<exists>cfg enc payload. length enc = 32 \<and> length payload \<in> set echGREASELengths
            \<and> d' = ech_body (if 5 \<le> length d then Uint16 (slice d 1 3) else 1)
                     (if 5 \<le> length d then Uint16 (slice d 3 5) else 1) cfg enc payload)"
proof (cases "d = [] \<or> d ! 0 \<noteq> 0")
  case True
  then have "length d < 1 \<or> d ! 0 \<noteq> 0" by auto
  with assms True show ?thesis by (simp add: rerandECHGrease_def returnR_eq_Inr)
next
  case False
  then have nd: "\<not> (length d < 1 \<or> d ! 0 \<noteq> 0)" by (cases d) auto
  from assms obtain pick enc payload cfg t1 t2 t3 where
    p: "rand_Int (length echGREASELengths) t = Inr (pick, t1)" and e: "rand_Read 32 t1 = Inr (enc, t2)"
    and pl: "rand_Read (echGREASELengths ! pick) t2 = Inr (payload, t3)"
    and d': "d' = ech_body (if 5 \<le> length d then Uint16 (slice d 1 3) else 1)
                     (if 5 \<le> length d then Uint16 (slice d 3 5) else 1) (cfg ! 0) enc payload"
    unfolding rerandECHGrease_def if_not_P [OF nd]
    by (auto simp: Let_def bindR_eq_Inr returnR_eq_Inr ech_body_def appendU16_eq split: if_splits)
  have "pick < length echGREASELengths" using rand_Int_less [OF p] by (simp add: echGREASELengths_def)
  then have "length payload \<in> set echGREASELengths" using rand_Read_length [OF pl] by simp
  with rand_Read_length [OF e] d' False show ?thesis by blast
qed

text \<open>
  A refreshed outer ECH extension keeps the HPKE suite it had and is one of the four sizes
  measured in Chrome (186, 218, 250 or 282 bytes), whatever it was before; an inner one is left
  alone.
\<close>

theorem rerandECHGrease_sizes:
  assumes "rerandECHGrease d t = Inr (d', t')" and "d \<noteq> []"
  shows "if d ! 0 = 0
     then length d' \<in> {186, 218, 250, 282} \<and> d' ! 0 = 0 \<and> (5 \<le> length d \<longrightarrow> take 4 (drop 1 d') = slice d 1 5)
     else d' = d"
proof (cases "d ! 0 = 0")
  case True
  then obtain cfg enc payload where e: "length enc = 32" "length payload \<in> set echGREASELengths"
    and d': "d' = ech_body (if 5 \<le> length d then Uint16 (slice d 1 3) else 1)
                     (if 5 \<le> length d then Uint16 (slice d 3 5) else 1) cfg enc payload"
    using rerandECHGrease_result [OF assms(1)] assms(2) by auto
  have "PutUint16 (Uint16 (slice d 1 3)) @ PutUint16 (Uint16 (slice d 3 5)) = slice d 1 5" if "5 \<le> length d"
  proof -
    have "slice d 1 5 = slice d 1 3 @ slice d 3 5" by (simp add: slice_join)
    moreover have "length (slice d 1 3) = 2" "length (slice d 3 5) = 2" using that by simp_all
    ultimately show ?thesis by (simp add: PutUint16_Uint16)
  qed
  moreover have "take 4 (drop 1 d') = PutUint16 (Uint16 (slice d 1 3)) @ PutUint16 (Uint16 (slice d 3 5))"
    if "5 \<le> length d"
    using that by (simp add: d' ech_body_def)
  moreover have "length d' = 42 + length payload" using e(1) by (simp add: d' ech_body_def)
  ultimately show ?thesis
    using e(2) True by (auto simp: echGREASELengths_def d' ech_body_def)
next
  case False
  then show ?thesis using rerandECHGrease_result [OF assms(1)] by auto
qed

theorem rerandECHGrease_sizes_witness:
  "\<exists>d' t'. rerandECHGrease [0, 0, 1, 0, 3, 9] (replicate 178 0) = Inr (d', t') \<and> length d' \<in> {186, 218, 250, 282}
     \<and> take 4 (drop 1 d') = [0, 1, 0, 3]"
proof -
  have z: "rand_Int (length echGREASELengths) (replicate 178 0) = Inr (0, replicate 177 0)"
    using rand_Int_loop_zeros [of "Suc (Suc (Suc (Suc 0)))" 1 178 "Suc (Suc 0)"]
    by (simp add: rand_Int_def Let_def BitLen.simps echGREASELengths_def)
  have "echGREASELengths ! 0 = 144" by (simp add: echGREASELengths_def)
  then have "\<exists>r. rerandECHGrease [0, 0, 1, 0, 3, 9] (replicate 178 0) = Inr r"
    by (simp add: rerandECHGrease_def bindR_def z rand_Read_def returnR_def)
  then obtain d' t' where r: "rerandECHGrease [0, 0, 1, 0, 3, 9] (replicate 178 0) = Inr (d', t')" by auto
  from rerandECHGrease_sizes [OF r] r show ?thesis by (simp add: slice_def)
qed

section \<open>Rerandomize as a whole\<close>

lemma on_extR_result:
  "on_extR u f h t = Inr (h', t') \<Longrightarrow>
     (Find u h = None \<and> h' = h)
     \<or> (\<exists>e d. Find u h = Some e \<and> f (ExtData e) t = Inr (d, t') \<and> h' = SetExtData u d h)"
  by (auto simp: on_extR_def bindR_eq_Inr returnR_eq_Inr split: option.splits)

lemma on_extR_types: "on_extR u f h t = Inr (h', t') \<Longrightarrow> map ExtType (Extensions h') = map ExtType (Extensions h)"
  by (auto dest!: on_extR_result simp: hello_simps)

lemma Rerandomize_steps:
  assumes "Rerandomize K h t = Inr (h', t')"
  obtains h1 t1 h2 t2 h3 t3 r where "rerandGREASE h t = Inr (h1, t1)" "length r = 32"
    "h2 = h1\<lparr>Random := r, SessionID := SessionID h2\<rparr>" "length (SessionID h2) = length (SessionID h1)"
    "on_extR ExtKeyShare (rerandKeyShare K) h2 t2 = Inr (h3, t3)"
    "on_extR ExtECH rerandECHGrease h3 t3 = Inr (h', t')"
proof -
  from assms obtain h1 t1 r t2 where g: "rerandGREASE h t = Inr (h1, t1)" and rd: "rand_Read 32 t1 = Inr (r, t2)"
    and rest: "bindR (if 0 < length (SessionID (h1\<lparr>Random := r\<rparr>))
               then bindR (rand_Read (length (SessionID (h1\<lparr>Random := r\<rparr>)))) (\<lambda>sid. returnR ((h1\<lparr>Random := r\<rparr>)\<lparr>SessionID := sid\<rparr>))
               else returnR (h1\<lparr>Random := r\<rparr>)) (\<lambda>h.
        bindR (on_extR ExtKeyShare (rerandKeyShare K) h) (on_extR ExtECH rerandECHGrease)) t2 = Inr (h', t')"
    unfolding Rerandomize_def Let_def bindR_eq_Inr [of "rerandGREASE h"] bindR_eq_Inr [of "rand_Read 32"] by auto
  from rest obtain h2 t3 h3 t4 where s: "(if 0 < length (SessionID (h1\<lparr>Random := r\<rparr>))
               then bindR (rand_Read (length (SessionID (h1\<lparr>Random := r\<rparr>)))) (\<lambda>sid. returnR ((h1\<lparr>Random := r\<rparr>)\<lparr>SessionID := sid\<rparr>))
               else returnR (h1\<lparr>Random := r\<rparr>)) t2 = Inr (h2, t3)"
    and k: "on_extR ExtKeyShare (rerandKeyShare K) h2 t3 = Inr (h3, t4)"
    and e: "on_extR ExtECH rerandECHGrease h3 t4 = Inr (h', t')"
    unfolding bindR_eq_Inr by blast
  from s have "h2 = h1\<lparr>Random := r, SessionID := SessionID h2\<rparr> \<and> length (SessionID h2) = length (SessionID h1)"
    by (auto simp: bindR_eq_Inr returnR_eq_Inr dest: rand_Read_length split: if_splits)
  with that g rand_Read_length [OF rd] k e show thesis by blast
qed

text \<open>
  What the whole refresh keeps: the version, the number of suites and of extensions, the length of
  the session id, the compression methods, the non-GREASE types at their places.
\<close>

lemma Rerandomize_keeps:
  assumes "Rerandomize K h t = Inr (h', t')"
  shows "LegacyVersion h' = LegacyVersion h \<and> length (Random h') = 32
     \<and> length (SessionID h') = length (SessionID h) \<and> length (CipherSuites h') = length (CipherSuites h)
     \<and> Compression h' = Compression h
     \<and> (\<exists>e1 e2. e2 \<noteq> e1 \<and> regreased e1 e2 (map ExtType (Extensions h)) (map ExtType (Extensions h')))"
proof -
  obtain h1 t1 h2 t2 h3 t3 r where g: "rerandGREASE h t = Inr (h1, t1)" and r: "length r = 32"
    and h2: "h2 = h1\<lparr>Random := r, SessionID := SessionID h2\<rparr>" "length (SessionID h2) = length (SessionID h1)"
    and k: "on_extR ExtKeyShare (rerandKeyShare K) h2 t2 = Inr (h3, t3)"
    and e: "on_extR ExtECH rerandECHGrease h3 t3 = Inr (h', t')"
    by (rule Rerandomize_steps [OF assms])
  obtain cipher e1 e2 where c: "CipherSuites h1 = map (regrease_u16 cipher) (CipherSuites h)"
    and x: "e2 \<noteq> e1" "regreased e1 e2 (map ExtType (Extensions h)) (map ExtType (Extensions h1))"
    and s1: "LegacyVersion h1 = LegacyVersion h" "SessionID h1 = SessionID h" "Compression h1 = Compression h"
    by (rule rerandGREASE_result [OF g]) (auto simp: hello_simps)
  have types: "map ExtType (Extensions h') = map ExtType (Extensions h1)"
    using on_extR_types [OF e] on_extR_types [OF k] arg_cong [OF h2(1), of Extensions] by simp
  have sel: "LegacyVersion h' = LegacyVersion h2 \<and> Random h' = Random h2 \<and> SessionID h' = SessionID h2
      \<and> CipherSuites h' = CipherSuites h2 \<and> Compression h' = Compression h2"
    using on_extR_result [OF e] on_extR_result [OF k] by (auto simp: hello_simps)
  have sel2: "LegacyVersion h2 = LegacyVersion h1" "Random h2 = r" "CipherSuites h2 = CipherSuites h1"
      "Compression h2 = Compression h1"
    by (subst h2(1), simp)+
  show ?thesis using sel sel2 c x s1 types h2(2) r by auto
qed

section \<open>Every step can succeed\<close>

lemma yields_grease: "n < 16 \<Longrightarrow> yields greaseValue (0x0a0a + of_nat n * 0x1010)"
  unfolding greaseValue_def by (rule yields_bindR [OF yields_rand_Int yields_returnR])

lemma can_grease [can_intros]: "can greaseValue"
  using yields_grease [of 0] by (auto intro: yields_can)

lemma can_redraw [can_intros]: "e2 \<noteq> e1 \<Longrightarrow> can (redraw e1 e2)"
proof (rule yields_can)
  assume "e2 \<noteq> e1"
  then have "\<forall>s. redraw e1 e2 ([] @ s) = Inr (e2, s)" by (subst redraw.simps) simp
  then show "yields (redraw e1 e2) e2" unfolding yields_def by blast
qed

lemma can_regrease [can_intros]: "can (regrease e1 e2 cnt n is es)"
  by (induction "is" arbitrary: n es) (auto intro!: can_intros)

lemma can_rerandGREASE [can_intros]: "can (rerandGREASE h)"
proof -
  have y: "yields greaseValue 0x0a0a" "yields greaseValue 0x1a1a"
    using yields_grease [of 0] yields_grease [of 1] by simp_all
  have rest: "can (bindR (redraw 0x0a0a 0x1a1a) f)" if "\<And>x. can (f x)" for f :: "u16 \<Rightarrow> ClientHello rnd"
    by (rule can_bindR [OF can_redraw that]) simp
  show ?thesis
    unfolding rerandGREASE_def Let_def
    by (rule can_bind_yields [OF y(1)], rule can_bind_yields [OF y(1)], rule can_bind_yields [OF y(2)], rule rest)
       (intro can_intros)
qed

lemma can_freshKeyShare [can_intros]: "can (freshKeyShare K g out)"
  unfolding freshKeyShare_def x25519_GenerateKey_def mlkem_GenerateKey768_def Let_def
  by (auto intro!: can_intros)

lemma can_rerandKeyShare:
  assumes "\<forall>k\<in>set ks. length (ExtData k) < 65536" and "length hdr = 2"
  shows "can (rerandKeyShare K (hdr @ exts_bytes ks))"
proof -
  have "can (bindR (mapR (fresh_entry K) ks) (\<lambda>ks'. returnR (hdr @ exts_bytes ks')))"
    by (intro can_intros) (simp add: fresh_entry_def can_intros)
  moreover have "rerandKeyShare K (hdr @ exts_bytes ks) = bindR (mapR (fresh_entry K) ks) (\<lambda>ks'. returnR (hdr @ exts_bytes ks'))"
    using rerandKeyShare_entries [OF assms] by blast
  ultimately show ?thesis by simp
qed

lemma can_rerandECHGrease [can_intros]: "can (rerandECHGrease d)"
  unfolding rerandECHGrease_def Let_def
  by (auto simp: echGREASELengths_def intro!: can_intros split: prod.split)

lemma can_on_extR: "(\<And>e. Find u h = Some e \<Longrightarrow> can (f (ExtData e))) \<Longrightarrow> can (on_extR u f h)"
  by (auto simp: on_extR_def intro!: can_intros split: option.split)

lemma can_fisher_yates [can_intros]: "can (fisher_yates i xs)"
  by (induction i arbitrary: xs) (auto intro!: can_intros)

lemma can_Shuffle: "shuffle_parts (Extensions h) a mid tail \<Longrightarrow> can (Shuffle h)"
  by (simp add: Shuffle_of_parts can_intros)

text \<open>The shape \<open>Shuffle\<close> wants, as a property of the types alone.\<close>

definition shuffle_types :: "u16 list \<Rightarrow> bool" where
  "shuffle_types ts \<longleftrightarrow> 3 \<le> length ts \<and> IsGREASE (ts ! 0)
     \<and> (IsGREASE (ts ! (length ts - 1))
        \<or> ts ! (length ts - 1) = ExtPreSharedKey \<and> IsGREASE (ts ! (length ts - 2)))"

lemma shuffle_types_parts:
  assumes "shuffle_types (map ExtType es)"
  shows "\<exists>a mid tail. shuffle_parts es a mid tail"
proof -
  obtain a body where es: "es = a # body" and n: "2 \<le> length body"
    using assms by (cases es) (auto simp: shuffle_types_def)
  obtain l rest where r: "body = rest @ [l]" using n by (cases body rule: rev_cases) auto
  obtain g mid where g: "rest = mid @ [g]" using n r by (cases rest rule: rev_cases) auto
  have es': "es = a # mid @ [g, l]" using es r g by simp
  have ty: "IsGREASE (ExtType a)" "IsGREASE (ExtType l) \<or> ExtType l = ExtPreSharedKey \<and> IsGREASE (ExtType g)"
    using assms by (auto simp: shuffle_types_def es' nth_append)
  then have "shuffle_parts es a (mid @ [g]) [l] \<or> shuffle_parts es a mid [g, l]"
    by (auto simp: shuffle_parts_def es')
  then show ?thesis by blast
qed

lemma shuffle_types_regreased:
  assumes "shuffle_types ts" and "regreased e1 e2 ts ts'"
  shows "shuffle_types ts'"
proof -
  have len: "length ts' = length ts" using assms(2) by (auto simp: regreased_def list_all2_lengthD)
  have at: "if IsGREASE (ts ! i) then IsGREASE (ts' ! i) else ts' ! i = ts ! i" if "i < length ts" for i
    using assms(2) that by (auto simp: regreased_def list_all2_conv_all_nth)
  have n: "0 < length ts" "length ts - 1 < length ts" "length ts - 2 < length ts"
    using assms(1) by (auto simp: shuffle_types_def)
  have grease: "IsGREASE (ts' ! i) = IsGREASE (ts ! i)" "\<not> IsGREASE (ts ! i) \<Longrightarrow> ts' ! i = ts ! i"
    if "i < length ts" for i
    using at [OF that] by (auto split: if_splits)
  show ?thesis
    using assms(1) grease(2) [OF n(2)] not_GREASE_psk
    unfolding shuffle_types_def len grease(1) [OF n(1)] grease(1) [OF n(2)] grease(1) [OF n(3)]
    by metis
qed

end
