(* ===== verification/Auth.thy ===== *)
theory Auth
  imports Rerand
begin

text \<open>
  \<^verbatim>\<open>src/auth.go\<close>: tickets (AES-256-GCM boxes over client id, psk and issue time), the X25519 key
  share, and the resumption authenticator, a binder over the truncated hello. Instants and durations
  are integers of nanoseconds, \<open>time.Unix\<close> whole seconds since the epoch. The facts: tickets open to
  what was sealed, the binder verifies on the hello it was computed for, and verification is
  characterised by the functions it calls, and in theory \<open>Acceptance\<close> by the bytes alone.
\<close>

section \<open>Instants\<close>

abbreviation second :: int where "second \<equiv> 1000000000"

definition time_Unix :: "int \<Rightarrow> int" where
  "time_Unix s = s * second"

text \<open>
  \<^verbatim>\<open>t.Unix()\<close> rounds down; \<^verbatim>\<open>t.Sub(u)\<close> saturates at the bounds of \<^verbatim>\<open>time.Duration\<close>. (\<^verbatim>\<open>time.Unix\<close> wraps for seconds within
  62135596800 of \<^verbatim>\<open>MaxInt64\<close>; here they stand as they are.)
\<close>

definition unix_of :: "int \<Rightarrow> int" where
  "unix_of t = t div second"

definition time_Sub :: "int \<Rightarrow> int \<Rightarrow> int" where
  "time_Sub t u = max (- (2 ^ 63)) (min (2 ^ 63 - 1) (t - u))"

section \<open>Tickets\<close>

abbreviation ticketNonceLen :: nat where "ticketNonceLen \<equiv> 12"
abbreviation ticketTagLen :: nat where "ticketTagLen \<equiv> 16"
abbreviation ticketFixed :: nat where "ticketFixed \<equiv> 48"
abbreviation MinTicketLen :: nat where "MinTicketLen \<equiv> 76"
abbreviation FullTicketLen :: nat where "FullTicketLen \<equiv> 144"

text \<open>A ticket key and a psk are byte arrays of 32; a nil full ticket is the empty list.\<close>

type_synonym TicketKey = bytes

record Credential =
  cr_Ticket :: bytes
  cr_FullTicket :: bytes
  cr_PSK :: bytes

definition NewTicketKey :: "TicketKey rnd" where
  "NewTicketKey = rand_Read 32"

definition ticket_aead :: "TicketKey \<Rightarrow> unit res" where
  "ticket_aead k = (if aes_key_ok k then Inr () else Inl (Err ''crypto/aes: invalid key size''))"

definition seal_ticket :: "TicketKey \<Rightarrow> u64 \<Rightarrow> bytes \<Rightarrow> nat \<Rightarrow> int \<Rightarrow> bytes rnd" where
  "seal_ticket k clientID psk ticketLen now =
     (if ticketLen < MinTicketLen then failR (Err ''twiddle: ticket length below minimum'')
      else bindR (liftR (ticket_aead k)) (\<lambda>_.
        let fixed = PutUint64 clientID @ psk @ PutUint64 (of_int (unix_of now))
        in bindR (rand_Read (ticketLen - ticketNonceLen - ticketTagLen - ticketFixed)) (\<lambda>pad.
           bindR (rand_Read ticketNonceLen) (\<lambda>nonce.
           returnR (nonce @ gcm_Seal k nonce (fixed @ pad) [])))))"

definition open_ticket :: "TicketKey \<Rightarrow> bytes \<Rightarrow> (u64 \<times> bytes \<times> int) res" where
  "open_ticket k ticket =
     (if length ticket < MinTicketLen then Inl (Err ''twiddle: ticket too short'')
      else bindE (ticket_aead k) (\<lambda>_.
        case gcm_Open k (take ticketNonceLen ticket) (drop ticketNonceLen ticket) [] of
          None \<Rightarrow> Inl (Err ''twiddle: ticket does not decrypt'')
        | Some plain \<Rightarrow>
            if length plain < ticketFixed then Inl ErrMalformed
            else Inr (Uint64 (slice plain 0 8), slice plain 8 40,
                      time_Unix (sint (Uint64 (slice plain 40 48))))))"

definition issueAt :: "TicketKey \<Rightarrow> u64 \<Rightarrow> nat \<Rightarrow> int \<Rightarrow> Credential rnd" where
  "issueAt k clientID ticketLen now =
     bindR (rand_Read 32) (\<lambda>psk.
     bindR (seal_ticket k clientID psk ticketLen now) (\<lambda>ticket.
     bindR (seal_ticket k clientID psk FullTicketLen now) (\<lambda>full.
     returnR \<lparr>cr_Ticket = ticket, cr_FullTicket = full, cr_PSK = psk\<rparr>)))"

definition IssueFullFor :: "TicketKey \<Rightarrow> bytes \<Rightarrow> bytes rnd" where
  "IssueFullFor k ticket =
     bindR (liftR (open_ticket k ticket)) (\<lambda>(clientID, psk, issued).
     seal_ticket k clientID psk FullTicketLen issued)"

section \<open>Key share\<close>

text \<open>The loop of \<open>SetKeyShare\<close>: write the key over the first X25519 entry of its length.\<close>

function set_share_loop :: "bytes \<Rightarrow> nat \<Rightarrow> bytes \<Rightarrow> bytes res" where
  "set_share_loop pub p d =
     (if p + 4 \<le> length d
      then let g = Uint16 (slice d p (p + 2));
               n = unat (Uint16 (slice d (p + 2) (p + 4)))
           in if length d < p + 4 + n then Inl ErrMalformed
              else if g = GroupX25519 \<and> n = length pub then Inr (go_copy (p + 4) pub d)
              else set_share_loop pub (p + 4 + n) d
      else Inl (Err ''twiddle: hello offers no X25519 key_share''))"
  by pat_completeness auto
termination
  by (relation "measure (\<lambda>(pub, p, d). length d - p)") auto

declare set_share_loop.simps [simp del]

definition SetKeyShare :: "kex \<Rightarrow> ClientHello \<Rightarrow> (bytes \<times> ClientHello) rnd" where
  "SetKeyShare K h =
     (case Find ExtKeyShare h of
        None \<Rightarrow> failR (Err ''twiddle: hello has no key_share'')
      | Some e \<Rightarrow>
          bindR x25519_GenerateKey (\<lambda>priv.
          bindR (liftR (set_share_loop (x25519_public K priv) 2 (ExtData e))) (\<lambda>d.
          returnR (priv, SetExtData ExtKeyShare d h))))"

function share_loop :: "nat \<Rightarrow> bytes \<Rightarrow> bytes res" where
  "share_loop p d =
     (if p + 4 \<le> length d
      then let g = Uint16 (slice d p (p + 2));
               n = unat (Uint16 (slice d (p + 2) (p + 4)))
           in if length d < p + 4 + n then Inl ErrMalformed
              else if g = GroupX25519 then x25519_NewPublicKey (slice d (p + 4) (p + 4 + n))
              else share_loop (p + 4 + n) d
      else Inl (Err ''twiddle: hello offers no X25519 key_share''))"
  by pat_completeness auto
termination
  by (relation "measure (\<lambda>(p, d). length d - p)") auto

declare share_loop.simps [simp del]

definition KeyShare :: "ClientHello \<Rightarrow> bytes res" where
  "KeyShare h =
     (case Find ExtKeyShare h of
        None \<Rightarrow> Inl (Err ''twiddle: hello has no key_share'')
      | Some e \<Rightarrow> share_loop 2 (ExtData e))"

section \<open>pre_shared_key and the binder\<close>

definition setPSK :: "ClientHello \<Rightarrow> bytes \<Rightarrow> bytes \<Rightarrow> bytes \<Rightarrow> ClientHello" where
  "setPSK h ticket age binder =
     (let d = appendU16 [] (of_nat (length ticket + 6));
          d = appendU16 d (of_nat (length ticket));
          d = d @ ticket;
          d = d @ age;
          d = appendU16 d (of_nat (length binder + 1));
          d = d @ [of_nat (length binder)];
          d = d @ binder;
          out = filter (\<lambda>e. ExtType e \<noteq> ExtPreSharedKey) (Extensions h)
      in h\<lparr>Extensions := out @ [Extension ExtPreSharedKey d]\<rparr>)"

definition parsePSK :: "bytes \<Rightarrow> (bytes \<times> bytes \<times> bytes) res" where
  "parsePSK d =
     (if length d < 2 then Inl ErrMalformed
      else let idsEnd = 2 + unat (Uint16 (slice d 0 2))
           in if length d < idsEnd + 2 \<or> idsEnd < 4 then Inl ErrMalformed
              else let tl = unat (Uint16 (slice d 2 4))
                   in if length d < 4 + tl + 4 then Inl ErrMalformed
                      else let ticket = slice d 4 (4 + tl);
                               age = slice d (4 + tl) (4 + tl + 4);
                               p = idsEnd + 2
                           in if length d \<le> p then Inl ErrMalformed
                              else let bl = unat (d ! p)
                                   in if length d < p + 1 + bl then Inl ErrMalformed
                                      else Inr (ticket, age, slice d (p + 1) (p + 1 + bl)))"

definition truncateForBinder :: "bytes \<Rightarrow> nat \<Rightarrow> bytes" where
  "truncateForBinder rec binderLen =
     (let cut = 2 + 1 + binderLen
      in if length rec < cut then rec else take (length rec - cut) rec)"

definition binderKey :: "bytes \<Rightarrow> bytes" where
  "binderKey psk = hmac SHA256 psk (str ''twiddle/binder/v1'')"

definition binderHash :: "nat \<Rightarrow> hash_alg res" where
  "binderHash binderLen =
     (if binderLen = 32 then Inr SHA256 else if binderLen = 48 then Inr SHA384
      else Inl (Err ''twiddle: binder length is neither 32 (SHA-256) nor 48 (SHA-384)''))"

definition SetTicketAuth :: "Credential \<Rightarrow> nat \<Rightarrow> ClientHello \<Rightarrow> ClientHello rnd" where
  "SetTicketAuth cred binderLen h =
     bindR (liftR (binderHash binderLen)) (\<lambda>newHash.
     bindR (rand_Read 4) (\<lambda>age.
     let h = setPSK h (cr_Ticket cred) age (replicate binderLen 0);
         m = hmac newHash (binderKey (cr_PSK cred)) (truncateForBinder (Marshal h) binderLen)
     in returnR (setPSK h (cr_Ticket cred) age m)))"

record AuthResult =
  ar_ClientID :: u64
  ar_PSK :: bytes
  ar_Issued :: int
  ar_ClientEphemeral :: bytes

definition verifyAt :: "ClientHello \<Rightarrow> TicketKey \<Rightarrow> int \<Rightarrow> int \<Rightarrow> AuthResult res" where
  "verifyAt h k maxAge now =
     (case Find ExtPreSharedKey h of
        None \<Rightarrow> Inl (Err ''twiddle: hello carries no pre_shared_key'')
      | Some e \<Rightarrow>
          bindE (parsePSK (ExtData e)) (\<lambda>(ticket, age, binder).
          bindE (open_ticket k ticket) (\<lambda>(clientID, psk, issued).
          if 0 < maxAge \<and> maxAge < time_Sub now issued
          then Inl (Err ''twiddle: ticket is too old'')
          else bindE (binderHash (length binder)) (\<lambda>newHash.
          let probe = setPSK h ticket age (replicate (length binder) 0);
              m = hmac newHash (binderKey psk) (truncateForBinder (Marshal probe) (length binder))
          in if m \<noteq> binder then Inl (Err ''twiddle: binder does not verify'')
             else bindE (KeyShare h) (\<lambda>eph.
                  Inr \<lparr>ar_ClientID = clientID, ar_PSK = psk, ar_Issued = issued, ar_ClientEphemeral = eph\<rparr>)))))"

section \<open>Tickets open to what was sealed\<close>

lemma ticket_aead_ok [simp]: "length k = 32 \<Longrightarrow> ticket_aead k = Inr ()"
  by (simp add: ticket_aead_def aes_key_ok_def)

lemma key_ok_32 [simp]: "length k = 32 \<Longrightarrow> aes_key_ok k"
  by (simp add: aes_key_ok_def)

definition ticket_of :: "TicketKey \<Rightarrow> u64 \<Rightarrow> bytes \<Rightarrow> int \<Rightarrow> bytes \<Rightarrow> bytes \<Rightarrow> bytes" where
  "ticket_of k clientID psk now pad nonce =
     nonce @ gcm_Seal k nonce ((PutUint64 clientID @ psk @ PutUint64 (of_int (unix_of now))) @ pad) []"

lemma seal_ticket_result:
  assumes "seal_ticket k clientID psk n now t = Inr (ticket, t')" and "length k = 32"
  shows "MinTicketLen \<le> n \<and> (\<exists>pad nonce. length pad = n - 76 \<and> length nonce = 12
           \<and> ticket = ticket_of k clientID psk now pad nonce)"
proof -
  have "\<not> n < MinTicketLen" using assms(1) by (auto simp: seal_ticket_def failR_def)
  with assms obtain pad nonce t1 t2 where "rand_Read (n - 76) t = Inr (pad, t1)" "rand_Read 12 t1 = Inr (nonce, t2)"
    "ticket = ticket_of k clientID psk now pad nonce"
    by (auto simp: seal_ticket_def bindR_eq_Inr returnR_eq_Inr ticket_of_def)
  with \<open>\<not> n < MinTicketLen\<close> show ?thesis by (auto dest: rand_Read_length)
qed

lemma length_ticket_of:
  "length k = 32 \<Longrightarrow> length psk = 32 \<Longrightarrow> length nonce = 12 \<Longrightarrow>
     length (ticket_of k clientID psk now pad nonce) = 76 + length pad"
  by (simp add: ticket_of_def gcm.length_seal)

text \<open>An instant whose seconds fit a signed 64-bit integer survives the ticket.\<close>

definition instant_ok :: "int \<Rightarrow> bool" where
  "instant_ok t \<longleftrightarrow> - (2 ^ 63) \<le> unix_of t \<and> unix_of t < 2 ^ 63"

lemma sint_of_unix: "instant_ok t \<Longrightarrow> sint (of_int (unix_of t) :: u64) = unix_of t"
  by (simp add: instant_ok_def signed_of_int signed_take_bit_int_eq_self)

lemma unix_time_Unix [simp]: "unix_of (time_Unix s) = s"
  by (simp add: unix_of_def time_Unix_def)

lemma open_ticket_of:
  assumes "length k = 32" and "length psk = 32" and "length nonce = 12" and "instant_ok now"
  shows "open_ticket k (ticket_of k clientID psk now pad nonce) = Inr (clientID, psk, time_Unix (unix_of now))"
proof -
  let ?fixed = "PutUint64 clientID @ psk @ PutUint64 (of_int (unix_of now))"
  let ?T = "ticket_of k clientID psk now pad nonce"
  have o: "gcm_Open k (take 12 ?T) (drop 12 ?T) [] = Some (?fixed @ pad)"
    unfolding ticket_of_def using assms(1,3) by (intro gcm.unseal_box) simp_all
  have f: "Uint64 (slice (?fixed @ pad) 0 8) = clientID" "slice (?fixed @ pad) 8 40 = psk"
    "Uint64 (slice (?fixed @ pad) 40 48) = of_int (unix_of now)"
    using assms(2) Uint64_PutUint64 [of _ "[]"] by (simp_all add: slice_def)
  have "length (?fixed @ pad) = 48 + length pad" using assms(2) by simp
  then show ?thesis
    using assms o f sint_of_unix [OF assms(4)] length_ticket_of [of k psk nonce clientID now pad]
    by (simp add: open_ticket_def)
qed

text \<open>Everything a sealed ticket is good for.\<close>

definition ticket_for :: "TicketKey \<Rightarrow> bytes \<Rightarrow> u64 \<Rightarrow> bytes \<Rightarrow> int \<Rightarrow> bool" where
  "ticket_for k ticket clientID psk issued \<longleftrightarrow> open_ticket k ticket = Inr (clientID, psk, issued)"

lemma seal_ticket_for:
  assumes "seal_ticket k clientID psk n now t = Inr (ticket, t')" and "length k = 32" and "length psk = 32"
    and "instant_ok now"
  shows "ticket_for k ticket clientID psk (time_Unix (unix_of now)) \<and> length ticket = n \<and> MinTicketLen \<le> n"
proof -
  obtain pad nonce where "MinTicketLen \<le> n" "length pad = n - 76" "length nonce = 12"
    "ticket = ticket_of k clientID psk now pad nonce"
    using seal_ticket_result [OF assms(1,2)] by blast
  with assms show ?thesis by (simp add: ticket_for_def open_ticket_of length_ticket_of)
qed

lemma open_ticket_psk: "open_ticket k ticket = Inr (c, psk, issued) \<Longrightarrow> length psk = 32"
  by (auto simp: open_ticket_def bindE_eq_Inr slice_def split: if_splits option.splits)

lemma open_ticket_instant:
  "open_ticket k ticket = Inr (c, psk, issued) \<Longrightarrow> instant_ok issued \<and> time_Unix (unix_of issued) = issued"
proof -
  assume "open_ticket k ticket = Inr (c, psk, issued)"
  then obtain w :: u64 where "issued = time_Unix (sint w)"
    by (auto simp: open_ticket_def bindE_eq_Inr split: if_splits option.splits)
  then show ?thesis using sint_ge [of w] sint_lt [of w] by (simp add: instant_ok_def)
qed

text \<open>
  A sealed ticket has the length asked for and opens, under the same key, to the client id and
  psk put in it and the issue time to the second.
\<close>

theorem open_seal:
  assumes "seal_ticket k clientID psk n now t = Inr (ticket, t')" and "length k = 32" and "length psk = 32"
    and "instant_ok now"
  shows "length ticket = n \<and> open_ticket k ticket = Inr (clientID, psk, time_Unix (unix_of now))"
  using seal_ticket_for [OF assms] by (simp add: ticket_for_def)

lemma seal_ticket_total:
  "length k = 32 \<Longrightarrow> MinTicketLen \<le> n \<Longrightarrow> n - 64 \<le> length t \<Longrightarrow>
     \<exists>ticket t'. seal_ticket k clientID psk n now t = Inr (ticket, t')"
  by (simp add: seal_ticket_def bindR_def liftR_def rand_Read_def returnR_def Let_def) arith

theorem open_seal_witness:
  "\<exists>ticket t'. seal_ticket (replicate 32 1) 7 (replicate 32 2) 176 1500000000000000000 (replicate 200 0)
      = Inr (ticket, t') \<and> length ticket = 176
      \<and> open_ticket (replicate 32 1) ticket = Inr (7, replicate 32 2, 1500000000000000000)"
proof -
  obtain ticket t' where s: "seal_ticket (replicate 32 1) 7 (replicate 32 2) 176 1500000000000000000 (replicate 200 0)
      = Inr (ticket, t')"
    using seal_ticket_total [of "replicate 32 1" 176 "replicate 200 0" 7 "replicate 32 2" 1500000000000000000] by auto
  have "instant_ok 1500000000000000000" by (simp add: instant_ok_def unix_of_def)
  with open_seal [OF s] s show ?thesis by (simp add: time_Unix_def unix_of_def)
qed

text \<open>
  The two tickets of an issued credential, and the companion \<open>IssueFullFor\<close> makes for an
  existing one, name the same client, psk and issue second, and the full one always has the size of
  the smallest ECH payload.
\<close>

theorem issue_companions:
  assumes "issueAt k clientID n now t = Inr (cred, t')" and "length k = 32" and "instant_ok now"
  shows "open_ticket k (cr_Ticket cred) = Inr (clientID, cr_PSK cred, time_Unix (unix_of now))
     \<and> open_ticket k (cr_FullTicket cred) = Inr (clientID, cr_PSK cred, time_Unix (unix_of now))
     \<and> length (cr_Ticket cred) = n \<and> length (cr_FullTicket cred) = FullTicketLen
     \<and> (IssueFullFor k (cr_Ticket cred) u = Inr (full, u') \<longrightarrow>
          length full = FullTicketLen \<and> open_ticket k full = open_ticket k (cr_Ticket cred))"
proof -
  from assms(1) obtain psk t1 ticket t2 full0 t3 where p: "rand_Read 32 t = Inr (psk, t1)"
    and a: "seal_ticket k clientID psk n now t1 = Inr (ticket, t2)"
    and b: "seal_ticket k clientID psk FullTicketLen now t2 = Inr (full0, t3)"
    and c: "cred = \<lparr>cr_Ticket = ticket, cr_FullTicket = full0, cr_PSK = psk\<rparr>"
    by (auto simp: issueAt_def bindR_eq_Inr returnR_eq_Inr)
  have psk: "length psk = 32" using rand_Read_length [OF p] .
  note A = seal_ticket_for [OF a assms(2) psk assms(3), unfolded ticket_for_def]
  note B = seal_ticket_for [OF b assms(2) psk assms(3), unfolded ticket_for_def]
  have "length full = FullTicketLen \<and> open_ticket k full = open_ticket k (cr_Ticket cred)"
    if "IssueFullFor k (cr_Ticket cred) u = Inr (full, u')"
  proof -
    from that A c have f: "seal_ticket k clientID psk FullTicketLen (time_Unix (unix_of now)) u = Inr (full, u')"
      by (simp add: IssueFullFor_def)
    have "instant_ok (time_Unix (unix_of now))" using assms(3) by (simp add: instant_ok_def)
    from seal_ticket_for [OF f assms(2) psk this] A c show ?thesis by (simp add: ticket_for_def)
  qed
  with A B c show ?thesis by simp
qed

theorem issue_companions_witness:
  "\<exists>cred t'. issueAt (replicate 32 1) 7 230 1500000000000000000 (replicate 400 0) = Inr (cred, t')
     \<and> length (cr_Ticket cred) = 230 \<and> length (cr_FullTicket cred) = 144
     \<and> open_ticket (replicate 32 1) (cr_FullTicket cred) = Inr (7, cr_PSK cred, 1500000000000000000)"
proof -
  have "\<exists>r. issueAt (replicate 32 1) 7 230 1500000000000000000 (replicate 400 0) = Inr r"
    by (simp add: issueAt_def seal_ticket_def bindR_def liftR_def rand_Read_def returnR_def Let_def)
  then obtain cred t' where i: "issueAt (replicate 32 1) 7 230 1500000000000000000 (replicate 400 0) = Inr (cred, t')"
    by auto
  have "instant_ok 1500000000000000000" by (simp add: instant_ok_def unix_of_def)
  with issue_companions [OF i, of "[]" "[]" "[]"] i show ?thesis by (simp add: time_Unix_def unix_of_def)
qed

section \<open>The key share the two sides agree on\<close>

text \<open>The first entry of a group and length, in the list of entries.\<close>

fun set_share :: "bytes \<Rightarrow> Extension list \<Rightarrow> Extension list option" where
  "set_share pub [] = None"
| "set_share pub (k # ks) =
     (if ExtType k = GroupX25519 \<and> length (ExtData k) = length pub then Some (Extension GroupX25519 pub # ks)
      else map_option (\<lambda>ks. k # ks) (set_share pub ks))"

lemma set_share_loop_skip:
  assumes "p + 4 + n \<le> length d" and "Uint16 (slice d p (p + 2)) = g"
    and "unat (Uint16 (slice d (p + 2) (p + 4))) = n"
  shows "set_share_loop pub p d = (if g = GroupX25519 \<and> n = length pub then Inr (go_copy (p + 4) pub d)
     else set_share_loop pub (p + 4 + n) d)"
  using assms by (subst set_share_loop.simps) (simp add: Let_def)

lemma share_loop_skip:
  assumes "p + 4 + n \<le> length d" and "Uint16 (slice d p (p + 2)) = g"
    and "unat (Uint16 (slice d (p + 2) (p + 4))) = n" and "slice d (p + 4) (p + 4 + n) = out"
  shows "share_loop p d = (if g = GroupX25519 then x25519_NewPublicKey out else share_loop (p + 4 + n) d)"
  using assms by (subst share_loop.simps) (simp add: Let_def)

lemma set_share_loop_entries:
  assumes "\<forall>k\<in>set ks. length (ExtData k) < 65536"
  shows "set_share_loop pub (length pre) (pre @ exts_bytes ks)
     = (case set_share pub ks of
          None \<Rightarrow> Inl (Err ''twiddle: hello offers no X25519 key_share'')
        | Some ks' \<Rightarrow> Inr (pre @ exts_bytes ks'))"
  using assms
proof (induction ks arbitrary: pre)
  case Nil
  then show ?case by (subst set_share_loop.simps) simp
next
  case (Cons k ks)
  let ?d = "pre @ ext_bytes k @ exts_bytes ks"
  have len: "length (ExtData k) < 65536" using Cons.prems by simp
  note sl = entry_slices [OF len, of pre "exts_bytes ks"]
  note step = set_share_loop_skip [OF sl(4) sl(1) sl(2), of pub]
  show ?case
  proof (cases "ExtType k = GroupX25519 \<and> length (ExtData k) = length pub")
    case True
    then have "go_copy (length pre + 4) pub ?d = pre @ ext_bytes (Extension GroupX25519 pub) @ exts_bytes ks"
      by (simp add: go_copy_def ext_bytes_def)
    with True step show ?thesis by simp
  next
    case False
    have "set_share_loop pub (length (pre @ ext_bytes k)) ((pre @ ext_bytes k) @ exts_bytes ks)
      = (case set_share pub ks of None \<Rightarrow> Inl (Err ''twiddle: hello offers no X25519 key_share'')
        | Some ks' \<Rightarrow> Inr ((pre @ ext_bytes k) @ exts_bytes ks'))"
      using Cons.prems by (intro Cons.IH) simp
    with False step show ?thesis by (auto simp: add.assoc split: option.split)
  qed
qed

lemma share_loop_entries:
  assumes "\<forall>k\<in>set ks. length (ExtData k) < 65536"
  shows "share_loop (length pre) (pre @ exts_bytes ks)
     = (case find (\<lambda>k. ExtType k = GroupX25519) ks of
          None \<Rightarrow> Inl (Err ''twiddle: hello offers no X25519 key_share'')
        | Some k \<Rightarrow> x25519_NewPublicKey (ExtData k))"
  using assms
proof (induction ks arbitrary: pre)
  case Nil
  then show ?case by (subst share_loop.simps) simp
next
  case (Cons k ks)
  have len: "length (ExtData k) < 65536" using Cons.prems by simp
  note sl = entry_slices [OF len, of pre "exts_bytes ks"]
  note step = share_loop_skip [OF sl(4) sl(1) sl(2) sl(3)]
  have "share_loop (length (pre @ ext_bytes k)) ((pre @ ext_bytes k) @ exts_bytes ks)
    = (case find (\<lambda>k. ExtType k = GroupX25519) ks of
          None \<Rightarrow> Inl (Err ''twiddle: hello offers no X25519 key_share'')
        | Some k \<Rightarrow> x25519_NewPublicKey (ExtData k))"
    using Cons.prems by (intro Cons.IH) simp
  with step show ?case by (simp add: add.assoc)
qed

lemma set_share_Some:
  "set_share pub ks \<noteq> None \<longleftrightarrow> (\<exists>k\<in>set ks. ExtType k = GroupX25519 \<and> length (ExtData k) = length pub)"
  by (induction ks) auto

lemma set_share_small:
  "set_share pub ks = Some ks' \<Longrightarrow> \<forall>k\<in>set ks. length (ExtData k) < 65536 \<Longrightarrow> length pub < 65536 \<Longrightarrow>
     \<forall>k\<in>set ks'. length (ExtData k) < 65536"
  by (induction ks arbitrary: ks') (auto split: if_splits)

lemma find_set_share:
  "set_share pub ks = Some ks' \<Longrightarrow> find (\<lambda>k. ExtType k = GroupX25519) ks = Some k \<Longrightarrow>
     find (\<lambda>k. ExtType k = GroupX25519) ks' = Some (if length (ExtData k) = length pub then Extension GroupX25519 pub else k)"
  by (induction ks arbitrary: ks') (auto split: if_splits)

lemma SetKeyShare_result:
  assumes "SetKeyShare K h t = Inr ((priv, h'), t')" and "kex_ok K"
    and "Find ExtKeyShare h = Some e" and "ExtData e = hdr @ exts_bytes ks"
    and "\<forall>k\<in>set ks. length (ExtData k) < 65536" and "length hdr = 2"
  obtains ks' where "set_share (x25519_public K priv) ks = Some ks'" "length priv = 32"
    "h' = SetExtData ExtKeyShare (hdr @ exts_bytes ks') h"
proof -
  from assms(1,3,4) obtain d t1 where "rand_Read 32 t = Inr (priv, t1)"
    and d: "set_share_loop (x25519_public K priv) 2 (hdr @ exts_bytes ks) = Inr d"
    and h': "h' = SetExtData ExtKeyShare d h"
    by (auto simp: SetKeyShare_def bindR_eq_Inr returnR_eq_Inr liftR_eq_Inr x25519_GenerateKey_def)
  then have "length priv = 32" by (auto dest: rand_Read_length)
  moreover obtain ks' where "set_share (x25519_public K priv) ks = Some ks'" "d = hdr @ exts_bytes ks'"
    using d set_share_loop_entries [OF assms(5), of "x25519_public K priv" hdr] assms(6)
    by (auto split: option.splits)
  ultimately show thesis using that h' by blast
qed

lemma SetKeyShare_read:
  assumes "SetKeyShare K h t = Inr ((priv, h'), t')" and "kex_ok K"
    and "Find ExtKeyShare h = Some e" and "ExtData e = hdr @ exts_bytes ks"
    and "\<forall>k\<in>set ks. length (ExtData k) < 65536" and "length hdr = 2"
    and "find (\<lambda>k. ExtType k = GroupX25519) ks = Some k"
  shows "KeyShare h' = (if length (ExtData k) = 32 then Inr (x25519_public K priv)
     else Inl (Err ''crypto/ecdh: invalid public key''))"
proof -
  obtain ks' where ks': "set_share (x25519_public K priv) ks = Some ks'"
    and h': "h' = SetExtData ExtKeyShare (hdr @ exts_bytes ks') h"
    using SetKeyShare_result [OF assms(1-6)] by blast
  have small: "\<forall>k\<in>set ks'. length (ExtData k) < 65536"
    by (rule set_share_small [OF ks' assms(5)]) (use assms(2) in simp)
  have "KeyShare h' = share_loop 2 (hdr @ exts_bytes ks')"
    using assms(3) by (simp add: KeyShare_def h' hello_simps)
  also have "\<dots> = x25519_NewPublicKey (if length (ExtData k) = 32 then x25519_public K priv else ExtData k)"
    using share_loop_entries [OF small, of hdr] find_set_share [OF ks' assms(7)] assms(2,6) by simp
  finally show ?thesis using assms(2) by (simp add: x25519_NewPublicKey_def)
qed

text \<open>
  After \<open>SetKeyShare\<close> the server reads the public key of the private key the client kept, on
  any well-formed key_share whose first X25519 entry has 32 bytes; where that entry has another
  length and a later one has 32, the client installs its key and the server refuses the hello.
\<close>

theorem SetKeyShare_KeyShare:
  assumes "SetKeyShare K h t = Inr ((priv, h'), t')" and "kex_ok K"
    and "Find ExtKeyShare h = Some e" and "ExtData e = hdr @ exts_bytes ks"
    and "\<forall>k\<in>set ks. length (ExtData k) < 65536" and "length hdr = 2"
    and "find (\<lambda>k. ExtType k = GroupX25519) ks = Some k"
  shows "KeyShare h' = (if length (ExtData k) = 32 then Inr (x25519_public K priv)
     else Inl (Err ''crypto/ecdh: invalid public key''))"
  by (rule SetKeyShare_read [OF assms])

definition share_hello :: ClientHello where
  "share_hello = small_hello\<lparr>Extensions := [Extension ExtKeyShare ([0, 36] @ exts_bytes [Extension GroupX25519 (replicate 32 0)])]\<rparr>"

lemma share_hello_find:
  "Find ExtKeyShare share_hello
     = Some (Extension ExtKeyShare ([0, 36] @ exts_bytes [Extension GroupX25519 (replicate 32 0)]))"
  by (simp add: share_hello_def Find_def)

lemma share_hello_set:
  "SetKeyShare kex_demo share_hello (replicate 32 5)
     = Inr ((replicate 32 5, SetExtData ExtKeyShare
         ([0, 36] @ exts_bytes [Extension GroupX25519 (x25519_public kex_demo (replicate 32 5))]) share_hello), [])"
proof -
  have "rand_Read 32 (replicate 32 5) = Inr (replicate 32 5, [])" by (simp add: rand_Read_def)
  moreover have "set_share_loop (x25519_public kex_demo (replicate 32 5)) 2
      ([0, 36] @ exts_bytes [Extension GroupX25519 (replicate 32 0)])
    = Inr ([0, 36] @ exts_bytes [Extension GroupX25519 (x25519_public kex_demo (replicate 32 5))])"
    using set_share_loop_entries [of "[Extension GroupX25519 (replicate 32 0)]" "x25519_public kex_demo (replicate 32 5)" "[0, 36]"]
    by (simp add: kex_demo_ok numeral_2_eq_2)
  ultimately show ?thesis
    using share_hello_find
    by (simp add: SetKeyShare_def x25519_GenerateKey_def bindR_def liftR_def returnR_def)
qed

theorem SetKeyShare_KeyShare_witness:
  "\<exists>h'. SetKeyShare kex_demo share_hello (replicate 32 5) = Inr ((replicate 32 5, h'), [])
     \<and> KeyShare h' = Inr (x25519_public kex_demo (replicate 32 5))"
  using SetKeyShare_KeyShare [OF share_hello_set kex_demo_ok share_hello_find, of "[0, 36]"
      "[Extension GroupX25519 (replicate 32 0)]"] share_hello_set
  by simp

section \<open>The resumption authenticator\<close>

definition psk_body :: "bytes \<Rightarrow> bytes \<Rightarrow> bytes \<Rightarrow> bytes" where
  "psk_body ticket age binder =
     PutUint16 (of_nat (length ticket + 6)) @ PutUint16 (of_nat (length ticket)) @ ticket @ age
     @ PutUint16 (of_nat (length binder + 1)) @ [of_nat (length binder)] @ binder"

lemma setPSK_eq:
  "setPSK h ticket age binder = h\<lparr>Extensions := filter (\<lambda>e. ExtType e \<noteq> ExtPreSharedKey) (Extensions h)
     @ [Extension ExtPreSharedKey (psk_body ticket age binder)]\<rparr>"
  by (simp add: setPSK_def psk_body_def appendU16_eq Let_def)

lemma setPSK_setPSK [hello_simps]: "setPSK (setPSK h t a b) t' a' b' = setPSK h t' a' b'"
  by (simp add: setPSK_eq)

lemma find_last: "find P (filter (\<lambda>x. \<not> P x) xs @ [y]) = (if P y then Some y else None)"
  by (induction xs) auto

lemma Find_setPSK [hello_simps]:
  "Find u (setPSK h t a b) = (if u = ExtPreSharedKey then Some (Extension ExtPreSharedKey (psk_body t a b)) else Find u h)"
proof (cases "u = ExtPreSharedKey")
  case True
  then show ?thesis
    using find_last [of "\<lambda>e. ExtType e = ExtPreSharedKey" "Extensions h"] by (simp add: Find_def setPSK_eq)
next
  case False
  have "find (\<lambda>e. ExtType e = u) (xs @ [Extension ExtPreSharedKey d]) = find (\<lambda>e. ExtType e = u) xs" for xs d
    using False by (induction xs) auto
  with False show ?thesis by (simp add: Find_def setPSK_eq find_filter_other)
qed

lemma KeyShare_setPSK [hello_simps]: "KeyShare (setPSK h t a b) = KeyShare h"
  by (simp add: KeyShare_def hello_simps)

lemma parsePSK_body:
  assumes "length ticket + 6 < 65536" and "length age = 4" and "length binder < 256"
  shows "parsePSK (psk_body ticket age binder) = Inr (ticket, age, binder)"
proof -
  let ?d = "psk_body ticket age binder"
  have len: "length ?d = length ticket + length binder + 11" using assms(2) by (simp add: psk_body_def)
  have ids: "unat (Uint16 (slice ?d 0 2)) = length ticket + 6"
    using assms(1) by (simp add: slice_def psk_body_def del: of_nat_add)
  have tl: "unat (Uint16 (slice ?d 2 4)) = length ticket"
    using assms(1) by (simp add: slice_def psk_body_def)
  have t: "slice ?d 4 (4 + length ticket) = ticket" by (simp add: slice_def psk_body_def)
  have a: "slice ?d (4 + length ticket) (4 + length ticket + 4) = age"
    using assms(2) by (simp add: slice_def psk_body_def)
  have split: "?d = (PutUint16 (of_nat (length ticket + 6)) @ PutUint16 (of_nat (length ticket)) @ ticket @ age
      @ PutUint16 (of_nat (length binder + 1))) @ of_nat (length binder) # binder"
    by (simp add: psk_body_def)
  have pre: "length (PutUint16 (of_nat (length ticket + 6)) @ PutUint16 (of_nat (length ticket)) @ ticket @ age
      @ PutUint16 (of_nat (length binder + 1))) = 2 + (length ticket + 6) + 2"
    using assms(2) by simp
  have bl: "unat (?d ! (2 + (length ticket + 6) + 2)) = length binder"
    using assms(3) pre by (subst split) (simp only: nth_append_length [of "_ @ _"] pre [symmetric], simp)
  have b: "slice ?d (2 + (length ticket + 6) + 2 + 1) (2 + (length ticket + 6) + 2 + 1 + length binder) = binder"
    using pre by (subst split) (simp add: slice_def)
  show ?thesis
    unfolding parsePSK_def Let_def ids tl t a bl b len by simp
qed

lemma parsePSK_sizes: "parsePSK d = Inr (ticket, age, binder) \<Longrightarrow> length age = 4 \<and> length ticket < 65536 \<and> length binder < 256"
  by (auto simp: parsePSK_def Let_def split: if_splits)

text \<open>
  The binder a hello should carry: the MAC over the truncation of the hello in canonical form, the
  pre_shared_key extension rewritten and moved last.
\<close>

definition binder_for :: "hash_alg \<Rightarrow> bytes \<Rightarrow> ClientHello \<Rightarrow> bytes \<Rightarrow> bytes \<Rightarrow> nat \<Rightarrow> bytes" where
  "binder_for alg psk h ticket age n =
     hmac alg (binderKey psk) (truncateForBinder (Marshal (setPSK h ticket age (replicate n 0))) n)"

lemma binder_for_setPSK [hello_simps]: "binder_for alg psk (setPSK h t a b) ticket age n = binder_for alg psk h ticket age n"
  by (simp add: binder_for_def hello_simps)

lemma binderHash_size: "binderHash n = Inr alg \<Longrightarrow> hash_size alg = n"
  by (auto simp: binderHash_def split: if_splits)

lemma binderHash_total: "n = 32 \<or> n = 48 \<Longrightarrow> \<exists>alg. binderHash n = Inr alg"
  by (auto simp: binderHash_def)

lemma SetTicketAuth_result:
  assumes "SetTicketAuth cred n h t = Inr (h', t')"
  shows "\<exists>alg age. binderHash n = Inr alg \<and> length age = 4
     \<and> h' = setPSK h (cr_Ticket cred) age (binder_for alg (cr_PSK cred) h (cr_Ticket cred) age n)"
  using assms
  by (auto simp: SetTicketAuth_def bindR_eq_Inr liftR_eq_Inr returnR_eq_Inr Let_def binder_for_def hello_simps
      dest: rand_Read_length)

lemma verifyAt_iff_aux:
  "verifyAt h k maxAge now = Inr r \<longleftrightarrow>
     (\<exists>e ticket age binder alg. Find ExtPreSharedKey h = Some e \<and> parsePSK (ExtData e) = Inr (ticket, age, binder)
        \<and> open_ticket k ticket = Inr (ar_ClientID r, ar_PSK r, ar_Issued r)
        \<and> (0 < maxAge \<longrightarrow> time_Sub now (ar_Issued r) \<le> maxAge)
        \<and> binderHash (length binder) = Inr alg
        \<and> binder = binder_for alg (ar_PSK r) h ticket age (length binder)
        \<and> KeyShare h = Inr (ar_ClientEphemeral r))"
  (is "?l \<longleftrightarrow> ?r")
proof
  assume ?l
  then show ?r
    by (auto simp: verifyAt_def bindE_eq_Inr Let_def binder_for_def split: option.splits if_splits)
next
  assume ?r
  then obtain e ticket age bd alg where "Find ExtPreSharedKey h = Some e"
    "parsePSK (ExtData e) = Inr (ticket, age, bd)"
    "open_ticket k ticket = Inr (ar_ClientID r, ar_PSK r, ar_Issued r)"
    "0 < maxAge \<longrightarrow> time_Sub now (ar_Issued r) \<le> maxAge" "binderHash (length bd) = Inr alg"
    "bd = binder_for alg (ar_PSK r) h ticket age (length bd)" "KeyShare h = Inr (ar_ClientEphemeral r)"
    by blast
  then show ?l by (simp add: verifyAt_def Let_def binder_for_def) linarith
qed

lemma SetTicketAuth_verifies:
  assumes "SetTicketAuth cred n h t = Inr (h', t')"
    and "open_ticket k (cr_Ticket cred) = Inr (clientID, cr_PSK cred, issued)"
    and "length (cr_Ticket cred) + 6 < 65536" and "KeyShare h = Inr eph"
    and "0 < maxAge \<longrightarrow> time_Sub now issued \<le> maxAge"
  shows "verifyAt h' k maxAge now =
     Inr \<lparr>ar_ClientID = clientID, ar_PSK = cr_PSK cred, ar_Issued = issued, ar_ClientEphemeral = eph\<rparr>"
proof -
  obtain alg age where alg: "binderHash n = Inr alg" and age: "length age = 4"
    and h': "h' = setPSK h (cr_Ticket cred) age (binder_for alg (cr_PSK cred) h (cr_Ticket cred) age n)"
    using SetTicketAuth_result [OF assms(1)] by blast
  let ?b = "binder_for alg (cr_PSK cred) h (cr_Ticket cred) age n"
  have len: "length ?b = n" using binderHash_size [OF alg] by (simp add: binder_for_def)
  have "n < 256" using alg by (auto simp: binderHash_def split: if_splits)
  then have "parsePSK (psk_body (cr_Ticket cred) age ?b) = Inr (cr_Ticket cred, age, ?b)"
    using assms(3) age len by (intro parsePSK_body) simp_all
  then show ?thesis
    using assms alg len by (simp add: verifyAt_iff_aux h' hello_simps)
qed

lemma SetTicketAuth_total:
  "n = 32 \<or> n = 48 \<Longrightarrow> 4 \<le> length t \<Longrightarrow> \<exists>h' t'. SetTicketAuth cred n h t = Inr (h', t')"
  by (auto simp: SetTicketAuth_def bindR_def liftR_def rand_Read_def returnR_def binderHash_def Let_def)

text \<open>
  A hello authenticated with a credential is accepted by the holder of the ticket key, at any
  instant the ticket is young enough, and the server learns the client, the psk, the issue time
  and the client's ephemeral key.
\<close>

theorem verify_SetTicketAuth:
  assumes "SetTicketAuth cred n h t = Inr (h', t')"
    and "open_ticket k (cr_Ticket cred) = Inr (clientID, cr_PSK cred, issued)"
    and "length (cr_Ticket cred) + 6 < 65536" and "KeyShare h = Inr eph"
    and "0 < maxAge \<longrightarrow> time_Sub now issued \<le> maxAge"
  shows "verifyAt h' k maxAge now =
     Inr \<lparr>ar_ClientID = clientID, ar_PSK = cr_PSK cred, ar_Issued = issued, ar_ClientEphemeral = eph\<rparr>"
  by (rule SetTicketAuth_verifies [OF assms])

text \<open>A credential sealed with fixed padding and nonce, and a hello with a key share.\<close>

definition demo_key :: TicketKey where "demo_key = replicate 32 1"

definition demo_cred :: Credential where
  "demo_cred = \<lparr>cr_Ticket = ticket_of demo_key 7 (replicate 32 2) 0 (replicate 100 0) (replicate 12 0),
     cr_FullTicket = ticket_of demo_key 7 (replicate 32 2) 0 (replicate 68 0) (replicate 12 0),
     cr_PSK = replicate 32 2\<rparr>"

lemma demo_cred_opens:
  "open_ticket demo_key (cr_Ticket demo_cred) = Inr (7, cr_PSK demo_cred, 0)"
  "open_ticket demo_key (cr_FullTicket demo_cred) = Inr (7, cr_PSK demo_cred, 0)"
  "length (cr_Ticket demo_cred) = 176" "length (cr_FullTicket demo_cred) = 144" "length (cr_PSK demo_cred) = 32"
  by (simp_all add: demo_cred_def demo_key_def open_ticket_of length_ticket_of instant_ok_def unix_of_def time_Unix_def)

lemma share_hello_KeyShare: "KeyShare share_hello = Inr (replicate 32 0)"
  using share_loop_entries [of "[Extension GroupX25519 (replicate 32 0)]" "[0, 36]"]
  by (simp add: KeyShare_def share_hello_find x25519_NewPublicKey_def numeral_2_eq_2)

theorem verify_SetTicketAuth_witness:
  "\<exists>h' t'. SetTicketAuth demo_cred 32 share_hello (replicate 4 9) = Inr (h', t')
     \<and> verifyAt h' demo_key (second * 60) second =
         Inr \<lparr>ar_ClientID = 7, ar_PSK = replicate 32 2, ar_Issued = 0, ar_ClientEphemeral = replicate 32 0\<rparr>"
proof -
  obtain h' t' where s: "SetTicketAuth demo_cred 32 share_hello (replicate 4 9) = Inr (h', t')"
    using SetTicketAuth_total [of 32 "replicate 4 9" demo_cred share_hello] by auto
  from verify_SetTicketAuth [OF s demo_cred_opens(1) _ share_hello_KeyShare, of "second * 60" second] s
  show ?thesis by (simp add: demo_cred_opens time_Sub_def) (simp add: demo_cred_def)
qed

text \<open>
  C29. The binder does not bind where pre_shared_key stands, nor what trails its first identity and
  binder: a hello and its canonical form, with that one extension rewritten and moved last, are
  accepted or refused alike.
\<close>

theorem verifyAt_canonical:
  assumes "Find ExtPreSharedKey h = Some e" and "parsePSK (ExtData e) = Inr (ticket, age, b)"
    and "length ticket + 6 < 65536"
  shows "verifyAt (setPSK h ticket age b) k maxAge now = verifyAt h k maxAge now"
proof -
  have "parsePSK (psk_body ticket age b) = Inr (ticket, age, b)"
    using parsePSK_sizes [OF assms(2)] assms(3) by (intro parsePSK_body) simp_all
  then show ?thesis
    using assms
    by (cases "open_ticket k ticket"; cases "binderHash (length b)")
       (auto simp: verifyAt_def Let_def hello_simps)
qed

theorem verifyAt_canonical_witness:
  "verifyAt (setPSK (small_hello\<lparr>Extensions := [Extension ExtPreSharedKey (psk_body [1, 2] [0, 0, 0, 0] [3] @ [9, 9]), Extension 0x17 []]\<rparr>)
       [1, 2] [0, 0, 0, 0] [3]) demo_key 0 0
   = verifyAt (small_hello\<lparr>Extensions := [Extension ExtPreSharedKey (psk_body [1, 2] [0, 0, 0, 0] [3] @ [9, 9]), Extension 0x17 []]\<rparr>) demo_key 0 0"
proof -
  let ?h = "small_hello\<lparr>Extensions := [Extension ExtPreSharedKey (psk_body [1, 2] [0, 0, 0, 0] [3] @ [9, 9]), Extension 0x17 []]\<rparr>"
  have f: "Find ExtPreSharedKey ?h = Some (Extension ExtPreSharedKey (psk_body [1, 2] [0, 0, 0, 0] [3] @ [9, 9]))"
    by (simp add: Find_def)
  have p: "parsePSK (ExtData (Extension ExtPreSharedKey (psk_body [1, 2] [0, 0, 0, 0] [3] @ [9, 9])))
      = Inr ([1, 2], [0, 0, 0, 0], [3])"
    by code_simp
  show ?thesis by (rule verifyAt_canonical [OF f p]) simp
qed

end
