(* ===== verification/Acceptance.thy ===== *)
theory Acceptance
  imports Auth
begin

text \<open>
  What the resumption authenticator of \<^verbatim>\<open>src/auth.go\<close> accepts, said of bytes alone: the layout of
  the \<^verbatim>\<open>pre_shared_key\<close> and \<^verbatim>\<open>key_share\<close> bodies, of a ticket, and of the hello the binder is computed
  over, each written out as a concatenation. \<open>verifyAt\<close> is shown to accept exactly the hellos laid out
  so, without a word of the functions it is made of.
\<close>

section \<open>The layouts\<close>

text \<open>
  A \<^verbatim>\<open>pre_shared_key\<close> body is read twice from its start: past the list of identities, by the declared
  length of the list, to the first binder; and into the first identity, whose ticket and age may run
  past that list. Whatever trails the first binder is not looked at.
\<close>

definition psk_layout :: "bytes \<Rightarrow> bytes \<Rightarrow> bytes \<Rightarrow> bytes \<Rightarrow> bool" where
  "psk_layout d ticket age binder \<longleftrightarrow>
     (\<exists>n ids binders_len rest. d = PutUint16 n @ ids @ binders_len @ [of_nat (length binder)] @ binder @ rest
        \<and> length ids = unat n \<and> 2 \<le> length ids \<and> length binders_len = 2 \<and> length binder < 256)
     \<and> (\<exists>n rest. d = PutUint16 n @ PutUint16 (of_nat (length ticket)) @ ticket @ age @ rest
        \<and> length ticket < 65536 \<and> length age = 4)"

text \<open>A ticket: a nonce, and a box over the client id, the psk, the issue second and any padding.\<close>

definition ticket_layout :: "TicketKey \<Rightarrow> bytes \<Rightarrow> u64 \<Rightarrow> bytes \<Rightarrow> int \<Rightarrow> bool" where
  "ticket_layout k ticket clientID psk issued \<longleftrightarrow>
     (\<exists>nonce secs pad. ticket = nonce @ gcm_Seal k nonce (PutUint64 clientID @ psk @ PutUint64 secs @ pad) []
        \<and> length nonce = 12 \<and> length psk = 32 \<and> issued = sint secs * 1000000000)"

text \<open>A \<^verbatim>\<open>key_share\<close> body: a length nobody checks, entries of other groups, and a 32-byte X25519 key.\<close>

definition share_layout :: "bytes \<Rightarrow> bytes \<Rightarrow> bool" where
  "share_layout d pub \<longleftrightarrow>
     (\<exists>hdr ks rest. d = hdr @ exts_bytes ks @ PutUint16 GroupX25519 @ PutUint16 32 @ pub @ rest
        \<and> length hdr = 2 \<and> length pub = 32
        \<and> (\<forall>k\<in>set ks. ExtType k \<noteq> GroupX25519 \<and> length (ExtData k) < 65536))"

text \<open>
  What the binder is computed over: the record up to the list of binders, with every length counted
  as if the list were there, pre_shared_key last and the version 0x0301.
\<close>

definition binder_input :: "ClientHello \<Rightarrow> bytes \<Rightarrow> bytes \<Rightarrow> nat \<Rightarrow> bytes" where
  "binder_input h ticket age n =
     (let others = exts_bytes (filter (\<lambda>e. ExtType e \<noteq> ExtPreSharedKey) (Extensions h));
          psk = 2 + (2 + length ticket + 4) + 2 + (1 + n);
          block = length others + (4 + psk);
          body = length (hello_prefix h) + 2 + block
      in [0x16, 3, 1] @ PutUint16 (of_nat (4 + body)) @ [1] @ nat_be 3 body
         @ hello_prefix h @ PutUint16 (of_nat block) @ others
         @ PutUint16 ExtPreSharedKey @ PutUint16 (of_nat psk)
         @ PutUint16 (of_nat (2 + length ticket + 4)) @ PutUint16 (of_nat (length ticket)) @ ticket @ age)"

text \<open>The body of the first extension of a type.\<close>

definition first_ext :: "u16 \<Rightarrow> ClientHello \<Rightarrow> bytes \<Rightarrow> bool" where
  "first_ext t h d \<longleftrightarrow> (\<exists>before after. Extensions h = before @ [Extension t d] @ after \<and> t \<notin> ExtType ` set before)"

section \<open>The functions meet the layouts\<close>

lemma find_skips: "t \<notin> ExtType ` set xs \<Longrightarrow> find (\<lambda>e. ExtType e = t) (xs @ ys) = find (\<lambda>e. ExtType e = t) ys"
  by (induction xs) auto

lemma first_ext_iff: "first_ext t h d \<longleftrightarrow> Find t h = Some (Extension t d)"
proof
  assume "first_ext t h d"
  then show "Find t h = Some (Extension t d)"
    by (auto simp: first_ext_def Find_def find_skips)
next
  assume f: "Find t h = Some (Extension t d)"
  then obtain i where i: "i < length (Extensions h)" "Extensions h ! i = Extension t d"
    "\<forall>j<i. ExtType (Extensions h ! j) \<noteq> t" by (auto simp: Find_def find_Some_iff)
  then have "Extensions h = take i (Extensions h) @ [Extension t d] @ drop (Suc i) (Extensions h)"
    using id_take_nth_drop [OF i(1)] by simp
  moreover have "t \<notin> ExtType ` set (take i (Extensions h))"
    using i(1,3) by (fastforce simp: in_set_conv_nth)
  ultimately show "first_ext t h d" unfolding first_ext_def by blast
qed

lemma PutUint64_Uint64: "length bs = 8 \<Longrightarrow> PutUint64 (Uint64 bs) = bs"
proof -
  assume len: "length bs = 8"
  have "be_nat bs < 2 ^ 64" using be_nat_less [of bs] len by simp
  then have "unat (Uint64 bs) = be_nat bs" using len by (simp add: Uint64_def unat_of_nat)
  then show ?thesis using nat_be_be_nat [of bs] len by (simp add: PutUint64_def)
qed

lemma slice_split_drop: "q = p + n \<Longrightarrow> q \<le> length d \<Longrightarrow> drop p d = slice d p q @ drop q d"
  using append_take_drop_id [of n "drop p d"] by (simp add: slice_def add.commute)

lemma Uint16_split: "q = p + 2 \<Longrightarrow> q \<le> length d \<Longrightarrow> drop p d = PutUint16 (Uint16 (slice d p q)) @ drop q d"
  using PutUint16_Uint16 [of "slice d p q"] slice_split_drop [of q p 2 d] by simp

lemma parsePSK_iff: "parsePSK d = Inr (ticket, age, binder) \<longleftrightarrow> psk_layout d ticket age binder"
proof
  assume p: "parsePSK d = Inr (ticket, age, binder)"
  let ?n = "Uint16 (slice d 0 2)"
  let ?e = "2 + unat ?n"
  let ?tl = "unat (Uint16 (slice d 2 4))"
  have b: "?e + 2 \<le> length d" "4 \<le> ?e" "4 + ?tl + 4 \<le> length d" "?e + 2 < length d"
    "?e + 2 + 1 + unat (d ! (?e + 2)) \<le> length d"
    and v: "ticket = slice d 4 (4 + ?tl)" "age = slice d (4 + ?tl) (4 + ?tl + 4)"
      "binder = slice d (?e + 2 + 1) (?e + 2 + 1 + unat (d ! (?e + 2)))"
    using p by (auto simp: parsePSK_def Let_def not_less not_le split: if_splits)
  have t: "length ticket = ?tl" "length age = 4" "length binder = unat (d ! (?e + 2))" using b v by simp_all
  have hd: "d = PutUint16 ?n @ drop 2 d" using Uint16_split [of 2 0 d] b by simp
  have ids: "drop 2 d = slice d 2 ?e @ slice d ?e (?e + 2) @ drop (?e + 2) d"
    using slice_split_drop [of ?e 2 "unat ?n" d] slice_split_drop [of "?e + 2" ?e 2 d] b by simp
  have bd: "drop (?e + 2) d = [d ! (?e + 2)] @ binder @ drop (?e + 2 + 1 + unat (d ! (?e + 2))) d"
    using Cons_nth_drop_Suc [OF b(4)] slice_split_drop [of "?e + 2 + 1 + unat (d ! (?e + 2))" "?e + 2 + 1" "unat (d ! (?e + 2))" d] b(5) v(3)
    by (simp add: add.assoc)
  have "d = PutUint16 ?n @ slice d 2 ?e @ slice d ?e (?e + 2) @ [of_nat (length binder)] @ binder
      @ drop (?e + 2 + 1 + unat (d ! (?e + 2))) d"
    using hd ids bd t(3) by simp
  moreover have "length (slice d 2 ?e) = unat ?n" "2 \<le> unat ?n" "length (slice d ?e (?e + 2)) = 2" "length binder < 256"
    using b t(3) unsigned_less [of "d ! (?e + 2)"] by simp_all
  ultimately have one: "\<exists>n ids binders_len rest. d = PutUint16 n @ ids @ binders_len @ [of_nat (length binder)] @ binder @ rest
        \<and> length ids = unat n \<and> 2 \<le> length ids \<and> length binders_len = 2 \<and> length binder < 256"
    by metis
  have "drop 2 d = PutUint16 (of_nat (length ticket)) @ ticket @ age @ drop (4 + ?tl + 4) d"
    using Uint16_split [of 4 2 d] slice_split_drop [of "4 + ?tl" 4 ?tl d] slice_split_drop [of "4 + ?tl + 4" "4 + ?tl" 4 d] b v t(1) by simp
  then have two: "\<exists>n rest. d = PutUint16 n @ PutUint16 (of_nat (length ticket)) @ ticket @ age @ rest
        \<and> length ticket < 65536 \<and> length age = 4"
    using hd t(1,2) u16_unat_less by metis
  show "psk_layout d ticket age binder" unfolding psk_layout_def using one two by blast
next
  assume "psk_layout d ticket age binder"
  then obtain n ids bls rest n' rest' where d: "d = PutUint16 n @ ids @ bls @ [of_nat (length binder)] @ binder @ rest"
    and l: "length ids = unat n" "2 \<le> length ids" "length bls = 2" "length binder < 256"
    and d': "d = PutUint16 n' @ PutUint16 (of_nat (length ticket)) @ ticket @ age @ rest'"
    and l': "length ticket < 65536" "length age = 4" unfolding psk_layout_def by blast
  have s0: "slice d 0 2 = PutUint16 n" by (simp add: d slice_def)
  have s2: "slice d 2 4 = PutUint16 (of_nat (length ticket))" by (simp add: d' slice_def)
  have t: "slice d 4 (4 + length ticket) = ticket" "slice d (4 + length ticket) (4 + length ticket + 4) = age"
    using l' by (simp_all add: d' slice_def)
  have len: "length d = unat n + length binder + length rest + 5" using l by (simp add: d)
  have len': "4 + length ticket + 4 \<le> length d" using l' by (simp add: d')
  have pre: "length (PutUint16 n @ ids @ bls) = 2 + unat n + 2" using l by simp
  have bl: "unat (d ! (2 + unat n + 2)) = length binder"
    using l nth_append_length [of "PutUint16 n @ ids @ bls" "of_nat (length binder)" "binder @ rest"] pre by (simp add: d)
  have bd: "slice d (2 + unat n + 2 + 1) (2 + unat n + 2 + 1 + length binder) = binder"
    using l by (simp add: d slice_def)
  show "parsePSK d = Inr (ticket, age, binder)"
    unfolding parsePSK_def Let_def s0 s2 Uint16_PutUint16_exact unat_u16_small [OF l'(1)] t bl bd using l(1,2) len len' by simp
qed

lemma open_ticket_iff:
  assumes "aes_key_ok k"
  shows "open_ticket k ticket = Inr (clientID, psk, issued) \<longleftrightarrow> ticket_layout k ticket clientID psk issued"
proof
  assume o: "open_ticket k ticket = Inr (clientID, psk, issued)"
  then obtain plain where p: "gcm_Open k (take 12 ticket) (drop 12 ticket) [] = Some plain" "76 \<le> length ticket"
    "48 \<le> length plain" "clientID = Uint64 (slice plain 0 8)" "psk = slice plain 8 40"
    "issued = time_Unix (sint (Uint64 (slice plain 40 48)))"
    by (auto simp: open_ticket_def bindE_eq_Inr not_less split: if_splits option.splits)
  have "plain = slice plain 0 8 @ slice plain 8 40 @ slice plain 40 48 @ drop 48 plain"
    using slice_split_drop [of 8 0 8 plain] slice_split_drop [of 40 8 32 plain] slice_split_drop [of 48 40 8 plain] p(3) by simp
  then have "plain = PutUint64 clientID @ psk @ PutUint64 (Uint64 (slice plain 40 48)) @ drop 48 plain"
    using p(3-5) by (simp add: PutUint64_Uint64)
  moreover have "ticket = take 12 ticket @ gcm_Seal k (take 12 ticket) plain []"
    using gcm.seal_unseal [OF assms p(1)] append_take_drop_id [of 12 ticket] by simp
  ultimately show "ticket_layout k ticket clientID psk issued"
    unfolding ticket_layout_def using p(2,3,5,6)
    by (intro exI [of _ "take 12 ticket"] exI [of _ "Uint64 (slice plain 40 48)"] exI [of _ "drop 48 plain"])
       (simp add: time_Unix_def)
next
  assume "ticket_layout k ticket clientID psk issued"
  then obtain nonce secs pad where t: "ticket = nonce @ gcm_Seal k nonce (PutUint64 clientID @ psk @ PutUint64 secs @ pad) []"
    and l: "length nonce = 12" "length psk = 32" and i: "issued = sint secs * 1000000000"
    unfolding ticket_layout_def by blast
  let ?p = "PutUint64 clientID @ psk @ PutUint64 secs @ pad"
  have o: "gcm_Open k (take 12 ticket) (drop 12 ticket) [] = Some ?p"
    unfolding t using assms l(1) by (intro gcm.unseal_box) simp_all
  have "Uint64 (slice ?p 0 8) = clientID" "slice ?p 8 40 = psk" "Uint64 (slice ?p 40 48) = secs"
    using l(2) Uint64_PutUint64 [of _ "[]"] by (simp_all add: slice_def)
  moreover have "length ticket = 76 + length pad" using l by (simp add: t gcm.length_seal [OF assms])
  ultimately show "open_ticket k ticket = Inr (clientID, psk, issued)"
    using o l assms by (simp add: open_ticket_def ticket_aead_def i time_Unix_def)
qed

lemma share_loop_layout:
  "share_loop p d = Inr pub \<Longrightarrow>
     \<exists>ks rest. drop p d = exts_bytes ks @ PutUint16 GroupX25519 @ PutUint16 32 @ pub @ rest \<and> length pub = 32
       \<and> p \<le> length d \<and> (\<forall>k\<in>set ks. ExtType k \<noteq> GroupX25519 \<and> length (ExtData k) < 65536)"
proof (induction p d rule: share_loop.induct)
  case (1 p d)
  let ?g = "Uint16 (slice d p (p + 2))"
  let ?n = "unat (Uint16 (slice d (p + 2) (p + 4)))"
  have b: "p + 4 \<le> length d" "p + 4 + ?n \<le> length d"
    using "1.prems" by (subst (asm) share_loop.simps, simp add: Let_def split: if_splits)+
  let ?x = "slice d (p + 4) (p + 4 + ?n)"
  have x: "length ?x = ?n" "length ?x < 65536" using b by simp_all
  have e: "drop p d = ext_bytes (Extension ?g ?x) @ drop (p + 4 + ?n) d"
    using Uint16_split [of "p + 2" p d] Uint16_split [of "p + 4" "p + 2" d] slice_split_drop [of "p + 4 + ?n" "p + 4" ?n d] b x(1)
    by (simp add: ext_bytes_def)
  show ?case
  proof (cases "?g = GroupX25519")
    case True
    then have pub: "pub = ?x" "length ?x = 32"
      using "1.prems" b by (subst (asm) share_loop.simps, simp add: Let_def x25519_NewPublicKey_def split: if_splits)+
    then show ?thesis using e True b(1)
      by (intro exI [of _ "[]"] exI [of _ "drop (p + 4 + ?n) d"]) (simp add: ext_bytes_def)
  next
    case False
    then have "share_loop (p + 4 + ?n) d = Inr pub"
      using "1.prems" b by (subst (asm) share_loop.simps) (simp add: Let_def)
    from "1.IH" [OF b(1) refl refl _ False this] b(2) obtain ks rest
      where r: "drop (p + 4 + ?n) d = exts_bytes ks @ PutUint16 GroupX25519 @ PutUint16 32 @ pub @ rest" "length pub = 32"
        "\<forall>k\<in>set ks. ExtType k \<noteq> GroupX25519 \<and> length (ExtData k) < 65536" by auto
    show ?thesis using e r False x(2) b(1)
      by (intro exI [of _ "Extension ?g ?x # ks"] exI [of _ rest]) simp
  qed
qed

lemma share_loop_skips:
  assumes "\<forall>k\<in>set ks. ExtType k \<noteq> GroupX25519 \<and> length (ExtData k) < 65536"
  shows "share_loop (length pre) (pre @ exts_bytes ks @ rest) = share_loop (length (pre @ exts_bytes ks)) ((pre @ exts_bytes ks) @ rest)"
  using assms
proof (induction ks arbitrary: pre)
  case (Cons k ks)
  have len: "length (ExtData k) < 65536" using Cons.prems by simp
  note sl = entry_slices [OF len, of pre "exts_bytes ks @ rest"]
  have "share_loop (length (pre @ ext_bytes k)) ((pre @ ext_bytes k) @ exts_bytes ks @ rest)
      = share_loop (length ((pre @ ext_bytes k) @ exts_bytes ks)) (((pre @ ext_bytes k) @ exts_bytes ks) @ rest)"
    using Cons.prems by (intro Cons.IH) simp
  then show ?case using share_loop_skip [OF sl(4) sl(1) sl(2) sl(3)] Cons.prems by (simp add: add.assoc)
qed simp

lemma share_loop_iff: "share_loop 2 d = Inr pub \<longleftrightarrow> share_layout d pub"
proof
  assume "share_loop 2 d = Inr pub"
  from share_loop_layout [OF this] show "share_layout d pub"
    unfolding share_layout_def by (metis append_take_drop_id length_take min.absorb2)
next
  assume "share_layout d pub"
  then obtain hdr ks rest where d: "d = hdr @ exts_bytes ks @ ext_bytes (Extension GroupX25519 pub) @ rest"
    and l: "length hdr = 2" "length pub = 32" "\<forall>k\<in>set ks. ExtType k \<noteq> GroupX25519 \<and> length (ExtData k) < 65536"
    unfolding share_layout_def by (fastforce simp: ext_bytes_def)
  have small: "length (ExtData (Extension GroupX25519 pub)) < 65536" using l(2) by simp
  note sl = entry_slices [OF small, of "hdr @ exts_bytes ks" rest]
  show "share_loop 2 d = Inr pub"
    using share_loop_skips [OF l(3), of hdr "ext_bytes (Extension GroupX25519 pub) @ rest"]
      share_loop_skip [OF sl(4) sl(1) sl(2) sl(3)] l(1,2) by (simp add: d x25519_NewPublicKey_def)
qed

lemma binder_input_eq:
  assumes "length age = 4"
  shows "truncateForBinder (Marshal (setPSK h ticket age (replicate n 0))) n = binder_input h ticket age n"
proof -
  let ?h = "setPSK h ticket age (replicate n 0)"
  have pre: "hello_prefix ?h = hello_prefix h" by (simp add: setPSK_eq hello_prefix_def)
  have body: "length (psk_body ticket age (replicate n 0)) = 2 + (2 + length ticket + 4) + 2 + (1 + n)"
    using assms by (simp add: psk_body_def)
  have exts: "exts_bytes (Extensions ?h) = exts_bytes (filter (\<lambda>e. ExtType e \<noteq> ExtPreSharedKey) (Extensions h))
      @ PutUint16 ExtPreSharedKey @ PutUint16 (of_nat (2 + (2 + length ticket + 4) + 2 + (1 + n)))
      @ psk_body ticket age (replicate n 0)"
    by (simp add: setPSK_eq ext_bytes_def body del: of_nat_add)
  have lens: "body_len ?h = length (hello_prefix h) + 2 + length (exts_bytes (Extensions ?h))"
    by (simp add: body_len_def pre)
  have "Marshal ?h = binder_input h ticket age n @ PutUint16 (of_nat (n + 1)) @ [of_nat n] @ replicate n 0"
    unfolding Marshal_eq_wire hello_wire_def lens pre
    using assms by (simp add: binder_input_def Let_def exts psk_body_def algebra_simps del: of_nat_add)
  then show ?thesis by (simp add: truncateForBinder_def Let_def)
qed

section \<open>What is accepted\<close>

lemma KeyShare_iff: "KeyShare h = Inr pub \<longleftrightarrow> (\<exists>d. first_ext ExtKeyShare h d \<and> share_layout d pub)"
proof -
  have "e = Extension ExtKeyShare (ExtData e)" if "Find ExtKeyShare h = Some e" for e
    using Find_type [OF that] by (cases e) simp
  then show ?thesis
    unfolding KeyShare_def first_ext_iff share_loop_iff [symmetric] by (auto split: option.splits)
qed

lemma psk_found_iff: "(\<exists>e. Find ExtPreSharedKey h = Some e \<and> parsePSK (ExtData e) = Inr (ticket, age, binder))
    \<longleftrightarrow> (\<exists>d. first_ext ExtPreSharedKey h d \<and> psk_layout d ticket age binder)"
proof -
  have "e = Extension ExtPreSharedKey (ExtData e)" if "Find ExtPreSharedKey h = Some e" for e
    using Find_type [OF that] by (cases e) simp
  then show ?thesis unfolding first_ext_iff parsePSK_iff [symmetric] by (metis Extension.sel(2))
qed

lemma binderHash_iff: "binderHash n = Inr alg \<longleftrightarrow> (alg, n) \<in> {(SHA256, 32), (SHA384, 48)}"
  by (auto simp: binderHash_def)

text \<open>
  C11. What acceptance means, exactly, in bytes: the first pre_shared_key holds a ticket, an age and a
  binder where the layout puts them; the ticket is a box under the server's key over the identity
  reported, no older than the limit; the binder has the length of SHA-256 or SHA-384 and is that MAC,
  keyed from the psk in the ticket, of the hello printed with pre_shared_key last and cut before its
  binders; and the first key_share holds the X25519 key reported.
\<close>

theorem verifyAt_iff:
  "verifyAt h k maxAge now = Inr r \<longleftrightarrow>
     aes_key_ok k
     \<and> (\<exists>d ticket age binder alg. first_ext ExtPreSharedKey h d \<and> psk_layout d ticket age binder
        \<and> ticket_layout k ticket (ar_ClientID r) (ar_PSK r) (ar_Issued r)
        \<and> (maxAge \<le> 0 \<or> time_Sub now (ar_Issued r) \<le> maxAge)
        \<and> (alg, length binder) \<in> {(SHA256, 32), (SHA384, 48)}
        \<and> binder = hmac alg (hmac SHA256 (ar_PSK r) (str ''twiddle/binder/v1''))
              (binder_input h ticket age (length binder)))
     \<and> (\<exists>d. first_ext ExtKeyShare h d \<and> share_layout d (ar_ClientEphemeral r))"
proof -
  have key: "aes_key_ok k" if "open_ticket k ticket = Inr x" for ticket x
    using that by (auto simp: open_ticket_def ticket_aead_def bindE_eq_Inr split: if_splits)
  have bind: "binder_for alg psk h ticket age n = hmac alg (hmac SHA256 psk (str ''twiddle/binder/v1'')) (binder_input h ticket age n)"
    if "psk_layout d ticket age b" for alg psk ticket age n d b
  proof -
    have "length age = 4" using that by (auto simp: psk_layout_def)
    then show ?thesis by (simp add: binder_for_def binderKey_def binder_input_eq)
  qed
  have lim: "(0 < maxAge \<longrightarrow> x \<le> maxAge) \<longleftrightarrow> (maxAge \<le> 0 \<or> x \<le> maxAge)" for x :: int by auto
  have "verifyAt h k maxAge now = Inr r \<longleftrightarrow>
     (\<exists>ticket age binder alg. (\<exists>e. Find ExtPreSharedKey h = Some e \<and> parsePSK (ExtData e) = Inr (ticket, age, binder))
        \<and> open_ticket k ticket = Inr (ar_ClientID r, ar_PSK r, ar_Issued r)
        \<and> (maxAge \<le> 0 \<or> time_Sub now (ar_Issued r) \<le> maxAge)
        \<and> binderHash (length binder) = Inr alg
        \<and> binder = binder_for alg (ar_PSK r) h ticket age (length binder)
        \<and> KeyShare h = Inr (ar_ClientEphemeral r))"
    unfolding verifyAt_iff_aux lim by blast
  also have "\<dots> \<longleftrightarrow> aes_key_ok k \<and> (\<exists>ticket age binder alg. (\<exists>d. first_ext ExtPreSharedKey h d \<and> psk_layout d ticket age binder)
        \<and> ticket_layout k ticket (ar_ClientID r) (ar_PSK r) (ar_Issued r)
        \<and> (maxAge \<le> 0 \<or> time_Sub now (ar_Issued r) \<le> maxAge)
        \<and> (alg, length binder) \<in> {(SHA256, 32), (SHA384, 48)}
        \<and> binder = hmac alg (hmac SHA256 (ar_PSK r) (str ''twiddle/binder/v1'')) (binder_input h ticket age (length binder))
        \<and> (\<exists>d. first_ext ExtKeyShare h d \<and> share_layout d (ar_ClientEphemeral r)))"
    (is "?l \<longleftrightarrow> ?r")
  proof
    assume ?l
    then obtain ticket age bd alg d where w: "first_ext ExtPreSharedKey h d" "psk_layout d ticket age bd"
      "open_ticket k ticket = Inr (ar_ClientID r, ar_PSK r, ar_Issued r)" "maxAge \<le> 0 \<or> time_Sub now (ar_Issued r) \<le> maxAge"
      "binderHash (length bd) = Inr alg" "bd = binder_for alg (ar_PSK r) h ticket age (length bd)"
      "KeyShare h = Inr (ar_ClientEphemeral r)" unfolding psk_found_iff by blast
    have k: "aes_key_ok k" by (rule key [OF w(3)])
    show ?r using w(1,2,4,7) w(3) [unfolded open_ticket_iff [OF k]] w(5) [unfolded binderHash_iff]
      w(6) [unfolded bind [OF w(2)]] k unfolding KeyShare_iff by blast
  next
    assume ?r
    then obtain ticket age bd alg d where k: "aes_key_ok k" and w: "first_ext ExtPreSharedKey h d"
      "psk_layout d ticket age bd" "ticket_layout k ticket (ar_ClientID r) (ar_PSK r) (ar_Issued r)"
      "maxAge \<le> 0 \<or> time_Sub now (ar_Issued r) \<le> maxAge" "(alg, length bd) \<in> {(SHA256, 32), (SHA384, 48)}"
      "bd = hmac alg (hmac SHA256 (ar_PSK r) (str ''twiddle/binder/v1'')) (binder_input h ticket age (length bd))"
      "\<exists>d. first_ext ExtKeyShare h d \<and> share_layout d (ar_ClientEphemeral r)" by blast
    show ?l using w(1,2,4,7) w(3) [folded open_ticket_iff [OF k]] w(5) [folded binderHash_iff] w(6) [folded bind [OF w(2)]]
      unfolding psk_found_iff KeyShare_iff by blast
  qed
  finally show ?thesis by blast
qed

theorem verifyAt_iff_witness:
  "\<exists>h' t'. SetTicketAuth demo_cred 48 share_hello (replicate 4 9) = Inr (h', t')
     \<and> (\<exists>d ticket age binder. first_ext ExtPreSharedKey h' d \<and> psk_layout d ticket age binder
          \<and> ticket_layout demo_key ticket 7 (replicate 32 2) 0)
     \<and> (\<exists>d. first_ext ExtKeyShare h' d \<and> share_layout d (replicate 32 0))"
proof -
  obtain h' t' where s: "SetTicketAuth demo_cred 48 share_hello (replicate 4 9) = Inr (h', t')"
    using SetTicketAuth_total [of 48 "replicate 4 9" demo_cred share_hello] by auto
  have "verifyAt h' demo_key 0 0 =
      Inr \<lparr>ar_ClientID = 7, ar_PSK = cr_PSK demo_cred, ar_Issued = 0, ar_ClientEphemeral = replicate 32 0\<rparr>"
    by (rule SetTicketAuth_verifies [OF s demo_cred_opens(1) _ share_hello_KeyShare]) (simp_all add: demo_cred_opens)
  then show ?thesis unfolding verifyAt_iff using s by (auto simp: demo_cred_def)
qed

end
