(* ===== verification/EchCarrier.thy ===== *)
theory EchCarrier
  imports Auth
begin

text \<open>
  \<^verbatim>\<open>src/echcarrier.go\<close>: the full-handshake authenticator. The ticket travels in the payload of the
  outer ECH extension and a MAC over the whole hello in its random field. The locale
  \<open>opening_auth\<close> is what the handshake relies on of either authenticator, the resumption binder of
  \<^verbatim>\<open>src/auth.go\<close> and this one; both are interpretations of it.
\<close>

section \<open>Operations\<close>

definition fullMACKey :: "bytes \<Rightarrow> bytes" where
  "fullMACKey psk = hmac SHA256 psk (str ''twiddle/full-mac/v1'')"

text \<open>
  The payload of an outer ECH extension. The code returns a slice aliasing the extension; the
  model returns its position and length in it, so that writes through it can be written out.
\<close>

definition echPayload :: "bytes \<Rightarrow> (nat \<times> nat) res" where
  "echPayload d =
     (if length d < 1 then Inl ErrMalformed
      else if d ! 0 \<noteq> 0x00 then Inl (Err ''twiddle: ECH extension is not the outer form'')
      else let p = 1 + 2 + 2 + 1
           in if length d < p + 2 then Inl ErrMalformed
              else let p = p + (2 + unat (Uint16 (slice d p (p + 2))))
                   in if length d < p + 2 then Inl ErrMalformed
                      else let n = unat (Uint16 (slice d p (p + 2)));
                               p = p + 2
                           in if length d < p + n then Inl ErrMalformed
                              else Inr (p, n))"

definition ECHPayloadLen :: "ClientHello \<Rightarrow> nat res" where
  "ECHPayloadLen h =
     (case Find ExtECH h of
        None \<Rightarrow> Inl (Err ''twiddle: hello has no ECH extension'')
      | Some e \<Rightarrow> bindE (echPayload (ExtData e)) (\<lambda>(p, n). Inr n))"

definition FullHandshakeCarriers :: "bytes list \<Rightarrow> bytes list" where
  "FullHandshakeCarriers pool =
     foldl (\<lambda>out rec.
       case ParseClientHello rec of
         Inl _ \<Rightarrow> out
       | Inr h \<Rightarrow> (case ECHPayloadLen h of
                    Inl _ \<Rightarrow> out
                  | Inr n \<Rightarrow> if FullTicketLen \<le> n then out @ [rec] else out)) [] pool"

definition SetECHTicketAuth :: "bytes \<Rightarrow> bytes \<Rightarrow> ClientHello \<Rightarrow> ClientHello rnd" where
  "SetECHTicketAuth ticket psk h =
     (if length ticket \<noteq> FullTicketLen then failR (Err ''twiddle: full-handshake ticket has the wrong length'')
      else if Find ExtPreSharedKey h \<noteq> None
      then failR (Err ''twiddle: full-handshake opening still carries pre_shared_key'')
      else case Find ExtECH h of
        None \<Rightarrow> failR (Err ''twiddle: hello has no ECH extension to carry the ticket'')
      | Some e \<Rightarrow>
          bindR (liftR (echPayload (ExtData e))) (\<lambda>(p, n).
          if n < FullTicketLen then failR (Err ''twiddle: ECH payload is too small for a ticket'')
          else let d = go_copy p ticket (ExtData e)
               in bindR (rand_Read (n - FullTicketLen)) (\<lambda>pad.
                  let h = SetExtData ExtECH (go_copy (p + FullTicketLen) pad d) h;
                      h = h\<lparr>Random := replicate 32 0\<rparr>;
                      m = hmac SHA256 (fullMACKey psk) (Marshal h)
                  in returnR (h\<lparr>Random := go_copy 0 m (Random h)\<rparr>))))"

definition verifyECHAt :: "ClientHello \<Rightarrow> TicketKey \<Rightarrow> int \<Rightarrow> int \<Rightarrow> AuthResult res" where
  "verifyECHAt h k maxAge now =
     (if Find ExtPreSharedKey h \<noteq> None
      then Inl (Err ''twiddle: hello carries pre_shared_key; it belongs to the resumption path'')
      else case Find ExtECH h of
        None \<Rightarrow> Inl (Err ''twiddle: hello has no ECH extension'')
      | Some e \<Rightarrow>
          bindE (echPayload (ExtData e)) (\<lambda>(p, n).
          if n < FullTicketLen then Inl (Err ''twiddle: ECH payload is too small to carry a ticket'')
          else bindE (open_ticket k (slice (ExtData e) p (p + FullTicketLen))) (\<lambda>(clientID, psk, issued).
          if 0 < maxAge \<and> maxAge < time_Sub now issued
          then Inl (Err ''twiddle: ticket is too old'')
          else let mac = Random h;
                   probe = h\<lparr>Random := replicate 32 0\<rparr>;
                   m = hmac SHA256 (fullMACKey psk) (Marshal probe)
               in if m \<noteq> mac then Inl (Err ''twiddle: full-handshake MAC does not verify'')
                  else bindE (KeyShare h) (\<lambda>eph.
                       Inr \<lparr>ar_ClientID = clientID, ar_PSK = psk, ar_Issued = issued, ar_ClientEphemeral = eph\<rparr>))))"

section \<open>The payload\<close>

definition ech_enc_end :: "bytes \<Rightarrow> nat" where
  "ech_enc_end d = 8 + unat (Uint16 (slice d 6 8))"

lemma echPayload_iff:
  "echPayload d = Inr (p, n) \<longleftrightarrow>
     1 \<le> length d \<and> d ! 0 = 0 \<and> ech_enc_end d + 2 \<le> length d \<and> p = ech_enc_end d + 2
     \<and> n = unat (Uint16 (slice d (ech_enc_end d) (ech_enc_end d + 2))) \<and> p + n \<le> length d"
proof -
  have six: "1 + 2 + 2 + 1 = (6 :: nat)" "6 + 2 = (8 :: nat)" by simp_all
  have q: "6 + (2 + unat (Uint16 (slice d 6 8))) = ech_enc_end d" by (simp add: ech_enc_end_def)
  have "8 \<le> ech_enc_end d" by (simp add: ech_enc_end_def)
  then show ?thesis unfolding echPayload_def Let_def six q by (auto simp: not_less not_le)
qed

lemma echPayload_bounds:
  assumes "echPayload d = Inr (p, n)"
  shows "p + n \<le> length d \<and> 10 \<le> p \<and> n < 65536"
  using assms unfolding echPayload_iff by (auto simp: ech_enc_end_def)

text \<open>Overwriting the payload does not move it.\<close>

lemma slice_go_copy_before: "j \<le> i \<Longrightarrow> i \<le> length d \<Longrightarrow> slice (go_copy i x d) k j = slice d k j"
proof -
  assume "j \<le> i" "i \<le> length d"
  then have "take j (go_copy i x d) = take j d" by (simp add: go_copy_def)
  moreover have "slice b k j = drop k (take j b)" for b :: "'a list"
    by (simp add: slice_def drop_take)
  ultimately show ?thesis by simp
qed

lemma echPayload_write:
  assumes "echPayload d = Inr (p, n)" and "length x \<le> n"
  shows "echPayload (go_copy p x d) = Inr (p, n)"
proof -
  have b: "p + n \<le> length d" "10 \<le> p" using echPayload_bounds [OF assms(1)] by auto
  have p: "p = ech_enc_end d + 2" using assms(1) by (simp add: echPayload_iff)
  have e: "ech_enc_end (go_copy p x d) = ech_enc_end d"
    using b by (simp add: ech_enc_end_def slice_go_copy_before)
  have "go_copy p x d ! 0 = d ! 0" using b by (simp add: go_copy_def nth_append)
  moreover have "slice (go_copy p x d) (ech_enc_end d) (ech_enc_end d + 2)
      = slice d (ech_enc_end d) (ech_enc_end d + 2)"
    using b p by (intro slice_go_copy_before) simp_all
  moreover have "length (go_copy p x d) = length d" using b by simp
  ultimately show ?thesis using assms(1) unfolding echPayload_iff e by simp
qed

lemma slice_go_copy: "i + length x \<le> length d \<Longrightarrow> slice (go_copy i x d) i (i + length x) = x"
  by (simp add: slice_def go_copy_def)

lemma go_copy_twice_payload:
  assumes "echPayload d = Inr (p, n)" and "length ticket + length pad \<le> n"
  shows "echPayload (go_copy (p + length ticket) pad (go_copy p ticket d)) = Inr (p, n)
     \<and> slice (go_copy (p + length ticket) pad (go_copy p ticket d)) p (p + length ticket) = ticket"
proof -
  have b: "p + n \<le> length d" using echPayload_bounds [OF assms(1)] by simp
  have e: "go_copy (p + length ticket) pad (go_copy p ticket d) = go_copy p (ticket @ pad) d"
    using b assms(2) by (simp add: go_copy_def add.commute add.left_commute)
  have "slice (go_copy (p + length ticket) pad (go_copy p ticket d)) p (p + length ticket)
      = slice (go_copy p ticket d) p (p + length ticket)"
    using b assms(2) by (intro slice_go_copy_before) simp_all
  then show ?thesis
    using b assms echPayload_write [OF assms(1), of "ticket @ pad"] unfolding e [symmetric]
    by (simp add: slice_go_copy)
qed

section \<open>The authenticator interface\<close>

locale opening_auth =
  fixes prove :: "Credential \<Rightarrow> ClientHello \<Rightarrow> ClientHello rnd"
    and check :: "ClientHello \<Rightarrow> TicketKey \<Rightarrow> int \<Rightarrow> int \<Rightarrow> AuthResult res"
    and shown :: "Credential \<Rightarrow> bytes"
    and carried :: "ClientHello \<Rightarrow> bytes \<Rightarrow> bool"
  assumes complete: "prove cred h t = Inr (h', t') \<Longrightarrow>
      open_ticket k (shown cred) = Inr (c, cr_PSK cred, issued) \<Longrightarrow> length (shown cred) + 6 < 65536 \<Longrightarrow>
      KeyShare h = Inr eph \<Longrightarrow> (0 < maxAge \<longrightarrow> time_Sub now issued \<le> maxAge) \<Longrightarrow>
      check h' k maxAge now =
        Inr \<lparr>ar_ClientID = c, ar_PSK = cr_PSK cred, ar_Issued = issued, ar_ClientEphemeral = eph\<rparr>"
    and accepts: "check h k maxAge now = Inr r \<Longrightarrow>
      (\<exists>ticket. carried h ticket \<and> open_ticket k ticket = Inr (ar_ClientID r, ar_PSK r, ar_Issued r))
      \<and> (0 < maxAge \<longrightarrow> time_Sub now (ar_Issued r) \<le> maxAge) \<and> KeyShare h = Inr (ar_ClientEphemeral r)"
begin

text \<open>The hello that arrives is the hello that was sent, so it is accepted from the wire.\<close>

lemma complete_on_wire:
  assumes "prove cred h t = Inr (h', t')" and "wf_hello h'"
    and "open_ticket k (shown cred) = Inr (c, cr_PSK cred, issued)" and "length (shown cred) + 6 < 65536"
    and "KeyShare h = Inr eph" and "0 < maxAge \<longrightarrow> time_Sub now issued \<le> maxAge"
  shows "bindE (ParseClientHello (Marshal h')) (\<lambda>h. check h k maxAge now) =
     Inr \<lparr>ar_ClientID = c, ar_PSK = cr_PSK cred, ar_Issued = issued, ar_ClientEphemeral = eph\<rparr>"
  using complete [OF assms(1,3-6)] parse_Marshal_wf [OF assms(2)] by simp

lemma stale_refused:
  assumes "0 < maxAge" and "\<And>ticket c psk issued. carried h ticket \<Longrightarrow>
      open_ticket k ticket = Inr (c, psk, issued) \<Longrightarrow> maxAge < time_Sub now issued"
  shows "\<exists>e. check h k maxAge now = Inl e"
proof (cases "check h k maxAge now")
  case (Inr r)
  from accepts [OF this] assms show ?thesis by force
qed blast

lemma foreign_refused:
  assumes "\<And>ticket. carried h ticket \<Longrightarrow> \<exists>e. open_ticket k ticket = Inl e"
  shows "\<exists>e. check h k maxAge now = Inl e"
proof (cases "check h k maxAge now")
  case (Inr r)
  from accepts [OF this] assms show ?thesis by force
qed blast

end

interpretation resumption: opening_auth "\<lambda>cred. SetTicketAuth cred n" verifyAt cr_Ticket
  "\<lambda>h ticket. \<exists>e age b. Find ExtPreSharedKey h = Some e \<and> parsePSK (ExtData e) = Inr (ticket, age, b)"
proof
  fix cred h t h' t' k c issued eph maxAge now
  show "SetTicketAuth cred n h t = Inr (h', t') \<Longrightarrow>
      open_ticket k (cr_Ticket cred) = Inr (c, cr_PSK cred, issued) \<Longrightarrow> length (cr_Ticket cred) + 6 < 65536 \<Longrightarrow>
      KeyShare h = Inr eph \<Longrightarrow> (0 < maxAge \<longrightarrow> time_Sub now issued \<le> maxAge) \<Longrightarrow>
      verifyAt h' k maxAge now =
        Inr \<lparr>ar_ClientID = c, ar_PSK = cr_PSK cred, ar_Issued = issued, ar_ClientEphemeral = eph\<rparr>"
    by (rule SetTicketAuth_verifies)
qed (auto simp: verifyAt_iff_aux)

section \<open>The full-handshake authenticator\<close>

lemma length_sha256_mac [simp]: "length (hmac SHA256 key m) = 32"
  by simp

lemma SetECHTicketAuth_result:
  assumes "SetECHTicketAuth ticket psk h t = Inr (h', t')"
  obtains e p n pad h0 where "Find ExtPreSharedKey h = None" "Find ExtECH h = Some e"
    "echPayload (ExtData e) = Inr (p, n)" "FullTicketLen \<le> n" "length ticket = FullTicketLen"
    "length pad = n - FullTicketLen"
    "h0 = (SetExtData ExtECH (go_copy (p + length ticket) pad (go_copy p ticket (ExtData e))) h)\<lparr>Random := replicate 32 0\<rparr>"
    "h' = h0\<lparr>Random := hmac SHA256 (fullMACKey psk) (Marshal h0)\<rparr>"
proof -
  have n1: "length ticket = FullTicketLen" and n2: "Find ExtPreSharedKey h = None"
    using assms by (auto simp: SetECHTicketAuth_def failR_def split: if_splits)
  obtain e where e: "Find ExtECH h = Some e"
    using assms n1 n2 by (cases "Find ExtECH h") (auto simp: SetECHTicketAuth_def failR_def)
  have "bindR (liftR (echPayload (ExtData e))) (\<lambda>(p, n).
          if n < FullTicketLen then failR (Err ''twiddle: ECH payload is too small for a ticket'')
          else let d = go_copy p ticket (ExtData e)
               in bindR (rand_Read (n - FullTicketLen)) (\<lambda>pad.
                  let h = SetExtData ExtECH (go_copy (p + FullTicketLen) pad d) h;
                      h = h\<lparr>Random := replicate 32 0\<rparr>;
                      m = hmac SHA256 (fullMACKey psk) (Marshal h)
                  in returnR (h\<lparr>Random := go_copy 0 m (Random h)\<rparr>))) t = Inr (h', t')"
    using assms n1 n2 e by (simp add: SetECHTicketAuth_def)
  then obtain p n pad t1 where p: "echPayload (ExtData e) = Inr (p, n)" and n: "FullTicketLen \<le> n"
    and pad: "rand_Read (n - FullTicketLen) t = Inr (pad, t1)"
    and h': "h' = (let h = (SetExtData ExtECH (go_copy (p + FullTicketLen) pad (go_copy p ticket (ExtData e))) h)\<lparr>Random := replicate 32 0\<rparr>
        in h\<lparr>Random := go_copy 0 (hmac SHA256 (fullMACKey psk) (Marshal h)) (Random h)\<rparr>)"
    by (auto simp: bindR_eq_Inr liftR_eq_Inr returnR_eq_Inr failR_eq_Inr Let_def split: if_splits)
  show thesis
    by (rule that [OF n2 e p n n1 rand_Read_length [OF pad] refl])
       (use n1 h' in \<open>simp add: Let_def go_copy_def\<close>)
qed

lemma KeyShare_cong: "Find ExtKeyShare h = Find ExtKeyShare h' \<Longrightarrow> KeyShare h = KeyShare h'"
  by (simp add: KeyShare_def)

lemma Find_Random [hello_simps]: "Find u (h\<lparr>Random := r\<rparr>) = Find u h"
  by (simp add: Find_def)

lemma verifyECHAt_iff_aux:
  "verifyECHAt h k maxAge now = Inr r \<longleftrightarrow>
     Find ExtPreSharedKey h = None
     \<and> (\<exists>e p n. Find ExtECH h = Some e \<and> echPayload (ExtData e) = Inr (p, n) \<and> FullTicketLen \<le> n
          \<and> open_ticket k (slice (ExtData e) p (p + FullTicketLen)) = Inr (ar_ClientID r, ar_PSK r, ar_Issued r))
     \<and> (0 < maxAge \<longrightarrow> time_Sub now (ar_Issued r) \<le> maxAge)
     \<and> Random h = hmac SHA256 (fullMACKey (ar_PSK r)) (Marshal (h\<lparr>Random := replicate 32 0\<rparr>))
     \<and> KeyShare h = Inr (ar_ClientEphemeral r)"
  (is "?l \<longleftrightarrow> ?r")
proof
  assume ?l
  then show ?r
    by (auto simp: verifyECHAt_def bindE_eq_Inr Let_def not_less split: option.splits if_splits)
next
  assume r: ?r
  then obtain e p n where "Find ExtECH h = Some e" "echPayload (ExtData e) = Inr (p, n)" "FullTicketLen \<le> n"
    "open_ticket k (slice (ExtData e) p (p + FullTicketLen)) = Inr (ar_ClientID r, ar_PSK r, ar_Issued r)"
    by blast
  then show ?l using r by (auto simp: verifyECHAt_def Let_def)
qed

lemma SetECHTicketAuth_verifies:
  assumes "SetECHTicketAuth ticket psk h t = Inr (h', t')"
    and "open_ticket k ticket = Inr (c, psk, issued)" and "KeyShare h = Inr eph"
    and "0 < maxAge \<longrightarrow> time_Sub now issued \<le> maxAge"
  shows "verifyECHAt h' k maxAge now =
     Inr \<lparr>ar_ClientID = c, ar_PSK = psk, ar_Issued = issued, ar_ClientEphemeral = eph\<rparr>"
proof -
  obtain e p n pad h0 where f: "Find ExtPreSharedKey h = None" "Find ExtECH h = Some e"
    "echPayload (ExtData e) = Inr (p, n)" "FullTicketLen \<le> n" "length ticket = FullTicketLen"
    and pad: "length pad = n - FullTicketLen"
    and h0: "h0 = (SetExtData ExtECH (go_copy (p + length ticket) pad (go_copy p ticket (ExtData e))) h)\<lparr>Random := replicate 32 0\<rparr>"
    and h': "h' = h0\<lparr>Random := hmac SHA256 (fullMACKey psk) (Marshal h0)\<rparr>"
    using SetECHTicketAuth_result [OF assms(1)] by metis
  let ?d = "go_copy (p + length ticket) pad (go_copy p ticket (ExtData e))"
  have len: "length ticket + length pad \<le> n" using f pad by simp
  note w = go_copy_twice_payload [OF f(3) len]
  have "h'\<lparr>Random := replicate 32 0\<rparr> = h0" by (simp add: h' h0)
  moreover have "Find ExtECH h' = Some (Extension ExtECH ?d)" using f by (simp add: h' h0 hello_simps)
  moreover have "Find ExtPreSharedKey h' = None" using f by (simp add: h' h0 hello_simps)
  moreover have "KeyShare h' = KeyShare h" by (rule KeyShare_cong) (simp add: h' h0 hello_simps)
  moreover have "Random h' = hmac SHA256 (fullMACKey psk) (Marshal h0)" by (simp add: h')
  ultimately show ?thesis using w f assms by (simp add: verifyECHAt_iff_aux)
qed

interpretation full: opening_auth "\<lambda>cred. SetECHTicketAuth (cr_FullTicket cred) (cr_PSK cred)" verifyECHAt cr_FullTicket
  "\<lambda>h ticket. \<exists>e p n. Find ExtECH h = Some e \<and> echPayload (ExtData e) = Inr (p, n)
     \<and> ticket = slice (ExtData e) p (p + FullTicketLen)"
proof
  fix cred h t h' t' k c issued eph maxAge now
  show "SetECHTicketAuth (cr_FullTicket cred) (cr_PSK cred) h t = Inr (h', t') \<Longrightarrow>
      open_ticket k (cr_FullTicket cred) = Inr (c, cr_PSK cred, issued) \<Longrightarrow>
      KeyShare h = Inr eph \<Longrightarrow> (0 < maxAge \<longrightarrow> time_Sub now issued \<le> maxAge) \<Longrightarrow>
      verifyECHAt h' k maxAge now =
        Inr \<lparr>ar_ClientID = c, ar_PSK = cr_PSK cred, ar_Issued = issued, ar_ClientEphemeral = eph\<rparr>"
    by (rule SetECHTicketAuth_verifies)
qed (auto simp: verifyECHAt_iff_aux)

text \<open>
  A full-handshake opening authenticated with a credential's full ticket is accepted by the
  holder of the ticket key while the ticket is young enough, wherever the ECH extension stands and
  whatever the sizes of its enc and payload.
\<close>

theorem verify_SetECHTicketAuth:
  assumes "SetECHTicketAuth ticket psk h t = Inr (h', t')"
    and "open_ticket k ticket = Inr (c, psk, issued)" and "KeyShare h = Inr eph"
    and "0 < maxAge \<longrightarrow> time_Sub now issued \<le> maxAge"
  shows "verifyECHAt h' k maxAge now =
     Inr \<lparr>ar_ClientID = c, ar_PSK = psk, ar_Issued = issued, ar_ClientEphemeral = eph\<rparr>"
  by (rule SetECHTicketAuth_verifies [OF assms])

lemma echPayload_ech_body:
  assumes "length enc < 65536" and "length payload < 65536"
  shows "echPayload (ech_body kdf aid cfg enc payload) = Inr (10 + length enc, length payload)"
proof -
  let ?d = "ech_body kdf aid cfg enc payload"
  have "ech_enc_end ?d = 8 + length enc"
    using assms(1) by (simp add: ech_enc_end_def ech_body_def slice_def)
  moreover have "slice ?d (8 + length enc) (8 + length enc + 2) = PutUint16 (of_nat (length payload))"
  proof -
    have "?d = ([0] @ PutUint16 kdf @ PutUint16 aid @ [cfg] @ PutUint16 (of_nat (length enc)) @ enc)
        @ PutUint16 (of_nat (length payload)) @ payload"
      by (simp add: ech_body_def)
    then show ?thesis by (rule ssubst) (rule slice_middle, simp_all)
  qed
  ultimately show ?thesis
    using assms by (simp add: echPayload_iff) (simp add: ech_body_def)
qed

text \<open>When the path is open to a hello: exactly when its payload can hold a ticket.\<close>

lemma SetECHTicketAuth_possible:
  assumes "length ticket = FullTicketLen" and "Find ExtPreSharedKey h = None"
  shows "(\<exists>t r. SetECHTicketAuth ticket psk h t = Inr r) \<longleftrightarrow> (\<exists>n. ECHPayloadLen h = Inr n \<and> FullTicketLen \<le> n)"
proof
  assume "\<exists>t r. SetECHTicketAuth ticket psk h t = Inr r"
  then obtain t h' t' where "SetECHTicketAuth ticket psk h t = Inr (h', t')" by auto
  then show "\<exists>n. ECHPayloadLen h = Inr n \<and> FullTicketLen \<le> n"
    by (rule SetECHTicketAuth_result) (auto simp: ECHPayloadLen_def)
next
  assume "\<exists>n. ECHPayloadLen h = Inr n \<and> FullTicketLen \<le> n"
  then obtain e p n where "Find ExtECH h = Some e" "echPayload (ExtData e) = Inr (p, n)" "FullTicketLen \<le> n"
    by (auto simp: ECHPayloadLen_def bindE_eq_Inr split: option.splits)
  then have "\<exists>r. SetECHTicketAuth ticket psk h (replicate n 0) = Inr r"
    using assms by (simp add: SetECHTicketAuth_def Let_def bindR_def liftR_def rand_Read_def returnR_def)
  then show "\<exists>t r. SetECHTicketAuth ticket psk h t = Inr r" by blast
qed

definition ech_hello :: "nat \<Rightarrow> ClientHello" where
  "ech_hello n = share_hello\<lparr>Extensions := Extensions share_hello
     @ [Extension ExtECH (ech_body 1 1 9 (replicate 32 4) (replicate n 6))]\<rparr>"

lemma ech_hello_find:
  "Find ExtECH (ech_hello n) = Some (Extension ExtECH (ech_body 1 1 9 (replicate 32 4) (replicate n 6)))"
  "Find ExtPreSharedKey (ech_hello n) = None" "KeyShare (ech_hello n) = KeyShare share_hello"
  by (simp_all add: ech_hello_def share_hello_def Find_def KeyShare_def)

lemma ech_hello_set:
  "144 \<le> n \<Longrightarrow> n < 65536 \<Longrightarrow> length ticket = 144 \<Longrightarrow> \<exists>h' t'. SetECHTicketAuth ticket psk (ech_hello n) (replicate n 0) = Inr (h', t')"
  by (simp add: SetECHTicketAuth_def Let_def bindR_def liftR_def rand_Read_def returnR_def ech_hello_find echPayload_ech_body)

theorem verify_SetECHTicketAuth_witness:
  "\<exists>h' t'. SetECHTicketAuth (cr_FullTicket demo_cred) (cr_PSK demo_cred) (ech_hello 240) (replicate 240 0) = Inr (h', t')
     \<and> verifyECHAt h' demo_key (second * 60) second =
         Inr \<lparr>ar_ClientID = 7, ar_PSK = cr_PSK demo_cred, ar_Issued = 0, ar_ClientEphemeral = replicate 32 0\<rparr>"
proof -
  obtain h' t' where s: "SetECHTicketAuth (cr_FullTicket demo_cred) (cr_PSK demo_cred) (ech_hello 240) (replicate 240 0) = Inr (h', t')"
    using ech_hello_set [of 240 "cr_FullTicket demo_cred" "cr_PSK demo_cred"] by (auto simp: demo_cred_opens)
  have "KeyShare (ech_hello 240) = Inr (replicate 32 0)" by (simp add: ech_hello_find share_hello_KeyShare)
  from verify_SetECHTicketAuth [OF s demo_cred_opens(2) this, of "second * 60" second] s
  show ?thesis by (simp add: time_Sub_def)
qed

text \<open>
  What acceptance of a full-handshake opening means, exactly: no pre_shared_key, an ECH payload
  whose first 144 bytes are a ticket of the server's, young enough, a random field that is the MAC,
  keyed from the psk in that ticket, of the whole hello with the random cleared, and an X25519 key.
\<close>

theorem verifyECHAt_iff:
  "verifyECHAt h k maxAge now = Inr r \<longleftrightarrow>
     Find ExtPreSharedKey h = None
     \<and> (\<exists>e p n. Find ExtECH h = Some e \<and> echPayload (ExtData e) = Inr (p, n) \<and> FullTicketLen \<le> n
          \<and> open_ticket k (slice (ExtData e) p (p + FullTicketLen)) = Inr (ar_ClientID r, ar_PSK r, ar_Issued r))
     \<and> (0 < maxAge \<longrightarrow> time_Sub now (ar_Issued r) \<le> maxAge)
     \<and> Random h = hmac SHA256 (fullMACKey (ar_PSK r)) (Marshal (h\<lparr>Random := replicate 32 0\<rparr>))
     \<and> KeyShare h = Inr (ar_ClientEphemeral r)"
  by (rule verifyECHAt_iff_aux)

theorem verifyECHAt_iff_witness:
  "\<exists>h' t'. SetECHTicketAuth (cr_FullTicket demo_cred) (cr_PSK demo_cred) (ech_hello 144) (replicate 144 0) = Inr (h', t')
     \<and> Random h' = hmac SHA256 (fullMACKey (cr_PSK demo_cred)) (Marshal (h'\<lparr>Random := replicate 32 0\<rparr>))"
proof -
  obtain h' t' where s: "SetECHTicketAuth (cr_FullTicket demo_cred) (cr_PSK demo_cred) (ech_hello 144) (replicate 144 0) = Inr (h', t')"
    using ech_hello_set [of 144 "cr_FullTicket demo_cred" "cr_PSK demo_cred"] by (auto simp: demo_cred_opens)
  have "KeyShare (ech_hello 144) = Inr (replicate 32 0)" by (simp add: ech_hello_find share_hello_KeyShare)
  from SetECHTicketAuth_verifies [OF s demo_cred_opens(2) this, of 0 0] s
  show ?thesis unfolding verifyECHAt_iff by auto
qed

lemma carriers_foldl:
  "foldl (\<lambda>out rec.
       case ParseClientHello rec of
         Inl _ \<Rightarrow> out
       | Inr h \<Rightarrow> (case ECHPayloadLen h of
                    Inl _ \<Rightarrow> out
                  | Inr n \<Rightarrow> if FullTicketLen \<le> n then out @ [rec] else out)) acc pool
   = acc @ filter (\<lambda>rec. \<exists>h n. ParseClientHello rec = Inr h \<and> ECHPayloadLen h = Inr n \<and> FullTicketLen \<le> n) pool"
  by (induction pool arbitrary: acc) (auto split: sum.splits)

lemma FullHandshakeCarriers_filter:
  "FullHandshakeCarriers pool
     = filter (\<lambda>rec. \<exists>h n. ParseClientHello rec = Inr h \<and> ECHPayloadLen h = Inr n \<and> FullTicketLen \<le> n) pool"
  unfolding FullHandshakeCarriers_def carriers_foldl by simp

lemma ECHPayloadLen_drop: "ECHPayloadLen (fst (dropExtension ExtPreSharedKey h)) = ECHPayloadLen h"
  by (simp add: ECHPayloadLen_def hello_simps)

text \<open>
  The full-handshake path is offered for exactly the hellos that can carry it: a pool record is
  kept iff it parses and, once stripped of pre_shared_key, a full ticket can be installed in it.
\<close>

theorem carriers_exact:
  assumes "length ticket = FullTicketLen"
  shows "rec \<in> set (FullHandshakeCarriers pool) \<longleftrightarrow>
     rec \<in> set pool \<and> (\<exists>h t r. ParseClientHello rec = Inr h
        \<and> SetECHTicketAuth ticket psk (fst (dropExtension ExtPreSharedKey h)) t = Inr r)"
proof -
  have "(\<exists>t r. SetECHTicketAuth ticket psk (fst (dropExtension ExtPreSharedKey h)) t = Inr r)
      \<longleftrightarrow> (\<exists>n. ECHPayloadLen h = Inr n \<and> FullTicketLen \<le> n)" for h
    using SetECHTicketAuth_possible [OF assms, of "fst (dropExtension ExtPreSharedKey h)" psk]
    by (simp add: hello_simps ECHPayloadLen_drop)
  then show ?thesis by (auto simp: FullHandshakeCarriers_filter)
qed

lemma ech_hello_wf: "wf_hello (ech_hello 144)"
  by (simp add: wf_hello_def ech_hello_def share_hello_def small_hello_def body_len_def hello_prefix_def ech_body_def)

theorem carriers_exact_witness:
  "Marshal (ech_hello 144) \<in> set (FullHandshakeCarriers [Marshal (ech_hello 144), [1, 2, 3]])
     \<and> (\<exists>h t r. ParseClientHello (Marshal (ech_hello 144)) = Inr h
          \<and> SetECHTicketAuth (cr_FullTicket demo_cred) [] (fst (dropExtension ExtPreSharedKey h)) t = Inr r)"
proof -
  have "Marshal (ech_hello 144) \<in> set (FullHandshakeCarriers [Marshal (ech_hello 144), [1, 2, 3]])"
    using parse_Marshal_wf [OF ech_hello_wf]
    by (simp add: FullHandshakeCarriers_filter ECHPayloadLen_def ech_hello_find echPayload_ech_body)
  with carriers_exact [of "cr_FullTicket demo_cred" "Marshal (ech_hello 144)" "[Marshal (ech_hello 144), [1, 2, 3]]" "[]"]
  show ?thesis by (simp add: demo_cred_opens)
qed

end
