(* ===== verification/Effects.thy ===== *)
theory Effects
  imports Entropy
begin

text \<open>
  Effects of the connection code, as explicit state. An action threads a state and returns a value
  or an error; unlike a draw of entropy it keeps the state when it fails, since what a failed
  handshake put on the wire matters. The outside world of one connection is a record: the bytes the
  peer sends, the bytes written, which writes fail, the entropy, the clock.
\<close>

section \<open>Actions\<close>

type_synonym ('s, 'a) act = "'s \<Rightarrow> 'a res \<times> 's"

definition returnA :: "'a \<Rightarrow> ('s, 'a) act" where
  "returnA x = (\<lambda>s. (Inr x, s))"

definition failA :: "err \<Rightarrow> ('s, 'a) act" where
  "failA e = (\<lambda>s. (Inl e, s))"

definition liftA :: "'a res \<Rightarrow> ('s, 'a) act" where
  "liftA m = (\<lambda>s. (m, s))"

definition bindA :: "('s, 'a) act \<Rightarrow> ('a \<Rightarrow> ('s, 'b) act) \<Rightarrow> ('s, 'b) act" where
  "bindA m f = (\<lambda>s. case m s of (Inl e, s') \<Rightarrow> (Inl e, s') | (Inr x, s') \<Rightarrow> f x s')"

definition getA :: "('s, 's) act" where
  "getA = (\<lambda>s. (Inr s, s))"

definition modA :: "('s \<Rightarrow> 's) \<Rightarrow> ('s, unit) act" where
  "modA f = (\<lambda>s. (Inr (), f s))"

text \<open>An action whose error becomes another one, as in \<^verbatim>\<open>if err != nil { return ErrNotOurs }\<close>.\<close>

definition orA :: "err \<Rightarrow> ('s, 'a) act \<Rightarrow> ('s, 'a) act" where
  "orA e m = (\<lambda>s. case m s of (Inl _, s') \<Rightarrow> (Inl e, s') | (Inr x, s') \<Rightarrow> (Inr x, s'))"

primrec forA :: "('x \<Rightarrow> ('s, unit) act) \<Rightarrow> 'x list \<Rightarrow> ('s, unit) act" where
  "forA f [] = returnA ()"
| "forA f (x # xs) = bindA (f x) (\<lambda>_. forA f xs)"

named_theorems act_simps \<open>how a chain of actions runs\<close>

lemma returnA_run [act_simps]: "returnA x s = (Inr x, s)"
  by (simp add: returnA_def)

lemma failA_run [act_simps]: "failA e s = (Inl e, s)"
  by (simp add: failA_def)

lemma liftA_run [act_simps]: "liftA m s = (m, s)"
  by (simp add: liftA_def)

lemma getA_run [act_simps]: "getA s = (Inr s, s)"
  by (simp add: getA_def)

lemma modA_run [act_simps]: "modA f s = (Inr (), f s)"
  by (simp add: modA_def)

lemma bindA_Inr [act_simps]: "m s = (Inr x, s') \<Longrightarrow> bindA m f s = f x s'"
  by (simp add: bindA_def)

lemma bindA_Inl [act_simps]: "m s = (Inl e, s') \<Longrightarrow> bindA m f s = (Inl e, s')"
  by (simp add: bindA_def)

lemma bindA_eq_Inr: "bindA m f s = (Inr y, s'') \<longleftrightarrow> (\<exists>x s'. m s = (Inr x, s') \<and> f x s' = (Inr y, s''))"
  by (cases "m s"; cases "fst (m s)") (auto simp: bindA_def)

lemma bindA_eq_Inl:
  "bindA m f s = (Inl e, s'') \<longleftrightarrow> m s = (Inl e, s'') \<or> (\<exists>x s'. m s = (Inr x, s') \<and> f x s' = (Inl e, s''))"
  by (cases "m s"; cases "fst (m s)") (auto simp: bindA_def)

lemma orA_Inr [act_simps]: "m s = (Inr x, s') \<Longrightarrow> orA e m s = (Inr x, s')"
  by (simp add: orA_def)

lemma orA_Inl [act_simps]: "m s = (Inl e', s') \<Longrightarrow> orA e m s = (Inl e, s')"
  by (simp add: orA_def)

lemma orA_eq_Inr: "orA e m s = (Inr x, s') \<longleftrightarrow> m s = (Inr x, s')"
  by (cases "m s"; cases "fst (m s)") (auto simp: orA_def)

lemma orA_eq_Inl: "orA e m s = (Inl e', s') \<longleftrightarrow> e' = e \<and> (\<exists>e0. m s = (Inl e0, s'))"
  by (cases "m s"; cases "fst (m s)") (auto simp: orA_def)

section \<open>The world of one connection\<close>

record world =
  w_in :: bytes            \<comment> \<open>what the peer has sent or will send\<close>
  w_out :: bytes           \<comment> \<open>what has been written, in order\<close>
  w_fail :: "bool list"    \<comment> \<open>which of the coming writes fail; past its end none does\<close>
  w_closed :: bool
  w_rand :: tape
  w_clock :: "nat \<Rightarrow> int"    \<comment> \<open>what successive readings of the clock return\<close>
  w_ticks :: nat           \<comment> \<open>how many readings there were\<close>

type_synonym 'a io = "(world, 'a) act"

definition raw_Write :: "bytes \<Rightarrow> unit io" where
  "raw_Write b = (\<lambda>w.
     if w_closed w then (Inl ErrIO, w)
     else case w_fail w of
            [] \<Rightarrow> (Inr (), w\<lparr>w_out := w_out w @ b\<rparr>)
          | bad # rest \<Rightarrow> if bad then (Inl ErrIO, w\<lparr>w_fail := rest\<rparr>)
                         else (Inr (), w\<lparr>w_out := w_out w @ b, w_fail := rest\<rparr>))"

text \<open>\<^verbatim>\<open>io.ReadFull\<close>: all of the bytes asked for, or an end of file, which is unexpected after the first byte.\<close>

definition io_ReadFull :: "nat \<Rightarrow> bytes io" where
  "io_ReadFull n = (\<lambda>w.
     if n \<le> length (w_in w) then (Inr (take n (w_in w)), w\<lparr>w_in := drop n (w_in w)\<rparr>)
     else (Inl (if w_in w = [] then ErrEOF else ErrUnexpectedEOF), w\<lparr>w_in := []\<rparr>))"

definition raw_Close :: "unit io" where
  "raw_Close = modA (\<lambda>w. w\<lparr>w_closed := True\<rparr>)"

definition time_Now :: "int io" where
  "time_Now = (\<lambda>w. (Inr (w_clock w (w_ticks w)), w\<lparr>w_ticks := Suc (w_ticks w)\<rparr>))"

definition drawA :: "'a rnd \<Rightarrow> 'a io" where
  "drawA m = (\<lambda>w. case m (w_rand w) of Inl e \<Rightarrow> (Inl e, w) | Inr (x, t) \<Rightarrow> (Inr x, w\<lparr>w_rand := t\<rparr>))"

lemma raw_Write_ok [act_simps]:
  "\<not> w_closed w \<Longrightarrow> w_fail w = [] \<Longrightarrow> raw_Write b w = (Inr (), w\<lparr>w_out := w_out w @ b\<rparr>)"
  by (simp add: raw_Write_def)

lemma raw_Write_Inr:
  "raw_Write b w = (Inr u, w') \<longleftrightarrow>
     \<not> w_closed w \<and> True \<notin> set (take 1 (w_fail w)) \<and> w' = w\<lparr>w_out := w_out w @ b, w_fail := drop 1 (w_fail w)\<rparr>"
  by (auto simp: raw_Write_def split: list.splits if_splits)

lemma raw_Write_Inl:
  "raw_Write b w = (Inl e, w') \<Longrightarrow> e = ErrIO \<and> w_out w' = w_out w \<and> w_in w' = w_in w"
  by (auto simp: raw_Write_def split: list.splits if_splits)

lemma raw_Write_in [simp]: "w_in (snd (raw_Write b w)) = w_in w"
  by (auto simp: raw_Write_def split: list.splits)

lemma io_ReadFull_ok [act_simps]:
  "w_in w = b @ rest \<Longrightarrow> length b = n \<Longrightarrow> io_ReadFull n w = (Inr b, w\<lparr>w_in := rest\<rparr>)"
  by (simp add: io_ReadFull_def)

lemma io_ReadFull_Inr: "io_ReadFull n w = (Inr b, w') \<longleftrightarrow>
     n \<le> length (w_in w) \<and> b = take n (w_in w) \<and> w' = w\<lparr>w_in := drop n (w_in w)\<rparr>"
  by (auto simp: io_ReadFull_def)

lemma time_Now_run [act_simps]: "time_Now w = (Inr (w_clock w (w_ticks w)), w\<lparr>w_ticks := Suc (w_ticks w)\<rparr>)"
  by (simp add: time_Now_def)

lemma raw_Close_run [act_simps]: "raw_Close w = (Inr (), w\<lparr>w_closed := True\<rparr>)"
  by (simp add: raw_Close_def modA_def)

lemma drawA_ok [act_simps]: "m (w_rand w) = Inr (x, t) \<Longrightarrow> drawA m w = (Inr x, w\<lparr>w_rand := t\<rparr>)"
  by (simp add: drawA_def)

lemma drawA_Inr: "drawA m w = (Inr x, w') \<longleftrightarrow> (\<exists>t. m (w_rand w) = Inr (x, t) \<and> w' = w\<lparr>w_rand := t\<rparr>)"
  by (auto simp: drawA_def split: sum.splits prod.splits)

text \<open>An action of the world, run inside a larger state.\<close>

definition on_world :: "'a io \<Rightarrow> ('c \<times> world, 'a) act" where
  "on_world m = (\<lambda>(c, w). case m w of (r, w') \<Rightarrow> (r, (c, w')))"

lemma on_world_run [act_simps]: "m w = (r, w') \<Longrightarrow> on_world m (c, w) = (r, (c, w'))"
  by (simp add: on_world_def)

lemma on_world_eq: "on_world m (c, w) = (r, s') \<longleftrightarrow> (\<exists>w'. m w = (r, w') \<and> s' = (c, w'))"
  by (auto simp: on_world_def split: prod.splits)

end
