(* ===== verification/Shaping.thy ===== *)
theory Shaping
  imports Prelude
begin

text \<open>
  \<^verbatim>\<open>src/shaping.go\<close>: how a buffer of pending payload is cut into records and what each record is
  padded to, with the flush loop of \<^verbatim>\<open>Conn.Write\<close> (\<^verbatim>\<open>src/conn.go\<close>) that drives a shaper. The locale
  \<open>shaper\<close> is the contract the flush loop needs of the Go interface \<^verbatim>\<open>Shaper\<close>; both shapers of the
  source are interpretations of it.
\<close>

section \<open>The measured sizes\<close>

abbreviation maxPlaintext :: nat where "maxPlaintext \<equiv> 16384"
abbreviation maxInner :: nat where "maxInner \<equiv> 16385"
abbreviation recordOverhead :: nat where "recordOverhead \<equiv> 16"

definition clientModes :: "nat list" where
  "clientModes = [
     26, 30, 34, 53, 69, 87, 94, 114, 124, 197,
     278, 419, 601, 773, 1034, 1256, 1644, 2356, 3771, 6019,
     9182, 13732, 16408]"

definition serverModes :: "nat list" where
  "serverModes = [
     26, 34, 53, 57, 69, 74, 96, 135, 174, 210,
     281, 298, 445, 551, 749, 1109, 1395, 2011, 3039, 4246,
     4389, 6852, 7496, 10101, 11317, 16401]"

section \<open>Shapers\<close>

text \<open>Given how many payload bytes are pending: how many to take, and the inner length to pad to.\<close>

type_synonym Shaper = "nat \<Rightarrow> nat \<times> nat"

definition PlainShaper :: Shaper where
  "PlainShaper a = (let a = (if maxPlaintext < a then maxPlaintext else a) in (a, a + 1))"

definition inner_modes :: "nat list \<Rightarrow> nat list" where
  "inner_modes modes =
     concat (map (\<lambda>m. let v = int m - int recordOverhead
                      in if 0 < v \<and> v \<le> int maxInner then [nat v] else []) modes)"

definition bulk_mode :: "nat list \<Rightarrow> nat" where
  "bulk_mode inner = foldl (\<lambda>bulk v. if v < maxInner \<and> bulk < v then v else bulk) (hd inner) inner"

definition BrowsingShaper :: "bool \<Rightarrow> Shaper" where
  "BrowsingShaper isServer =
     (let modes = (if isServer then serverModes else clientModes);
          inner = inner_modes modes;
          bulk = bulk_mode inner
      in (\<lambda>available.
           let need = available + 1;
               fit = (if need \<le> bulk then find (\<lambda>v. need \<le> v) inner else None)
           in case fit of
                Some v \<Rightarrow> (available, v)
              | None \<Rightarrow> if maxPlaintext \<le> available then (maxPlaintext, maxInner)
                        else (bulk - 1, bulk)))"

section \<open>The flush loop\<close>

text \<open>
  The loop of \<^verbatim>\<open>Conn.Write\<close> over the pending buffer: the records it emits, each a chunk of payload
  and the inner length asked for. A shaper that answers nonsense takes the whole buffer.
\<close>

function flush_chunks :: "Shaper \<Rightarrow> bytes \<Rightarrow> (bytes \<times> nat) list" where
  "flush_chunks sh wbuf =
     (if wbuf = [] then []
      else let (tk, padTo) = sh (length wbuf);
               tk = (if tk \<le> 0 \<or> length wbuf < tk then length wbuf else tk)
           in (take tk wbuf, padTo) # flush_chunks sh (drop tk wbuf))"
  by pat_completeness auto
termination
  by (relation "measure (\<lambda>(sh, wbuf). length wbuf)") (auto split: if_splits)

declare flush_chunks.simps [simp del]

text \<open>No shaper, however wrong, loses or reorders a byte.\<close>

lemma flush_chunks_payload: "concat (map fst (flush_chunks sh wbuf)) = wbuf"
proof (induction sh wbuf rule: flush_chunks.induct)
  case (1 sh wbuf)
  show ?case
  proof (cases "wbuf = []")
    case True
    then show ?thesis by (subst flush_chunks.simps) simp
  next
    case False
    obtain t p where tp: "sh (length wbuf) = (t, p)" by fastforce
    show ?thesis
      using "1.IH" [OF False tp [symmetric] refl] False tp
      by (subst flush_chunks.simps) (simp add: Let_def)
  qed
qed

locale shaper =
  fixes Next :: Shaper
  assumes progress: "0 < a \<Longrightarrow> 0 < fst (Next a)"
    and within: "fst (Next a) \<le> a"
    and room: "fst (Next a) < snd (Next a)"
    and fits: "snd (Next a) \<le> maxInner"
begin

lemma flush_unfold:
  "wbuf \<noteq> [] \<Longrightarrow> flush_chunks Next wbuf =
     (take (fst (Next (length wbuf))) wbuf, snd (Next (length wbuf)))
       # flush_chunks Next (drop (fst (Next (length wbuf))) wbuf)"
  using progress [of "length wbuf"] within [of "length wbuf"]
  by (subst flush_chunks.simps) (auto simp: split_beta Let_def)

text \<open>Every record the loop emits is one answer of the shaper about a non-empty remainder.\<close>

lemma flush_answers:
  "(c, p) \<in> set (flush_chunks Next wbuf) \<Longrightarrow>
     \<exists>a. 0 < a \<and> a \<le> length wbuf \<and> Next a = (length c, p)"
proof (induction "length wbuf" arbitrary: wbuf rule: less_induct)
  case less
  show ?case
  proof (cases "wbuf = []")
    case True
    with less.prems show ?thesis by (subst (asm) flush_chunks.simps) simp
  next
    case False
    let ?t = "fst (Next (length wbuf))"
    have t: "0 < ?t" "?t \<le> length wbuf"
      using False progress within by auto
    from less.prems False consider "(c, p) = (take ?t wbuf, snd (Next (length wbuf)))"
      | "(c, p) \<in> set (flush_chunks Next (drop ?t wbuf))"
      by (auto simp: flush_unfold)
    then show ?thesis
    proof cases
      case 1
      then have "length c = ?t" "p = snd (Next (length wbuf))"
        using t(2) by simp_all
      then show ?thesis using False by (intro exI [of _ "length wbuf"]) simp
    next
      case 2
      have "length (drop ?t wbuf) < length wbuf" using t False by simp
      from less.hyps [OF this 2] show ?thesis by fastforce
    qed
  qed
qed

lemma flush_fits:
  "(c, p) \<in> set (flush_chunks Next wbuf) \<Longrightarrow> c \<noteq> [] \<and> length c < p \<and> p \<le> maxInner"
proof -
  assume "(c, p) \<in> set (flush_chunks Next wbuf)"
  then obtain a where "0 < a" "Next a = (length c, p)" using flush_answers by blast
  with progress [of a] room [of a] fits [of a] show ?thesis by auto
qed

lemma flush_count: "length (flush_chunks Next wbuf) \<le> length wbuf"
proof (induction "length wbuf" arbitrary: wbuf rule: less_induct)
  case less
  show ?case
  proof (cases "wbuf = []")
    case True
    then show ?thesis by (subst flush_chunks.simps) simp
  next
    case False
    let ?w = "drop (fst (Next (length wbuf))) wbuf"
    have lt: "length ?w < length wbuf" using False progress by simp
    from less.hyps [OF this] lt False show ?thesis by (simp add: flush_unfold)
  qed
qed

end

interpretation plain: shaper PlainShaper
  by unfold_locales (auto simp: PlainShaper_def Let_def)

text \<open>The inner sizes and the bulk size the two directions come to.\<close>

definition sizes :: "bool \<Rightarrow> nat list" where
  "sizes s = inner_modes (if s then serverModes else clientModes)"

lemma sizes_client: "sizes False =
   [10, 14, 18, 37, 53, 71, 78, 98, 108, 181, 262, 403, 585, 757, 1018, 1240, 1628, 2340, 3755, 6003, 9166, 13716]"
  by (simp add: sizes_def inner_modes_def clientModes_def)

lemma sizes_server: "sizes True =
   [10, 18, 37, 41, 53, 58, 80, 119, 158, 194, 265, 282, 429, 535, 733, 1093, 1379, 1995, 3023, 4230, 4373, 6836,
    7480, 10085, 11301, 16385]"
  by (simp add: sizes_def inner_modes_def serverModes_def)

lemma bulk_sizes: "bulk_mode (sizes s) = (if s then 11301 else 13716)"
  by (simp add: sizes_client sizes_server bulk_mode_def)

lemma sizes_bound: "v \<in> set (sizes s) \<Longrightarrow> v \<le> maxInner"
  by (cases s) (auto simp: sizes_client sizes_server)

lemma bulk_in_sizes: "(if s then 11301 else 13716) \<in> set (sizes s)"
  by (simp add: sizes_client sizes_server)

lemma le_Suc_fun: "(\<le>) (Suc a) = (<) a"
  by (auto simp: fun_eq_iff)

lemma BrowsingShaper_eq:
  "BrowsingShaper s a =
     (case (if a < (if s then 11301 else 13716) then find (\<lambda>v. a < v) (sizes s) else None) of
        Some v \<Rightarrow> (a, v)
      | None \<Rightarrow> if maxPlaintext \<le> a then (maxPlaintext, maxInner)
                else if s then (11300, 11301) else (13715, 13716))"
  unfolding BrowsingShaper_def Let_def sizes_def [symmetric] bulk_sizes
  by (simp add: le_Suc_fun split: option.split)

lemma find_fit: "find (\<lambda>v. a < v) xs = Some v \<Longrightarrow> v \<in> set xs \<and> a < (v :: nat)"
  by (auto simp: find_Some_iff in_set_conv_nth)

text \<open>The three cases of the browsing shaper, by direction.\<close>

lemma browsing_cases:
  obtains (small) v where "BrowsingShaper s a = (a, v)" "a < v" "a < (if s then 11301 else 13716)"
      "find (\<lambda>v. a < v) (sizes s) = Some v" "v \<in> set (sizes s)"
  | (large) "maxPlaintext \<le> a" "BrowsingShaper s a = (maxPlaintext, maxInner)"
  | (bulk) "(if s then 11301 else 13716) \<le> a" "a < maxPlaintext"
      "BrowsingShaper s a = (if s then (11300, 11301) else (13715, 13716))"
proof (cases "a < (if s then 11301 else 13716 :: nat)")
  case True
  have "find (\<lambda>v. a < v) (sizes s) \<noteq> None"
    using True bulk_in_sizes [of s] by (auto simp: find_None_iff)
  then obtain v where "find (\<lambda>v. a < v) (sizes s) = Some v" by blast
  with True small [of v] find_fit [OF this] show ?thesis by (simp add: BrowsingShaper_eq)
next
  case False
  then show ?thesis
    using large bulk by (cases "maxPlaintext \<le> a") (simp_all add: BrowsingShaper_eq)
qed

interpretation browsing: shaper "BrowsingShaper s"
proof
  fix a
  show "0 < a \<Longrightarrow> 0 < fst (BrowsingShaper s a)"
    by (rule browsing_cases [of s a]) (auto split: if_splits)
  show "fst (BrowsingShaper s a) \<le> a"
    by (rule browsing_cases [of s a]) (auto split: if_splits)
  show "fst (BrowsingShaper s a) < snd (BrowsingShaper s a)"
    by (rule browsing_cases [of s a]) (auto split: if_splits)
  show "snd (BrowsingShaper s a) \<le> maxInner"
    by (rule browsing_cases [of s a]) (auto dest: sizes_bound split: if_splits)
qed

section \<open>What the observer sees\<close>

lemma set_inner_modes:
  "v \<in> set (inner_modes ms) \<longleftrightarrow> 0 < v \<and> v + recordOverhead \<in> set ms \<and> v \<le> maxInner"
proof (induction ms)
  case Nil
  then show ?case by (simp add: inner_modes_def)
next
  case (Cons m ms)
  have "inner_modes (m # ms) =
      (if 16 < m \<and> m \<le> 16401 then [m - 16] else []) @ inner_modes ms"
    by (auto simp: inner_modes_def Let_def)
  with Cons show ?case by auto
qed

lemma sizes_are_modes:
  "v \<in> set (sizes s) \<longleftrightarrow> v + recordOverhead \<in> set (if s then serverModes else clientModes) \<and> v \<le> maxInner"
proof -
  have "recordOverhead \<notin> set (if s then serverModes else clientModes)"
    by (simp add: serverModes_def clientModes_def)
  then show ?thesis unfolding sizes_def set_inner_modes by (cases "v = 0") auto
qed

text \<open>
  The length a flush of the browsing shaper asks for is, with the tag, a measured length of its
  direction, but for a client's full chunk: the client's own maximum (16408) exceeds what TLS 1.3
  allows and is filtered out. Theory \<open>Stream_Layer\<close> says the same of the records on the wire.
\<close>

lemma chunk_on_mode:
  assumes "(c, p) \<in> set (flush_chunks (BrowsingShaper s) wbuf)"
  shows "p + recordOverhead \<in> set (if s then serverModes else clientModes)
     \<longleftrightarrow> s \<or> length c < maxPlaintext"
proof -
  obtain a where a: "0 < a" "BrowsingShaper s a = (length c, p)"
    using browsing.flush_answers [OF assms] by blast
  show ?thesis
  proof (rule browsing_cases [of s a])
    fix v
    assume v: "BrowsingShaper s a = (a, v)" "a < (if s then 11301 else 13716)" "v \<in> set (sizes s)"
    have "p + recordOverhead \<in> set (if s then serverModes else clientModes)"
      using v a by (simp add: sizes_are_modes)
    moreover have "length c < maxPlaintext" using v a by (simp split: if_splits)
    ultimately show ?thesis by simp
  next
    assume "BrowsingShaper s a = (maxPlaintext, maxInner)"
    with a show ?thesis by (simp add: serverModes_def clientModes_def)
  next
    assume "BrowsingShaper s a = (if s then (11300, 11301) else (13715, 13716))"
    with a show ?thesis by (cases s) (simp_all add: serverModes_def clientModes_def)
  qed
qed

lemma full_chunk: "(c, p) \<in> set (flush_chunks (BrowsingShaper s) wbuf) \<Longrightarrow>
    length c \<le> maxPlaintext \<and> (length c = maxPlaintext \<longrightarrow> p = maxInner)"
proof -
  assume "(c, p) \<in> set (flush_chunks (BrowsingShaper s) wbuf)"
  from browsing.flush_fits [OF this] show ?thesis by simp
qed

text \<open>
  What a flush emits is the buffer: whatever the shaper, the chunks put end to end are the
  bytes written, and under either shaper of the source every chunk is non-empty and fits, with
  its content-type byte, in the record it is padded to, which TLS allows.
\<close>

theorem flush_is_buffer:
  "concat (map fst (flush_chunks sh wbuf)) = wbuf
   \<and> (sh = PlainShaper \<or> sh = BrowsingShaper s \<longrightarrow>
        (\<forall>(c, p)\<in>set (flush_chunks sh wbuf). c \<noteq> [] \<and> length c < p \<and> p \<le> maxInner))"
  using plain.flush_fits browsing.flush_fits [of _ _ s] flush_chunks_payload by blast

theorem flush_is_buffer_witness:
  "([1, 2, 3], 10) \<in> set (flush_chunks (BrowsingShaper True) [1, 2, 3])
   \<and> concat (map fst (flush_chunks (BrowsingShaper True) [1, 2, 3])) = [1, 2, 3]
   \<and> length [1 :: byte, 2, 3] < 10 \<and> 10 \<le> maxInner"
proof -
  have "flush_chunks (BrowsingShaper True) [1, 2, 3] = [([1, 2, 3], 10)]"
    by (subst browsing.flush_unfold) (simp_all add: BrowsingShaper_eq sizes_server flush_chunks.simps)
  with flush_is_buffer [of "BrowsingShaper True" "[1, 2, 3]" True] show ?thesis by simp
qed

lemma small_overhead:
  assumes "find (\<lambda>v. a < v) (sizes s) = Some v" and "9 < a"
  shows "5 * (v + 16) < 8 * (a + 17)"
  using assms
  by (cases s) (simp_all add: sizes_client sizes_server split: if_splits)

text \<open>
  Padding is cheap: a record longer than the smallest mode never costs 1.6 times or more what
  an unpadded record with the same payload would, on the wire. (The source promises about 1.6.)
\<close>

theorem padding_cost:
  assumes "BrowsingShaper s a = (tk, padTo)" and "26 < a + 1 + recordOverhead"
  shows "5 * (padTo + recordOverhead) < 8 * (tk + 1 + recordOverhead)"
  by (rule browsing_cases [of s a])
     (use assms small_overhead [of a s] in \<open>auto split: if_splits\<close>)

theorem padding_cost_witness:
  "BrowsingShaper True 1378 = (1378, 1379) \<and> (5 :: nat) * (1379 + 16) < 8 * (1378 + 17)"
proof -
  have e: "BrowsingShaper True 1378 = (1378, 1379)"
    by (simp add: BrowsingShaper_eq sizes_server)
  from padding_cost [OF e] e show ?thesis by simp
qed

end
