(* ===== verification/Conn.thy ===== *)
theory Conn
  imports Effects GoCrypto Shaping
begin

text \<open>
  \<^verbatim>\<open>src/conn.go\<close>: the record layer of an open connection. A connection is a record of its keys,
  sequence numbers and buffers; an AEAD is its AES key. Critical sections are atomic: what one holder
  of \<^verbatim>\<open>wmu\<close>, \<^verbatim>\<open>wireMu\<close> or \<^verbatim>\<open>rmu\<close> does is one action; theory \<open>Interleaving\<close> has concurrent
  writers and a closer, theory \<open>Stream_Layer\<close> the connection as a byte stream. Here: the operations, and
  that a record sealed is the record read and only a record sealed with the key is accepted.
\<close>

section \<open>Constants and types\<close>

abbreviation recordHeaderLen :: nat where "recordHeaderLen \<equiv> 5"
abbreviation maxCiphertext :: nat where "maxCiphertext \<equiv> 16640"
abbreviation contentAppData :: byte where "contentAppData \<equiv> 0x17"
abbreviation contentAlert :: byte where "contentAlert \<equiv> 0x15"
abbreviation contentHandshake :: byte where "contentHandshake \<equiv> 0x16"
abbreviation alertWarning :: byte where "alertWarning \<equiv> 1"
abbreviation alertCloseNotify :: byte where "alertCloseNotify \<equiv> 0"
abbreviation closeNotifyWire :: int where "closeNotifyWire \<equiv> 24"

abbreviation TLS_AES_128_GCM_SHA256 :: u16 where "TLS_AES_128_GCM_SHA256 \<equiv> 0x1301"
abbreviation TLS_AES_256_GCM_SHA384 :: u16 where "TLS_AES_256_GCM_SHA384 \<equiv> 0x1302"

record Keys =
  k_Key :: bytes
  k_IV :: bytes

record Session =
  s_Client :: Keys
  s_Server :: Keys
  s_Suite :: u16

section \<open>Key derivation\<close>

text \<open>A nil transcript is the empty list, which \<open>DeriveSession\<close> refuses.\<close>

definition Transcript :: "bytes \<Rightarrow> bytes \<Rightarrow> bytes \<Rightarrow> bytes" where
  "Transcript clientHello serverHello changeCipherSpec =
     (if length clientHello \<le> recordHeaderLen \<or> length serverHello \<le> recordHeaderLen
         \<or> length changeCipherSpec \<le> recordHeaderLen
      then []
      else drop recordHeaderLen clientHello @ drop recordHeaderLen serverHello
         @ drop recordHeaderLen changeCipherSpec)"

definition derive_keys :: "hash_alg \<Rightarrow> bytes \<Rightarrow> bytes \<Rightarrow> bytes \<Rightarrow> nat \<Rightarrow> bytes \<Rightarrow> Keys res" where
  "derive_keys alg shared psk transcriptHash keyLen label =
     bindE (hkdf_Key alg shared psk (label @ transcriptHash) (keyLen + 12)) (\<lambda>out.
     Inr \<lparr>k_Key = take keyLen out, k_IV = take 12 (drop keyLen out)\<rparr>)"

definition DeriveSession :: "bytes \<Rightarrow> bytes \<Rightarrow> u16 \<Rightarrow> bytes \<Rightarrow> Session res" where
  "DeriveSession psk shared suite transcript =
     (if transcript = [] then Inl (Err ''twiddle: empty transcript; keys must be bound to the opening'')
      else bindE (if suite = TLS_AES_128_GCM_SHA256 then Inr (SHA256, 16, sha256 transcript)
                  else if suite = TLS_AES_256_GCM_SHA384 then Inr (SHA384, 32, sha384 transcript)
                  else Inl (Err ''twiddle: unsupported cipher suite'')) (\<lambda>(alg, keyLen, transcriptHash).
        bindE (derive_keys alg shared psk transcriptHash keyLen (str ''twiddle c ap traffic'')) (\<lambda>client.
        bindE (derive_keys alg shared psk transcriptHash keyLen (str ''twiddle s ap traffic'')) (\<lambda>server.
        Inr \<lparr>s_Client = client, s_Server = server, s_Suite = suite\<rparr>))))"

definition keys_aead :: "Keys \<Rightarrow> bytes res" where
  "keys_aead k = (if aes_key_ok (k_Key k) then Inr (k_Key k) else Inl (Err ''crypto/aes: invalid key size''))"

section \<open>The connection\<close>

record Conn =
  c_send :: bytes
  c_sendIV :: bytes
  c_sendSeq :: u64
  c_shaper :: Shaper
  c_wbuf :: bytes
  c_flushing :: bool
  c_werr :: "err option"
  c_alerted :: bool          \<comment> \<open>\<^verbatim>\<open>closeOnce\<close> has run\<close>
  c_recv :: bytes
  c_recvIV :: bytes
  c_recvSeq :: u64
  c_pending :: bytes
  c_rerr :: "err option"
  c_full :: bool

type_synonym 'a cio = "(Conn \<times> world, 'a) act"

definition FullHandshake :: "Conn \<Rightarrow> bool" where
  "FullHandshake c = c_full c"

definition NewConn :: "Session \<Rightarrow> bool \<Rightarrow> Shaper option \<Rightarrow> Conn res" where
  "NewConn s isClient sh =
     (let (sendKeys, recvKeys) = (if isClient then (s_Client s, s_Server s) else (s_Server s, s_Client s))
      in bindE (keys_aead sendKeys) (\<lambda>sa.
         bindE (keys_aead recvKeys) (\<lambda>ra.
         Inr \<lparr>c_send = sa, c_sendIV = k_IV sendKeys, c_sendSeq = 0,
              c_shaper = (case sh of None \<Rightarrow> PlainShaper | Some sh \<Rightarrow> sh),
              c_wbuf = [], c_flushing = False, c_werr = None, c_alerted = False,
              c_recv = ra, c_recvIV = k_IV recvKeys, c_recvSeq = 0, c_pending = [], c_rerr = None, c_full = False\<rparr>)))"

definition nonceFor :: "bytes \<Rightarrow> u64 \<Rightarrow> bytes" where
  "nonceFor iv seq = (let n = take 12 iv in take 4 n @ map2 (XOR) (drop 4 n) (PutUint64 seq))"

text \<open>The inner plaintext, the header that is also the additional data, and the sealed record.\<close>

definition inner_of :: "byte \<Rightarrow> bytes \<Rightarrow> int \<Rightarrow> bytes" where
  "inner_of typ payload padTo =
     (let inner = payload @ [typ]
      in if int (length inner) < padTo \<and> padTo \<le> int maxInner
         then inner @ replicate (nat padTo - length inner) 0 else inner)"

definition record_hdr :: "nat \<Rightarrow> bytes" where
  "record_hdr n = [contentAppData, 3, 3] @ PutUint16 (of_nat (n + recordOverhead))"

definition seal_record :: "bytes \<Rightarrow> bytes \<Rightarrow> u64 \<Rightarrow> bytes \<Rightarrow> bytes" where
  "seal_record key iv seq inner =
     (let hdr = record_hdr (length inner) in hdr @ gcm_Seal key (nonceFor iv seq) inner hdr)"

definition writeRecord :: "byte \<Rightarrow> bytes \<Rightarrow> int \<Rightarrow> unit cio" where
  "writeRecord typ payload padTo = (\<lambda>(c, w).
     let out = seal_record (c_send c) (c_sendIV c) (c_sendSeq c) (inner_of typ payload padTo);
         c = c\<lparr>c_sendSeq := c_sendSeq c + 1\<rparr>
     in on_world (raw_Write out) (c, w))"

definition writeSized :: "byte \<Rightarrow> bytes \<Rightarrow> int \<Rightarrow> unit cio" where
  "writeSized typ payload wireLen =
     (let padTo = wireLen - int recordHeaderLen - int recordOverhead
      in if padTo < int (length payload) + 1 then failA (Err ''twiddle: wire length too small for payload'')
         else if int maxInner < padTo then failA (Err ''twiddle: wire length exceeds max inner'')
         else writeRecord typ payload padTo)"

definition on_conn :: "(Conn \<Rightarrow> Conn) \<Rightarrow> unit cio" where
  "on_conn f = modA (\<lambda>(c, w). (f c, w))"

text \<open>
  The critical sections of \<open>Write\<close> under \<^verbatim>\<open>wmu\<close>: a call enters with an error already kept, by queuing
  for whoever flushes, or as the flusher (\<^verbatim>\<open>True\<close>); the flusher takes a chunk; it leaves when the buffer is
  empty, or with the error of a write, which every later call gets. The flush loop of a writer nobody
  else interrupts ends because every pass takes at least one byte off the buffer.
\<close>

definition write_enter :: "bytes \<Rightarrow> Conn \<Rightarrow> bool res \<times> Conn" where
  "write_enter b c =
     (case c_werr c of
        Some e \<Rightarrow> (Inl e, c)
      | None \<Rightarrow>
          let c = c\<lparr>c_wbuf := c_wbuf c @ b\<rparr>
          in if c_flushing c then (Inr False, c) else (Inr True, c\<lparr>c_flushing := True\<rparr>))"

definition flush_leave :: "Conn \<Rightarrow> Conn" where
  "flush_leave c = c\<lparr>c_flushing := False\<rparr>"

definition flush_fail :: "err \<Rightarrow> Conn \<Rightarrow> Conn" where
  "flush_fail e c = c\<lparr>c_flushing := False, c_werr := Some e\<rparr>"

definition take_chunk :: "Conn \<Rightarrow> bytes \<times> int \<times> Conn" where
  "take_chunk c =
     (let (tk, padTo) = c_shaper c (length (c_wbuf c));
          tk = (if tk \<le> 0 \<or> length (c_wbuf c) < tk then length (c_wbuf c) else tk)
      in (take tk (c_wbuf c), int padTo, c\<lparr>c_wbuf := drop tk (c_wbuf c)\<rparr>))"

lemma take_chunk_shorter:
  "c_wbuf c \<noteq> [] \<Longrightarrow> take_chunk c = (chunk, padTo, c') \<Longrightarrow> length (c_wbuf c') < length (c_wbuf c)"
  by (auto simp: take_chunk_def Let_def split: prod.splits if_splits)

lemma writeRecord_wbuf:
  "writeRecord typ payload padTo (c, w) = (r, (c', w')) \<Longrightarrow> c' = c\<lparr>c_sendSeq := c_sendSeq c + 1\<rparr>"
  by (auto simp: writeRecord_def Let_def on_world_eq)

function flush :: "nat \<Rightarrow> Conn \<times> world \<Rightarrow> nat res \<times> (Conn \<times> world)" where
  "flush n (c, w) =
     (if c_wbuf c = [] then (Inr n, (flush_leave c, w))
      else case take_chunk c of (chunk, padTo, c) \<Rightarrow>
             case writeRecord contentAppData chunk padTo (c, w) of
               (Inl e, (c, w)) \<Rightarrow> (Inl e, (flush_fail e c, w))
             | (Inr _, (c, w)) \<Rightarrow> flush n (c, w))"
  by pat_completeness auto
termination
proof (relation "measure (\<lambda>(n, c, w). length (c_wbuf c))", simp)
  fix n c w chunk padTo c1 r u c2 w2 x y z
  assume "c_wbuf c \<noteq> []" "(chunk, y) = take_chunk c" "(padTo, c1) = y"
    "(r, z) = writeRecord contentAppData chunk padTo (c1, w)" "(c2, w2) = z"
  then show "((n, c2, w2), (n, c, w)) \<in> measure (\<lambda>(n, c, w). length (c_wbuf c))"
    using take_chunk_shorter [of c chunk padTo c1] writeRecord_wbuf [of contentAppData chunk padTo c1 w r c2 w2] by auto
qed

declare flush.simps [simp del]

definition Write :: "bytes \<Rightarrow> nat cio" where
  "Write b = (\<lambda>(c, w).
     case write_enter b c of
       (Inl e, c) \<Rightarrow> (Inl e, (c, w))
     | (Inr flusher, c) \<Rightarrow> if flusher then flush (length b) (c, w) else (Inr (length b), (c, w)))"

text \<open>The scan for the content type, from the end over the zero padding.\<close>

definition content_type :: "bytes \<Rightarrow> (byte \<times> bytes) res" where
  "content_type inner =
     (case dropWhile (\<lambda>x. x = 0) (rev inner) of
        [] \<Rightarrow> Inl (Err ''twiddle: record has no content type'')
      | typ # before \<Rightarrow> Inr (typ, rev before))"

definition decryptRecord :: "(byte \<times> bytes) cio" where
  "decryptRecord =
     bindA (on_world (io_ReadFull recordHeaderLen)) (\<lambda>hdr.
     let n = unat (Uint16 (slice hdr 3 5))
     in if maxCiphertext < n \<or> n < recordOverhead then failA (Err ''twiddle: implausible record length'')
        else bindA (on_world (io_ReadFull n)) (\<lambda>buf.
             bindA getA (\<lambda>(c, w).
             case gcm_Open (c_recv c) (nonceFor (c_recvIV c) (c_recvSeq c)) buf hdr of
               None \<Rightarrow> failA (Err ''twiddle: record failed to decrypt'')
             | Some inner \<Rightarrow>
                 bindA (on_conn (\<lambda>c. c\<lparr>c_recvSeq := c_recvSeq c + 1\<rparr>)) (\<lambda>_.
                 liftA (content_type inner)))))"

definition consumeRecord :: "(byte \<times> bytes) cio" where
  "consumeRecord = decryptRecord"

definition conn_readRecord :: "unit cio" where
  "conn_readRecord =
     bindA decryptRecord (\<lambda>(typ, payload).
     if typ = contentAppData then on_conn (\<lambda>c. c\<lparr>c_pending := c_pending c @ payload\<rparr>)
     else if typ = contentAlert then failA ErrEOF
     else returnA ())"

text \<open>A record read takes its bytes off the stream, so the loop of \<open>Read\<close> ends with the stream.\<close>

lemma io_ReadFull_shorter: "io_ReadFull n w = (Inr b, w') \<Longrightarrow> length (w_in w') = length (w_in w) - n \<and> n \<le> length (w_in w)"
  by (auto simp: io_ReadFull_Inr)

lemma decryptRecord_shorter:
  assumes "decryptRecord (c, w) = (Inr x, (c', w'))"
  shows "length (w_in w') < length (w_in w)"
proof -
  obtain hdr w1 n buf w2 c2 where "io_ReadFull 5 w = (Inr hdr, w1)" "io_ReadFull n w1 = (Inr buf, w2)" "w_in w' = w_in w2"
    using assms unfolding decryptRecord_def Let_def
    by (auto simp: bindA_eq_Inr on_world_eq getA_def failA_def on_conn_def modA_def liftA_def split: if_splits option.splits)
  then show ?thesis by (auto dest!: io_ReadFull_shorter)
qed

lemma conn_readRecord_shorter: "conn_readRecord (c, w) = (Inr u, (c', w')) \<Longrightarrow> length (w_in w') < length (w_in w)"
  unfolding conn_readRecord_def
  by (auto simp: bindA_eq_Inr on_conn_def modA_def failA_def returnA_def split: if_splits dest!: decryptRecord_shorter)

function fill :: "Conn \<times> world \<Rightarrow> unit res \<times> (Conn \<times> world)" where
  "fill (c, w) =
     (if c_pending c \<noteq> [] then (Inr (), (c, w))
      else case c_rerr c of
             Some e \<Rightarrow> (Inl e, (c, w))
           | None \<Rightarrow>
               (case conn_readRecord (c, w) of
                  (Inl e, (c, w)) \<Rightarrow>
                    let c = c\<lparr>c_rerr := Some e\<rparr>
                    in if c_pending c = [] then (Inl e, (c, w)) else (Inr (), (c, w))
                | (Inr _, (c, w)) \<Rightarrow> fill (c, w)))"
  by pat_completeness auto
termination
proof (relation "measure (\<lambda>(c, w). length (w_in w))", simp)
  fix c w r y c2 w2 u
  assume "(r, y) = conn_readRecord (c, w)" "r = Inr u" "(c2, w2) = y"
  then show "((c2, w2), (c, w)) \<in> measure (\<lambda>(c, w). length (w_in w))"
    using conn_readRecord_shorter [of c w u c2 w2] by auto
qed

declare fill.simps [simp del]

definition Read :: "nat \<Rightarrow> bytes cio" where
  "Read m = bindA fill (\<lambda>_. bindA getA (\<lambda>(c, w).
     bindA (on_conn (\<lambda>c. c\<lparr>c_pending := drop (min m (length (c_pending c))) (c_pending c)\<rparr>)) (\<lambda>_.
     returnA (take (min m (length (c_pending c))) (c_pending c)))))"

text \<open>\<open>Close\<close>: the alert once, whatever becomes of it, then the socket.\<close>

definition send_alert :: "Conn \<times> world \<Rightarrow> Conn \<times> world" where
  "send_alert s = (if c_alerted (fst s) then s
     else snd (writeSized contentAlert [alertWarning, alertCloseNotify] closeNotifyWire
                 ((fst s)\<lparr>c_alerted := True\<rparr>, snd s)))"

definition Close :: "unit cio" where
  "Close s = on_world raw_Close (send_alert s)"

section \<open>One record\<close>

lemma inner_of_eq: "inner_of typ payload padTo = payload @ [typ]
     @ replicate (if int (length payload) + 1 < padTo \<and> padTo \<le> int maxInner then nat padTo - (length payload + 1) else 0) 0"
  by (simp add: inner_of_def Let_def)

lemma length_inner_of: "length payload \<le> maxPlaintext \<Longrightarrow> length (inner_of typ payload padTo) \<le> maxInner"
  by (auto simp: inner_of_eq)

lemma dropWhile_replicate: "dropWhile (\<lambda>x. x = a) (replicate n a @ xs) = dropWhile (\<lambda>x. x = a) xs"
  by (rule dropWhile_append2) simp

lemma content_type_padded:
  "typ \<noteq> 0 \<Longrightarrow> content_type (payload @ [typ] @ replicate n 0) = Inr (typ, payload)"
  by (simp add: content_type_def dropWhile_replicate)

lemma content_type_inner_of: "typ \<noteq> 0 \<Longrightarrow> content_type (inner_of typ payload padTo) = Inr (typ, payload)"
  unfolding inner_of_eq by (rule content_type_padded)

lemma content_type_Inr: "content_type inner = Inr (typ, payload) \<Longrightarrow>
    typ \<noteq> 0 \<and> (\<exists>n. inner = payload @ [typ] @ replicate n 0)"
proof -
  assume c: "content_type inner = Inr (typ, payload)"
  let ?z = "takeWhile (\<lambda>x. x = 0) (rev inner)"
  have d: "dropWhile (\<lambda>x. x = 0) (rev inner) = typ # rev payload"
    using c by (auto simp: content_type_def split: list.splits)
  have "\<forall>x\<in>set ?z. x = 0" by (auto dest: set_takeWhileD)
  then have z: "?z = replicate (length ?z) 0" by (simp add: replicate_length_same)
  have "rev inner = ?z @ typ # rev payload" using takeWhile_dropWhile_id [of "\<lambda>x. x = 0" "rev inner"] d by simp
  then have "inner = rev (?z @ typ # rev payload)" by (metis rev_rev_ident)
  also have "\<dots> = payload @ [typ] @ rev ?z" by simp
  also have "rev ?z = replicate (length ?z) 0" by (subst z) simp
  finally show ?thesis using hd_dropWhile [of "\<lambda>x. x = 0" "rev inner"] d by auto
qed

lemma length_record_hdr [simp]: "length (record_hdr n) = 5"
  by (simp add: record_hdr_def)

lemma record_hdr_length: "n + recordOverhead < 65536 \<Longrightarrow> unat (Uint16 (slice (record_hdr n) 3 5)) = n + recordOverhead"
proof -
  assume n: "n + recordOverhead < 65536"
  have "slice (record_hdr n) 3 5 = PutUint16 (of_nat (n + recordOverhead))"
    by (simp add: record_hdr_def slice_def)
  then show ?thesis using n by (simp add: Uint16_PutUint16 unat_of_nat del: of_nat_add)
qed

lemma length_seal_record:
  "aes_key_ok key \<Longrightarrow> length (seal_record key iv seq inner) = recordHeaderLen + length inner + recordOverhead"
  by (simp add: seal_record_def Let_def gcm.length_seal)

text \<open>What decrypting does to a record that was sealed with the reader's key, IV and number.\<close>

lemma decrypt_sealed:
  assumes "aes_key_ok (c_recv c)" and "length inner \<le> maxInner"
    and "w_in w = seal_record (c_recv c) (c_recvIV c) (c_recvSeq c) inner @ rest"
  shows "decryptRecord (c, w) = (content_type inner, (c\<lparr>c_recvSeq := c_recvSeq c + 1\<rparr>, w\<lparr>w_in := rest\<rparr>))"
proof -
  let ?hdr = "record_hdr (length inner)"
  let ?nonce = "nonceFor (c_recvIV c) (c_recvSeq c)"
  let ?box = "gcm_Seal (c_recv c) ?nonce inner ?hdr"
  have n: "unat (Uint16 (slice ?hdr 3 5)) = length inner + recordOverhead"
    using assms(2) by (intro record_hdr_length) simp
  have box: "length ?box = length inner + recordOverhead" using gcm.length_seal [OF assms(1)] by simp
  have w: "w_in w = ?hdr @ ?box @ rest" using assms(3) by (simp add: seal_record_def Let_def)
  have r1: "on_world (io_ReadFull recordHeaderLen) (c, w) = (Inr ?hdr, (c, w\<lparr>w_in := ?box @ rest\<rparr>))"
    by (rule on_world_run, rule io_ReadFull_ok [OF w]) simp
  have r2: "on_world (io_ReadFull (length inner + recordOverhead)) (c, w\<lparr>w_in := ?box @ rest\<rparr>)
      = (Inr ?box, (c, w\<lparr>w_in := rest\<rparr>))"
    by (rule on_world_run) (subst io_ReadFull_ok [of _ ?box rest], simp_all add: box)
  have ok: "\<not> (maxCiphertext < length inner + recordOverhead \<or> length inner + recordOverhead < recordOverhead)"
    using assms(2) by simp
  have op: "gcm_Open (c_recv c) ?nonce ?box ?hdr = Some inner" by (rule gcm.unseal_seal [OF assms(1)])
  show ?thesis
    unfolding decryptRecord_def Let_def
      bindA_Inr [where m = "on_world (io_ReadFull recordHeaderLen)" and s = "(c, w)", OF r1]
      n if_not_P [OF ok]
      bindA_Inr [where m = "on_world (io_ReadFull (length inner + recordOverhead))", OF r2]
    using op by (simp add: bindA_def getA_def on_conn_def modA_def liftA_def)
qed

text \<open>And the converse: what is accepted was sealed, so nobody without the key makes a record.\<close>

lemma decrypt_Inr:
  assumes "decryptRecord (c, w) = (Inr (typ, payload), (c', w'))" and "aes_key_ok (c_recv c)"
  shows "\<exists>hdr inner. length hdr = 5 \<and> w_in w = hdr @ gcm_Seal (c_recv c) (nonceFor (c_recvIV c) (c_recvSeq c)) inner hdr @ w_in w'
     \<and> content_type inner = Inr (typ, payload) \<and> c' = c\<lparr>c_recvSeq := c_recvSeq c + 1\<rparr> \<and> w' = w\<lparr>w_in := w_in w'\<rparr>"
proof -
  from assms(1) obtain hdr w1 buf w2 inner where h: "io_ReadFull 5 w = (Inr hdr, w1)"
    and b: "io_ReadFull (unat (Uint16 (slice hdr 3 5))) w1 = (Inr buf, w2)"
    and o: "gcm_Open (c_recv c) (nonceFor (c_recvIV c) (c_recvSeq c)) buf hdr = Some inner"
    and r: "content_type inner = Inr (typ, payload)" "c' = c\<lparr>c_recvSeq := c_recvSeq c + 1\<rparr>" "w' = w2"
    unfolding decryptRecord_def Let_def
    by (auto simp: bindA_eq_Inr on_world_eq getA_def failA_def on_conn_def modA_def liftA_def split: if_splits option.splits)
  have "buf = gcm_Seal (c_recv c) (nonceFor (c_recvIV c) (c_recvSeq c)) inner hdr"
    by (rule gcm.seal_unseal [OF assms(2) o])
  moreover have "w_in w = hdr @ w_in w1" "length hdr = 5" "w1 = w\<lparr>w_in := w_in w1\<rparr>"
    using h by (auto simp: io_ReadFull_Inr)
  moreover have "w_in w1 = buf @ w_in w'" "w' = w1\<lparr>w_in := w_in w'\<rparr>"
    using b r(3) unfolding io_ReadFull_Inr by auto
  ultimately have "w_in w = hdr @ gcm_Seal (c_recv c) (nonceFor (c_recvIV c) (c_recvSeq c)) inner hdr @ w_in w'"
    "length hdr = 5" "w' = w\<lparr>w_in := w_in w'\<rparr>"
    by (simp_all add: \<open>w_in w = _\<close>)
  then show ?thesis using r(1,2) by blast
qed

end
