(* ===== verification/Stream_Layer.thy ===== *)
theory Stream_Layer
  imports Conn
begin

text \<open>
  The connection as a byte stream. \<open>unread\<close> abstracts a reader to the bytes it has yet to deliver
  and the error after them; \<open>Read\<close> is shown to refine taking a prefix of that list, and what one
  end writes and closes is, to the other end of the same session, exactly that list. The records an
  observer sees of a write have the lengths the shaper promises.
\<close>

section \<open>What a flush puts on the wire\<close>

primrec seal_all :: "bytes \<Rightarrow> bytes \<Rightarrow> u64 \<Rightarrow> bytes list \<Rightarrow> bytes" where
  "seal_all key iv seq [] = []"
| "seal_all key iv seq (i # is) = seal_record key iv seq i @ seal_all key iv (seq + 1) is"

lemma seal_all_append:
  "seal_all key iv seq (xs @ ys) = seal_all key iv seq xs @ seal_all key iv (seq + of_nat (length xs)) ys"
  by (induction xs arbitrary: seq) (auto simp: algebra_simps)

definition quiet :: "world \<Rightarrow> bool" where
  "quiet w \<longleftrightarrow> \<not> w_closed w \<and> w_fail w = []"

lemma quiet_out [simp]: "quiet (w\<lparr>w_out := b\<rparr>) = quiet w"
  by (simp add: quiet_def)

lemma writeRecord_quiet:
  "quiet w \<Longrightarrow> writeRecord typ payload padTo (c, w) =
     (Inr (), (c\<lparr>c_sendSeq := c_sendSeq c + 1\<rparr>,
        w\<lparr>w_out := w_out w @ seal_record (c_send c) (c_sendIV c) (c_sendSeq c) (inner_of typ payload padTo)\<rparr>))"
  by (simp add: writeRecord_def Let_def on_world_def raw_Write_ok quiet_def)

definition chunk_inners :: "Shaper \<Rightarrow> bytes \<Rightarrow> bytes list" where
  "chunk_inners sh b = map (\<lambda>(chunk, p). inner_of contentAppData chunk (int p)) (flush_chunks sh b)"

lemma chunk_inners_Nil [simp]: "chunk_inners sh [] = []"
  by (simp add: chunk_inners_def flush_chunks.simps)

lemma chunk_inners_take:
  assumes "c_wbuf c \<noteq> []" and "take_chunk c = (chunk, padTo, c')"
  shows "chunk_inners (c_shaper c) (c_wbuf c) = inner_of contentAppData chunk padTo # chunk_inners (c_shaper c) (c_wbuf c')
     \<and> c' = c\<lparr>c_wbuf := c_wbuf c'\<rparr>"
  using assms unfolding chunk_inners_def
  by (subst flush_chunks.simps) (auto simp: take_chunk_def Let_def split: prod.splits)

lemma flush_quiet:
  assumes "quiet w"
  shows "flush n (c, w) = (Inr n,
     (c\<lparr>c_wbuf := [], c_flushing := False, c_sendSeq := c_sendSeq c + of_nat (length (chunk_inners (c_shaper c) (c_wbuf c)))\<rparr>,
      w\<lparr>w_out := w_out w @ seal_all (c_send c) (c_sendIV c) (c_sendSeq c) (chunk_inners (c_shaper c) (c_wbuf c))\<rparr>))"
  using assms
proof (induction "length (c_wbuf c)" arbitrary: c w rule: less_induct)
  case less
  show ?case
  proof (cases "c_wbuf c = []")
    case True
    then show ?thesis by (subst flush.simps) (simp add: flush_leave_def)
  next
    case False
    obtain chunk padTo c' where t: "take_chunk c = (chunk, padTo, c')" by (cases "take_chunk c") auto
    have c': "c' = c\<lparr>c_wbuf := c_wbuf c'\<rparr>"
      and i: "chunk_inners (c_shaper c) (c_wbuf c) = inner_of contentAppData chunk padTo # chunk_inners (c_shaper c) (c_wbuf c')"
      using chunk_inners_take [OF False t] by auto
    have sel: "c_send c' = c_send c" "c_sendIV c' = c_sendIV c" "c_sendSeq c' = c_sendSeq c" "c_shaper c' = c_shaper c"
      by (subst c', simp)+
    let ?w = "w\<lparr>w_out := w_out w @ seal_record (c_send c) (c_sendIV c) (c_sendSeq c) (inner_of contentAppData chunk padTo)\<rparr>"
    have e: "flush n (c, w) = flush n (c'\<lparr>c_sendSeq := c_sendSeq c' + 1\<rparr>, ?w)"
      using False t by (subst flush.simps) (simp add: writeRecord_quiet [OF less.prems] sel)
    have "length (c_wbuf (c'\<lparr>c_sendSeq := c_sendSeq c' + 1\<rparr>)) < length (c_wbuf c)"
      using take_chunk_shorter [OF False t] by simp
    moreover have "c'\<lparr>c_wbuf := [], c_flushing := False, c_sendSeq := k\<rparr> = c\<lparr>c_wbuf := [], c_flushing := False, c_sendSeq := k\<rparr>" for k
      by (subst c') simp
    ultimately show ?thesis
      using less.hyps [of "c'\<lparr>c_sendSeq := c_sendSeq c' + 1\<rparr>" ?w] less.prems unfolding e i
      by (simp add: sel algebra_simps)
  qed
qed

text \<open>A writer nobody interrupts: the buffer's chunks, each sealed with the next number.\<close>

definition idle :: "Conn \<Rightarrow> bool" where
  "idle c \<longleftrightarrow> c_wbuf c = [] \<and> \<not> c_flushing c \<and> c_werr c = None"

lemma Write_quiet:
  assumes "quiet w" and "idle c"
  shows "Write b (c, w) = (Inr (length b),
     (c\<lparr>c_sendSeq := c_sendSeq c + of_nat (length (chunk_inners (c_shaper c) b))\<rparr>,
      w\<lparr>w_out := w_out w @ seal_all (c_send c) (c_sendIV c) (c_sendSeq c) (chunk_inners (c_shaper c) b)\<rparr>))"
  using assms by (simp add: Write_def write_enter_def idle_def flush_quiet)

definition write_all :: "bytes list \<Rightarrow> unit cio" where
  "write_all = forA (\<lambda>b. bindA (Write b) (\<lambda>_. returnA ()))"

lemma write_all_quiet:
  assumes "quiet w" and "idle c"
  shows "write_all bs (c, w) = (Inr (),
     (c\<lparr>c_sendSeq := c_sendSeq c + of_nat (length (concat (map (chunk_inners (c_shaper c)) bs)))\<rparr>,
      w\<lparr>w_out := w_out w @ seal_all (c_send c) (c_sendIV c) (c_sendSeq c) (concat (map (chunk_inners (c_shaper c)) bs))\<rparr>))"
  using assms
proof (induction bs arbitrary: c w)
  case Nil
  then show ?case by (simp add: write_all_def returnA_def)
next
  case (Cons b bs)
  let ?c = "c\<lparr>c_sendSeq := c_sendSeq c + of_nat (length (chunk_inners (c_shaper c) b))\<rparr>"
  let ?w = "w\<lparr>w_out := w_out w @ seal_all (c_send c) (c_sendIV c) (c_sendSeq c) (chunk_inners (c_shaper c) b)\<rparr>"
  have "write_all (b # bs) (c, w) = write_all bs (?c, ?w)"
    by (simp add: write_all_def bindA_def returnA_def Write_quiet [OF Cons.prems])
  moreover have "idle ?c" "quiet ?w" using Cons.prems by (simp_all add: idle_def)
  ultimately show ?case using Cons.IH [of ?w ?c] by (simp add: seal_all_append algebra_simps)
qed

text \<open>\<open>writeSized\<close> writes exactly the bytes asked for, or refuses.\<close>

lemma writeSized_quiet:
  assumes "quiet w" and "int (length payload) + 1 \<le> wireLen - 21" and "wireLen - 21 \<le> int maxInner"
  shows "writeSized typ payload wireLen (c, w) = (Inr (), (c\<lparr>c_sendSeq := c_sendSeq c + 1\<rparr>,
     w\<lparr>w_out := w_out w @ seal_record (c_send c) (c_sendIV c) (c_sendSeq c) (inner_of typ payload (wireLen - 21))\<rparr>))"
proof -
  have e: "wireLen - int recordHeaderLen - int recordOverhead = wireLen - 21" by simp
  show ?thesis
    unfolding writeSized_def Let_def e using assms by (simp add: writeRecord_quiet)
qed

lemma length_inner_of_sized:
  "int (length payload) + 1 \<le> p \<Longrightarrow> p \<le> int maxInner \<Longrightarrow> length (inner_of typ payload p) = nat p"
  by (auto simp: inner_of_eq)

section \<open>What is left to read\<close>

function unread :: "Conn \<times> world \<Rightarrow> bytes \<times> err" where
  "unread (c, w) =
     (case c_rerr c of
        Some e \<Rightarrow> (c_pending c, e)
      | None \<Rightarrow> (case conn_readRecord (c, w) of
                   (Inl e, _) \<Rightarrow> (c_pending c, e)
                 | (Inr _, (c', w')) \<Rightarrow> unread (c', w')))"
  by pat_completeness auto
termination
proof (relation "measure (\<lambda>(c, w). length (w_in w))", simp)
  fix c w r y u c2 w2
  assume "(r, y) = conn_readRecord (c, w)" "r = Inr u" "(c2, w2) = y"
  then show "((c2, w2), (c, w)) \<in> measure (\<lambda>(c, w). length (w_in w))"
    using conn_readRecord_shorter [of c w u c2 w2] by auto
qed

declare unread.simps [simp del]

text \<open>Decrypting neither looks at nor touches what is pending.\<close>

lemma decryptRecord_frame:
  "decryptRecord (c\<lparr>c_pending := p\<rparr>, w) =
     (case decryptRecord (c, w) of (r, (c', w')) \<Rightarrow> (r, (c'\<lparr>c_pending := p\<rparr>, w')))"
  by (cases "io_ReadFull recordHeaderLen w"; cases "fst (io_ReadFull recordHeaderLen w)")
     (auto simp: decryptRecord_def bindA_def on_world_def Let_def getA_def failA_def on_conn_def modA_def liftA_def
        split: prod.splits sum.splits option.splits)

lemma decryptRecord_pending:
  "decryptRecord (c, w) = (r, (c', w')) \<Longrightarrow> c_pending c' = c_pending c \<and> c_rerr c' = c_rerr c"
  by (cases "io_ReadFull recordHeaderLen w"; cases "fst (io_ReadFull recordHeaderLen w)")
     (auto simp: decryptRecord_def bindA_def on_world_def Let_def getA_def failA_def on_conn_def modA_def liftA_def
        split: prod.splits sum.splits option.splits if_splits)

lemma conn_readRecord_run:
  "conn_readRecord (c, w) =
     (case decryptRecord (c, w) of
        (Inl e, s) \<Rightarrow> (Inl e, s)
      | (Inr (typ, payload), (c', w')) \<Rightarrow>
          if typ = contentAppData then (Inr (), (c'\<lparr>c_pending := c_pending c' @ payload\<rparr>, w'))
          else if typ = contentAlert then (Inl ErrEOF, (c', w'))
          else (Inr (), (c', w')))"
  by (auto simp: conn_readRecord_def bindA_def on_conn_def modA_def failA_def returnA_def split: prod.splits sum.splits)

lemma conn_readRecord_prefix:
  "conn_readRecord (c\<lparr>c_pending := p @ c_pending c\<rparr>, w) =
     (case conn_readRecord (c, w) of (r, (c', w')) \<Rightarrow> (r, (c'\<lparr>c_pending := p @ c_pending c'\<rparr>, w')))"
proof -
  obtain r c' w' where d: "decryptRecord (c, w) = (r, (c', w'))" by (cases "decryptRecord (c, w)") auto
  show ?thesis
    unfolding conn_readRecord_run decryptRecord_frame d
    using decryptRecord_pending [OF d] by (auto split: sum.splits prod.splits)
qed

lemma conn_readRecord_rerr: "conn_readRecord (c, w) = (r, (c', w')) \<Longrightarrow> c_rerr c' = c_rerr c"
proof -
  assume a: "conn_readRecord (c, w) = (r, (c', w'))"
  obtain q c1 w1 where d: "decryptRecord (c, w) = (q, (c1, w1))" by (cases "decryptRecord (c, w)") auto
  show ?thesis
    using a unfolding conn_readRecord_run d
    using decryptRecord_pending [OF d] by (auto split: sum.splits prod.splits if_splits)
qed

lemma conn_readRecord_error_pending: "conn_readRecord (c, w) = (Inl e, (c', w')) \<Longrightarrow> c_pending c' = c_pending c"
proof -
  assume a: "conn_readRecord (c, w) = (Inl e, (c', w'))"
  obtain q c1 w1 where d: "decryptRecord (c, w) = (q, (c1, w1))" by (cases "decryptRecord (c, w)") auto
  show ?thesis
    using a unfolding conn_readRecord_run d
    using decryptRecord_pending [OF d] by (auto split: sum.splits prod.splits if_splits)
qed

lemma unread_prefix: "unread (c\<lparr>c_pending := p @ c_pending c\<rparr>, w) = apfst (append p) (unread (c, w))"
proof (induction "(c, w)" arbitrary: c w rule: unread.induct)
  case (1 c w)
  obtain r c' w' where d: "conn_readRecord (c, w) = (r, (c', w'))" by (cases "conn_readRecord (c, w)") auto
  show ?case
  proof (cases "c_rerr c")
    case (Some e)
    then show ?thesis by (subst (1 2) unread.simps) simp
  next
    case None
    show ?thesis
    proof (cases r)
      case (Inl e)
      then show ?thesis using None d by (subst (1 2) unread.simps) (simp add: conn_readRecord_prefix)
    next
      case (Inr u)
      have "unread (c'\<lparr>c_pending := p @ c_pending c'\<rparr>, w') = apfst (append p) (unread (c', w'))"
        using "1" [OF None] d Inr by simp
      then show ?thesis using None d Inr by (subst (1 2) unread.simps) (simp add: conn_readRecord_prefix)
    qed
  qed
qed

lemma unread_take:
  "unread (c, w) = apfst (append (take k (c_pending c))) (unread (c\<lparr>c_pending := drop k (c_pending c)\<rparr>, w))"
  using unread_prefix [where c = "c\<lparr>c_pending := drop k (c_pending c)\<rparr>" and p = "take k (c_pending c)"] by simp

lemma fill_refines:
  "fill (c, w) = (r, s') \<Longrightarrow>
     (case r of Inl e \<Rightarrow> unread (c, w) = ([], e) \<and> unread s' = ([], e)
      | Inr _ \<Rightarrow> unread s' = unread (c, w) \<and> c_pending (fst s') \<noteq> [])"
proof (induction "(c, w)" arbitrary: c w rule: fill.induct)
  case (1 c w)
  show ?case
  proof (cases "c_pending c = []")
    case False
    then show ?thesis using "1.prems" by (subst (asm) fill.simps) auto
  next
    case p: True
    show ?thesis
    proof (cases "c_rerr c")
      case (Some e)
      then show ?thesis using "1.prems" p by (subst (asm) fill.simps) (auto simp: unread.simps)
    next
      case None
      obtain q c' w' where d: "conn_readRecord (c, w) = (q, (c', w'))" by (cases "conn_readRecord (c, w)") auto
      show ?thesis
      proof (cases q)
        case (Inl e)
        then have "c_pending c' = []" using conn_readRecord_error_pending d p by simp
        then have "r = Inl e \<and> s' = (c'\<lparr>c_rerr := Some e\<rparr>, w')"
          using "1.prems" p None d Inl by (subst (asm) fill.simps) (auto simp: Let_def)
        then show ?thesis using None d Inl p \<open>c_pending c' = []\<close> by (simp add: unread.simps)
      next
        case (Inr u)
        then have "fill (c', w') = (r, s')" using "1.prems" p None d by (subst (asm) fill.simps) simp
        moreover have "unread (c, w) = unread (c', w')" using None d Inr by (subst unread.simps) simp
        moreover have "\<not> c_pending c \<noteq> []" using p by simp
        ultimately show ?thesis using "1.hyps" [OF _ None d [symmetric] _ refl] Inr by (cases r) auto
      qed
    qed
  qed
qed

text \<open>
  C9. Reading refines taking bytes off a list: \<open>Read\<close> into a buffer returns a prefix of what is
  left, no longer than the buffer and, when the buffer is not empty, not empty, and leaves the rest;
  it fails exactly when nothing is left, with the error that ended the stream, and then keeps
  failing with it.
\<close>

theorem Read_refines:
  "case Read m (c, w) of
     (Inr b, s') \<Rightarrow> unread (c, w) = apfst (append b) (unread s') \<and> length b \<le> m \<and> (b = [] \<longleftrightarrow> m = 0)
   | (Inl e, s') \<Rightarrow> unread (c, w) = ([], e) \<and> unread s' = ([], e)"
proof -
  obtain r c' w' where f: "fill (c, w) = (r, (c', w'))" by (cases "fill (c, w)") auto
  note ref = fill_refines [OF f]
  show ?thesis
  proof (cases r)
    case (Inl e)
    then show ?thesis using f ref by (simp add: Read_def bindA_def)
  next
    case (Inr u)
    let ?k = "min m (length (c_pending c'))"
    have run: "Read m (c, w) = (Inr (take ?k (c_pending c')), (c'\<lparr>c_pending := drop ?k (c_pending c')\<rparr>, w'))"
      using f Inr by (simp add: Read_def bindA_def getA_def on_conn_def modA_def returnA_def)
    have "unread (c, w) = unread (c', w')" "c_pending c' \<noteq> []" using ref Inr by simp_all
    then show ?thesis unfolding run using unread_take [of c' w' ?k] by (auto simp: min_def)
  qed
qed

section \<open>From one end to the other\<close>

lemma length_PutUint_close: "length (inner_of contentAlert [alertWarning, alertCloseNotify] 3) \<le> maxInner"
  by (rule length_inner_of) simp

lemma decrypt_sealed_inner:
  assumes "aes_key_ok (c_recv c)" and "typ \<noteq> 0" and "length payload \<le> maxPlaintext"
    and "w_in w = seal_record (c_recv c) (c_recvIV c) (c_recvSeq c) (inner_of typ payload padTo) @ rest"
  shows "decryptRecord (c, w) = (Inr (typ, payload), (c\<lparr>c_recvSeq := c_recvSeq c + 1\<rparr>, w\<lparr>w_in := rest\<rparr>))"
  using decrypt_sealed [OF assms(1) length_inner_of [OF assms(3)] assms(4)] content_type_inner_of [OF assms(2)] by simp

definition data_inners :: "(bytes \<times> int) list \<Rightarrow> bytes list" where
  "data_inners recs = map (\<lambda>(p, n). inner_of contentAppData p n) recs"

lemma unread_data:
  assumes "aes_key_ok (c_recv c)" and "\<forall>(p, n)\<in>set recs. length p \<le> maxPlaintext" and "c_rerr c = None"
    and "w_in w = seal_all (c_recv c) (c_recvIV c) (c_recvSeq c) (data_inners recs) @ rest"
  shows "unread (c, w) = unread (c\<lparr>c_pending := c_pending c @ concat (map fst recs),
     c_recvSeq := c_recvSeq c + of_nat (length recs)\<rparr>, w\<lparr>w_in := rest\<rparr>)"
  using assms
proof (induction recs arbitrary: c w)
  case Nil
  then have "w\<lparr>w_in := rest\<rparr> = w" by (auto simp: data_inners_def)
  then show ?case by simp
next
  case (Cons x recs)
  obtain p n where x: "x = (p, n)" by (cases x)
  have "w_in w = seal_record (c_recv c) (c_recvIV c) (c_recvSeq c) (inner_of contentAppData p n)
      @ seal_all (c_recv c) (c_recvIV c) (c_recvSeq c + 1) (data_inners recs) @ rest"
    using Cons.prems(4) x by (simp add: data_inners_def)
  note d = decrypt_sealed_inner [OF Cons.prems(1) _ _ this]
  let ?c = "c\<lparr>c_recvSeq := c_recvSeq c + 1, c_pending := c_pending c @ p\<rparr>"
  let ?w = "w\<lparr>w_in := seal_all (c_recv c) (c_recvIV c) (c_recvSeq c + 1) (data_inners recs) @ rest\<rparr>"
  have "conn_readRecord (c, w) = (Inr (), (?c, ?w))"
    unfolding conn_readRecord_run using d Cons.prems(2) x by simp
  then have "unread (c, w) = unread (?c, ?w)" using Cons.prems(3) by (subst unread.simps) simp
  also have "\<dots> = unread (?c\<lparr>c_pending := c_pending ?c @ concat (map fst recs),
     c_recvSeq := c_recvSeq ?c + of_nat (length recs)\<rparr>, ?w\<lparr>w_in := rest\<rparr>)"
    using Cons.prems by (intro Cons.IH) auto
  finally show ?case using x by (simp add: algebra_simps)
qed

lemma unread_alert:
  assumes "aes_key_ok (c_recv c)" and "c_rerr c = None" and "length payload \<le> maxPlaintext"
    and "w_in w = seal_record (c_recv c) (c_recvIV c) (c_recvSeq c) (inner_of contentAlert payload n) @ rest"
  shows "unread (c, w) = (c_pending c, ErrEOF)"
  using decrypt_sealed_inner [OF assms(1) _ assms(3,4)] assms(2)
  by (subst unread.simps) (simp add: conn_readRecord_run)

lemma chunk_inners_data:
  "chunk_inners sh b = data_inners (map (\<lambda>(c, p). (c, int p)) (flush_chunks sh b))"
  by (simp add: chunk_inners_def data_inners_def comp_def case_prod_beta)

lemma concat_chunks: "concat (map (chunk_inners sh) bs)
   = data_inners (concat (map (\<lambda>b. map (\<lambda>(c, p). (c, int p)) (flush_chunks sh b)) bs))"
  by (induction bs) (auto simp: chunk_inners_data data_inners_def)

lemma source_shapers_fit:
  assumes "sh = PlainShaper \<or> sh = BrowsingShaper b" and "(c, p) \<in> set (flush_chunks sh wbuf)"
  shows "length c \<le> maxPlaintext"
  using assms plain.flush_fits [of c p wbuf] browsing.flush_fits [of c p b wbuf] by auto

lemma send_alert_quiet:
  assumes "quiet w" and "\<not> c_alerted c"
  shows "send_alert (c, w) = (c\<lparr>c_alerted := True, c_sendSeq := c_sendSeq c + 1\<rparr>,
     w\<lparr>w_out := w_out w @ seal_record (c_send c) (c_sendIV c) (c_sendSeq c)
                             (inner_of contentAlert [alertWarning, alertCloseNotify] 3)\<rparr>)"
  using assms by (simp add: send_alert_def writeSized_quiet)

lemma NewConn_ends:
  assumes "NewConn s p sh = Inr c" and "NewConn s (\<not> p) sh' = Inr d"
  shows "c_send c = c_recv d \<and> c_sendIV c = c_recvIV d \<and> c_recv c = c_send d \<and> c_recvIV c = c_sendIV d
     \<and> c_sendSeq c = 0 \<and> c_recvSeq d = 0 \<and> aes_key_ok (c_send c) \<and> aes_key_ok (c_recv d)
     \<and> idle c \<and> \<not> c_alerted c \<and> c_rerr d = None \<and> c_pending d = []"
  using assms by (cases p) (auto simp: NewConn_def keys_aead_def Let_def idle_def split: if_splits)

lemma NewConn_shaper: "NewConn s p sh = Inr c \<Longrightarrow> c_shaper c = (case sh of None \<Rightarrow> PlainShaper | Some sh \<Rightarrow> sh)"
  by (cases p) (auto simp: NewConn_def keys_aead_def Let_def split: if_splits)

text \<open>
  C5. What one end writes, in any number of writes cut by either shaper of the source, and then
  closes, the other end of the session reads back whole and in order, followed by an end of file.
\<close>

theorem stream_transfer:
  assumes "NewConn s p sh = Inr c" and "NewConn s (\<not> p) sh' = Inr d"
    and "sh = None \<or> sh = Some (BrowsingShaper b)" and "quiet w" and "w_out w = []"
    and "w_in v = w_out (snd (snd (bindA (write_all bs) (\<lambda>_. Close) (c, w))))"
  shows "unread (d, v) = (concat bs, ErrEOF)"
proof -
  note e = NewConn_ends [OF assms(1,2)]
  have sh: "c_shaper c = PlainShaper \<or> c_shaper c = BrowsingShaper b" using NewConn_shaper [OF assms(1)] assms(3) by auto
  define recs where "recs = concat (map (\<lambda>x. map (\<lambda>(c, p). (c, int p)) (flush_chunks (c_shaper c) x)) bs)"
  have payload: "concat (map fst recs) = concat bs"
  proof -
    have "concat (map fst (map (\<lambda>(c, p). (c, int p)) (flush_chunks (c_shaper c) x))) = x" for x
      using flush_chunks_payload [of "c_shaper c" x] by (simp add: comp_def case_prod_beta)
    then show ?thesis unfolding recs_def by (induction bs) auto
  qed
  have small: "\<forall>(q, n)\<in>set recs. length q \<le> maxPlaintext"
    using source_shapers_fit [OF sh] by (fastforce simp: recs_def)
  let ?all = "concat (map (chunk_inners (c_shaper c)) bs)"
  have all: "?all = data_inners recs" by (simp add: concat_chunks recs_def)
  let ?c = "c\<lparr>c_sendSeq := c_sendSeq c + of_nat (length ?all)\<rparr>"
  let ?w = "w\<lparr>w_out := w_out w @ seal_all (c_send c) (c_sendIV c) (c_sendSeq c) ?all\<rparr>"
  have wr: "write_all bs (c, w) = (Inr (), (?c, ?w))" by (rule write_all_quiet) (use assms(4) e in simp_all)
  have "w_in v = seal_all (c_recv d) (c_recvIV d) (c_recvSeq d) (data_inners recs)
     @ seal_record (c_recv d) (c_recvIV d) (c_recvSeq d + of_nat (length recs))
         (inner_of contentAlert [alertWarning, alertCloseNotify] 3) @ []"
    unfolding assms(6) using e assms(4,5) wr
    by (simp add: bindA_def Close_def send_alert_quiet on_world_def raw_Close_def modA_def all)
       (simp add: data_inners_def)?
  then have "unread (d, v) = unread (d\<lparr>c_pending := c_pending d @ concat (map fst recs),
      c_recvSeq := c_recvSeq d + of_nat (length recs)\<rparr>,
      v\<lparr>w_in := seal_record (c_recv d) (c_recvIV d) (c_recvSeq d + of_nat (length recs))
         (inner_of contentAlert [alertWarning, alertCloseNotify] 3) @ []\<rparr>)"
    using e small by (intro unread_data) simp_all
  also have "\<dots> = (concat bs, ErrEOF)" using e payload
    by (subst unread_alert [where payload = "[alertWarning, alertCloseNotify]" and n = 3 and rest = "[]"]) simp_all
  finally show ?thesis .
qed

text \<open>A session and two quiet worlds, for the witnesses.\<close>

definition demo_session :: Session where
  "demo_session = \<lparr>s_Client = \<lparr>k_Key = replicate 16 1, k_IV = replicate 12 2\<rparr>,
     s_Server = \<lparr>k_Key = replicate 16 3, k_IV = replicate 12 4\<rparr>, s_Suite = TLS_AES_128_GCM_SHA256\<rparr>"

definition demo_conn :: "bool \<Rightarrow> Conn" where
  "demo_conn p = \<lparr>c_send = replicate 16 (if p then 1 else 3), c_sendIV = replicate 12 (if p then 2 else 4), c_sendSeq = 0,
     c_shaper = BrowsingShaper (\<not> p), c_wbuf = [], c_flushing = False, c_werr = None, c_alerted = False,
     c_recv = replicate 16 (if p then 3 else 1), c_recvIV = replicate 12 (if p then 4 else 2), c_recvSeq = 0,
     c_pending = [], c_rerr = None, c_full = False\<rparr>"

definition demo_world :: world where
  "demo_world = \<lparr>w_in = [], w_out = [], w_fail = [], w_closed = False, w_rand = [], w_clock = (\<lambda>_. 0), w_ticks = 0\<rparr>"

lemma demo_NewConn: "NewConn demo_session p (Some (BrowsingShaper (\<not> p))) = Inr (demo_conn p)"
  by (cases p) (simp_all add: NewConn_def keys_aead_def aes_key_ok_def demo_session_def demo_conn_def)

lemma demo_world_quiet: "quiet demo_world" "w_out demo_world = []"
  by (simp_all add: quiet_def demo_world_def)

theorem stream_transfer_witness:
  "unread (demo_conn False, demo_world\<lparr>w_in := w_out (snd (snd
     (bindA (write_all [[1, 2, 3], [], [4]]) (\<lambda>_. Close) (demo_conn True, demo_world))))\<rparr>) = ([1, 2, 3, 4], ErrEOF)"
proof -
  have ends: "NewConn demo_session True (Some (BrowsingShaper False)) = Inr (demo_conn True)"
    "NewConn demo_session (\<not> True) (Some (BrowsingShaper True)) = Inr (demo_conn False)"
    using demo_NewConn [of True] demo_NewConn [of False] by simp_all
  from stream_transfer [OF ends _ demo_world_quiet, of False
      "demo_world\<lparr>w_in := w_out (snd (snd (bindA (write_all [[1, 2, 3], [], [4]]) (\<lambda>_. Close) (demo_conn True, demo_world))))\<rparr>"
      "[[1, 2, 3], [], [4]]"]
  show ?thesis by simp
qed

text \<open>
  C8. Only the holder of the key makes records: whatever bytes arrive, a record accepted is a header
  followed by what sealing its inner plaintext under the connection's key, the next number and that
  very header gives, and the number advances by one.
\<close>

theorem accepted_was_sealed:
  assumes "decryptRecord (c, w) = (Inr (typ, payload), (c', w'))" and "aes_key_ok (c_recv c)"
  shows "\<exists>hdr inner. length hdr = recordHeaderLen
     \<and> w_in w = hdr @ gcm_Seal (c_recv c) (nonceFor (c_recvIV c) (c_recvSeq c)) inner hdr @ w_in w'
     \<and> content_type inner = Inr (typ, payload) \<and> c_recvSeq c' = c_recvSeq c + 1"
proof -
  obtain hdr inner where "length hdr = 5"
    "w_in w = hdr @ gcm_Seal (c_recv c) (nonceFor (c_recvIV c) (c_recvSeq c)) inner hdr @ w_in w'"
    "content_type inner = Inr (typ, payload)" "c' = c\<lparr>c_recvSeq := c_recvSeq c + 1\<rparr>"
    using decrypt_Inr [OF assms] by blast
  then show ?thesis by (intro exI [of _ hdr] exI [of _ inner]) simp
qed

theorem accepted_was_sealed_witness:
  "\<exists>hdr inner. length hdr = recordHeaderLen
     \<and> seal_record (replicate 16 1) (replicate 12 2) 0 (inner_of contentAppData [5] 0)
       = hdr @ gcm_Seal (replicate 16 1) (nonceFor (replicate 12 2) 0) inner hdr @ []
     \<and> content_type inner = Inr (contentAppData, [5])"
proof -
  let ?w = "demo_world\<lparr>w_in := seal_record (replicate 16 1) (replicate 12 2) 0 (inner_of contentAppData [5] 0)\<rparr>"
  have k: "aes_key_ok (c_recv (demo_conn False))" by (simp add: demo_conn_def aes_key_ok_def)
  have d: "decryptRecord (demo_conn False, ?w) = (Inr (contentAppData, [5]),
      (demo_conn False\<lparr>c_recvSeq := c_recvSeq (demo_conn False) + 1\<rparr>, ?w\<lparr>w_in := []\<rparr>))"
    by (rule decrypt_sealed_inner [OF k]) (simp_all add: demo_conn_def)
  from accepted_was_sealed [OF d k] show ?thesis by (simp add: demo_conn_def)
qed

text \<open>
  A record of a fixed size has that size: \<open>writeSized\<close> puts exactly the bytes asked for on the
  wire, with nothing written when it refuses, and \<open>Close\<close> one alert of 24 bytes, the first time only.
\<close>

theorem writeSized_exact:
  assumes "quiet w" and "aes_key_ok (c_send c)" and "0 \<le> wireLen"
  shows "length (w_out (snd (snd (writeSized typ payload wireLen (c, w))))) =
     length (w_out w) + (if length payload + 22 \<le> nat wireLen \<and> wireLen \<le> 16406 then nat wireLen else 0)"
proof (cases "int (length payload) + 1 \<le> wireLen - 21 \<and> wireLen - 21 \<le> int maxInner")
  case True
  then have "length (inner_of typ payload (wireLen - 21)) = nat (wireLen - 21)" by (intro length_inner_of_sized) auto
  moreover have "length payload + 22 \<le> nat wireLen \<and> wireLen \<le> 16406 \<and> 21 + nat (wireLen - 21) = nat wireLen"
    using True assms(3) by linarith
  ultimately show ?thesis
    using True writeSized_quiet [OF assms(1)] length_seal_record [OF assms(2)] by simp
next
  case False
  have e: "wireLen - int recordHeaderLen - int recordOverhead = wireLen - 21" by simp
  show ?thesis unfolding writeSized_def Let_def e using False by (auto simp: failA_def)
qed

theorem writeSized_exact_witness:
  "length (w_out (snd (snd (writeSized contentAlert [alertWarning, alertCloseNotify] closeNotifyWire
     (demo_conn True, demo_world))))) = 24"
  using writeSized_exact [of demo_world "demo_conn True" 24 contentAlert "[alertWarning, alertCloseNotify]"]
  by (simp add: demo_world_quiet demo_conn_def aes_key_ok_def)

section \<open>The lengths on the wire\<close>

text \<open>Each record of a flush with the chunk it carries.\<close>

lemma seal_all_records:
  "\<exists>rs. seal_all key iv seq (map (\<lambda>(chunk, p). inner_of contentAppData chunk (int p)) cs) = concat (map snd rs)
     \<and> map fst rs = map fst cs
     \<and> list_all (\<lambda>(chunk, out). \<exists>p n. (chunk, p) \<in> set cs \<and> out = seal_record key iv n (inner_of contentAppData chunk (int p))) rs"
proof (induction cs arbitrary: seq)
  case Nil
  then show ?case by (intro exI [of _ "[]"]) simp
next
  case (Cons x cs)
  obtain chunk p where x: "x = (chunk, p)" by (cases x)
  obtain rs where rs: "seal_all key iv (seq + 1) (map (\<lambda>(chunk, p). inner_of contentAppData chunk (int p)) cs) = concat (map snd rs)"
    "map fst rs = map fst cs"
    "list_all (\<lambda>(chunk, out). \<exists>p n. (chunk, p) \<in> set cs \<and> out = seal_record key iv n (inner_of contentAppData chunk (int p))) rs"
    using Cons.IH [of "seq + 1"] by blast
  have "list_all (\<lambda>(chunk, out). \<exists>p n. (chunk, p) \<in> set (x # cs) \<and> out = seal_record key iv n (inner_of contentAppData chunk (int p))) rs"
    by (rule list.pred_mono_strong [OF rs(3)]) auto
  then show ?case using rs(1,2)
    by (intro exI [of _ "(chunk, seal_record key iv seq (inner_of contentAppData chunk (int p))) # rs"]) (auto simp: x)
qed

lemma sealed_lengths:
  assumes "aes_key_ok key" and "length payload < p" and "p \<le> maxInner"
    and "out = seal_record key iv n (inner_of typ payload (int p))"
  shows "length out = recordHeaderLen + (p + recordOverhead) \<and> unat (Uint16 (slice out 3 5)) = p + recordOverhead"
proof -
  have l: "length (inner_of typ payload (int p)) = p" using assms(2,3) by (auto simp: inner_of_eq)
  have "slice out 3 5 = slice (record_hdr p) 3 5"
    using l by (simp add: assms(4) seal_record_def Let_def slice_def)
  then show ?thesis using assms(3) length_seal_record [OF assms(1)] record_hdr_length [of p] by (simp add: assms(4) l)
qed

text \<open>
  C39. What an observer sees of a \<open>Write\<close> under the browsing shaper: records that carry the bytes written,
  in order, each as long as its header says, and every one of a measured length of its direction but a
  client's full 16384-byte chunk, which is 16401 bytes long, the server's maximum, since the client's
  own maximum (16408) exceeds what TLS 1.3 allows and is filtered out.
\<close>

theorem flush_on_mode:
  assumes "quiet w" and "idle c" and "aes_key_ok (c_send c)" and "c_shaper c = BrowsingShaper s"
    and "Write b (c, w) = (r, (c', w'))"
  shows "\<exists>rs. w_out w' = w_out w @ concat (map snd rs) \<and> concat (map fst rs) = b
     \<and> list_all (\<lambda>(chunk, out).
         (\<exists>n p. out = seal_record (c_send c) (c_sendIV c) n (inner_of contentAppData chunk p))
         \<and> length out = recordHeaderLen + unat (Uint16 (slice out 3 5))
         \<and> (unat (Uint16 (slice out 3 5)) \<in> set (if s then serverModes else clientModes) \<longleftrightarrow> s \<or> length chunk < maxPlaintext)
         \<and> (length chunk < maxPlaintext \<or> unat (Uint16 (slice out 3 5)) = 16401)) rs"
proof -
  let ?cs = "flush_chunks (BrowsingShaper s) b"
  have w: "w_out w' = w_out w @ seal_all (c_send c) (c_sendIV c) (c_sendSeq c)
      (map (\<lambda>(chunk, p). inner_of contentAppData chunk (int p)) ?cs)"
    using assms(4,5) by (auto simp: Write_quiet [OF assms(1,2)] chunk_inners_def)
  obtain rs where rs: "seal_all (c_send c) (c_sendIV c) (c_sendSeq c)
      (map (\<lambda>(chunk, p). inner_of contentAppData chunk (int p)) ?cs) = concat (map snd rs)" "map fst rs = map fst ?cs"
    "list_all (\<lambda>(chunk, out). \<exists>p n. (chunk, p) \<in> set ?cs
       \<and> out = seal_record (c_send c) (c_sendIV c) n (inner_of contentAppData chunk (int p))) rs"
    using seal_all_records [of "c_send c" "c_sendIV c" "c_sendSeq c" ?cs] by blast
  have "concat (map fst rs) = b" by (simp add: rs(2) flush_chunks_payload)
  moreover have "list_all (\<lambda>(chunk, out).
         (\<exists>n p. out = seal_record (c_send c) (c_sendIV c) n (inner_of contentAppData chunk p))
         \<and> length out = recordHeaderLen + unat (Uint16 (slice out 3 5))
         \<and> (unat (Uint16 (slice out 3 5)) \<in> set (if s then serverModes else clientModes) \<longleftrightarrow> s \<or> length chunk < maxPlaintext)
         \<and> (length chunk < maxPlaintext \<or> unat (Uint16 (slice out 3 5)) = 16401)) rs"
  proof (rule list.pred_mono_strong [OF rs(3)], clarify)
    fix chunk p n
    let ?out = "seal_record (c_send c) (c_sendIV c) n (inner_of contentAppData chunk (int p))"
    assume m: "(chunk, p) \<in> set ?cs"
    have f: "length chunk < p" "p \<le> maxInner" using browsing.flush_fits [OF m] by simp_all
    note l = sealed_lengths [OF assms(3) f refl, of "c_sendIV c" n contentAppData]
    have "16401 = maxInner + recordOverhead" by simp
    then show "(\<exists>n' p'. ?out = seal_record (c_send c) (c_sendIV c) n' (inner_of contentAppData chunk p'))
         \<and> length ?out = recordHeaderLen + unat (Uint16 (slice ?out 3 5))
         \<and> (unat (Uint16 (slice ?out 3 5)) \<in> set (if s then serverModes else clientModes) \<longleftrightarrow> s \<or> length chunk < maxPlaintext)
         \<and> (length chunk < maxPlaintext \<or> unat (Uint16 (slice ?out 3 5)) = 16401)"
      using l chunk_on_mode [OF m] full_chunk [OF m] by auto
  qed
  ultimately show ?thesis using w rs(1) by (intro exI [of _ rs]) simp
qed

theorem flush_on_mode_witness:
  "\<exists>rs. w_out (snd (snd (Write [1, 2, 3] (demo_conn True, demo_world)))) = concat (map snd rs)
     \<and> concat (map fst rs) = ([1, 2, 3] :: bytes)
     \<and> list_all (\<lambda>(chunk, out). unat (Uint16 (slice out 3 5)) \<in> set clientModes \<longleftrightarrow> length chunk < maxPlaintext) rs"
proof -
  let ?r = "Write [1, 2, 3] (demo_conn True, demo_world)"
  have a: "idle (demo_conn True)" "aes_key_ok (c_send (demo_conn True))" "c_shaper (demo_conn True) = BrowsingShaper False"
    "Write [1, 2, 3] (demo_conn True, demo_world) = (fst ?r, (fst (snd ?r), snd (snd ?r)))"
    by (simp_all add: idle_def demo_conn_def aes_key_ok_def)
  obtain rs where rs: "w_out (snd (snd ?r)) = w_out demo_world @ concat (map snd rs)" "concat (map fst rs) = [1, 2, 3]"
    "list_all (\<lambda>(chunk, out).
         (\<exists>n p. out = seal_record (c_send (demo_conn True)) (c_sendIV (demo_conn True)) n (inner_of contentAppData chunk p))
         \<and> length out = recordHeaderLen + unat (Uint16 (slice out 3 5))
         \<and> (unat (Uint16 (slice out 3 5)) \<in> set (if False then serverModes else clientModes) \<longleftrightarrow> False \<or> length chunk < maxPlaintext)
         \<and> (length chunk < maxPlaintext \<or> unat (Uint16 (slice out 3 5)) = 16401)) rs"
    using flush_on_mode [OF demo_world_quiet(1) a] by blast
  have "list_all (\<lambda>(chunk, out). unat (Uint16 (slice out 3 5)) \<in> set clientModes \<longleftrightarrow> length chunk < maxPlaintext) rs"
    by (rule list.pred_mono_strong [OF rs(3)]) auto
  then show ?thesis using rs(1,2) demo_world_quiet(2) by (intro exI [of _ rs]) simp
qed

end
