(* ===== verification/GoStrings.thy ===== *)
theory GoStrings
  imports Prelude
begin

text \<open>
  What the package uses of Go's \<^verbatim>\<open>strings\<close>, \<^verbatim>\<open>encoding/hex\<close> and \<^verbatim>\<open>net\<close>: splitting and trimming,
  ASCII case, case-insensitive comparison with an ASCII string, hexadecimal, and which strings
  \<^verbatim>\<open>net.ParseIP\<close> reads as an address. Strings are byte lists.
\<close>

section \<open>Characters and case\<close>

definition is_digit :: "byte \<Rightarrow> bool" where "is_digit c \<longleftrightarrow> 48 \<le> c \<and> c \<le> 57"
definition is_lower :: "byte \<Rightarrow> bool" where "is_lower c \<longleftrightarrow> 97 \<le> c \<and> c \<le> 122"
definition is_upper :: "byte \<Rightarrow> bool" where "is_upper c \<longleftrightarrow> 65 \<le> c \<and> c \<le> 90"

definition lower :: "byte \<Rightarrow> byte" where
  "lower c = (if is_upper c then c + 32 else c)"

text \<open>\<^verbatim>\<open>strings.ToLower\<close>, of a string of ASCII characters.\<close>

definition ToLower :: "bytes \<Rightarrow> bytes" where
  "ToLower s = map lower s"

text \<open>
  \<^verbatim>\<open>strings.EqualFold\<close> with an ASCII second argument. The runes of the first are decoded as far as
  they can fold to ASCII: the long s (U+017F) folds to s and the Kelvin sign (U+212A) to k; any other
  rune outside ASCII differs from every character of the second, so its value does not matter.
\<close>

function runes :: "bytes \<Rightarrow> nat list" where
  "runes [] = []"
| "runes (b # s) =
     (if b < 128 then unat b # runes s
      else if b = 0xC5 \<and> take 1 s = [0xBF] then 0x017F # runes (drop 1 s)
      else if b = 0xE2 \<and> take 2 s = [0x84, 0xAA] then 0x212A # runes (drop 2 s)
      else 0xFFFD # runes s)"
  by pat_completeness auto
termination by (relation "measure length") auto

definition fold_rune :: "nat \<Rightarrow> nat" where
  "fold_rune r = (if 65 \<le> r \<and> r \<le> 90 then r + 32 else if r = 0x017F then 115 else if r = 0x212A then 107 else r)"

definition EqualFold :: "bytes \<Rightarrow> bytes \<Rightarrow> bool" where
  "EqualFold s t \<longleftrightarrow> map fold_rune (runes s) = map fold_rune (map unat t)"

section \<open>Splitting and trimming\<close>

text \<open>\<^verbatim>\<open>strings.Split\<close> at a one-byte separator: one part more than there are separators.\<close>

fun Split :: "bytes \<Rightarrow> byte \<Rightarrow> bytes list" where
  "Split [] sep = [[]]"
| "Split (b # s) sep =
     (if b = sep then [] # Split s sep
      else case Split s sep of [] \<Rightarrow> [[b]] | part # rest \<Rightarrow> (b # part) # rest)"

text \<open>
  The encodings of the runes \<^verbatim>\<open>unicode.IsSpace\<close> holds of. None begins inside another rune and none is a prefix of
  another, so looking for them byte by byte finds what decoding rune by rune finds.
\<close>

definition spaces :: "bytes list" where
  "spaces = map (\<lambda>c. [c]) [9, 10, 11, 12, 13, 32] @ [[0xC2, 0x85], [0xC2, 0xA0], [0xE1, 0x9A, 0x80]]
     @ map (\<lambda>c. [0xE2, 0x80, c]) [0x80, 0x81, 0x82, 0x83, 0x84, 0x85, 0x86, 0x87, 0x88, 0x89, 0x8A, 0xA8, 0xA9, 0xAF]
     @ [[0xE2, 0x81, 0x9F], [0xE3, 0x80, 0x80]]"

text \<open>The length of the space a string begins with, 0 if it begins with none; cutting off the leading spaces.\<close>

definition space_len :: "bytes list \<Rightarrow> bytes \<Rightarrow> nat" where
  "space_len ps s = (case find (\<lambda>p. take (length p) s = p) ps of None \<Rightarrow> 0 | Some p \<Rightarrow> length p)"

function cut_spaces :: "bytes list \<Rightarrow> bytes \<Rightarrow> bytes" where
  "cut_spaces ps s = (if s = [] \<or> space_len ps s = 0 then s else cut_spaces ps (drop (space_len ps s) s))"
  by pat_completeness auto
termination by (relation "measure (length \<circ> snd)") auto

declare cut_spaces.simps [simp del]

definition TrimSpace :: "bytes \<Rightarrow> bytes" where
  "TrimSpace s = rev (cut_spaces (map rev spaces) (rev (cut_spaces spaces s)))"

text \<open>\<^verbatim>\<open>strings.Fields\<close>: the maximal runs without a space.\<close>

fun field_len :: "bytes \<Rightarrow> nat" where
  "field_len [] = 0"
| "field_len (c # s) = (if space_len spaces (c # s) = 0 then Suc (field_len s) else 0)"

lemma length_cut_spaces: "length (cut_spaces ps s) \<le> length s"
proof (induction ps s rule: cut_spaces.induct)
  case (1 ps s)
  then show ?case by (subst cut_spaces.simps) auto
qed

function Fields :: "bytes \<Rightarrow> bytes list" where
  "Fields s =
     (case cut_spaces spaces s of
        [] \<Rightarrow> []
      | c # rest \<Rightarrow> (c # take (field_len rest) rest) # Fields (drop (field_len rest) rest))"
  by pat_completeness auto
termination
proof (relation "measure length", simp)
  fix s rest :: bytes and c
  assume "cut_spaces spaces s = c # rest"
  then have "length (c # rest) \<le> length s" using length_cut_spaces [of spaces s] by simp
  then show "(drop (field_len rest) rest, s) \<in> measure length" by simp
qed

declare Fields.simps [simp del]

text \<open>Strings of visible ASCII characters have nothing to trim and are one field.\<close>

definition visible :: "bytes \<Rightarrow> bool" where
  "visible s \<longleftrightarrow> (\<forall>c\<in>set s. 33 \<le> c \<and> c \<le> 126)"

lemma spaces_invisible: "list_all (\<lambda>p. p \<noteq> [] \<and> (hd p < 33 \<or> 126 < hd p) \<and> (last p < 33 \<or> 126 < last p)) spaces"
  by code_simp

lemma space_len_none:
  assumes "visible s" and "\<forall>p\<in>set ps. p \<noteq> [] \<and> (hd p < 33 \<or> 126 < hd p)"
  shows "space_len ps s = 0"
proof -
  have "take (length p) s \<noteq> p" if p: "p \<in> set ps" for p
  proof
    assume t: "take (length p) s = p"
    have "p \<noteq> []" "hd p < 33 \<or> 126 < hd p" using assms(2) p by auto
    moreover have "hd p \<in> set s" using t \<open>p \<noteq> []\<close> by (metis hd_in_set in_set_takeD)
    ultimately show False using assms(1) by (auto simp: visible_def not_le [symmetric])
  qed
  then have "find (\<lambda>p. take (length p) s = p) ps = None" by (auto simp: find_None_iff)
  then show ?thesis by (simp add: space_len_def)
qed

lemma space_len_visible: "visible s \<Longrightarrow> space_len spaces s = 0 \<and> space_len (map rev spaces) s = 0"
proof -
  have e: "p \<noteq> [] \<and> (hd p < 33 \<or> 126 < hd p) \<and> (last p < 33 \<or> 126 < last p)" if "p \<in> set spaces" for p
    using spaces_invisible that by (simp add: list_all_iff)
  then have "\<forall>p\<in>set (map rev spaces). p \<noteq> [] \<and> (hd p < 33 \<or> 126 < hd p)" by (simp add: hd_rev)
  then show "visible s \<Longrightarrow> ?thesis" using e by (blast intro: space_len_none)
qed

lemma cut_visible: "visible s \<Longrightarrow> cut_spaces spaces s = s \<and> cut_spaces (map rev spaces) s = s"
  using space_len_visible [of s] by (subst (1 2) cut_spaces.simps) simp

lemma TrimSpace_visible: "visible s \<Longrightarrow> TrimSpace s = s"
  using cut_visible [of s] cut_visible [of "rev s"] by (simp add: TrimSpace_def visible_def)

lemma field_len_visible: "visible s \<Longrightarrow> field_len s = length s"
proof (induction s)
  case (Cons c s)
  then have "space_len spaces (c # s) = 0" "visible s" using space_len_visible [of "c # s"] by (simp_all add: visible_def)
  then show ?case using Cons.IH by simp
qed simp

lemma Fields_visible: "visible s \<Longrightarrow> s \<noteq> [] \<Longrightarrow> Fields s = [s]"
proof -
  assume s: "visible s" "s \<noteq> []"
  then obtain c r where c: "s = c # r" "visible r" by (cases s) (auto simp: visible_def)
  have "cut_spaces spaces s = c # r" using cut_visible [OF s(1)] c(1) by simp
  moreover have "Fields [] = []" by (subst Fields.simps) (simp add: cut_spaces.simps)
  ultimately show ?thesis
    by (subst Fields.simps) (simp add: field_len_visible c)
qed

lemma Split_nonempty [simp]: "Split s sep \<noteq> []"
  by (induction s) (auto split: list.splits)

lemma Split_no_sep: "sep \<notin> set s \<Longrightarrow> Split s sep = [s]"
  by (induction s) auto

lemma Split_append: "sep \<notin> set p \<Longrightarrow> Split (p @ sep # s) sep = p # Split s sep"
  by (induction p) auto

lemma Split_parts: "part \<in> set (Split s sep) \<Longrightarrow> set part \<subseteq> set s - {sep}"
proof (induction s arbitrary: part)
  case (Cons b s)
  have "\<forall>q\<in>set (Split s sep). \<forall>x\<in>set q. x \<in> set s \<and> x \<noteq> sep"
    using Cons.IH by blast
  then show ?case using Cons.prems by (cases "Split s sep") (auto split: if_splits)
qed simp

lemma Split_covers: "c \<in> set s \<Longrightarrow> c \<noteq> sep \<Longrightarrow> \<exists>part\<in>set (Split s sep). c \<in> set part"
proof (induction s)
  case (Cons b s)
  then show ?case by (cases "Split s sep") auto
qed simp

section \<open>Hexadecimal\<close>

definition hex_digit :: "byte \<Rightarrow> byte" where
  "hex_digit n = (if n < 10 then 48 + n else 87 + n)"

definition hex_value :: "byte \<Rightarrow> byte option" where
  "hex_value c =
     (if is_digit c then Some (c - 48)
      else if 97 \<le> c \<and> c \<le> 102 then Some (c - 87)
      else if 65 \<le> c \<and> c \<le> 70 then Some (c - 55)
      else None)"

definition hex_EncodeToString :: "bytes \<Rightarrow> bytes" where
  "hex_EncodeToString s = concat (map (\<lambda>b. [hex_digit (drop_bit 4 b), hex_digit (b AND 15)]) s)"

text \<open>\<^verbatim>\<open>hex.DecodeString\<close>; a bad digit is reported before an odd length.\<close>

fun hex_DecodeString :: "bytes \<Rightarrow> bytes res" where
  "hex_DecodeString [] = Inr []"
| "hex_DecodeString [c] =
     (case hex_value c of None \<Rightarrow> Inl (Err ''encoding/hex: invalid byte'')
      | Some _ \<Rightarrow> Inl (Err ''encoding/hex: odd length hex string''))"
| "hex_DecodeString (c # d # s) =
     (case (hex_value c, hex_value d) of
        (Some a, Some b) \<Rightarrow> bindE (hex_DecodeString s) (\<lambda>rest. Inr ((push_bit 4 a OR b) # rest))
      | _ \<Rightarrow> Inl (Err ''encoding/hex: invalid byte''))"

lemma byte_eq_unat: "(a :: byte) = b \<longleftrightarrow> unat a = unat b"
  by (simp add: word_unat_eq_iff)

lemma hex_value_digit: "n < 16 \<Longrightarrow> hex_value (hex_digit n) = Some n"
proof -
  assume "n < 16"
  then obtain m where n: "n = of_nat m" and m: "m < 16"
    by (intro that [of "unat n"]) (simp_all add: word_less_nat_alt)
  from m have "m = 0 \<or> m = 1 \<or> m = 2 \<or> m = 3 \<or> m = 4 \<or> m = 5 \<or> m = 6 \<or> m = 7 \<or> m = 8 \<or> m = 9 \<or> m = 10
    \<or> m = 11 \<or> m = 12 \<or> m = 13 \<or> m = 14 \<or> m = 15" by presburger
  then show ?thesis
    unfolding n by (elim disjE) (simp_all add: hex_value_def hex_digit_def is_digit_def)
qed

lemma low_nibble: "b AND 15 = take_bit 4 (b :: byte)"
  by (simp add: take_bit_eq_mask mask_eq_exp_minus_1)

lemma hex_nibbles: "push_bit 4 (drop_bit 4 b) OR (b AND 15) = (b :: byte)"
  unfolding low_nibble by (rule bit_eqI) (auto simp: bit_simps)

lemma nibble_lt: "drop_bit 4 b < (16 :: byte)" "b AND 15 < (16 :: byte)"
proof -
  have "unat b < 256" using unsigned_less [of b] by simp
  then have "unat (drop_bit 4 b) < 16" by (subst unat_drop_bit_eq) (simp add: drop_bit_eq_div less_mult_imp_div_less)
  then show "drop_bit 4 b < 16" by (simp add: word_less_nat_alt)
  have "unat (take_bit 4 b) < 16" by (subst unsigned_take_bit_eq) (simp add: take_bit_eq_mod)
  then show "b AND 15 < 16" unfolding low_nibble by (simp add: word_less_nat_alt)
qed

lemma hex_roundtrip: "hex_DecodeString (hex_EncodeToString s) = Inr s"
  by (induction s) (simp_all add: hex_EncodeToString_def hex_value_digit nibble_lt hex_nibbles)

lemma hex_visible: "visible (hex_EncodeToString s)"
proof -
  have "33 \<le> hex_digit n \<and> hex_digit n \<le> 126" if "n < 16" for n
  proof -
    have "unat n < 16" using that by (simp add: word_less_nat_alt)
    moreover have "unat (87 + n) = 87 + unat n" "unat (48 + n) = 48 + unat n"
      using calculation by (simp_all add: unat_word_ariths)
    ultimately show ?thesis by (auto simp: hex_digit_def word_le_nat_alt)
  qed
  then show ?thesis using nibble_lt by (auto simp: visible_def hex_EncodeToString_def)
qed

lemma hex_EncodeToString_empty [simp]: "hex_EncodeToString s = [] \<longleftrightarrow> s = []"
  by (cases s) (simp_all add: hex_EncodeToString_def)

section \<open>Addresses\<close>

text \<open>
  Whether \<^verbatim>\<open>net.ParseIP\<close> reads a string as an address: \<^verbatim>\<open>netip.ParseAddr\<close> without a zone. The
  first of \<open>.\<close>, \<open>:\<close> and \<open>%\<close> decides the family. An IPv4 address is four decimal fields of at most 255 without
  leading zeros.
\<close>

definition decimal :: "bytes \<Rightarrow> nat" where
  "decimal s = foldl (\<lambda>n c. 10 * n + (unat c - 48)) 0 s"

definition ip4_field :: "bytes \<Rightarrow> bool" where
  "ip4_field f \<longleftrightarrow> f \<noteq> [] \<and> list_all is_digit f \<and> (hd f = 48 \<longrightarrow> f = [48]) \<and> decimal f \<le> 255"

definition ip4_string :: "bytes \<Rightarrow> bool" where
  "ip4_string s \<longleftrightarrow> length (Split s 46) = 4 \<and> list_all ip4_field (Split s 46)"

text \<open>
  The loop over the groups of an IPv6 address: \<open>i\<close> bytes are filled and \<open>ell\<close> says whether \<open>::\<close> was
  seen. The result is where it stopped, or \<open>None\<close> for an error.
\<close>

function ip6_groups :: "nat \<Rightarrow> bool \<Rightarrow> bytes \<Rightarrow> (nat \<times> bool \<times> bytes) option" where
  "ip6_groups i ell s =
     (if 16 \<le> i then Some (i, ell, s)
      else let digits = takeWhile (\<lambda>c. hex_value c \<noteq> None) s; rest = drop (length digits) s
           in if digits = [] \<or> 4 < length digits then None
              else case rest of
                [] \<Rightarrow> Some (i + 2, ell, [])
              | c # more \<Rightarrow>
                  if c = 46
                  then if \<not> ell \<and> i \<noteq> 12 \<or> 16 < i + 4 \<or> \<not> ip4_string s then None else Some (i + 4, ell, [])
                  else if c \<noteq> 58 \<or> more = [] then None
                  else if hd more = 58
                  then if ell then None
                       else if tl more = [] then Some (i + 2, True, []) else ip6_groups (i + 2) True (tl more)
                  else ip6_groups (i + 2) ell more)"
  by pat_completeness auto
termination by (relation "measure (\<lambda>(i, ell, s). 16 - i)") auto

definition ip6_string :: "bytes \<Rightarrow> bool" where
  "ip6_string s =
     (let lead = (take 2 s = [58, 58]); s = (if lead then drop 2 s else s)
      in if lead \<and> s = [] then True
         else case ip6_groups 0 lead s of
           None \<Rightarrow> False
         | Some (i, ell, rest) \<Rightarrow> rest = [] \<and> (if i < 16 then ell else \<not> ell))"

definition ParseIP_ok :: "bytes \<Rightarrow> bool" where
  "ParseIP_ok s =
     (case dropWhile (\<lambda>c. c \<notin> {46, 58, 37}) s of
        [] \<Rightarrow> False
      | c # _ \<Rightarrow> if c = 46 then ip4_string s else if c = 58 then ip6_string s else False)"

text \<open>An address has a colon or is made of decimal fields.\<close>

lemma ParseIP_shape:
  assumes "ParseIP_ok s" and "58 \<notin> set s"
  shows "list_all ip4_field (Split s 46)"
proof -
  obtain c r where c: "dropWhile (\<lambda>c. c \<notin> {46, 58, 37}) s = c # r"
    using assms(1) by (auto simp: ParseIP_ok_def split: list.splits)
  then have "c \<in> set s" by (metis list.set_intros(1) set_dropWhileD)
  with c assms show ?thesis by (auto simp: ParseIP_ok_def ip4_string_def split: if_splits)
qed

end
