(* ===== verification/Cover.thy ===== *)
theory Cover
  imports EchCarrier ServerHello Stream_Layer GoStrings
begin

text \<open>
  \<^verbatim>\<open>src/cover.go\<close>: the identity a connection impersonates. A profile is what \<open>CoverFor\<close> gives for a
  host name, plus the full-handshake flight a probe measured, folded in by \<open>Adopt\<close>. The server checks
  a hello against its profile and takes from it the ticket the replay gate spends. Go's \<open>int\<close> is
  \<open>int\<close> here: every sum is of a handful of record lengths.
\<close>

section \<open>Profiles\<close>

abbreviation DefaultTicketLen :: int where "DefaultTicketLen \<equiv> 176"

record CoverProfile =
  cp_Host :: bytes
  cp_CipherSuite :: u16
  cp_BinderLen :: int
  cp_TicketLen :: int
  cp_PSKFirst :: bool
  cp_ResumedRemainder :: "int list"
  cp_FullRemainder :: "int list"
  cp_FullRemainderJitter :: "int list"
  cp_ResumedClientFlight :: int

definition covers :: "bytes \<Rightarrow> CoverProfile option" where
  "covers = map_of [
     (str ''www.cloudflare.com'',
      \<lparr>cp_Host = str ''www.cloudflare.com'', cp_CipherSuite = TLS_AES_128_GCM_SHA256, cp_BinderLen = 32,
       cp_TicketLen = 176, cp_PSKFirst = True, cp_ResumedRemainder = [64], cp_FullRemainder = [],
       cp_FullRemainderJitter = [], cp_ResumedClientFlight = 149\<rparr>),
     (str ''www.google.com'',
      \<lparr>cp_Host = str ''www.google.com'', cp_CipherSuite = TLS_AES_128_GCM_SHA256, cp_BinderLen = 32,
       cp_TicketLen = 230, cp_PSKFirst = True, cp_ResumedRemainder = [64], cp_FullRemainder = [],
       cp_FullRemainderJitter = [], cp_ResumedClientFlight = 145\<rparr>),
     (str ''www.microsoft.com'',
      \<lparr>cp_Host = str ''www.microsoft.com'', cp_CipherSuite = TLS_AES_256_GCM_SHA384, cp_BinderLen = 48,
       cp_TicketLen = 256, cp_PSKFirst = False, cp_ResumedRemainder = [32, 74], cp_FullRemainder = [],
       cp_FullRemainderJitter = [], cp_ResumedClientFlight = 164\<rparr>)]"

definition validLabel :: "bytes \<Rightarrow> bool" where
  "validLabel label \<longleftrightarrow>
     \<not> (length label = 0 \<or> 63 < length label \<or> hd label = 45 \<or> last label = 45)
     \<and> list_all (\<lambda>c. is_lower c \<or> is_digit c \<or> c = 45) label"

definition validCoverHost :: "bytes \<Rightarrow> bool" where
  "validCoverHost host =
     (if length host = 0 \<or> 253 < length host \<or> ParseIP_ok host then False
      else let labels = Split host 46
           in if length labels < 2 \<or> \<not> list_ex is_lower (last labels) then False
              else list_all validLabel labels)"

definition CoverFor :: "bytes \<Rightarrow> CoverProfile res" where
  "CoverFor host =
     (if list_ex (\<lambda>c. 127 < c) host then Inl ErrUnknownCover
      else let host = ToLower host
           in if \<not> validCoverHost host then Inl ErrUnknownCover
              else case covers host of
                     Some p \<Rightarrow> Inr p
                   | None \<Rightarrow> Inr \<lparr>cp_Host = host, cp_CipherSuite = TLS_AES_128_GCM_SHA256, cp_BinderLen = 32,
                       cp_TicketLen = DefaultTicketLen, cp_PSKFirst = False, cp_ResumedRemainder = [64],
                       cp_FullRemainder = [], cp_FullRemainderJitter = [], cp_ResumedClientFlight = 149\<rparr>)"

definition MeasuredCovers :: "bytes list" where
  "MeasuredCovers = [str ''www.cloudflare.com'', str ''www.google.com'', str ''www.microsoft.com'']"

definition Valid :: "CoverProfile \<Rightarrow> unit res" where
  "Valid p = bindE (CoverFor (cp_Host p)) (\<lambda>known.
     if cp_CipherSuite p \<noteq> cp_CipherSuite known \<or> cp_BinderLen p \<noteq> cp_BinderLen known
        \<or> cp_TicketLen p \<noteq> cp_TicketLen known \<or> cp_PSKFirst p \<noteq> cp_PSKFirst known
        \<or> cp_ResumedRemainder p \<noteq> cp_ResumedRemainder known
        \<or> cp_ResumedClientFlight p \<noteq> cp_ResumedClientFlight known
     then Inl (Err ''twiddle: cover profile does not match its TLS profile'')
     else Inr ())"

definition CanEmitFullHandshake :: "CoverProfile \<Rightarrow> bool" where
  "CanEmitFullHandshake p \<longleftrightarrow> cp_FullRemainder p \<noteq> []"

definition FullOpeningBurst :: "CoverProfile \<Rightarrow> int" where
  "FullOpeningBurst p =
     (if cp_FullRemainder p = [] then 0
      else foldl (+) (int ServerHelloFullLen + int (length ChangeCipherSpec)) (cp_FullRemainder p))"

definition ResumedOpeningBurst :: "CoverProfile \<Rightarrow> int" where
  "ResumedOpeningBurst p =
     foldl (+) (int ServerHelloResumedLen + int (length ChangeCipherSpec)) (cp_ResumedRemainder p)"

definition ClientEncryptedWire :: "CoverProfile \<Rightarrow> int" where
  "ClientEncryptedWire p = cp_ResumedClientFlight p - int (length ChangeCipherSpec)"

definition TicketLenForCover :: "bytes \<Rightarrow> int" where
  "TicketLenForCover host = (case CoverFor host of Inr p \<Rightarrow> cp_TicketLen p | Inl _ \<Rightarrow> DefaultTicketLen)"

definition PSKFirstForCover :: "bytes \<Rightarrow> bool" where
  "PSKFirstForCover host = (case CoverFor host of Inr p \<Rightarrow> cp_PSKFirst p | Inl _ \<Rightarrow> False)"

section \<open>Checking a hello\<close>

definition validateCoverIdentity :: "CoverProfile \<Rightarrow> ClientHello \<Rightarrow> unit res" where
  "validateCoverIdentity p h =
     (if \<not> EqualFold (SNI h) (cp_Host p) then Inl (Err ''twiddle: ClientHello SNI does not match cover'')
      else if list_ex (\<lambda>suite. suite = cp_CipherSuite p) (CipherSuites h) then Inr ()
      else Inl (Err ''twiddle: ClientHello does not offer cover cipher''))"

definition validateFullClientHello :: "CoverProfile \<Rightarrow> ClientHello \<Rightarrow> bytes res" where
  "validateFullClientHello p h =
     (if \<not> CanEmitFullHandshake p
      then Inl (Err ''twiddle: cover has no measured full-handshake profile to answer with'')
      else case Find ExtECH h of
        None \<Rightarrow> Inl (Err ''twiddle: full-handshake ClientHello carries no ECH extension'')
      | Some e \<Rightarrow> bindE (echPayload (ExtData e)) (\<lambda>(at, n).
          if n < FullTicketLen then Inl (Err ''twiddle: ECH payload is too small to carry a ticket'')
          else Inr (slice (ExtData e) at (at + FullTicketLen))))"

definition validateResumedClientHello :: "CoverProfile \<Rightarrow> ClientHello \<Rightarrow> bytes res" where
  "validateResumedClientHello p h =
     (case Find ExtPreSharedKey h of
        None \<Rightarrow> Inl (Err ''twiddle: ClientHello carries no pre_shared_key'')
      | Some e \<Rightarrow> bindE (parsePSK (ExtData e)) (\<lambda>(ticket, _, binder).
          if int (length ticket) \<noteq> cp_TicketLen p
          then Inl (Err ''twiddle: ClientHello ticket length does not match cover'')
          else if int (length binder) \<noteq> cp_BinderLen p
          then Inl (Err ''twiddle: ClientHello binder length does not match cover'')
          else Inr ticket))"

definition validateClientHello :: "CoverProfile \<Rightarrow> ClientHello \<Rightarrow> bytes res" where
  "validateClientHello p h = bindE (validateCoverIdentity p h) (\<lambda>_.
     if Find ExtPreSharedKey h = None then validateFullClientHello p h else validateResumedClientHello p h)"

section \<open>Probes\<close>

text \<open>
  One emission's flight: \<open>i\<close> is the position the jitter is read at. (A jitter of \<^verbatim>\<open>MaxInt64\<close> overflows the bound and panics in
  Go; no probe reports a range beyond the lengths of records.)
\<close>

primrec draw_remainder :: "int list \<Rightarrow> nat \<Rightarrow> int list \<Rightarrow> int list rnd" where
  "draw_remainder jitter i [] = returnR []"
| "draw_remainder jitter i (base # rest) =
     bindR (if length jitter = 0 \<or> jitter ! i \<le> 0 then returnR base
            else bindR (rand_Int (nat (jitter ! i + 1))) (\<lambda>n. returnR (base + int n))) (\<lambda>x.
     bindR (draw_remainder jitter (Suc i) rest) (\<lambda>xs. returnR (x # xs)))"

definition DrawFullRemainder :: "CoverProfile \<Rightarrow> int list rnd" where
  "DrawFullRemainder p =
     (if cp_FullRemainder p = [] then failR (Err ''twiddle: cover has no measured full-handshake remainder'')
      else if cp_FullRemainderJitter p \<noteq> [] \<and> length (cp_FullRemainderJitter p) \<noteq> length (cp_FullRemainder p)
      then failR (Err ''twiddle: cover has a jitter of another length than its remainder'')
      else draw_remainder (cp_FullRemainderJitter p) 0 (cp_FullRemainder p))"

record ProbeResult =
  pr_Host :: bytes
  pr_Full :: bool
  pr_ServerHello :: int
  pr_Remainder :: "int list"
  pr_OpeningBurst :: int
  pr_RemainderJitter :: "int list"
  pr_Elapsed :: int

abbreviation maxRemainderRecords :: nat where "maxRemainderRecords \<equiv> 4"
abbreviation maxBurstDrift :: int where "maxBurstDrift \<equiv> 256"
abbreviation minFullBurst :: int where "minFullBurst \<equiv> 2000"
abbreviation maxFullBurst :: int where "maxFullBurst \<equiv> 32768"

text \<open>The profile to emit, or an error: the code returns the old profile beside its error.\<close>

definition Adopt :: "CoverProfile \<Rightarrow> ProbeResult \<Rightarrow> CoverProfile res" where
  "Adopt p res =
     (if (case (CoverFor (pr_Host res), CoverFor (cp_Host p)) of
            (Inr probeCover, Inr profileCover) \<Rightarrow> cp_Host probeCover \<noteq> cp_Host profileCover
          | _ \<Rightarrow> True)
      then Inl (Err ''twiddle: probe cannot update the profile'')
      else if pr_Remainder res = [] \<or> maxRemainderRecords < length (pr_Remainder res)
      then Inl (Err ''twiddle: probe returned remainder records outside 1..4'')
      else if list_ex (\<lambda>n. n \<le> int recordHeaderLen) (pr_Remainder res)
      then Inl (Err ''twiddle: probe returned a remainder record without a body'')
      else if pr_Full res
      then if pr_ServerHello res \<noteq> int ServerHelloFullLen
           then Inl (Err ''twiddle: full probe returned a ServerHello of another length'')
           else if pr_OpeningBurst res < minFullBurst \<or> maxFullBurst < pr_OpeningBurst res
           then Inl (Err ''twiddle: full probe returned an implausible opening burst'')
           else if length (pr_RemainderJitter res) \<noteq> 0 \<and> length (pr_RemainderJitter res) \<noteq> length (pr_Remainder res)
           then Inl (Err ''twiddle: full probe returned a jitter of another length than its remainder'')
           else Inr (p\<lparr>cp_FullRemainder := pr_Remainder res, cp_FullRemainderJitter := pr_RemainderJitter res\<rparr>)
      else if pr_ServerHello res \<noteq> int ServerHelloResumedLen
      then Inl (Err ''twiddle: resumed probe returned a ServerHello of another length'')
      else let delta = pr_OpeningBurst res - ResumedOpeningBurst p
           in if delta < - maxBurstDrift \<or> maxBurstDrift < delta
              then Inl (Err ''twiddle: resumed probe moved the opening burst; not adopting'')
              else let out = p\<lparr>cp_ResumedRemainder := pr_Remainder res\<rparr>
                   in case Valid out of
                        Inl _ \<Rightarrow> Inl (Err ''twiddle: resumed probe is incompatible with the cover profile'')
                      | Inr _ \<Rightarrow> Inr out)"

section \<open>Host names\<close>

text \<open>
  The address check of \<open>validCoverHost\<close> decides nothing: a name that passes the label rules has no
  colon and a letter in its last label, and no address is like that.
\<close>

definition host_name :: "bytes \<Rightarrow> bool" where
  "host_name host \<longleftrightarrow> length host \<le> 253 \<and> 2 \<le> length (Split host 46)
     \<and> list_ex is_lower (last (Split host 46)) \<and> list_all validLabel (Split host 46)"

lemma label_chars: "list_all validLabel (Split s 46) \<Longrightarrow> c \<in> set s \<Longrightarrow> is_lower c \<or> is_digit c \<or> c = 45 \<or> c = 46"
  using Split_covers [of c s 46] by (fastforce simp: validLabel_def list_all_iff)

lemma host_name_no_IP: "host_name s \<Longrightarrow> \<not> ParseIP_ok s"
proof
  assume h: "host_name s" and ip: "ParseIP_ok s"
  have "58 \<notin> set s"
    using label_chars [of s 58] h by (auto simp: host_name_def is_lower_def is_digit_def)
  then have "list_all ip4_field (Split s 46)" by (rule ParseIP_shape [OF ip])
  then have "ip4_field (last (Split s 46))" unfolding list_all_iff by (rule bspec) (rule last_in_set [OF Split_nonempty])
  then have "list_all is_digit (last (Split s 46))" by (simp add: ip4_field_def)
  moreover have "\<exists>c\<in>set (last (Split s 46)). is_lower c" using h by (simp add: host_name_def list_ex_iff)
  ultimately show False by (fastforce simp: list_all_iff is_lower_def is_digit_def word_le_nat_alt)
qed

lemma validCoverHost_iff: "validCoverHost s \<longleftrightarrow> host_name s"
proof -
  have "length s = 0 \<Longrightarrow> \<not> host_name s" by (auto simp: host_name_def)
  then show ?thesis
    using host_name_no_IP [of s] by (auto simp: validCoverHost_def host_name_def Let_def)
qed

lemma lower_lower [simp]: "lower (lower c) = lower c"
  by (auto simp: lower_def is_upper_def word_le_nat_alt unat_word_ariths)

lemma ToLower_ToLower [simp]: "ToLower (ToLower s) = ToLower s"
  by (simp add: ToLower_def)

lemma lower_ascii: "c \<le> 127 \<Longrightarrow> lower c \<le> 127"
  by (auto simp: lower_def is_upper_def word_le_nat_alt unat_word_ariths)

lemma ascii_lower: "(\<not> list_ex (\<lambda>c. 127 < c) s) \<Longrightarrow> \<not> list_ex (\<lambda>c. 127 < c) (ToLower s)"
  by (auto simp: list_ex_iff ToLower_def not_less lower_ascii)

lemma covers_Host: "covers host = Some p \<Longrightarrow> cp_Host p = host"
  by (auto simp: covers_def split: if_splits)

text \<open>The profile of a host name: the measured one or the default.\<close>

lemma CoverFor_Inr: "CoverFor host = Inr p \<longleftrightarrow>
    (\<forall>c\<in>set host. c \<le> 127) \<and> host_name (ToLower host) \<and> cp_Host p = ToLower host
    \<and> (case covers (ToLower host) of Some q \<Rightarrow> p = q
       | None \<Rightarrow> p = \<lparr>cp_Host = ToLower host, cp_CipherSuite = TLS_AES_128_GCM_SHA256, cp_BinderLen = 32,
                       cp_TicketLen = DefaultTicketLen, cp_PSKFirst = False, cp_ResumedRemainder = [64],
                       cp_FullRemainder = [], cp_FullRemainderJitter = [], cp_ResumedClientFlight = 149\<rparr>)"
  by (auto simp: CoverFor_def Let_def validCoverHost_iff list_ex_iff not_less[symmetric] split: option.splits dest: covers_Host)


lemma CoverFor_idem: "CoverFor host = Inr p \<Longrightarrow> CoverFor (cp_Host p) = Inr p"
  using ascii_lower [of host] by (auto simp: CoverFor_Inr list_ex_iff not_less split: option.splits)

section \<open>What a valid profile promises\<close>

text \<open>
  A record \<open>writeSized\<close> can emit without a payload, and what the handshake relies on of a profile: the
  binder of its cipher suite, a ticket that can be sealed and rotated, and records it can emit.
\<close>

definition can_emit :: "int \<Rightarrow> bool" where
  "can_emit n \<longleftrightarrow> int (recordHeaderLen + recordOverhead) < n \<and> n \<le> int (recordHeaderLen + recordOverhead + maxInner)"

definition profile_ok :: "CoverProfile \<Rightarrow> bool" where
  "profile_ok p \<longleftrightarrow>
     (cp_CipherSuite p = TLS_AES_128_GCM_SHA256 \<and> cp_BinderLen p = int (hash_size SHA256)
        \<or> cp_CipherSuite p = TLS_AES_256_GCM_SHA384 \<and> cp_BinderLen p = int (hash_size SHA384))
     \<and> int MinTicketLen \<le> cp_TicketLen p \<and> cp_TicketLen p \<le> 314
     \<and> list_all can_emit (cp_ResumedRemainder p) \<and> can_emit (ClientEncryptedWire p)
     \<and> length (cp_Host p) \<le> 253 \<and> cp_Host p \<noteq> [] \<and> (\<forall>c\<in>set (cp_Host p). c \<le> 127)"

lemma length_ChangeCipherSpec [simp]: "length ChangeCipherSpec = 6"
  by (simp add: ChangeCipherSpec_def)

lemma host_name_nonempty: "host_name s \<Longrightarrow> s \<noteq> [] \<and> length s \<le> 253"
  by (auto simp: host_name_def)

lemma ToLower_props [simp]: "length (ToLower s) = length s" "ToLower s = [] \<longleftrightarrow> s = []"
  by (simp_all add: ToLower_def)

lemma CoverFor_profile_ok: "CoverFor host = Inr p \<Longrightarrow> profile_ok p"
  using ascii_lower [of host] host_name_nonempty [of "ToLower host"]
  by (auto simp: CoverFor_Inr profile_ok_def can_emit_def ClientEncryptedWire_def covers_def list_ex_iff not_less
      split: option.splits if_splits)

lemma Valid_Inr: "Valid p = Inr () \<longleftrightarrow> (\<exists>known. CoverFor (cp_Host p) = Inr known
     \<and> cp_CipherSuite p = cp_CipherSuite known \<and> cp_BinderLen p = cp_BinderLen known
     \<and> cp_TicketLen p = cp_TicketLen known \<and> cp_PSKFirst p = cp_PSKFirst known
     \<and> cp_ResumedRemainder p = cp_ResumedRemainder known \<and> cp_ResumedClientFlight p = cp_ResumedClientFlight known)"
  by (auto simp: Valid_def res_simps)

lemma Valid_profile_ok: "Valid p = Inr () \<Longrightarrow> profile_ok p"
proof -
  assume "Valid p = Inr ()"
  then obtain known where k: "CoverFor (cp_Host p) = Inr known"
    and e: "cp_CipherSuite p = cp_CipherSuite known" "cp_BinderLen p = cp_BinderLen known"
      "cp_TicketLen p = cp_TicketLen known" "cp_ResumedRemainder p = cp_ResumedRemainder known"
      "cp_ResumedClientFlight p = cp_ResumedClientFlight known"
    unfolding Valid_Inr by blast
  have "profile_ok known" by (rule CoverFor_profile_ok [OF k])
  moreover have "(\<forall>c\<in>set (cp_Host p). c \<le> 127) \<and> cp_Host p \<noteq> [] \<and> length (cp_Host p) \<le> 253"
    using k host_name_nonempty [of "ToLower (cp_Host p)"] by (auto simp: CoverFor_Inr)
  ultimately show ?thesis unfolding profile_ok_def ClientEncryptedWire_def e by auto
qed

text \<open>\<open>can_emit\<close> is what it says: \<open>writeSized\<close> puts exactly that many bytes on the wire, or refuses.\<close>

lemma can_emit_iff:
  assumes "quiet w" and "aes_key_ok (c_send c)"
  shows "can_emit n \<longleftrightarrow> (\<exists>c' w'. writeSized contentHandshake [] n (c, w) = (Inr (), (c', w'))
     \<and> int (length (w_out w')) = int (length (w_out w)) + n)"
proof
  assume n: "can_emit n"
  then have l: "length (inner_of contentHandshake [] (n - 21)) = nat (n - 21)"
    by (intro length_inner_of_sized) (auto simp: can_emit_def)
  show "\<exists>c' w'. writeSized contentHandshake [] n (c, w) = (Inr (), (c', w')) \<and> int (length (w_out w')) = int (length (w_out w)) + n"
    using n l by (intro exI conjI, subst writeSized_quiet [OF assms(1)])
      (auto simp: can_emit_def length_seal_record [OF assms(2)])
next
  assume "\<exists>c' w'. writeSized contentHandshake [] n (c, w) = (Inr (), (c', w')) \<and> int (length (w_out w')) = int (length (w_out w)) + n"
  then show "can_emit n" by (auto simp: writeSized_def Let_def can_emit_def failA_def split: if_splits)
qed





section \<open>The flight of a full handshake\<close>

definition slack :: "int list \<Rightarrow> nat \<Rightarrow> int" where
  "slack jitter i = (if jitter = [] then 0 else max 0 (jitter ! i))"

definition in_range :: "CoverProfile \<Rightarrow> int list \<Rightarrow> bool" where
  "in_range p xs \<longleftrightarrow> length xs = length (cp_FullRemainder p)
     \<and> (\<forall>i<length xs. cp_FullRemainder p ! i \<le> xs ! i
          \<and> xs ! i \<le> cp_FullRemainder p ! i + slack (cp_FullRemainderJitter p) i)"

lemma draw_one_result:
  assumes "(if length jitter = 0 \<or> jitter ! i \<le> 0 then returnR base
      else bindR (rand_Int (nat (jitter ! i + 1))) (\<lambda>n. returnR (base + int n))) t = Inr (x, t')"
  shows "base \<le> x \<and> x \<le> base + slack jitter i"
proof (cases "length jitter = 0 \<or> jitter ! i \<le> 0")
  case True
  then show ?thesis using assms by (auto simp: returnR_eq_Inr slack_def)
next
  case False
  then obtain n where "rand_Int (nat (jitter ! i + 1)) t = Inr (n, t')" "x = base + int n"
    using assms by (auto simp: bindR_eq_Inr returnR_eq_Inr)
  then show ?thesis using False rand_Int_less [of "nat (jitter ! i + 1)" t n t'] by (auto simp: slack_def)
qed

lemma draw_one_yields:
  assumes "base \<le> x" and "x \<le> base + slack jitter i"
  shows "yields (if length jitter = 0 \<or> jitter ! i \<le> 0 then returnR base
      else bindR (rand_Int (nat (jitter ! i + 1))) (\<lambda>n. returnR (base + int n))) x"
proof (cases "length jitter = 0 \<or> jitter ! i \<le> 0")
  case True
  then have "x = base" using assms by (auto simp: slack_def split: if_splits)
  then show ?thesis using True yields_returnR by simp
next
  case False
  then have "nat (x - base) < nat (jitter ! i + 1)" using assms by (auto simp: slack_def)
  then have "yields (rand_Int (nat (jitter ! i + 1))) (nat (x - base))" by (rule yields_rand_Int)
  then have "yields (bindR (rand_Int (nat (jitter ! i + 1))) (\<lambda>n. returnR (base + int n))) x"
    by (rule yields_bindR) (use yields_returnR [of x] assms(1) in simp)
  then show ?thesis using False by simp
qed

lemma draw_remainder_result:
  "draw_remainder jitter i bases t = Inr (xs, t') \<Longrightarrow>
     length xs = length bases \<and> (\<forall>k<length xs. bases ! k \<le> xs ! k \<and> xs ! k \<le> bases ! k + slack jitter (i + k))"
proof (induction bases arbitrary: i t xs)
  case (Cons base rest)
  from Cons.prems obtain x t1 ys where x: "(if length jitter = 0 \<or> jitter ! i \<le> 0 then returnR base
      else bindR (rand_Int (nat (jitter ! i + 1))) (\<lambda>n. returnR (base + int n))) t = Inr (x, t1)"
    and ys: "draw_remainder jitter (Suc i) rest t1 = Inr (ys, t')" "xs = x # ys"
    by (auto simp: bindR_eq_Inr returnR_eq_Inr simp del: split_paired_Ex)
  show ?case using draw_one_result [OF x] Cons.IH [OF ys(1)] ys(2) by (auto simp: less_Suc_eq_0_disj)
qed (simp add: returnR_eq_Inr)

lemma draw_remainder_yields:
  "length xs = length bases \<Longrightarrow> \<forall>k<length xs. bases ! k \<le> xs ! k \<and> xs ! k \<le> bases ! k + slack jitter (i + k) \<Longrightarrow>
     yields (draw_remainder jitter i bases) xs"
proof (induction bases arbitrary: i xs)
  case (Cons base rest)
  then obtain x ys where xs: "xs = x # ys" by (cases xs) auto
  have x: "base \<le> x" "x \<le> base + slack jitter i" using Cons.prems(2) xs by auto
  have ys: "yields (draw_remainder jitter (Suc i) rest) ys"
  proof (rule Cons.IH)
    show "\<forall>k<length ys. rest ! k \<le> ys ! k \<and> ys ! k \<le> rest ! k + slack jitter (Suc i + k)"
      using Cons.prems(2) xs by (metis add_Suc_shift add_Suc nth_Cons_Suc length_Cons Suc_mono)
  qed (use Cons.prems xs in simp)
  show ?case
    unfolding xs draw_remainder.simps
    by (rule yields_bindR [OF draw_one_yields [OF x]], rule yields_bindR [OF ys]) (rule yields_returnR)
qed (simp add: yields_returnR)

definition flight_ok :: "CoverProfile \<Rightarrow> bool" where
  "flight_ok p \<longleftrightarrow> cp_FullRemainder p \<noteq> []
     \<and> (cp_FullRemainderJitter p \<noteq> [] \<longrightarrow> length (cp_FullRemainderJitter p) = length (cp_FullRemainder p))"

lemma Draw_flight: "flight_ok p \<Longrightarrow> DrawFullRemainder p = draw_remainder (cp_FullRemainderJitter p) 0 (cp_FullRemainder p)"
  by (auto simp: DrawFullRemainder_def flight_ok_def)

lemma Draw_result: "DrawFullRemainder p t = Inr (xs, t') \<Longrightarrow> flight_ok p \<and> in_range p xs"
  by (auto simp: DrawFullRemainder_def flight_ok_def in_range_def failR_def split: if_splits dest!: draw_remainder_result)

lemma Draw_yields: "flight_ok p \<Longrightarrow> in_range p xs \<Longrightarrow> yields (DrawFullRemainder p) xs"
  unfolding Draw_flight in_range_def by (rule draw_remainder_yields) auto

lemma Draw_can: "flight_ok p \<Longrightarrow> can (DrawFullRemainder p)"
  by (rule yields_can [OF Draw_yields [of p "cp_FullRemainder p"]]) (auto simp: in_range_def slack_def)

text \<open>
  C26. The flights a profile draws are exactly the sequences of its records' lengths, each within its
  jitter above its baseline: every draw is one, every one is drawn by some entropy, and a profile
  without a measured flight draws none.
\<close>

theorem DrawFullRemainder_range:
  "(\<exists>r. \<forall>s. DrawFullRemainder p (r @ s) = Inr (xs, s)) \<longleftrightarrow> flight_ok p \<and> in_range p xs"
proof
  assume "\<exists>r. \<forall>s. DrawFullRemainder p (r @ s) = Inr (xs, s)"
  then obtain r where "DrawFullRemainder p (r @ []) = Inr (xs, [])" by blast
  then show "flight_ok p \<and> in_range p xs" by (rule Draw_result)
next
  assume "flight_ok p \<and> in_range p xs"
  then show "\<exists>r. \<forall>s. DrawFullRemainder p (r @ s) = Inr (xs, s)"
    using Draw_yields [of p xs] unfolding yields_def by blast
qed

section \<open>Adopting a probe\<close>

lemma Adopt_full:
  assumes "Adopt p res = Inr p'" and "pr_Full res"
  shows "p' = p\<lparr>cp_FullRemainder := pr_Remainder res, cp_FullRemainderJitter := pr_RemainderJitter res\<rparr> \<and> flight_ok p'
     \<and> length (cp_FullRemainder p') \<le> 4"
  using assms by (auto simp: Adopt_def flight_ok_def Let_def split: if_splits sum.splits)

lemma Adopt_resumed:
  assumes "Adopt p res = Inr p'" and "\<not> pr_Full res"
  shows "p' = p\<lparr>cp_ResumedRemainder := pr_Remainder res\<rparr> \<and> Valid p' = Inr ()"
  using assms by (auto simp: Adopt_def Let_def split: if_splits sum.splits)

text \<open>
  C27. Adopting keeps a valid profile valid and touches only the variant it measured. A full probe gives a
  profile that draws its flight. A resumed probe changes nothing at all: the only resumed
  remainder adopted is the one the profile has, however small its drift.
\<close>

theorem Adopt_keeps:
  assumes "Valid p = Inr ()" and "Adopt p res = Inr p'"
  shows "Valid p' = Inr () \<and> CoverFor (pr_Host res) = CoverFor (cp_Host p')
     \<and> (if pr_Full res
        then p' = p\<lparr>cp_FullRemainder := pr_Remainder res, cp_FullRemainderJitter := pr_RemainderJitter res\<rparr>
          \<and> (\<exists>r xs. \<forall>s. DrawFullRemainder p' (r @ s) = Inr (xs, s))
        else p' = p)"
proof -
  have host: "cp_Host p' = cp_Host p" using Adopt_full Adopt_resumed assms(2) by (cases "pr_Full res") fastforce+
  obtain a b where ab: "CoverFor (pr_Host res) = Inr a" "CoverFor (cp_Host p) = Inr b" "cp_Host a = cp_Host b"
    using assms(2) by (auto simp: Adopt_def split: if_splits sum.splits)
  have "CoverFor (pr_Host res) = CoverFor (cp_Host a)" unfolding CoverFor_idem [OF ab(1)] by (rule ab(1))
  also have "\<dots> = CoverFor (cp_Host p')" unfolding ab(3) host CoverFor_idem [OF ab(2)] by (rule ab(2) [symmetric])
  finally have same: "CoverFor (pr_Host res) = CoverFor (cp_Host p')" .
  show ?thesis
  proof (cases "pr_Full res")
    case True
    then have f: "p' = p\<lparr>cp_FullRemainder := pr_Remainder res, cp_FullRemainderJitter := pr_RemainderJitter res\<rparr>" "flight_ok p'"
      using Adopt_full [OF assms(2)] by auto
    have "Valid p' = Inr ()" using assms(1) unfolding f(1) Valid_Inr by simp
    moreover obtain xs where "yields (DrawFullRemainder p') xs" using Draw_can [OF f(2)] unfolding can_def ..
    ultimately show ?thesis using True same f(1) unfolding yields_def by auto
  next
    case False
    then have f: "p' = p\<lparr>cp_ResumedRemainder := pr_Remainder res\<rparr>" "Valid p' = Inr ()"
      using Adopt_resumed [OF assms(2)] by auto
    then have "cp_ResumedRemainder p' = cp_ResumedRemainder p"
      using assms(1) host unfolding Valid_Inr by auto
    then have "p' = p" unfolding f(1) by simp
    then show ?thesis using False same assms(1) by simp
  qed
qed

text \<open>Valid inputs for the witnesses: a measured profile and a probe of its certificate flight.\<close>

definition demo_host :: bytes where "demo_host = str ''www.microsoft.com''"

definition demo_profile :: CoverProfile where
  "demo_profile = \<lparr>cp_Host = str ''www.microsoft.com'', cp_CipherSuite = TLS_AES_256_GCM_SHA384, cp_BinderLen = 48,
       cp_TicketLen = 256, cp_PSKFirst = False, cp_ResumedRemainder = [32, 74], cp_FullRemainder = [],
       cp_FullRemainderJitter = [], cp_ResumedClientFlight = 164\<rparr>"

definition demo_probe :: "int list \<Rightarrow> ProbeResult" where
  "demo_probe rem = \<lparr>pr_Host = demo_host, pr_Full = True, pr_ServerHello = 1215, pr_Remainder = rem,
     pr_OpeningBurst = 5142, pr_RemainderJitter = map (\<lambda>_. 1) rem, pr_Elapsed = 0\<rparr>"

lemma demo_CoverFor: "CoverFor demo_host = Inr demo_profile"
  by code_simp

lemma demo_Valid: "Valid demo_profile = Inr ()"
proof -
  have "cp_Host demo_profile = demo_host" by (simp add: demo_profile_def demo_host_def)
  then show ?thesis unfolding Valid_Inr using demo_CoverFor by auto
qed

lemma demo_Adopt: "rem \<noteq> [] \<Longrightarrow> length rem \<le> 4 \<Longrightarrow> list_all (\<lambda>n. 5 < n) rem \<Longrightarrow>
    Adopt demo_profile (demo_probe rem) = Inr (demo_profile\<lparr>cp_FullRemainder := rem, cp_FullRemainderJitter := map (\<lambda>_. 1) rem\<rparr>)"
proof -
  assume r: "rem \<noteq> []" "length rem \<le> 4" "list_all (\<lambda>n. 5 < n) rem"
  have "CoverFor (pr_Host (demo_probe rem)) = Inr demo_profile" "CoverFor (cp_Host demo_profile) = Inr demo_profile"
    using demo_CoverFor by (simp_all add: demo_probe_def demo_profile_def demo_host_def)
  then show ?thesis using r by (auto simp: Adopt_def demo_probe_def list_ex_iff list_all_iff)
qed

theorem Adopt_keeps_witness:
  "\<exists>r xs. \<forall>s. DrawFullRemainder (demo_profile\<lparr>cp_FullRemainder := [3921], cp_FullRemainderJitter := [1]\<rparr>) (r @ s) = Inr (xs, s)"
  using Adopt_keeps [OF demo_Valid demo_Adopt [of "[3921]"]] by (auto simp: demo_probe_def)

text \<open>
  What a full probe is not checked for: that the server can emit the records it reports. A probe with a
  record of six bytes, or of more than one TLS record, is adopted, and \<open>writeSized\<close> then refuses
  every flight of the profile, so every full handshake it answers fails.
\<close>

lemma adopted_unservable:
  assumes "n = 6 \<or> n = 20000"
  shows "\<exists>p'. Adopt demo_profile (demo_probe [n]) = Inr p' \<and> CanEmitFullHandshake p'
     \<and> (\<forall>t xs t'. DrawFullRemainder p' t = Inr (xs, t') \<longrightarrow> \<not> list_all can_emit xs)"
proof -
  let ?p = "demo_profile\<lparr>cp_FullRemainder := [n], cp_FullRemainderJitter := [1]\<rparr>"
  have "Adopt demo_profile (demo_probe [n]) = Inr ?p" using demo_Adopt [of "[n]"] assms by auto
  moreover have "\<not> list_all can_emit xs" if d: "DrawFullRemainder ?p t = Inr (xs, t')" for t xs t'
  proof -
    have "length xs = 1 \<and> n \<le> xs ! 0 \<and> xs ! 0 \<le> n + 1"
      using Draw_result [OF d] by (auto simp: in_range_def slack_def)
    then show ?thesis using assms by (cases xs) (auto simp: can_emit_def)
  qed
  ultimately show ?thesis by (auto simp: CanEmitFullHandshake_def)
qed

section \<open>The ticket the gate spends is the ticket that authenticated\<close>

lemma validated_resumed:
  assumes "validateClientHello p h = Inr ticket" and "verifyAt h k maxAge now = Inr r"
  shows "open_ticket k ticket = Inr (ar_ClientID r, ar_PSK r, ar_Issued r) \<and> int (length ticket) = cp_TicketLen p"
  using assms(1) assms(2) [unfolded verifyAt_iff_aux]
  by (auto simp: validateClientHello_def validateResumedClientHello_def res_simps split: if_splits option.splits)

lemma validated_full:
  assumes "validateClientHello p h = Inr ticket" and "verifyECHAt h k maxAge now = Inr r"
  shows "open_ticket k ticket = Inr (ar_ClientID r, ar_PSK r, ar_Issued r) \<and> CanEmitFullHandshake p"
  using assms(1) assms(2) [unfolded verifyECHAt_iff_aux]
  by (auto simp: validateClientHello_def validateFullClientHello_def res_simps split: if_splits option.splits)

end
