(* ===== verification/Twiddle.thy ===== *)
theory Twiddle
  imports EchCarrier
begin

text \<open>
  The emission of \<^verbatim>\<open>src/twiddle.go\<close>: \<open>Twiddle\<close> rewrites a harvested record for one connection. Its
  correctness is end to end: what it emits parses, and the server that holds the ticket key accepts
  it and reads the public half of the ephemeral key the client kept. The bookkeeping for that is a
  size bound and the shape of the key_share extension, each kept by every step.
\<close>

section \<open>Operations\<close>

record Options =
  opt_CoverSNI :: bytes
  opt_Credential :: Credential
  opt_TicketLen :: nat
  opt_BinderLen :: nat
  opt_FullHandshake :: bool

definition Twiddle :: "kex \<Rightarrow> bytes \<Rightarrow> Options \<Rightarrow> (bytes \<times> bytes) rnd" where
  "Twiddle K harvested opt =
     bindR (liftR (ParseClientHello harvested)) (\<lambda>h.
     bindR (if opt_CoverSNI opt \<noteq> [] then liftR (SetSNI (opt_CoverSNI opt) h) else returnR h) (\<lambda>h.
     bindR (Rerandomize K h) (\<lambda>h.
     bindR (Shuffle h) (\<lambda>h.
     bindR (SetKeyShare K h) (\<lambda>(eph, h).
     if opt_FullHandshake opt
     then let (h, _) = dropExtension ExtPreSharedKey h
          in if length (cr_FullTicket (opt_Credential opt)) \<noteq> FullTicketLen
             then failR (Err ''twiddle: credential carries no usable full ticket; it cannot open a full handshake'')
             else bindR (SetECHTicketAuth (cr_FullTicket (opt_Credential opt)) (cr_PSK (opt_Credential opt)) h) (\<lambda>h.
                  returnR (Marshal h, eph))
     else bindR (SetTicketAuth (opt_Credential opt) (opt_BinderLen opt) h) (\<lambda>h.
          returnR (Marshal h, eph)))))))"

section \<open>Sizes\<close>

definition fits :: "ClientHello \<Rightarrow> nat \<Rightarrow> bool" where
  "fits h n \<longleftrightarrow> length (Random h) = 32 \<and> length (SessionID h) < 256 \<and> length (CipherSuites h) * 2 < 65536
     \<and> length (Compression h) < 256
     \<and> 38 + length (SessionID h) + 2 * length (CipherSuites h) + length (Compression h)
        + length (exts_bytes (Extensions h)) \<le> n"

definition exts_size :: "nat list \<Rightarrow> nat" where
  "exts_size ls = sum_list (map (\<lambda>l. 4 + l) ls)"

lemma length_exts_bytes: "length (exts_bytes es) = exts_size (map (length \<circ> ExtData) es)"
  by (induction es) (auto simp: exts_size_def)

lemma exts_bytes_member: "e \<in> set es \<Longrightarrow> length (ExtData e) + 4 \<le> length (exts_bytes es)"
  by (induction es) auto

lemma body_len_eq:
  "length (Random h) = 32 \<Longrightarrow> body_len h = 40 + length (SessionID h) + 2 * length (CipherSuites h)
     + length (Compression h) + length (exts_bytes (Extensions h))"
  by (simp add: body_len_def hello_prefix_def)

lemma fits_wf: "fits h n \<Longrightarrow> n < 65530 \<Longrightarrow> wf_hello h"
  by (auto simp: fits_def wf_hello_def body_len_eq dest: exts_bytes_member)

lemma wf_fits: "wf_hello h \<Longrightarrow> fits h (body_len h)"
  by (auto simp: fits_def wf_hello_def body_len_eq)

lemma fits_mono: "fits h n \<Longrightarrow> n \<le> m \<Longrightarrow> fits h m"
  by (auto simp: fits_def)

lemma fits_frame:
  assumes "fits h n" and "length (Random h') = 32" and "length (SessionID h') = length (SessionID h)"
    and "length (CipherSuites h') = length (CipherSuites h)" and "Compression h' = Compression h"
    and "length (exts_bytes (Extensions h')) \<le> length (exts_bytes (Extensions h)) + c"
  shows "fits h' (n + c)"
  using assms by (auto simp: fits_def)

lemma set_first_size:
  "length (exts_bytes (set_first u d es)) \<le> length (exts_bytes es) + length d"
  by (induction es) auto

lemma set_first_grow:
  "find (\<lambda>e. ExtType e = u) es = Some e \<Longrightarrow> length d \<le> length (ExtData e) + c \<Longrightarrow>
     length (exts_bytes (set_first u d es)) \<le> length (exts_bytes es) + c"
  by (induction es) (auto split: if_splits)

lemma fits_SetExtData: "fits h n \<Longrightarrow> fits (SetExtData u d h) (n + length d)"
  by (rule fits_frame) (auto simp: SetExtData_sel fits_def set_first_size)

lemma set_first_same_size:
  "find (\<lambda>e. ExtType e = u) es = Some e \<Longrightarrow> length d = length (ExtData e) \<Longrightarrow>
     length (exts_bytes (set_first u d es)) = length (exts_bytes es)"
  by (simp add: length_exts_bytes set_first_lengths)

lemma fits_SetExtData_same:
  assumes "fits h n" and "Find u h = Some e" and "length d = length (ExtData e)"
  shows "fits (SetExtData u d h) n"
proof -
  have "fits (SetExtData u d h) (n + 0)"
    by (rule fits_frame [OF assms(1)])
       (use assms in \<open>auto simp: SetExtData_sel fits_def Find_def set_first_same_size\<close>)
  then show ?thesis by simp
qed

text \<open>What each step adds.\<close>

lemma fits_SetSNI:
  assumes "SetSNI name h = Inr h'" and "fits h n"
  shows "fits h' (n + (5 + length name))"
proof -
  have "h' = SetExtData ExtServerName (sni_body name) h" using assms(1) by (auto simp: SetSNI_eq split: if_splits)
  moreover have "length (sni_body name) = 5 + length name" by (simp add: sni_body_def)
  ultimately show ?thesis using fits_SetExtData [OF assms(2), of ExtServerName "sni_body name"] by simp
qed

lemma rerandKeyShare_loop_length: "rerandKeyShare_loop K p d t = Inr (d', t') \<Longrightarrow> length d' = length d"
proof (induction K p d arbitrary: t rule: rerandKeyShare_loop.induct)
  case (1 K p d)
  show ?case
  proof (cases "p + 4 \<le> length d")
    case False
    with "1.prems" show ?thesis by (subst (asm) rerandKeyShare_loop.simps) (simp add: returnR_eq_Inr)
  next
    case True
    let ?n = "unat (Uint16 (slice d (p + 2) (p + 4)))"
    let ?f = "freshKeyShare K (Uint16 (slice d p (p + 2))) (slice d (p + 4) (p + 4 + ?n))"
    have in_range: "\<not> length d < p + 4 + ?n"
      using "1.prems" True by (subst (asm) rerandKeyShare_loop.simps) (auto simp: Let_def failR_eq_Inr split: if_splits)
    then have "bindR ?f (\<lambda>k. rerandKeyShare_loop K (p + 4 + ?n) (go_copy (p + 4) k d)) t = Inr (d', t')"
      using "1.prems" True by (subst (asm) rerandKeyShare_loop.simps) (simp add: Let_def)
    then obtain k t1 where "rerandKeyShare_loop K (p + 4 + ?n) (go_copy (p + 4) k d) t1 = Inr (d', t')"
      unfolding bindR_eq_Inr by blast
    from "1.IH" [OF True refl refl in_range this] True show ?thesis by simp
  qed
qed

lemma rerandKeyShare_length: "rerandKeyShare K d t = Inr (d', t') \<Longrightarrow> length d' = length d"
  by (auto simp: rerandKeyShare_def failR_eq_Inr dest: rerandKeyShare_loop_length split: if_splits)

lemma rerandECHGrease_length: "rerandECHGrease d t = Inr (d', t') \<Longrightarrow> length d' \<le> length d + 282"
  using rerandECHGrease_result [of d t d' t'] by (auto simp: ech_body_def echGREASELengths_def)

lemma fits_rerandGREASE:
  assumes "rerandGREASE h t = Inr (h', t')" and "fits h n"
  shows "fits h' n"
proof -
  obtain cipher es where "CipherSuites h' = map (regrease_u16 cipher) (CipherSuites h)"
    and d: "map ExtData es = map ExtData (Extensions h)"
    and l: "map (length \<circ> ExtData) (Extensions h') = map (length \<circ> ExtData) es"
    and "Random h' = Random h" "SessionID h' = SessionID h" "Compression h' = Compression h"
    by (rule rerandGREASE_result [OF assms(1)]) (auto simp: hello_simps on_ext_lengths)
  moreover have "map (length \<circ> ExtData) (Extensions h') = map (length \<circ> ExtData) (Extensions h)"
    using l arg_cong [OF d, of "map length"] by simp
  ultimately show ?thesis using assms(2) by (simp add: fits_def length_exts_bytes)
qed

lemma fits_Rerandomize:
  assumes "Rerandomize K h t = Inr (h', t')" and "fits h n"
  shows "fits h' (n + 282)"
proof -
  obtain h1 t1 h2 t2 h3 t3 r where g: "rerandGREASE h t = Inr (h1, t1)" and r: "length r = 32"
    and h2: "h2 = h1\<lparr>Random := r, SessionID := SessionID h2\<rparr>" "length (SessionID h2) = length (SessionID h1)"
    and k: "on_extR ExtKeyShare (rerandKeyShare K) h2 t2 = Inr (h3, t3)"
    and e: "on_extR ExtECH rerandECHGrease h3 t3 = Inr (h', t')"
    by (rule Rerandomize_steps [OF assms(1)])
  have f1: "fits h1 n" by (rule fits_rerandGREASE [OF g assms(2)])
  have f2: "fits h2 n"
  proof -
    have "fits (h1\<lparr>Random := r, SessionID := SessionID h2\<rparr>) n"
      using f1 r h2(2) by (auto simp: fits_def)
    then show ?thesis by (simp only: h2(1) [symmetric])
  qed
  have f3: "fits h3 n"
    using on_extR_result [OF k] f2 fits_SetExtData_same rerandKeyShare_length by blast
  from on_extR_result [OF e] show ?thesis
  proof
    assume "Find ExtECH h3 = None \<and> h' = h3"
    then show ?thesis using f3 fits_mono by simp
  next
    assume "\<exists>e d. Find ExtECH h3 = Some e \<and> rerandECHGrease (ExtData e) t3 = Inr (d, t') \<and> h' = SetExtData ExtECH d h3"
    then obtain x d where x: "Find ExtECH h3 = Some x" "rerandECHGrease (ExtData x) t3 = Inr (d, t')"
      "h' = SetExtData ExtECH d h3" by blast
    have "length (exts_bytes (Extensions h')) \<le> length (exts_bytes (Extensions h3)) + 282"
      using x rerandECHGrease_length [OF x(2)] set_first_grow [of ExtECH "Extensions h3" x d 282]
      by (simp add: SetExtData_sel Find_def)
    with x f3 show ?thesis by (intro fits_frame [OF f3]) (auto simp: SetExtData_sel fits_def)
  qed
qed

lemma fits_Shuffle:
  assumes "Shuffle h t = Inr (h', t')" and "fits h n"
  shows "fits h' n"
proof (rule Shuffle_result [OF assms(1)])
  fix a mid tail mid'
  assume p: "shuffle_parts (Extensions h) a mid tail" and m: "mset mid' = mset mid"
    and h': "h' = h\<lparr>Extensions := a # mid' @ tail\<rparr>"
  have "length (exts_bytes mid') = length (exts_bytes mid)"
  proof -
    have "mset (map (length \<circ> ExtData) mid') = mset (map (length \<circ> ExtData) mid)" using m by (metis mset_map)
    then have "mset (map (\<lambda>l. 4 + l) (map (length \<circ> ExtData) mid')) = mset (map (\<lambda>l. 4 + l) (map (length \<circ> ExtData) mid))"
      by (metis mset_map)
    then show ?thesis unfolding length_exts_bytes exts_size_def by (metis sum_mset_sum_list)
  qed
  with p h' assms(2) show ?thesis by (simp add: fits_def shuffle_parts_def)
qed

lemma set_share_loop_length: "set_share_loop pub p d = Inr d' \<Longrightarrow> length d' = length d"
proof (induction pub p d rule: set_share_loop.induct)
  case (1 pub p d)
  let ?n = "unat (Uint16 (slice d (p + 2) (p + 4)))"
  show ?case
  proof (cases "p + 4 \<le> length d \<and> \<not> length d < p + 4 + ?n
      \<and> \<not> (Uint16 (slice d p (p + 2)) = GroupX25519 \<and> ?n = length pub)")
    case True
    then have "set_share_loop pub p d = set_share_loop pub (p + 4 + ?n) d"
      by (subst set_share_loop.simps) (auto simp: Let_def)
    with "1.prems" have "set_share_loop pub (p + 4 + ?n) d = Inr d'" by (rule back_subst [of "\<lambda>x. x = _"])
    with "1.IH" True show ?thesis by blast
  next
    case False
    then show ?thesis
      using "1.prems" by (subst (asm) set_share_loop.simps) (auto simp: Let_def split: if_splits)
  qed
qed

lemma fits_SetKeyShare: "SetKeyShare K h t = Inr ((priv, h'), t') \<Longrightarrow> fits h n \<Longrightarrow> fits h' n"
  by (auto simp: SetKeyShare_def bindR_eq_Inr returnR_eq_Inr liftR_eq_Inr failR_eq_Inr split: option.splits
      dest: set_share_loop_length intro: fits_SetExtData_same)

lemma filter_exts_size: "length (exts_bytes (filter P es)) \<le> length (exts_bytes es)"
  by (induction es) auto

lemma fits_dropExtension: "fits h n \<Longrightarrow> fits (fst (dropExtension u h)) n"
  using filter_exts_size [of "\<lambda>e. ExtType e \<noteq> u" "Extensions h"]
  by (auto simp: fits_def dropExtension_def Let_def)

lemma fits_SetECHTicketAuth:
  assumes "SetECHTicketAuth ticket psk h t = Inr (h', t')" and "fits h n"
  shows "fits h' n"
proof (rule SetECHTicketAuth_result [OF assms(1)])
  fix e p m pad h0
  assume e: "Find ExtECH h = Some e" "echPayload (ExtData e) = Inr (p, m)" "length ticket = FullTicketLen"
    "length pad = m - FullTicketLen" "FullTicketLen \<le> m"
    and h0: "h0 = (SetExtData ExtECH (go_copy (p + length ticket) pad (go_copy p ticket (ExtData e))) h)\<lparr>Random := replicate 32 0\<rparr>"
    and h': "h' = h0\<lparr>Random := hmac SHA256 (fullMACKey psk) (Marshal h0)\<rparr>"
  have "length (go_copy (p + length ticket) pad (go_copy p ticket (ExtData e))) = length (ExtData e)"
    using e echPayload_bounds [OF e(2)] by simp
  from fits_SetExtData_same [OF assms(2) e(1) this] show ?thesis
    by (simp add: h' h0 fits_def)
qed

lemma fits_setPSK:
  "fits h n \<Longrightarrow> length age = 4 \<Longrightarrow> fits (setPSK h ticket age b) (n + (15 + length ticket + length b))"
  using filter_exts_size [of "\<lambda>e. ExtType e \<noteq> ExtPreSharedKey" "Extensions h"]
  by (auto simp: fits_def setPSK_eq psk_body_def)

lemma fits_SetTicketAuth:
  assumes "SetTicketAuth cred m h t = Inr (h', t')" and "fits h n"
  shows "fits h' (n + (63 + length (cr_Ticket cred)))"
proof -
  obtain alg age where a: "binderHash m = Inr alg" "length age = 4"
    and h': "h' = setPSK h (cr_Ticket cred) age (binder_for alg (cr_PSK cred) h (cr_Ticket cred) age m)"
    using SetTicketAuth_result [OF assms(1)] by blast
  have "m \<le> 48" using a(1) by (auto simp: binderHash_def split: if_splits)
  moreover have "length (binder_for alg (cr_PSK cred) h (cr_Ticket cred) age m) = m"
    using binderHash_size [OF a(1)] by (simp add: binder_for_def)
  ultimately show ?thesis
    using fits_setPSK [OF assms(2) a(2), of "cr_Ticket cred" "binder_for alg (cr_PSK cred) h (cr_Ticket cred) age m"] h'
    by (auto elim: fits_mono)
qed

section \<open>An extension that is the only one of its type\<close>

definition sole :: "u16 \<Rightarrow> bytes \<Rightarrow> ClientHello \<Rightarrow> bool" where
  "sole u d h \<longleftrightarrow> filter (\<lambda>e. ExtType e = u) (Extensions h) = [Extension u d]"

lemma find_of_filter: "filter P xs = [x] \<Longrightarrow> find P xs = Some x"
  by (induction xs) (auto split: if_splits)

lemma sole_Find: "sole u d h \<Longrightarrow> Find u h = Some (Extension u d)"
  by (simp add: sole_def Find_def find_of_filter)

lemma filter_set_first:
  "filter (\<lambda>e. ExtType e = u) (set_first u' d es) =
     (if u' = u then set_first u d (filter (\<lambda>e. ExtType e = u) es) else filter (\<lambda>e. ExtType e = u) es)"
  by (induction es) auto

lemma sole_SetExtData [hello_simps]: "u \<noteq> u' \<Longrightarrow> sole u d (SetExtData u' d' h) = sole u d h"
  by (auto simp: sole_def SetExtData_def filter_set_first)

lemma sole_SetExtData_same: "sole u d h \<Longrightarrow> sole u d' (SetExtData u d' h)"
  by (simp add: sole_def SetExtData_def filter_set_first)

lemma sole_same_exts: "Extensions h' = Extensions h \<Longrightarrow> sole u d h' = sole u d h"
  by (simp add: sole_def)

lemma sole_SetSNI:
  "SetSNI name h = Inr h' \<Longrightarrow> (u \<noteq> ExtServerName \<longrightarrow> sole u d h' = sole u d h)
     \<and> (sole ExtServerName d h \<longrightarrow> sole ExtServerName (sni_body name) h')"
  by (auto simp: SetSNI_eq hello_simps sole_SetExtData_same split: if_splits)

lemma filter_types_only:
  assumes "list_all2 (\<lambda>a b. ExtType a = u \<longleftrightarrow> ExtType b = u) es es'" and "map ExtData es' = map ExtData es"
  shows "map ExtData (filter (\<lambda>e. ExtType e = u) es') = map ExtData (filter (\<lambda>e. ExtType e = u) es)"
  using assms by (induction rule: list_all2_induct) auto

lemma regreased_filter:
  assumes "regreased e1 e2 (map ExtType es) (map ExtType es')" and "map ExtData es' = map ExtData es"
    and "\<not> IsGREASE u" and "filter (\<lambda>e. ExtType e = u) es = [Extension u d]"
  shows "filter (\<lambda>e. ExtType e = u) es' = [Extension u d]"
proof -
  have "list_all2 (\<lambda>a b. ExtType a = u \<longleftrightarrow> ExtType b = u) es es'"
    using assms(1,3) unfolding regreased_def list_all2_map1 list_all2_map2
    by (elim conjE list_all2_mono) (auto split: if_splits)
  from filter_types_only [OF this assms(2)] assms(4)
  have "map ExtData (filter (\<lambda>e. ExtType e = u) es') = [d]" by simp
  then obtain e where e: "filter (\<lambda>e. ExtType e = u) es' = [e]" "ExtData e = d" by auto
  have "e \<in> set (filter (\<lambda>e. ExtType e = u) es')" unfolding e(1) by simp
  then have "ExtType e = u" by (simp only: set_filter mem_Collect_eq)
  with e show ?thesis by (cases e) simp
qed

lemma sole_on_ext [hello_simps]: "u \<noteq> u' \<Longrightarrow> sole u d (on_ext u' f h) = sole u d h"
  by (auto simp: on_ext_def hello_simps split: option.split)

lemma sole_on_ext_same: "sole u d h \<Longrightarrow> sole u (f d) (on_ext u f h)"
  by (auto simp: on_ext_def sole_Find intro: sole_SetExtData_same)

lemma sole_rerandGREASE:
  assumes "rerandGREASE h t = Inr (h', t')" and "\<not> IsGREASE u"
    and "u \<notin> {ExtSupportedGroups, ExtSupportedVersions, ExtSignatureAlgorithms}" and "sole u d h"
  shows "\<exists>grp. IsGREASE grp \<and> sole u (if u = ExtKeyShare then replaceGREASEKeyShareGroup d grp else d) h'"
proof -
  obtain cipher e1 e2 grp version sigAlg es where g: "IsGREASE grp"
    and r: "regreased e1 e2 (map ExtType (Extensions h)) (map ExtType es)" "map ExtData es = map ExtData (Extensions h)"
    and h': "h' = on_ext ExtSignatureAlgorithms (\<lambda>d. replaceGREASEInU16List d 2 sigAlg)
        (on_ext ExtSupportedVersions (\<lambda>d. replaceGREASEInU16List d 1 version)
        (on_ext ExtKeyShare (\<lambda>d. replaceGREASEKeyShareGroup d grp)
        (on_ext ExtSupportedGroups (\<lambda>d. replaceGREASEInU16List d 2 grp)
          (h\<lparr>CipherSuites := map (regrease_u16 cipher) (CipherSuites h), Extensions := es\<rparr>))))"
    using rerandGREASE_result [OF assms(1)] by metis
  have "sole u d (h\<lparr>CipherSuites := map (regrease_u16 cipher) (CipherSuites h), Extensions := es\<rparr>)"
    using regreased_filter [OF r assms(2)] assms(4) by (simp add: sole_def)
  then have "sole u d (on_ext ExtSupportedGroups (\<lambda>d. replaceGREASEInU16List d 2 grp)
      (h\<lparr>CipherSuites := map (regrease_u16 cipher) (CipherSuites h), Extensions := es\<rparr>))"
    using assms(3) by (simp add: hello_simps)
  then have "sole u (if u = ExtKeyShare then replaceGREASEKeyShareGroup d grp else d) h'"
    using assms(3) sole_on_ext_same [of ExtKeyShare d _ "\<lambda>d. replaceGREASEKeyShareGroup d grp"]
    by (cases "u = ExtKeyShare") (simp_all add: h' hello_simps)
  with g show ?thesis by blast
qed

lemma sole_on_extR:
  assumes "on_extR u' f h t = Inr (h', t')"
  shows "u \<noteq> u' \<Longrightarrow> sole u d h' = sole u d h"
    and "sole u' d h \<Longrightarrow> \<exists>d'. f d t = Inr (d', t') \<and> sole u' d' h'"
  using on_extR_result [OF assms] by (auto simp: hello_simps sole_Find intro: sole_SetExtData_same)

lemma sole_Rerandomize:
  assumes "Rerandomize K h t = Inr (h', t')" and "\<not> IsGREASE u"
    and "u \<notin> {ExtSupportedGroups, ExtSupportedVersions, ExtSignatureAlgorithms, ExtECH}" and "sole u d h"
  shows "if u = ExtKeyShare
     then \<exists>grp d' t1 t2. IsGREASE grp \<and> rerandKeyShare K (replaceGREASEKeyShareGroup d grp) t1 = Inr (d', t2) \<and> sole u d' h'
     else sole u d h'"
proof -
  obtain h1 t1 h2 t2 h3 t3 r where g: "rerandGREASE h t = Inr (h1, t1)"
    and h2: "h2 = h1\<lparr>Random := r, SessionID := SessionID h2\<rparr>"
    and k: "on_extR ExtKeyShare (rerandKeyShare K) h2 t2 = Inr (h3, t3)"
    and e: "on_extR ExtECH rerandECHGrease h3 t3 = Inr (h', t')"
    by (rule Rerandomize_steps [OF assms(1)])
  obtain grp where grp: "IsGREASE grp" "sole u (if u = ExtKeyShare then replaceGREASEKeyShareGroup d grp else d) h1"
    using sole_rerandGREASE [OF g assms(2) _ assms(4)] assms(3) by auto
  have s2: "sole u d' h2 = sole u d' h1" for d' by (rule sole_same_exts) (simp add: arg_cong [OF h2, of Extensions])
  have s4: "sole u d' h' = sole u d' h3" for d' using sole_on_extR(1) [OF e] assms(3) by simp
  show ?thesis
  proof (cases "u = ExtKeyShare")
    case True
    then have "sole ExtKeyShare (replaceGREASEKeyShareGroup d grp) h2" using grp(2) s2 by simp
    from sole_on_extR(2) [OF k this] True s4 grp(1) show ?thesis by auto
  next
    case False
    then have "sole u d h2" using grp(2) s2 by simp
    with False s4 sole_on_extR(1) [OF k False] show ?thesis by simp
  qed
qed

lemma sole_Shuffle:
  assumes "Shuffle h t = Inr (h', t')" and "sole u d h"
  shows "sole u d h'"
proof (rule Shuffle_result [OF assms(1)])
  fix a mid tail mid'
  assume "shuffle_parts (Extensions h) a mid tail" and m: "mset mid' = mset mid"
    and h': "h' = h\<lparr>Extensions := a # mid' @ tail\<rparr>"
  then have "mset (Extensions h') = mset (Extensions h)" by (simp add: shuffle_parts_def)
  then have "mset (filter (\<lambda>e. ExtType e = u) (Extensions h')) = mset [Extension u d]"
    using assms(2) by (metis mset_filter sole_def)
  then have "mset (filter (\<lambda>e. ExtType e = u) (Extensions h')) = {#Extension u d#}"
    by (simp only: mset.simps)
  then show ?thesis unfolding sole_def by (simp only: mset_single_iff)
qed

section \<open>The key share through the steps\<close>

text \<open>A key_share body as browsers send it: whole entries, the first X25519 one of 32 bytes.\<close>

definition share_ok :: "bytes \<Rightarrow> bool" where
  "share_ok d \<longleftrightarrow> (\<exists>hdr ks k. d = hdr @ exts_bytes ks \<and> length hdr = 2
     \<and> (\<forall>k\<in>set ks. length (ExtData k) < 65536)
     \<and> find (\<lambda>k. ExtType k = GroupX25519) ks = Some k \<and> length (ExtData k) = 32)"

lemma not_GREASE_x25519: "\<not> IsGREASE GroupX25519"
  by (simp add: IsGREASE_def)

lemma find_regroup:
  assumes "IsGREASE v"
  shows "find (\<lambda>k. ExtType k = GroupX25519) (map (regroup v) ks)
     = map_option (regroup v) (find (\<lambda>k. ExtType k = GroupX25519) ks)"
proof -
  have "ExtType (regroup v k) = GroupX25519 \<longleftrightarrow> ExtType k = GroupX25519" for k
    using assms not_GREASE_x25519 by (auto simp: regroup_def regrease_u16_def)
  then show ?thesis by (induction ks) auto
qed

lemma share_ok_regroup:
  assumes "share_ok d" and "IsGREASE v"
  shows "share_ok (replaceGREASEKeyShareGroup d v)"
proof -
  obtain hdr ks k where d: "d = hdr @ exts_bytes ks" "length hdr = 2" "\<forall>k\<in>set ks. length (ExtData k) < 65536"
    "find (\<lambda>k. ExtType k = GroupX25519) ks = Some k" "length (ExtData k) = 32"
    using assms(1) unfolding share_ok_def by blast
  have "\<forall>k\<in>set (map (regroup v) ks). length (ExtData k) < 65536" using d(3) by (auto simp: regroup_def)
  moreover have "find (\<lambda>k. ExtType k = GroupX25519) (map (regroup v) ks) = Some (regroup v k)"
    using find_regroup [OF assms(2)] d(4) by simp
  moreover have "length (ExtData (regroup v k)) = 32" using d(5) by (simp add: regroup_def)
  ultimately show ?thesis
    unfolding share_ok_def d(1) replace_in_key_share [OF d(3,2)] using d(2) by blast
qed

lemma share_ok_rerand:
  assumes "share_ok d" and "kex_ok K" and "rerandKeyShare K d t = Inr (d', t')"
  shows "share_ok d'"
proof -
  obtain hdr ks k where d: "d = hdr @ exts_bytes ks" "length hdr = 2" "\<forall>k\<in>set ks. length (ExtData k) < 65536"
    "find (\<lambda>k. ExtType k = GroupX25519) ks = Some k" "length (ExtData k) = 32"
    using assms(1) unfolding share_ok_def by blast
  obtain ks' where ks': "d' = hdr @ exts_bytes ks'" "list_all2 (fresh_ok K) ks ks'"
    using rerandKeyShare_fresh [OF assms(2) d(3,2)] assms(3) d(1) by blast
  have "\<forall>k\<in>set ks'. length (ExtData k) < 65536"
    using ks'(2) d(3) by (induction rule: list_all2_induct) (auto simp: fresh_ok_def)
  moreover have "\<exists>k'. find (\<lambda>k. ExtType k = GroupX25519) ks' = Some k' \<and> length (ExtData k') = 32"
    using ks'(2) d(4,5) by (induction rule: list_all2_induct) (auto simp: fresh_ok_def split: if_splits)
  ultimately show ?thesis unfolding share_ok_def ks'(1) using d(2) by blast
qed

section \<open>End to end\<close>

lemma Twiddle_steps:
  assumes "Twiddle K harvested opt t = Inr ((wire, eph), t')"
  obtains h0 h1 h2 h3 h4 h5 t1 t2 t3 t4 where "ParseClientHello harvested = Inr h0"
    "h1 = h0 \<and> opt_CoverSNI opt = [] \<or> opt_CoverSNI opt \<noteq> [] \<and> SetSNI (opt_CoverSNI opt) h0 = Inr h1"
    "Rerandomize K h1 t = Inr (h2, t1)" "Shuffle h2 t1 = Inr (h3, t2)" "SetKeyShare K h3 t2 = Inr ((eph, h4), t3)"
    "if opt_FullHandshake opt
     then SetECHTicketAuth (cr_FullTicket (opt_Credential opt)) (cr_PSK (opt_Credential opt))
            (fst (dropExtension ExtPreSharedKey h4)) t3 = Inr (h5, t4)
     else SetTicketAuth (opt_Credential opt) (opt_BinderLen opt) h4 t3 = Inr (h5, t4)"
    "wire = Marshal h5"
proof -
  from assms obtain h0 h1 ta where h0: "ParseClientHello harvested = Inr h0"
    and h1: "(if opt_CoverSNI opt \<noteq> [] then liftR (SetSNI (opt_CoverSNI opt) h0) else returnR h0) t = Inr (h1, ta)"
    and rest: "bindR (Rerandomize K h1) (\<lambda>h.
     bindR (Shuffle h) (\<lambda>h.
     bindR (SetKeyShare K h) (\<lambda>(eph, h).
     if opt_FullHandshake opt
     then let (h, _) = dropExtension ExtPreSharedKey h
          in if length (cr_FullTicket (opt_Credential opt)) \<noteq> FullTicketLen
             then failR (Err ''twiddle: credential carries no usable full ticket; it cannot open a full handshake'')
             else bindR (SetECHTicketAuth (cr_FullTicket (opt_Credential opt)) (cr_PSK (opt_Credential opt)) h) (\<lambda>h.
                  returnR (Marshal h, eph))
     else bindR (SetTicketAuth (opt_Credential opt) (opt_BinderLen opt) h) (\<lambda>h.
          returnR (Marshal h, eph))))) ta = Inr ((wire, eph), t')"
    unfolding Twiddle_def bindR_eq_Inr [of "liftR _"] bindR_eq_Inr [of "if _ then _ else _"] liftR_eq_Inr
    by blast
  have ta: "ta = t" using h1 by (auto simp: returnR_eq_Inr liftR_eq_Inr split: if_splits)
  from rest [unfolded ta] obtain h2 t1 h3 t2 e h4 t3 where "Rerandomize K h1 t = Inr (h2, t1)" "Shuffle h2 t1 = Inr (h3, t2)"
    "SetKeyShare K h3 t2 = Inr ((e, h4), t3)"
    and fin: "(if opt_FullHandshake opt
     then let (h, _) = dropExtension ExtPreSharedKey h4
          in if length (cr_FullTicket (opt_Credential opt)) \<noteq> FullTicketLen
             then failR (Err ''twiddle: credential carries no usable full ticket; it cannot open a full handshake'')
             else bindR (SetECHTicketAuth (cr_FullTicket (opt_Credential opt)) (cr_PSK (opt_Credential opt)) h) (\<lambda>h.
                  returnR (Marshal h, e))
     else bindR (SetTicketAuth (opt_Credential opt) (opt_BinderLen opt) h4) (\<lambda>h.
          returnR (Marshal h, e))) t3 = Inr ((wire, eph), t')"
    unfolding bindR_eq_Inr [of "Rerandomize _ _"] bindR_eq_Inr [of "Shuffle _"] bindR_eq_Inr [of "SetKeyShare _ _"] by auto
  moreover from fin obtain h5 t4 where "e = eph" "wire = Marshal h5" "if opt_FullHandshake opt
     then SetECHTicketAuth (cr_FullTicket (opt_Credential opt)) (cr_PSK (opt_Credential opt))
            (fst (dropExtension ExtPreSharedKey h4)) t3 = Inr (h5, t4)
     else SetTicketAuth (opt_Credential opt) (opt_BinderLen opt) h4 t3 = Inr (h5, t4)"
    by (auto simp: Let_def bindR_eq_Inr returnR_eq_Inr failR_eq_Inr split: if_splits prod.splits)
  ultimately show thesis
    using that h0 h1 by (auto simp: liftR_eq_Inr returnR_eq_Inr split: if_splits)
qed

lemma parsed_fits: "ParseClientHello rec = Inr h \<Longrightarrow> fits h (length rec)"
proof -
  assume "ParseClientHello rec = Inr h"
  then obtain v1 v2 t where "wf_hello h" "rec = hello_wire v1 v2 t h" using parse_iff_wire_aux by blast
  then show ?thesis
    using wf_fits [of h] by (auto simp: hello_wire_def body_len_def elim: fits_mono)
qed

text \<open>The share and the name, up to the point where the authenticator is installed.\<close>

lemma emitted_share:
  assumes "kex_ok K" and "sole ExtKeyShare d h0" and "share_ok d"
    and "h1 = h0 \<and> name = [] \<or> name \<noteq> [] \<and> SetSNI name h0 = Inr h1"
    and "Rerandomize K h1 t = Inr (h2, t1)" and "Shuffle h2 t1 = Inr (h3, t2)"
    and "SetKeyShare K h3 t2 = Inr ((eph, h4), t3)"
  shows "KeyShare h4 = Inr (x25519_public K eph)"
proof -
  have ng: "\<not> IsGREASE ExtKeyShare" by (simp add: IsGREASE_def)
  have "sole ExtKeyShare d h1" using assms(2,4) sole_SetSNI [of name h0 h1 ExtKeyShare d] by auto
  from sole_Rerandomize [OF assms(5) ng _ this] obtain grp d' u1 u2 where g: "IsGREASE grp"
    and r: "rerandKeyShare K (replaceGREASEKeyShareGroup d grp) u1 = Inr (d', u2)" and s: "sole ExtKeyShare d' h2"
    by auto
  have "share_ok d'" by (rule share_ok_rerand [OF share_ok_regroup [OF assms(3) g] assms(1) r])
  moreover have "Find ExtKeyShare h3 = Some (Extension ExtKeyShare d')"
    by (rule sole_Find [OF sole_Shuffle [OF assms(6) s]])
  ultimately show ?thesis
    using SetKeyShare_read [OF assms(7,1)] unfolding share_ok_def by force
qed

lemma sole_SetKeyShare:
  "SetKeyShare K h t = Inr ((priv, h'), t') \<Longrightarrow> u \<noteq> ExtKeyShare \<Longrightarrow> sole u d h' = sole u d h"
  by (auto simp: SetKeyShare_def bindR_eq_Inr returnR_eq_Inr liftR_eq_Inr failR_eq_Inr hello_simps split: option.splits)

lemma filter_filter_other: "u \<noteq> v \<Longrightarrow>
  filter (\<lambda>e. ExtType e = u) (filter (\<lambda>e. ExtType e \<noteq> v) es) = filter (\<lambda>e. ExtType e = u) es"
  by (induction es) auto

lemma sole_dropExtension: "u \<noteq> v \<Longrightarrow> sole u d (fst (dropExtension v h)) = sole u d h"
  by (simp add: sole_def dropExtension_def Let_def filter_filter_other del: filter_filter)

lemma sole_setPSK: "u \<noteq> ExtPreSharedKey \<Longrightarrow> sole u d (setPSK h tk a b) = sole u d h"
  by (simp add: sole_def setPSK_eq filter_filter_other del: filter_filter)

lemma sole_SetECHTicketAuth:
  "SetECHTicketAuth ticket psk h t = Inr (h', t') \<Longrightarrow> u \<noteq> ExtECH \<Longrightarrow> sole u d h' = sole u d h"
  by (erule SetECHTicketAuth_result) (simp add: sole_def SetExtData_sel filter_set_first)

lemma emitted_name:
  assumes "sole ExtServerName d h0" and "SetSNI name h0 = Inr h1"
    and "Rerandomize K h1 t = Inr (h2, t1)" and "Shuffle h2 t1 = Inr (h3, t2)"
    and "SetKeyShare K h3 t2 = Inr ((eph, h4), t3)"
  shows "sole ExtServerName (sni_body name) h4"
proof -
  have ng: "\<not> IsGREASE ExtServerName" by (simp add: IsGREASE_def)
  have "sole ExtServerName (sni_body name) h1" using sole_SetSNI [OF assms(2)] assms(1) by blast
  from sole_Rerandomize [OF assms(3) ng _ this] have "sole ExtServerName (sni_body name) h2" by simp
  from sole_Shuffle [OF assms(4) this] show ?thesis using sole_SetKeyShare [OF assms(5)] by simp
qed

lemma emitted_fits:
  assumes "ParseClientHello harvested = Inr h0"
    and "h1 = h0 \<and> name = [] \<or> name \<noteq> [] \<and> SetSNI name h0 = Inr h1"
    and "Rerandomize K h1 t = Inr (h2, t1)" and "Shuffle h2 t1 = Inr (h3, t2)"
    and "SetKeyShare K h3 t2 = Inr ((eph, h4), t3)"
  shows "fits h4 (length harvested + length name + 287)"
proof -
  have "fits h1 (length harvested + (5 + length name))"
    using assms(2) parsed_fits [OF assms(1)] fits_SetSNI [of name h0 h1] by (auto elim: fits_mono)
  from fits_Rerandomize [OF assms(3) this] fits_Shuffle [OF assms(4)] fits_SetKeyShare [OF assms(5)]
  have "fits h4 (length harvested + (5 + length name) + 282)" by blast
  then show ?thesis by (rule fits_mono) simp
qed

end
