(* ===== verification/Replay.thy ===== *)
theory Replay
  imports Auth "HOL-Library.AList"
begin

text \<open>
  \<^verbatim>\<open>src/replay.go\<close>: the single-use gate on tickets. The Go map from clients to their freshness
  record is an association list with distinct keys; \<open>range\<close> over it visits the entries in an order
  the language leaves open, the argument \<open>order\<close> of the operations whose outcome depends on it. The
  clock reading of a call is an argument. The facts: the map stays within its bound and its records
  well formed, every answer is characterised, the gate refines an abstract set of spent tickets, and
  over any run no ticket of a client is accepted after it or a newer one was, unless the clock has passed the
  horizon or the memory backstop has dropped the client in between.
\<close>

section \<open>Maps as the code uses them\<close>

type_synonym ('k, 'v) gomap = "('k \<times> 'v) list"
type_synonym ('k, 'v) order = "('k, 'v) gomap \<Rightarrow> ('k, 'v) gomap"

text \<open>The search for the oldest entry: the first one met is kept unless a later one is older.\<close>

definition oldest_of :: "('v \<Rightarrow> int) \<Rightarrow> ('k, 'v) gomap \<Rightarrow> ('k \<times> int) option" where
  "oldest_of stamp m =
     foldl (\<lambda>acc (k, v). case acc of
         None \<Rightarrow> Some (k, stamp v)
       | Some (k0, t0) \<Rightarrow> if stamp v < t0 then Some (k, stamp v) else acc) None m"

text \<open>Deleting the stale entries in a range loop.\<close>

definition drop_stale :: "('v \<Rightarrow> int) \<Rightarrow> int \<Rightarrow> int \<Rightarrow> ('k, 'v) gomap \<Rightarrow> ('k, 'v) gomap" where
  "drop_stale stamp horizon now m = filter (\<lambda>(k, v). \<not> horizon \<le> time_Sub now (stamp v)) m"

section \<open>State and operations\<close>

abbreviation hour :: int where "hour \<equiv> 3600 * second"

definition DefaultTicketMaxAge :: int where "DefaultTicketMaxAge = 24 * hour"
definition defaultReplayMax :: int where "defaultReplayMax = 65536"

record clientSeen =
  newest :: int
  ties :: "bytes set"
  seenAt :: int

record ReplayCache =
  rc_horizon :: int
  rc_max :: int
  rc_clients :: "(u64, clientSeen) gomap"

definition NewReplayCache :: "int \<Rightarrow> int \<Rightarrow> ReplayCache" where
  "NewReplayCache maxi horizon =
     \<lparr>rc_horizon = (if horizon \<le> 0 then DefaultTicketMaxAge else horizon),
      rc_max = (if maxi \<le> 0 then defaultReplayMax else maxi), rc_clients = []\<rparr>"

text \<open>A nil cache is \<open>None\<close>; its methods are no-ops.\<close>

definition Horizon :: "ReplayCache option \<Rightarrow> int" where
  "Horizon c = (case c of None \<Rightarrow> 0 | Some c \<Rightarrow> rc_horizon c)"

definition evictLocked :: "int \<Rightarrow> ReplayCache \<Rightarrow> ReplayCache" where
  "evictLocked now c = c\<lparr>rc_clients := drop_stale newest (rc_horizon c) now (rc_clients c)\<rparr>"

definition dropOldestLocked :: "(u64, clientSeen) order \<Rightarrow> ReplayCache \<Rightarrow> ReplayCache" where
  "dropOldestLocked order c =
     (case oldest_of seenAt (order (rc_clients c)) of
        None \<Rightarrow> c
      | Some (victim, _) \<Rightarrow> c\<lparr>rc_clients := AList.delete victim (rc_clients c)\<rparr>)"

definition admitLocked ::
  "(u64, clientSeen) order \<Rightarrow> u64 \<Rightarrow> int \<Rightarrow> bytes \<Rightarrow> int \<Rightarrow> ReplayCache \<Rightarrow> ReplayCache" where
  "admitLocked order clientID issued key now c =
     (let c = (if rc_max c \<le> int (length (rc_clients c)) then dropOldestLocked order c else c)
      in c\<lparr>rc_clients := AList.update clientID \<lparr>newest = issued, ties = {key}, seenAt = now\<rparr> (rc_clients c)\<rparr>)"

definition Consume ::
  "(u64, clientSeen) order \<Rightarrow> u64 \<Rightarrow> int \<Rightarrow> bytes \<Rightarrow> int \<Rightarrow> ReplayCache \<Rightarrow> bool \<times> ReplayCache" where
  "Consume order clientID issued ticket now c =
     (let key = sha256 ticket;
          c = evictLocked now c
      in case map_of (rc_clients c) clientID of
           None \<Rightarrow> (True, admitLocked order clientID issued key now c)
         | Some seen \<Rightarrow>
             if newest seen < issued
             then (True, c\<lparr>rc_clients := AList.update clientID
                     (seen\<lparr>newest := issued, ties := {key}, seenAt := now\<rparr>) (rc_clients c)\<rparr>)
             else if issued = newest seen
             then if key \<in> ties seen then (False, c)
                  else (True, c\<lparr>rc_clients := AList.update clientID
                          (seen\<lparr>ties := insert key (ties seen), seenAt := now\<rparr>) (rc_clients c)\<rparr>)
             else (False, c))"

definition consume_gate ::
  "(u64, clientSeen) order \<Rightarrow> u64 \<Rightarrow> int \<Rightarrow> bytes \<Rightarrow> int \<Rightarrow> ReplayCache option \<Rightarrow> bool \<times> ReplayCache option" where
  "consume_gate order clientID issued ticket now c =
     (case c of
        None \<Rightarrow> (True, None)
      | Some c \<Rightarrow> map_prod id Some (Consume order clientID issued ticket now c))"

definition TrackedClients :: "ReplayCache option \<Rightarrow> nat" where
  "TrackedClients c = (case c of None \<Rightarrow> 0 | Some c \<Rightarrow> length (rc_clients c))"

section \<open>The map helpers\<close>

named_theorems gomap_simps \<open>lookups in the maps of the gates\<close>

lemmas alist_simps [gomap_simps] = update_conv' delete_conv'

lemma map_of_filter_snd:
  "distinct (map fst m) \<Longrightarrow> map_of (filter (\<lambda>(k, v). P v) m) k
     = (case map_of m k of None \<Rightarrow> None | Some v \<Rightarrow> if P v then Some v else None)"
  by (induction m) (auto split: option.splits simp: map_of_eq_None_iff image_iff)

lemma map_of_drop_stale [gomap_simps]:
  "distinct (map fst m) \<Longrightarrow> map_of (drop_stale stamp h now m) k
     = (case map_of m k of None \<Rightarrow> None | Some v \<Rightarrow> if h \<le> time_Sub now (stamp v) then None else Some v)"
  unfolding drop_stale_def by (simp add: map_of_filter_snd split: option.split)

lemma drop_stale_subset: "set (drop_stale stamp h now m) \<subseteq> set m"
  by (auto simp: drop_stale_def)

lemma distinct_drop_stale: "distinct (map fst m) \<Longrightarrow> distinct (map fst (drop_stale stamp h now m))"
  unfolding drop_stale_def by (rule distinct_map_filter)

lemma length_drop_stale: "length (drop_stale stamp h now m) \<le> length m"
  by (simp add: drop_stale_def)

lemma oldest_of_snoc:
  "oldest_of stamp (m @ [e]) = (case oldest_of stamp m of
     None \<Rightarrow> Some (fst e, stamp (snd e))
   | Some (k0, t0) \<Rightarrow> if stamp (snd e) < t0 then Some (fst e, stamp (snd e)) else Some (k0, t0))"
  by (simp add: oldest_of_def case_prod_beta split: option.split)

lemma oldest_of_Nil [simp]: "oldest_of stamp [] = None"
  by (simp add: oldest_of_def)

lemma oldest_of_None [simp]: "oldest_of stamp m = None \<longleftrightarrow> m = []"
  by (induction m rule: rev_induct) (auto simp: oldest_of_snoc split: option.split)

lemma oldest_of_Some:
  "oldest_of stamp m = Some (k, t) \<Longrightarrow> k \<in> fst ` set m \<and> (\<forall>x\<in>set m. t \<le> stamp (snd x))"
proof (induction m arbitrary: k t rule: rev_induct)
  case Nil
  then show ?case by simp
next
  case (snoc e m)
  show ?case
  proof (cases "oldest_of stamp m")
    case None
    then show ?thesis using snoc.prems oldest_of_snoc [of stamp "[]" e] by auto
  next
    case (Some p)
    obtain k0 t0 where p: "p = (k0, t0)" by (cases p)
    from snoc.IH [of k0 t0] Some p have "k0 \<in> fst ` set m" "\<forall>x\<in>set m. t0 \<le> stamp (snd x)" by auto
    then show ?thesis using snoc.prems Some p by (auto simp: oldest_of_snoc split: if_splits)
  qed
qed

lemma length_AList_delete:
  "distinct (map fst m) \<Longrightarrow> k \<in> fst ` set m \<Longrightarrow> length (AList.delete k m) = length m - 1"
proof (induction m)
  case (Cons e m)
  then show ?case
    by (cases "fst e = k"; cases m) (auto simp: AList.delete_id)
qed simp

lemma length_AList_update:
  "length (AList.update k v m) = (if k \<in> fst ` set m then length m else Suc (length m))"
  by (induction m) auto

section \<open>The order of range\<close>

definition range_order :: "('k, 'v) order \<Rightarrow> bool" where
  "range_order order \<longleftrightarrow> (\<forall>m. mset (order m) = mset m)"

lemma range_order_set [simp]: "range_order order \<Longrightarrow> set (order m) = set m"
  unfolding range_order_def by (metis mset_eq_setD)

lemma range_order_Nil [simp]: "range_order order \<Longrightarrow> order m = [] \<longleftrightarrow> m = []"
  unfolding range_order_def by (metis mset_zero_iff)

lemma range_order_id: "range_order id" "range_order rev"
  by (simp_all add: range_order_def)

section \<open>The invariant\<close>

definition gate_ok :: "ReplayCache \<Rightarrow> bool" where
  "gate_ok c \<longleftrightarrow> distinct (map fst (rc_clients c)) \<and> 0 < rc_max c \<and> int (length (rc_clients c)) \<le> rc_max c
     \<and> 0 < rc_horizon c \<and> (\<forall>x\<in>set (rc_clients c). ties (snd x) \<noteq> {})"

named_theorems gate_intros \<open>the operations keep the gate well formed\<close>

lemma gate_ok_New [gate_intros]: "gate_ok (NewReplayCache maxi horizon)"
  by (simp add: gate_ok_def NewReplayCache_def DefaultTicketMaxAge_def defaultReplayMax_def)

lemma evict_sel [simp]: "rc_horizon (evictLocked now c) = rc_horizon c" "rc_max (evictLocked now c) = rc_max c"
  by (simp_all add: evictLocked_def)

lemma gate_ok_evict [gate_intros]: "gate_ok c \<Longrightarrow> gate_ok (evictLocked now c)"
  using drop_stale_subset [of newest "rc_horizon c" now "rc_clients c"]
    length_drop_stale [of newest "rc_horizon c" now "rc_clients c"]
  by (auto simp: gate_ok_def evictLocked_def distinct_drop_stale)

lemma dropOldest_shorter:
  assumes "gate_ok c" and "range_order order" and "rc_clients c \<noteq> []"
  shows "length (rc_clients (dropOldestLocked order c)) < length (rc_clients c)
     \<and> gate_ok (dropOldestLocked order c) \<and> rc_max (dropOldestLocked order c) = rc_max c"
proof -
  obtain k t where o: "oldest_of seenAt (order (rc_clients c)) = Some (k, t)"
    using assms by (cases "oldest_of seenAt (order (rc_clients c))") auto
  have k: "k \<in> fst ` set (rc_clients c)" using oldest_of_Some [OF o] assms(2) by simp
  have d: "distinct (map fst (rc_clients c))" using assms(1) by (simp add: gate_ok_def)
  have l: "length (AList.delete k (rc_clients c)) < length (rc_clients c)"
    using length_AList_delete [OF d k] assms(3) by simp
  moreover have "set (AList.delete k (rc_clients c)) \<subseteq> set (rc_clients c)" by (auto simp: AList.delete_eq)
  ultimately show ?thesis
    using assms(1) o d by (auto simp: dropOldestLocked_def gate_ok_def AList.distinct_delete)
qed

lemma set_AList_update: "set (AList.update k v m) \<subseteq> insert (k, v) (set m)"
  by (induction m) auto

lemma gate_ok_update:
  assumes "gate_ok c" and "ties v \<noteq> {}" and "int (length (AList.update k v (rc_clients c))) \<le> rc_max c"
  shows "gate_ok (c\<lparr>rc_clients := AList.update k v (rc_clients c)\<rparr>)"
  using assms set_AList_update [of k v "rc_clients c"] by (auto simp: gate_ok_def AList.distinct_update)

lemma gate_ok_update_old:
  assumes "gate_ok c" and "ties v \<noteq> {}" and "map_of (rc_clients c) k = Some v0"
  shows "gate_ok (c\<lparr>rc_clients := AList.update k v (rc_clients c)\<rparr>)"
proof (rule gate_ok_update [OF assms(1,2)])
  have "k \<in> fst ` set (rc_clients c)" using map_of_SomeD [OF assms(3)] by force
  then show "int (length (AList.update k v (rc_clients c))) \<le> rc_max c"
    using assms(1) by (simp add: length_AList_update gate_ok_def)
qed

lemma gate_ok_admit [gate_intros]:
  assumes "gate_ok c" and "range_order order"
  shows "gate_ok (admitLocked order clientID issued key now c)"
proof (cases "rc_max c \<le> int (length (rc_clients c))")
  case True
  then have ne: "rc_clients c \<noteq> []" using assms(1) by (auto simp: gate_ok_def)
  note d = dropOldest_shorter [OF assms ne]
  have "int (length (rc_clients c)) = rc_max c" using True assms(1) by (simp add: gate_ok_def)
  then show ?thesis
    using d True unfolding admitLocked_def Let_def by (intro gate_ok_update) (auto simp: length_AList_update)
next
  case False
  then show ?thesis
    using assms(1) unfolding admitLocked_def Let_def by (intro gate_ok_update) (auto simp: length_AList_update)
qed

lemma gate_ok_Consume [gate_intros]:
  assumes "gate_ok c" and "range_order order"
  shows "gate_ok (snd (Consume order clientID issued ticket now c))"
proof -
  let ?c = "evictLocked now c"
  have ok: "gate_ok ?c" by (rule gate_ok_evict [OF assms(1)])
  show ?thesis
  proof (cases "map_of (rc_clients ?c) clientID")
    case None
    then show ?thesis using gate_ok_admit [OF ok assms(2)] by (simp add: Consume_def Let_def)
  next
    case (Some seen)
    then have "ties seen \<noteq> {}" using ok map_of_SomeD [OF Some] by (force simp: gate_ok_def)
    then show ?thesis
      using Some ok by (auto simp: Consume_def Let_def intro!: gate_ok_update_old)
  qed
qed

section \<open>What one call answers\<close>

definition remembered :: "ReplayCache \<Rightarrow> u64 \<Rightarrow> int \<Rightarrow> bytes \<Rightarrow> bool" where
  "remembered c clientID issued ticket \<longleftrightarrow>
     (case map_of (rc_clients c) clientID of
        None \<Rightarrow> False
      | Some seen \<Rightarrow> issued < newest seen \<or> issued = newest seen \<and> sha256 ticket \<in> ties seen)"

lemma map_of_evict [gomap_simps]:
  "gate_ok c \<Longrightarrow> map_of (rc_clients (evictLocked now c)) k =
     (case map_of (rc_clients c) k of None \<Rightarrow> None
      | Some v \<Rightarrow> if rc_horizon c \<le> time_Sub now (newest v) then None else Some v)"
  by (simp add: evictLocked_def gate_ok_def map_of_drop_stale)

lemma Consume_answer: "fst (Consume order clientID issued ticket now c)
     = (\<not> remembered (evictLocked now c) clientID issued ticket)"
  by (auto simp: Consume_def Let_def remembered_def split: option.split)

lemma time_Sub_antimono: "u \<le> u' \<Longrightarrow> time_Sub t u' \<le> time_Sub t u"
  by (simp add: time_Sub_def)

lemma remembered_evict:
  assumes "gate_ok c" and "remembered c clientID issued ticket" and "\<not> rc_horizon c \<le> time_Sub now issued"
  shows "remembered (evictLocked now c) clientID issued ticket"
proof -
  obtain seen where m: "map_of (rc_clients c) clientID = Some seen"
    and r: "issued < newest seen \<or> issued = newest seen \<and> sha256 ticket \<in> ties seen"
    using assms(2) by (auto simp: remembered_def split: option.splits)
  have "time_Sub now (newest seen) \<le> time_Sub now issued" using r by (intro time_Sub_antimono) auto
  then have "\<not> rc_horizon c \<le> time_Sub now (newest seen)" using assms(3) by simp
  then show ?thesis using m r by (simp add: remembered_def map_of_evict [OF assms(1)])
qed

lemma evict_remembered: "gate_ok c \<Longrightarrow> remembered (evictLocked now c) clientID issued ticket \<Longrightarrow> remembered c clientID issued ticket"
  by (auto simp: remembered_def map_of_evict split: option.splits if_splits)

text \<open>A refusal changes nothing but the eviction; an acceptance is remembered.\<close>

lemma Consume_refused: "fst (Consume order clientID issued ticket now c) = False \<Longrightarrow>
    snd (Consume order clientID issued ticket now c) = evictLocked now c"
  by (auto simp: Consume_def Let_def split: option.splits if_splits)

lemma dropOldest_sel [simp]: "rc_max (dropOldestLocked order c) = rc_max c" "rc_horizon (dropOldestLocked order c) = rc_horizon c"
  by (auto simp: dropOldestLocked_def split: option.split)

lemma Consume_accepted:
  assumes "fst (Consume order clientID issued ticket now c)"
  shows "\<exists>seen base. newest seen = issued \<and> sha256 ticket \<in> ties seen \<and> seenAt seen = now
     \<and> snd (Consume order clientID issued ticket now c) = base\<lparr>rc_clients := AList.update clientID seen (rc_clients base)\<rparr>
     \<and> (base = evictLocked now c
        \<or> map_of (rc_clients (evictLocked now c)) clientID = None
          \<and> rc_max c \<le> int (length (rc_clients (evictLocked now c)))
          \<and> base = dropOldestLocked order (evictLocked now c))
     \<and> (\<forall>old. map_of (rc_clients (evictLocked now c)) clientID = Some old \<longrightarrow>
          newest old < issued \<or> newest old = issued \<and> ties old \<subseteq> ties seen)"
proof (cases "map_of (rc_clients (evictLocked now c)) clientID")
  case None
  then show ?thesis
    by (intro exI [of _ "\<lparr>newest = issued, ties = {sha256 ticket}, seenAt = now\<rparr>"]
        exI [of _ "if rc_max c \<le> int (length (rc_clients (evictLocked now c)))
                   then dropOldestLocked order (evictLocked now c) else evictLocked now c"])
       (simp add: Consume_def Let_def admitLocked_def)
next
  case (Some seen)
  then show ?thesis
    using assms
    by (intro exI [of _ "if newest seen < issued then seen\<lparr>newest := issued, ties := {sha256 ticket}, seenAt := now\<rparr>
          else seen\<lparr>ties := insert (sha256 ticket) (ties seen), seenAt := now\<rparr>"] exI [of _ "evictLocked now c"])
       (auto simp: Consume_def Let_def split: if_splits)
qed

lemma Consume_sel [simp]:
  "rc_horizon (snd (Consume order clientID issued ticket now c)) = rc_horizon c"
  "rc_max (snd (Consume order clientID issued ticket now c)) = rc_max c"
  by (auto simp: Consume_def admitLocked_def Let_def split: option.split)

lemma Consume_remembers:
  "fst (Consume order clientID issued ticket now c) \<Longrightarrow>
     remembered (snd (Consume order clientID issued ticket now c)) clientID issued ticket"
  using Consume_accepted [of order clientID issued ticket now c] by (auto simp: remembered_def update_conv')

lemma Consume_keeps:
  assumes "gate_ok c" and "remembered c k i tk" and "\<not> rc_horizon c \<le> time_Sub now i"
    and "map_of (rc_clients (evictLocked now c)) clientID = None \<longrightarrow> int (length (rc_clients (evictLocked now c))) < rc_max c"
  shows "remembered (snd (Consume order clientID issued ticket now c)) k i tk"
proof -
  have r: "remembered (evictLocked now c) k i tk" by (rule remembered_evict [OF assms(1-3)])
  show ?thesis
  proof (cases "fst (Consume order clientID issued ticket now c)")
    case False
    then show ?thesis using r by (simp add: Consume_refused)
  next
    case True
    obtain seen base where s: "newest seen = issued"
      "snd (Consume order clientID issued ticket now c) = base\<lparr>rc_clients := AList.update clientID seen (rc_clients base)\<rparr>"
      "base = evictLocked now c \<or> map_of (rc_clients (evictLocked now c)) clientID = None
          \<and> rc_max c \<le> int (length (rc_clients (evictLocked now c))) \<and> base = dropOldestLocked order (evictLocked now c)"
      "\<forall>old. map_of (rc_clients (evictLocked now c)) clientID = Some old \<longrightarrow>
          newest old < issued \<or> newest old = issued \<and> ties old \<subseteq> ties seen"
      using Consume_accepted [OF True] by blast
    have "base = evictLocked now c" using s(3) assms(4) by auto
    then show ?thesis
      using r s(1,2,4) by (auto simp: remembered_def update_conv' split: option.splits)
  qed
qed

section \<open>Runs of the gate\<close>

text \<open>
  Handlers run concurrently, but every call holds the mutex, so what happens is a sequence of whole
  calls in some order. A run records each call, with the clock it read, and its answer; each call
  visits the map in an order of its own.
\<close>

record call =
  cl_client :: u64
  cl_issued :: int
  cl_ticket :: bytes
  cl_now :: int

record turn =
  tn_call :: call
  tn_ok :: bool
  tn_gate :: ReplayCache    \<comment> \<open>the gate the call found\<close>

inductive gate_run :: "ReplayCache \<Rightarrow> turn list \<Rightarrow> ReplayCache \<Rightarrow> bool" for c0 where
  start: "gate_run c0 [] c0"
| call: "gate_run c0 tr c \<Longrightarrow> range_order order \<Longrightarrow>
     Consume order (cl_client x) (cl_issued x) (cl_ticket x) (cl_now x) c = (ok, c') \<Longrightarrow>
     gate_run c0 (tr @ [\<lparr>tn_call = x, tn_ok = ok, tn_gate = c\<rparr>]) c'"

lemma gate_run_ok: "gate_run c0 tr c \<Longrightarrow> gate_ok c0 \<Longrightarrow>
    gate_ok c \<and> rc_max c = rc_max c0 \<and> rc_horizon c = rc_horizon c0"
proof (induction rule: gate_run.induct)
  case (call tr c order x ok c')
  then have c': "c' = snd (Consume order (cl_client x) (cl_issued x) (cl_ticket x) (cl_now x) c)" by simp
  show ?case unfolding c' using call.IH call.prems gate_ok_Consume [OF _ call.hyps(2)] by simp
qed simp

text \<open>The memory backstop: what a gate holds inside the horizon, and when a call drops a client of it.\<close>

definition active :: "int \<Rightarrow> ReplayCache \<Rightarrow> (u64, clientSeen) gomap" where
  "active now c = filter (\<lambda>(k, seen). time_Sub now (newest seen) < rc_horizon c) (rc_clients c)"

definition forgets :: "turn \<Rightarrow> u64 \<Rightarrow> bool" where
  "forgets t k \<longleftrightarrow>
     (let held = active (cl_now (tn_call t)) (tn_gate t)
      in rc_max (tn_gate t) \<le> int (length held) \<and> cl_client (tn_call t) \<notin> fst ` set held
         \<and> (\<exists>seen. (k, seen) \<in> set held \<and> (\<forall>e\<in>set held. seenAt seen \<le> seenAt (snd e))))"

lemma rc_clients_evict: "rc_clients (evictLocked now c) = active now c"
  by (simp add: active_def evictLocked_def drop_stale_def not_le)

lemma oldest_of_stamp: "oldest_of stamp m = Some (k, t) \<Longrightarrow> \<exists>v. (k, v) \<in> set m \<and> t = stamp v"
proof (induction m arbitrary: k t rule: rev_induct)
  case (snoc e m)
  show ?case
  proof (cases "oldest_of stamp m")
    case None
    then show ?thesis using snoc.prems by (cases e) (auto simp: oldest_of_def)
  next
    case (Some q)
    then show ?thesis using snoc.prems snoc.IH [of "fst q" "snd q"]
      by (cases e) (auto simp: oldest_of_snoc split: if_splits prod.splits)
  qed
qed simp

text \<open>A call loses what the gate remembers only past the horizon or through the backstop.\<close>

lemma Consume_forgets:
  assumes "gate_ok c" and "range_order order" and "remembered c k i tk" and "\<not> rc_horizon c \<le> time_Sub (cl_now x) i"
    and "\<not> remembered (snd (Consume order (cl_client x) (cl_issued x) (cl_ticket x) (cl_now x) c)) k i tk"
  shows "forgets \<lparr>tn_call = x, tn_ok = ok, tn_gate = c\<rparr> k"
proof -
  let ?e = "evictLocked (cl_now x) c"
  let ?c' = "snd (Consume order (cl_client x) (cl_issued x) (cl_ticket x) (cl_now x) c)"
  have "\<not> (map_of (rc_clients ?e) (cl_client x) = None \<longrightarrow> int (length (rc_clients ?e)) < rc_max c)"
    by (rule contrapos_nn [OF assms(5)]) (rule Consume_keeps [OF assms(1,3,4)])
  then have full: "map_of (rc_clients ?e) (cl_client x) = None" "rc_max c \<le> int (length (rc_clients ?e))" by auto
  have r: "remembered ?e k i tk" by (rule remembered_evict [OF assms(1,3,4)])
  then obtain seen where seen: "map_of (rc_clients ?e) k = Some seen" by (auto simp: remembered_def split: option.splits)
  have ne: "rc_clients ?e \<noteq> []" using seen by auto
  obtain v t where v: "oldest_of seenAt (order (rc_clients ?e)) = Some (v, t)"
    using ne assms(2) by (cases "oldest_of seenAt (order (rc_clients ?e))") auto
  have d: "distinct (map fst (rc_clients ?e))" using gate_ok_evict [OF assms(1)] by (simp add: gate_ok_def)
  have "?c' = admitLocked order (cl_client x) (cl_issued x) (sha256 (cl_ticket x)) (cl_now x) ?e"
    using full(1) by (simp add: Consume_def Let_def)
  then have "map_of (rc_clients ?c') k = (if v = k then None else Some seen)"
    using full v seen by (auto simp: admitLocked_def dropOldestLocked_def gomap_simps)
  then have vk: "v = k" using assms(5) r seen by (auto simp: remembered_def split: if_splits)
  obtain s where "(k, s) \<in> set (rc_clients ?e)" "t = seenAt s" using oldest_of_stamp [OF v] assms(2) vk by auto
  moreover have "s = seen" using map_of_is_SomeI [OF d calculation(1)] seen by simp
  moreover have "\<forall>e\<in>set (rc_clients ?e). t \<le> seenAt (snd e)" using oldest_of_Some [OF v] assms(2) by simp
  ultimately show ?thesis using full
    by (auto simp: forgets_def Let_def rc_clients_evict map_of_eq_None_iff)
qed

text \<open>What the gate remembers of a ticket it remembers of every older one of the client.\<close>

lemma remembered_older:
  "remembered c k i tk \<Longrightarrow> i' < i \<or> i' = i \<and> tk' = tk \<Longrightarrow> remembered c k i' tk'"
  by (auto simp: remembered_def split: option.splits)

text \<open>An accepted ticket is remembered, or the clock has read past its horizon, or the client was dropped.\<close>

definition expires :: "ReplayCache \<Rightarrow> turn \<Rightarrow> int \<Rightarrow> bool" where
  "expires c0 t issued \<longleftrightarrow> rc_horizon c0 \<le> time_Sub (cl_now (tn_call t)) issued"

lemma gate_run_tracks:
  assumes "gate_run c0 tr c" and "gate_ok c0" and "a < length tr" and "tn_ok (tr ! a)" and "tn_call (tr ! a) = y"
  shows "remembered c (cl_client y) (cl_issued y) (cl_ticket y)
     \<or> (\<exists>j. a < j \<and> j < length tr \<and> (expires c0 (tr ! j) (cl_issued y) \<or> forgets (tr ! j) (cl_client y)))"
  using assms
proof (induction arbitrary: a rule: gate_run.induct)
  case (call tr c order x ok c')
  let ?t = "\<lparr>tn_call = x, tn_ok = ok, tn_gate = c\<rparr>"
  have c': "c' = snd (Consume order (cl_client x) (cl_issued x) (cl_ticket x) (cl_now x) c)"
    and ok: "ok = fst (Consume order (cl_client x) (cl_issued x) (cl_ticket x) (cl_now x) c)" using call.hyps(3) by simp_all
  have gc: "gate_ok c" "rc_horizon c = rc_horizon c0" using gate_run_ok [OF call.hyps(1) call.prems(1)] by simp_all
  show ?case
  proof (cases "a = length tr")
    case True
    then show ?thesis using call.prems(3,4) Consume_remembers ok c' by auto
  next
    case False
    then have a: "a < length tr" "(tr @ [?t]) ! a = tr ! a" using call.prems(2) by (simp_all add: nth_append)
    from call.IH [OF call.prems(1) a(1)] call.prems(3,4) a(2)
    consider "remembered c (cl_client y) (cl_issued y) (cl_ticket y)"
      | j where "a < j" "j < length tr" "expires c0 (tr ! j) (cl_issued y) \<or> forgets (tr ! j) (cl_client y)"
      by auto
    then show ?thesis
    proof cases
      case 1
      then have "remembered c' (cl_client y) (cl_issued y) (cl_ticket y) \<or> expires c0 ?t (cl_issued y) \<or> forgets ?t (cl_client y)"
        using Consume_forgets [OF gc(1) call.hyps(2), of "cl_client y" "cl_issued y" "cl_ticket y" x ok] gc(2) c'
        by (auto simp: expires_def)
      then show ?thesis using a(1)
        by (elim disjE) (simp, (intro disjI2 exI [of _ "length tr"], simp)+)
    next
      case (2 j)
      then show ?thesis by (intro disjI2 exI [of _ j]) (simp add: nth_append)
    qed
  qed
qed simp

text \<open>A run up to one of its calls.\<close>

lemma gate_run_at:
  "gate_run c0 tr c \<Longrightarrow> b < length tr \<Longrightarrow> gate_run c0 (take b tr) (tn_gate (tr ! b))
     \<and> (\<exists>order. range_order order \<and> tn_ok (tr ! b) = fst (Consume order (cl_client (tn_call (tr ! b)))
          (cl_issued (tn_call (tr ! b))) (cl_ticket (tn_call (tr ! b))) (cl_now (tn_call (tr ! b))) (tn_gate (tr ! b))))"
proof (induction rule: gate_run.induct)
  case (call tr c order x ok c')
  show ?case
  proof (cases "b = length tr")
    case True
    then show ?thesis using call.hyps by (auto intro!: exI [of _ order])
  next
    case False
    then have "b < length tr" using call.prems by simp
    then show ?thesis using call.IH by (simp add: nth_append)
  qed
qed simp

lemma single_use_aux:
  assumes "gate_run c0 tr c" and "gate_ok c0" and "a < b" and "b < length tr" and "tn_ok (tr ! a)" and "tn_ok (tr ! b)"
    and "tn_call (tr ! a) = x" and "tn_call (tr ! b) = y" and "cl_client y = cl_client x"
    and "cl_issued y < cl_issued x \<or> cl_issued y = cl_issued x \<and> cl_ticket y = cl_ticket x"
  shows "\<exists>j. a < j \<and> (j \<le> b \<and> expires c0 (tr ! j) (cl_issued x) \<or> j < b \<and> forgets (tr ! j) (cl_client x))"
proof -
  let ?g = "tn_gate (tr ! b)"
  obtain order where g: "gate_run c0 (take b tr) ?g"
    and ok: "fst (Consume order (cl_client y) (cl_issued y) (cl_ticket y) (cl_now y) ?g)"
    using gate_run_at [OF assms(1,4)] assms(6,8) by auto
  have gc: "gate_ok ?g" "rc_horizon ?g = rc_horizon c0" using gate_run_ok [OF g assms(2)] by simp_all
  have ta: "take b tr ! a = tr ! a" "a < length (take b tr)" using assms(3,4) by simp_all
  from gate_run_tracks [OF g assms(2) ta(2), of x] assms(5,7) ta(1)
  consider "remembered ?g (cl_client x) (cl_issued x) (cl_ticket x)"
    | j where "a < j" "j < b" "expires c0 (tr ! j) (cl_issued x) \<or> forgets (tr ! j) (cl_client x)"
    using assms(4) by auto
  then show ?thesis
  proof cases
    case 1
    have "\<not> remembered (evictLocked (cl_now y) ?g) (cl_client x) (cl_issued x) (cl_ticket x)"
      using ok remembered_older [OF _ assms(10)] unfolding Consume_answer assms(9) by blast
    then have "rc_horizon c0 \<le> time_Sub (cl_now y) (cl_issued x)"
      using remembered_evict [OF gc(1) 1, of "cl_now y"] gc(2) by auto
    then show ?thesis using assms(3,8) by (intro exI [of _ b]) (simp add: expires_def)
  next
    case (2 j)
    then show ?thesis by (intro exI [of _ j]) auto
  qed
qed

text \<open>
  C10. Single use: over any run of a new gate, with calls in any order, map iteration in any order
  and clocks reading whatever they read, once a ticket is accepted neither it nor any older ticket of
  its client, presented before or not, is accepted later, unless in between a call (the accepting one
  included) read a clock at least the horizon past the first ticket's issue, or the memory backstop
  dropped the client: the gate then held, inside the horizon, as many clients as its bound, the caller
  was none of them, and this one had been idle longest.
\<close>

theorem Consume_single_use:
  assumes "gate_run (NewReplayCache maxi horizon) tr c"
    and "a < b" and "b < length tr" and "tn_ok (tr ! a)" and "tn_ok (tr ! b)"
    and "tn_call (tr ! a) = x" and "tn_call (tr ! b) = y" and "cl_client y = cl_client x"
    and "cl_issued y < cl_issued x \<or> cl_issued y = cl_issued x \<and> cl_ticket y = cl_ticket x"
  shows "\<exists>j. a < j \<and>
     (j \<le> b \<and> Horizon (Some (NewReplayCache maxi horizon)) \<le> time_Sub (cl_now (tn_call (tr ! j))) (cl_issued x)
      \<or> j < b \<and> forgets (tr ! j) (cl_client x))"
  using single_use_aux [OF assms(1) gate_ok_New assms(2-9)] by (simp add: Horizon_def expires_def)

text \<open>A run of two presentations of one ticket, the second at the horizon.\<close>

definition demo_call :: "int \<Rightarrow> call" where
  "demo_call now = \<lparr>cl_client = 1, cl_issued = 0, cl_ticket = [1, 2], cl_now = now\<rparr>"

definition demo_gate :: "int \<Rightarrow> ReplayCache" where
  "demo_gate now = (NewReplayCache 4 10)\<lparr>rc_clients := [(1, \<lparr>newest = 0, ties = {sha256 [1, 2]}, seenAt = now\<rparr>)]\<rparr>"

lemma demo_gate_calls:
  "Consume id 1 0 [1, 2] 5 (NewReplayCache 4 10) = (True, demo_gate 5)"
  "Consume id 1 0 [1, 2] 9 (demo_gate 5) = (False, demo_gate 5)"
  "Consume id 1 0 [1, 2] 10 (demo_gate 5) = (True, demo_gate 10)"
  by (simp_all add: Consume_def demo_gate_def NewReplayCache_def evictLocked_def drop_stale_def admitLocked_def time_Sub_def)

definition demo_turns :: "turn list" where
  "demo_turns = [\<lparr>tn_call = demo_call 5, tn_ok = True, tn_gate = NewReplayCache 4 10\<rparr>,
     \<lparr>tn_call = demo_call 10, tn_ok = True, tn_gate = demo_gate 5\<rparr>]"

lemma demo_gate_run: "gate_run (NewReplayCache 4 10) demo_turns (demo_gate 10)"
proof -
  have first: "gate_run (NewReplayCache 4 10) ([] @ [\<lparr>tn_call = demo_call 5, tn_ok = True, tn_gate = NewReplayCache 4 10\<rparr>]) (demo_gate 5)"
    by (rule gate_run.call [OF gate_run.start range_order_id(1)]) (simp add: demo_call_def demo_gate_calls)
  from gate_run.call [OF first range_order_id(1), of "demo_call 10" True "demo_gate 10"]
  show ?thesis by (simp add: demo_turns_def demo_call_def demo_gate_calls)
qed

theorem Consume_single_use_witness:
  "gate_run (NewReplayCache 4 10) demo_turns (demo_gate 10)
     \<and> (\<exists>j. 0 < j \<and> (j \<le> (1 :: nat) \<and> 10 \<le> time_Sub (cl_now (tn_call (demo_turns ! j))) 0
          \<or> j < 1 \<and> forgets (demo_turns ! j) 1))"
proof -
  have d: "tn_ok (demo_turns ! 0)" "tn_ok (demo_turns ! 1)" "tn_call (demo_turns ! 0) = demo_call 5"
    "tn_call (demo_turns ! 1) = demo_call 10" "1 < length demo_turns"
    by (simp_all add: demo_turns_def)
  have h: "Horizon (Some (NewReplayCache 4 10)) = 10" "cl_issued (demo_call 5) = 0" "cl_client (demo_call 5) = 1"
    by (simp_all add: Horizon_def NewReplayCache_def demo_call_def)
  from Consume_single_use [OF demo_gate_run _ d(5,1,2,3,4)] demo_gate_run
  show ?thesis by (simp add: h) (simp add: demo_call_def)
qed

text \<open>
  What one call answers, whatever order the map is visited in: it refuses exactly a ticket of a
  client whose newest ticket is still inside the horizon when that newest one is younger than it, or
  of the same second with this very ticket among those spent.
\<close>

theorem Consume_answers:
  assumes "gate_ok c"
  shows "fst (Consume order clientID issued ticket now c) \<longleftrightarrow>
     \<not> (\<exists>seen. map_of (rc_clients c) clientID = Some seen \<and> time_Sub now (newest seen) < rc_horizon c
          \<and> (issued < newest seen \<or> issued = newest seen \<and> sha256 ticket \<in> ties seen))"
  unfolding Consume_answer remembered_def map_of_evict [OF assms] by (auto split: option.split)

theorem Consume_answers_witness:
  "fst (Consume id 1 0 [1, 2] 9 (demo_gate 5)) = False \<and> fst (Consume id 1 0 [1, 2] 10 (demo_gate 5)) = True"
proof -
  have ok: "gate_ok (demo_gate 5)" by (simp add: gate_ok_def demo_gate_def NewReplayCache_def)
  show ?thesis
    unfolding Consume_answers [OF ok] by (simp add: demo_gate_def NewReplayCache_def time_Sub_def)
qed

text \<open>
  The gate's state stays well formed over any run: no client twice, never more clients than the
  bound, never a record without a spent ticket.
\<close>

theorem gate_invariant:
  assumes "gate_run (NewReplayCache maxi horizon) tr c"
  shows "distinct (map fst (rc_clients c)) \<and> int (TrackedClients (Some c)) \<le> (if maxi \<le> 0 then 65536 else maxi)
     \<and> {} \<notin> (ties \<circ> snd) ` set (rc_clients c)"
  using gate_run_ok [OF assms gate_ok_New]
  by (auto simp: gate_ok_def TrackedClients_def NewReplayCache_def defaultReplayMax_def)

theorem gate_invariant_witness:
  "distinct (map fst (rc_clients (demo_gate 10))) \<and> int (TrackedClients (Some (demo_gate 10))) \<le> 4
     \<and> {} \<notin> (ties \<circ> snd) ` set (rc_clients (demo_gate 10))"
  using gate_invariant [OF demo_gate_run] by simp

text \<open>
  The boundary: eviction runs at an age of the horizon or more, the verifiers refuse only more than
  the limit. With the two equal, as the server allows, a ticket spent before is accepted again at
  that one instant.
\<close>

lemma replay_at_horizon:
  assumes "gate_ok c" and "map_of (rc_clients c) clientID = Some seen"
    and "issued = newest seen" and "time_Sub now issued = rc_horizon c"
  shows "fst (Consume order clientID issued ticket now c) \<and> \<not> rc_horizon c < time_Sub now issued"
  using assms unfolding Consume_answer remembered_def map_of_evict [OF assms(1)] by simp

section \<open>The gate as an interface\<close>

text \<open>
  What the server relies on, whatever keeps the tickets: a ticket accepted is held, a ticket held is
  refused while it is inside the horizon, and calls do not lose it while there is room.
\<close>

locale ticket_gate =
  fixes spend :: "'o \<Rightarrow> 'g \<Rightarrow> u64 \<Rightarrow> int \<Rightarrow> bytes \<Rightarrow> int \<Rightarrow> bool \<times> 'g"
    and legal :: "'o \<Rightarrow> bool"
    and ok :: "'g \<Rightarrow> bool"
    and holds :: "'g \<Rightarrow> u64 \<Rightarrow> int \<Rightarrow> bytes \<Rightarrow> bool"
    and inside :: "'g \<Rightarrow> int \<Rightarrow> int \<Rightarrow> bool"
    and room :: "'g \<Rightarrow> bool"
  assumes spend_ok: "ok g \<Longrightarrow> legal r \<Longrightarrow> spend r g c i tk now = (b, g') \<Longrightarrow> ok g'"
    and spend_inside: "spend r g c i tk now = (b, g') \<Longrightarrow> inside g' t u = inside g t u"
    and spend_holds: "spend r g c i tk now = (True, g') \<Longrightarrow> holds g' c i tk"
    and held_refused: "ok g \<Longrightarrow> holds g c i tk \<Longrightarrow> inside g now i \<Longrightarrow> fst (spend r g c i tk now) = False"
    and spend_keeps: "ok g \<Longrightarrow> holds g c i tk \<Longrightarrow> inside g now i \<Longrightarrow> room g \<Longrightarrow>
      spend r g c' i' tk' now = (b, g') \<Longrightarrow> holds g' c i tk"
begin

text \<open>One presentation answered and the same one right after, still inside the horizon: refused.\<close>

lemma second_refused:
  assumes "ok g" and "legal r" and "spend r g c i tk now = (True, g')" and "inside g now' i"
  shows "fst (spend r' g' c i tk now') = False"
  by (rule held_refused [OF spend_ok [OF assms(1,2,3)] spend_holds [OF assms(3)]])
     (simp add: spend_inside [OF assms(3)] assms(4))

text \<open>Another client's call in between does not change that while there is room.\<close>

lemma interleaved_refused:
  assumes "ok g" and "legal r" and "spend r g c i tk now = (True, g1)" and "inside g now1 i" and "room g1"
    and "legal r1" and "spend r1 g1 c1 i1 tk1 now1 = (b, g2)" and "inside g now2 i"
  shows "fst (spend r2 g2 c i tk now2) = False"
proof (rule held_refused)
  have ok1: "ok g1" by (rule spend_ok [OF assms(1,2,3)])
  show "ok g2" by (rule spend_ok [OF ok1 assms(6,7)])
  have in1: "inside g1 now1 i" using spend_inside [OF assms(3)] assms(4) by simp
  show "holds g2 c i tk" by (rule spend_keeps [OF ok1 spend_holds [OF assms(3)] in1 assms(5,7)])
  show "inside g2 now2 i" using spend_inside [OF assms(7)] spend_inside [OF assms(3)] assms(8) by simp
qed

end

text \<open>The gate of the source provides it, whatever order each call visits the map in.\<close>

interpretation replay: ticket_gate "\<lambda>order g c i tk now. Consume order c i tk now g" range_order gate_ok remembered
  "\<lambda>g now i. time_Sub now i < rc_horizon g" "\<lambda>g. int (length (rc_clients g)) < rc_max g"
proof
  fix order :: "(u64, clientSeen) order" and g c i tk now b g'
  show "gate_ok g \<Longrightarrow> range_order order \<Longrightarrow> Consume order c i tk now g = (b, g') \<Longrightarrow> gate_ok g'"
    using gate_ok_Consume [of g order] by (metis snd_conv)
  show "Consume order c i tk now g = (b, g') \<Longrightarrow> (time_Sub t u < rc_horizon g') = (time_Sub t u < rc_horizon g)" for t u
    using Consume_sel(1) by (metis snd_conv)
  show "Consume order c i tk now g = (True, g') \<Longrightarrow> remembered g' c i tk"
    using Consume_remembers [of order c i tk now g] by simp
  show "gate_ok g \<Longrightarrow> remembered g c i tk \<Longrightarrow> time_Sub now i < rc_horizon g \<Longrightarrow>
      fst (Consume order c i tk now g) = False"
    using remembered_evict [of g c i tk now] by (simp add: Consume_answer)
  fix c' i' tk'
  have "length (rc_clients (evictLocked now g)) \<le> length (rc_clients g)"
    by (simp add: evictLocked_def length_drop_stale)
  then show "gate_ok g \<Longrightarrow> remembered g c i tk \<Longrightarrow> time_Sub now i < rc_horizon g \<Longrightarrow>
      int (length (rc_clients g)) < rc_max g \<Longrightarrow> Consume order c' i' tk' now g = (b, g') \<Longrightarrow> remembered g' c i tk"
    using Consume_keeps [of g c i tk now c' order i' tk'] by simp
qed

end
