(* ===== verification/Contacts.thy ===== *)
theory Contacts
  imports Replay
begin

text \<open>
  \<^verbatim>\<open>src/contacts.go\<close>: the memory that decides between a full handshake and a resumption. The map and
  its iteration order are as in theory \<open>Replay\<close>; a network address is its string, or \<open>None\<close> for nil;
  \<open>SplitHostPort\<close> is the function of Go's \<^verbatim>\<open>net\<close> the code calls. The facts: the memory stays within its
  bound, and over any interleaving of decisions, recordings and resets every resumption follows a
  full handshake recorded for the same address pair, within the horizon and since the last reset.
\<close>

section \<open>Addresses\<close>

abbreviation colon :: byte where "colon \<equiv> 58"
abbreviation lbracket :: byte where "lbracket \<equiv> 91"
abbreviation rbracket :: byte where "rbracket \<equiv> 93"

fun index_byte :: "byte \<Rightarrow> bytes \<Rightarrow> nat option" where
  "index_byte c [] = None"
| "index_byte c (x # xs) = (if x = c then Some 0 else map_option Suc (index_byte c xs))"

fun last_index_byte :: "byte \<Rightarrow> bytes \<Rightarrow> nat option" where
  "last_index_byte c [] = None"
| "last_index_byte c (x # xs) =
     (case last_index_byte c xs of Some i \<Rightarrow> Some (Suc i) | None \<Rightarrow> if x = c then Some 0 else None)"

definition addrErr :: "string \<Rightarrow> (bytes \<times> bytes) res" where
  "addrErr why = Inl (Err (''address: '' @ why))"

definition SplitHostPort :: "bytes \<Rightarrow> (bytes \<times> bytes) res" where
  "SplitHostPort hostport =
     (case last_index_byte colon hostport of
        None \<Rightarrow> addrErr ''missing port in address''
      | Some i \<Rightarrow>
          let finish = (\<lambda>host j k.
                if lbracket \<in> set (drop j hostport) then addrErr ''unexpected '[' in address''
                else if rbracket \<in> set (drop k hostport) then addrErr ''unexpected ']' in address''
                else Inr (host, drop (i + 1) hostport))
          in if hostport ! 0 = lbracket
             then case index_byte rbracket hostport of
                    None \<Rightarrow> addrErr ''missing ']' in address''
                  | Some e \<Rightarrow>
                      if e + 1 = length hostport then addrErr ''missing port in address''
                      else if e + 1 = i then finish (slice hostport 1 e) 1 (e + 1)
                      else if hostport ! (e + 1) = colon then addrErr ''too many colons in address''
                      else addrErr ''missing port in address''
             else let host = take i hostport
                  in if colon \<in> set host then addrErr ''too many colons in address''
                     else finish host 0 0)"

definition addrKey :: "bytes option \<Rightarrow> bytes" where
  "addrKey a = (case a of
       None \<Rightarrow> []
     | Some s \<Rightarrow> (case SplitHostPort s of Inr (host, _) \<Rightarrow> host | Inl _ \<Rightarrow> s))"

section \<open>State and operations\<close>

record contactKey =
  ck_local :: bytes
  ck_remote :: bytes

definition DefaultContactHorizon :: int where "DefaultContactHorizon = 6 * hour"
definition defaultContactMax :: int where "defaultContactMax = 1024"

record ContactMemory =
  cm_horizon :: int
  cm_max :: int
  cm_seen :: "(contactKey, int) gomap"
  cm_gen :: u64

definition NewContactMemory :: "int \<Rightarrow> int \<Rightarrow> ContactMemory" where
  "NewContactMemory horizon maxi =
     \<lparr>cm_horizon = (if horizon \<le> 0 then DefaultContactHorizon else horizon),
      cm_max = (if maxi \<le> 0 then defaultContactMax else maxi), cm_seen = [], cm_gen = 0\<rparr>"

definition ContactHorizon :: "ContactMemory option \<Rightarrow> int" where
  "ContactHorizon m = (case m of None \<Rightarrow> 0 | Some m \<Rightarrow> cm_horizon m)"

definition Reset :: "ContactMemory \<Rightarrow> ContactMemory" where
  "Reset m = m\<lparr>cm_seen := [], cm_gen := cm_gen m + 1\<rparr>"

definition generation :: "ContactMemory option \<Rightarrow> u64" where
  "generation m = (case m of None \<Rightarrow> 0 | Some m \<Rightarrow> cm_gen m)"

definition Tracked :: "ContactMemory option \<Rightarrow> nat" where
  "Tracked m = (case m of None \<Rightarrow> 0 | Some m \<Rightarrow> length (cm_seen m))"

text \<open>
  The loop that enforces the bound. Each pass deletes one entry, so as many passes as there are
  entries are always enough.
\<close>

primrec drop_excess :: "nat \<Rightarrow> (contactKey, int) order \<Rightarrow> int \<Rightarrow> (contactKey, int) gomap \<Rightarrow> (contactKey, int) gomap" where
  "drop_excess 0 order maxi seen = seen"
| "drop_excess (Suc n) order maxi seen =
     (if maxi < int (length seen)
      then drop_excess n order maxi
             (case oldest_of id (order seen) of None \<Rightarrow> seen | Some (k, _) \<Rightarrow> AList.delete k seen)
      else seen)"

definition contact_evictLocked :: "(contactKey, int) order \<Rightarrow> int \<Rightarrow> ContactMemory \<Rightarrow> ContactMemory" where
  "contact_evictLocked order now m =
     (let seen = drop_stale id (cm_horizon m) now (cm_seen m)
      in m\<lparr>cm_seen := drop_excess (length seen) order (cm_max m) seen\<rparr>)"

definition contact_key :: "bytes option \<Rightarrow> bytes option \<Rightarrow> contactKey" where
  "contact_key local remote = \<lparr>ck_local = addrKey local, ck_remote = addrKey remote\<rparr>"

definition needsFull :: "(contactKey, int) order \<Rightarrow> bytes option \<Rightarrow> bytes option \<Rightarrow> int \<Rightarrow> ContactMemory
    \<Rightarrow> (bool \<times> u64) \<times> ContactMemory" where
  "needsFull order local remote now m =
     (let m = contact_evictLocked order now m
      in ((case map_of (cm_seen m) (contact_key local remote) of
             None \<Rightarrow> True
           | Some lastly \<Rightarrow> cm_horizon m \<le> time_Sub now lastly, cm_gen m), m))"

definition record_contact :: "(contactKey, int) order \<Rightarrow> bytes option \<Rightarrow> bytes option \<Rightarrow> int \<Rightarrow> u64 \<Rightarrow> ContactMemory
    \<Rightarrow> ContactMemory" where
  "record_contact order local remote now gen m =
     (if gen \<noteq> cm_gen m then m
      else contact_evictLocked order now
             (m\<lparr>cm_seen := AList.update (contact_key local remote) now (cm_seen m)\<rparr>))"

text \<open>A nil memory never asks for a full handshake and records nothing.\<close>

definition needsFull_nil :: "(contactKey, int) order \<Rightarrow> bytes option \<Rightarrow> bytes option \<Rightarrow> int \<Rightarrow> ContactMemory option
    \<Rightarrow> (bool \<times> u64) \<times> ContactMemory option" where
  "needsFull_nil order local remote now m =
     (case m of None \<Rightarrow> ((False, 0), None) | Some m \<Rightarrow> map_prod id Some (needsFull order local remote now m))"

definition record_nil :: "(contactKey, int) order \<Rightarrow> bytes option \<Rightarrow> bytes option \<Rightarrow> int \<Rightarrow> u64 \<Rightarrow> ContactMemory option
    \<Rightarrow> ContactMemory option" where
  "record_nil order local remote now gen m = map_option (record_contact order local remote now gen) m"

section \<open>Addresses lose their ports\<close>

lemma last_index_None: "c \<notin> set xs \<Longrightarrow> last_index_byte c xs = None"
  by (induction xs) auto

lemma last_index_last: "c \<notin> set ys \<Longrightarrow> last_index_byte c (xs @ c # ys) = Some (length xs)"
  by (induction xs) (auto simp: last_index_None)

lemma index_first: "c \<notin> set xs \<Longrightarrow> index_byte c (xs @ c # ys) = Some (length xs)"
  by (induction xs) auto

definition plain_host :: "bytes \<Rightarrow> bool" where
  "plain_host h \<longleftrightarrow> lbracket \<notin> set h \<and> rbracket \<notin> set h"

lemma addrKey_v4:
  assumes "plain_host host" and "colon \<notin> set host" and "plain_host port" and "colon \<notin> set port"
  shows "addrKey (Some (host @ colon # port)) = host"
proof -
  have "(host @ colon # port) ! 0 \<noteq> lbracket" using assms(1) by (cases host) (auto simp: plain_host_def)
  then show ?thesis
    using assms by (simp add: addrKey_def SplitHostPort_def Let_def last_index_last plain_host_def)
qed

lemma addrKey_v6:
  assumes "plain_host host" and "plain_host port" and "colon \<notin> set port"
  shows "addrKey (Some (lbracket # host @ rbracket # colon # port)) = host"
proof -
  let ?a = "lbracket # host @ rbracket # colon # port"
  have l: "last_index_byte colon ?a = Some (length host + 2)"
    using last_index_last [OF assms(3), of "lbracket # host @ [rbracket]"] by simp
  have r: "index_byte rbracket ?a = Some (length host + 1)"
    using index_first [of rbracket "lbracket # host" "colon # port"] assms(1) by (auto simp: plain_host_def)
  have sl: "slice ?a 1 (length host + 1) = host" by (simp add: slice_def)
  have tails: "drop 1 ?a = host @ rbracket # colon # port" "drop (length host + 1 + 1) ?a = colon # port" by simp_all
  have "SplitHostPort ?a = Inr (host, drop (length host + 2 + 1) ?a)"
    unfolding SplitHostPort_def l r option.case Let_def sl tails
    using assms by (simp add: plain_host_def)
  then show ?thesis by (simp add: addrKey_def)
qed

section \<open>The invariant\<close>

definition memory_ok :: "ContactMemory \<Rightarrow> bool" where
  "memory_ok m \<longleftrightarrow> distinct (map fst (cm_seen m)) \<and> 0 < cm_max m \<and> int (length (cm_seen m)) \<le> cm_max m
     \<and> 0 < cm_horizon m"

lemma drop_excess_result:
  assumes "distinct (map fst seen)" and "range_order order" and "length seen \<le> n" and "0 \<le> maxi"
  shows "distinct (map fst (drop_excess n order maxi seen)) \<and> int (length (drop_excess n order maxi seen)) \<le> maxi
     \<and> set (drop_excess n order maxi seen) \<subseteq> set seen
     \<and> (int (length seen) \<le> maxi \<longrightarrow> drop_excess n order maxi seen = seen)"
  using assms(1,3)
proof (induction n arbitrary: seen)
  case 0
  then show ?case using assms(4) by simp
next
  case (Suc n)
  show ?case
  proof (cases "maxi < int (length seen)")
    case True
    then have "order seen \<noteq> []" using assms(2,4) by auto
    then obtain k t where o: "oldest_of id (order seen) = Some (k, t)"
      by (cases "oldest_of id (order seen)") auto
    have "k \<in> fst ` set seen" using oldest_of_Some [OF o] assms(2) by simp
    then have l: "length (AList.delete k seen) = length seen - 1" by (rule length_AList_delete [OF Suc.prems(1)])
    have d: "distinct (map fst (AList.delete k seen))" using Suc.prems(1) by (rule AList.distinct_delete)
    have sub: "set (AList.delete k seen) \<subseteq> set seen" by (auto simp: AList.delete_eq)
    have "length (AList.delete k seen) \<le> n" using l Suc.prems(2) by simp
    from Suc.IH [OF d this] have r: "distinct (map fst (drop_excess n order maxi (AList.delete k seen)))"
      "int (length (drop_excess n order maxi (AList.delete k seen))) \<le> maxi"
      "set (drop_excess n order maxi (AList.delete k seen)) \<subseteq> set seen" using sub by blast+
    have "drop_excess (Suc n) order maxi seen = drop_excess n order maxi (AList.delete k seen)" using True o by simp
    then show ?thesis using r True by simp
  next
    case False
    then show ?thesis using Suc.prems by simp
  qed
qed

lemma contact_evict_sel [simp]: "cm_horizon (contact_evictLocked order now m) = cm_horizon m"
  "cm_max (contact_evictLocked order now m) = cm_max m" "cm_gen (contact_evictLocked order now m) = cm_gen m"
  by (simp_all add: contact_evictLocked_def Let_def)

text \<open>Eviction alone bounds the map, whatever its size was.\<close>

lemma contact_evict_result:
  assumes "distinct (map fst (cm_seen m))" and "range_order order" and "0 < cm_max m" and "0 < cm_horizon m"
  shows "memory_ok (contact_evictLocked order now m) \<and> set (cm_seen (contact_evictLocked order now m)) \<subseteq>
     {x \<in> set (cm_seen m). time_Sub now (snd x) < cm_horizon m}"
proof -
  let ?s = "drop_stale id (cm_horizon m) now (cm_seen m)"
  have "set ?s \<subseteq> {x \<in> set (cm_seen m). time_Sub now (snd x) < cm_horizon m}" by (auto simp: drop_stale_def)
  then show ?thesis
    using drop_excess_result [OF distinct_drop_stale [OF assms(1)] assms(2) order_refl, of "cm_max m" id "cm_horizon m" now]
      assms(3,4) by (auto simp: memory_ok_def contact_evictLocked_def Let_def)
qed

lemma contact_evict_room:
  assumes "distinct (map fst (cm_seen m))" and "range_order order" and "0 < cm_max m"
    and "int (length (cm_seen m)) \<le> cm_max m"
  shows "cm_seen (contact_evictLocked order now m) = drop_stale id (cm_horizon m) now (cm_seen m)"
  using drop_excess_result [OF distinct_drop_stale [OF assms(1)] assms(2) order_refl, of "cm_max m" id "cm_horizon m" now]
    assms(3,4) length_drop_stale [of id "cm_horizon m" now "cm_seen m"]
  by (simp add: contact_evictLocked_def Let_def)

lemma memory_ok_New: "memory_ok (NewContactMemory horizon maxi)"
  by (simp add: memory_ok_def NewContactMemory_def DefaultContactHorizon_def defaultContactMax_def)

lemma memory_ok_Reset: "memory_ok m \<Longrightarrow> memory_ok (Reset m)"
  by (simp add: memory_ok_def Reset_def)

lemma needsFull_state: "snd (needsFull order local remote now m) = contact_evictLocked order now m"
  by (simp add: needsFull_def Let_def)

lemma memory_ok_needsFull:
  "memory_ok m \<Longrightarrow> range_order order \<Longrightarrow> memory_ok (snd (needsFull order local remote now m))"
  using contact_evict_result [of m order now] by (simp add: needsFull_state memory_ok_def)

lemma memory_ok_record:
  "memory_ok m \<Longrightarrow> range_order order \<Longrightarrow> memory_ok (record_contact order local remote now gen m)"
  using contact_evict_result [of "m\<lparr>cm_seen := AList.update (contact_key local remote) now (cm_seen m)\<rparr>" order now]
  by (auto simp: record_contact_def memory_ok_def AList.distinct_update)

section \<open>Runs of the memory\<close>

text \<open>
  Every method holds the mutex, so concurrent connections and network changes interleave as a
  sequence of whole calls; a decision and the recording that follows it are separate calls with
  anything in between.
\<close>

datatype contact_event =
    Decided "bytes option" "bytes option" int bool u64
  | Recorded "bytes option" "bytes option" int u64
  | Forgotten

inductive memory_run :: "ContactMemory \<Rightarrow> contact_event list \<Rightarrow> ContactMemory \<Rightarrow> bool" for m0 where
  start: "memory_run m0 [] m0"
| decide: "memory_run m0 tr m \<Longrightarrow> range_order order \<Longrightarrow> needsFull order l r now m = ((full, gen), m') \<Longrightarrow>
     memory_run m0 (tr @ [Decided l r now full gen]) m'"
| keep: "memory_run m0 tr m \<Longrightarrow> range_order order \<Longrightarrow>
     memory_run m0 (tr @ [Recorded l r now gen]) (record_contact order l r now gen m)"
| forget: "memory_run m0 tr m \<Longrightarrow> memory_run m0 (tr @ [Forgotten]) (Reset m)"

definition resets :: "contact_event list \<Rightarrow> nat" where
  "resets tr = length (filter (\<lambda>e. e = Forgotten) tr)"

lemma memory_run_ok: "memory_run m0 tr m \<Longrightarrow> memory_ok m0 \<Longrightarrow>
    memory_ok m \<and> cm_max m = cm_max m0 \<and> cm_horizon m = cm_horizon m0 \<and> cm_gen m = cm_gen m0 + of_nat (resets tr)"
proof (induction rule: memory_run.induct)
  case (decide tr m order l r now full gen m')
  have m': "m' = contact_evictLocked order now m" using needsFull_state [of order l r now m] decide.hyps(3) by simp
  have "memory_ok m'"
    using memory_ok_needsFull [of m order l r now] decide.IH [OF decide.prems] decide.hyps(2) by (simp add: needsFull_state m')
  then show ?case using decide.IH [OF decide.prems] by (simp add: resets_def m')
next
  case (keep tr m order l r now gen)
  then show ?case using memory_ok_record [of m order l r now gen] by (simp add: resets_def record_contact_def)
next
  case (forget tr m)
  then show ?case using memory_ok_Reset [of m] by (simp add: resets_def Reset_def)
qed (simp add: resets_def)

lemma resets_Nil [simp]: "resets [] = 0"
  by (simp add: resets_def)

text \<open>Every entry was recorded, since the last reset, by a handshake decided since the last reset.\<close>

definition traced :: "u64 \<Rightarrow> contact_event list \<Rightarrow> contactKey \<times> int \<Rightarrow> bool" where
  "traced g0 tr x \<longleftrightarrow> (\<exists>pre l r gen post. tr = pre @ Recorded l r (snd x) gen # post \<and> contact_key l r = fst x
     \<and> Forgotten \<notin> set post \<and> gen = g0 + of_nat (resets pre))"

lemma traced_snoc: "traced g0 tr x \<Longrightarrow> e \<noteq> Forgotten \<Longrightarrow> traced g0 (tr @ [e]) x"
  unfolding traced_def by (elim exE conjE) (intro exI conjI, simp, simp_all)

lemma memory_run_traced:
  "memory_run m0 tr m \<Longrightarrow> memory_ok m0 \<Longrightarrow> cm_seen m0 = [] \<Longrightarrow> x \<in> set (cm_seen m) \<Longrightarrow> traced (cm_gen m0) tr x"
proof (induction arbitrary: x rule: memory_run.induct)
  case (decide tr m order l r now full gen m')
  have m': "m' = contact_evictLocked order now m" using needsFull_state [of order l r now m] decide.hyps(3) by simp
  have "x \<in> set (cm_seen m)"
    using contact_evict_result [of m order now] memory_run_ok [OF decide.hyps(1) decide.prems(1)] decide.hyps(2)
      decide.prems(3) m' by (auto simp: memory_ok_def)
  then show ?case using decide.IH [OF decide.prems(1,2)] traced_snoc by blast
next
  case (keep tr m order l r now gen)
  have ok: "memory_ok m" "cm_gen m = cm_gen m0 + of_nat (resets tr)"
    using memory_run_ok [OF keep.hyps(1) keep.prems(1)] by auto
  show ?case
  proof (cases "gen = cm_gen m")
    case False
    then show ?thesis using keep.prems(3) keep.IH [OF keep.prems(1,2)] traced_snoc by (simp add: record_contact_def)
  next
    case True
    let ?m = "m\<lparr>cm_seen := AList.update (contact_key l r) now (cm_seen m)\<rparr>"
    have "x \<in> set (cm_seen (contact_evictLocked order now ?m))" using keep.prems(3) True by (simp add: record_contact_def)
    then have "x \<in> set (cm_seen ?m)"
      using contact_evict_result [of ?m order now] keep.hyps(2) ok(1) by (auto simp: memory_ok_def AList.distinct_update)
    then consider "x = (contact_key l r, now)" | "x \<in> set (cm_seen m)"
      using set_AList_update [of "contact_key l r" now "cm_seen m"] by auto
    then show ?thesis
    proof cases
      case 1
      then show ?thesis unfolding traced_def using True ok(2)
        by (intro exI [of _ tr] exI [of _ l] exI [of _ r] exI [of _ gen] exI [of _ "[]"]) simp
    next
      case 2
      then show ?thesis using keep.IH [OF keep.prems(1,2)] traced_snoc by blast
    qed
  qed
next
  case (forget tr m)
  then show ?case by (simp add: Reset_def)
qed simp

lemma resumed_aux:
  assumes "memory_run m0 tr m" and "memory_ok m0" and "cm_seen m0 = []"
    and "tr = before @ Decided l r now False gen # rest"
  shows "\<exists>t. traced (cm_gen m0) before (contact_key l r, t) \<and> time_Sub now t < cm_horizon m0"
  using assms
proof (induction arbitrary: before l r now gen rest rule: memory_run.induct)
  case (decide tr m order l' r' now' full gen' m')
  show ?case
  proof (cases "rest = []")
    case True
    then have e: "before = tr" "l' = l" "r' = r" "now' = now" "full = False" using decide.prems(3) by simp_all
    have ok: "memory_ok m" "cm_horizon m = cm_horizon m0" using memory_run_ok [OF decide.hyps(1) decide.prems(1)] by auto
    obtain t where t: "map_of (cm_seen (contact_evictLocked order now m)) (contact_key l r) = Some t"
      "\<not> cm_horizon m \<le> time_Sub now t"
      using decide.hyps(3) e by (auto simp: needsFull_def Let_def split: option.splits)
    have "(contact_key l r, t) \<in> set (cm_seen m)"
      using map_of_SomeD [OF t(1)] contact_evict_result [of m order now] decide.hyps(2) ok(1) by (auto simp: memory_ok_def)
    then have "traced (cm_gen m0) tr (contact_key l r, t)"
      by (rule memory_run_traced [OF decide.hyps(1) decide.prems(1,2)])
    then show ?thesis using e t(2) ok(2) by auto
  next
    case False
    then obtain r1 where "tr = before @ Decided l r now False gen # r1"
      using decide.prems(3) by (cases rest rule: rev_cases) auto
    then show ?thesis by (rule decide.IH [OF decide.prems(1,2)])
  qed
next
  case (keep tr m order l' r' now' gen')
  then obtain r1 where "tr = before @ Decided l r now False gen # r1" by (cases rest rule: rev_cases) auto
  then show ?case by (rule keep.IH [OF keep.prems(1,2)])
next
  case (forget tr m)
  then obtain r1 where "tr = before @ Decided l r now False gen # r1" by (cases rest rule: rev_cases) auto
  then show ?case by (rule forget.IH [OF forget.prems(1,2)])
qed simp

text \<open>
  C14. No resumption without a predecessor: in every interleaving of decisions, recordings and
  resets on a new memory, with map iteration in any order, a connection told to resume follows a
  full handshake recorded earlier for the same local and remote host, less than the horizon ago,
  with no reset after the recording, and decided in the reset generation of the recording.
\<close>

theorem resumption_follows_full:
  assumes "memory_run (NewContactMemory horizon maxi) (before @ Decided l r now False gen # rest) m"
  shows "\<exists>pre l' r' t gen' post. before = pre @ Recorded l' r' t gen' # post
     \<and> addrKey l' = addrKey l \<and> addrKey r' = addrKey r
     \<and> time_Sub now t < ContactHorizon (Some (NewContactMemory horizon maxi))
     \<and> Forgotten \<notin> set post \<and> gen' = of_nat (resets pre)"
proof -
  obtain t where "traced (cm_gen (NewContactMemory horizon maxi)) before (contact_key l r, t)"
    and t: "time_Sub now t < cm_horizon (NewContactMemory horizon maxi)"
    using resumed_aux [OF assms memory_ok_New _ refl] by (auto simp: NewContactMemory_def)
  then obtain pre l' r' post where "before = pre @ Recorded l' r' t (of_nat (resets pre)) # post"
    "contact_key l' r' = contact_key l r" "Forgotten \<notin> set post"
    unfolding traced_def by (auto simp: NewContactMemory_def)
  then show ?thesis
    using t by (intro exI [of _ pre] exI [of _ l'] exI [of _ r'] exI [of _ t] exI [of _ "of_nat (resets pre)"] exI [of _ post])
      (simp add: contact_key_def ContactHorizon_def)
qed

text \<open>A first connection, its recording, and the resumption from another port.\<close>

definition demo_addr :: "byte \<Rightarrow> bytes option" where
  "demo_addr port = Some ([49] @ colon # [port])"

definition demo_memory :: ContactMemory where
  "demo_memory = (NewContactMemory 10 4)\<lparr>cm_seen := [(\<lparr>ck_local = [49], ck_remote = [49]\<rparr>, 5)]\<rparr>"

lemma demo_contact_key: "contact_key (demo_addr 50) (demo_addr 51) = \<lparr>ck_local = [49], ck_remote = [49]\<rparr>"
  "contact_key (demo_addr 52) (demo_addr 51) = \<lparr>ck_local = [49], ck_remote = [49]\<rparr>"
  unfolding contact_key_def demo_addr_def by (simp_all add: addrKey_v4 plain_host_def del: append_Cons append_Nil)

lemma demo_memory_calls:
  "needsFull id (demo_addr 50) (demo_addr 51) 5 (NewContactMemory 10 4) = ((True, 0), NewContactMemory 10 4)"
  "record_contact id (demo_addr 50) (demo_addr 51) 5 0 (NewContactMemory 10 4) = demo_memory"
  "needsFull id (demo_addr 52) (demo_addr 51) 9 demo_memory = ((False, 0), demo_memory)"
  by (simp_all add: needsFull_def record_contact_def demo_contact_key demo_memory_def NewContactMemory_def
      contact_evictLocked_def drop_stale_def time_Sub_def)

lemma demo_memory_run:
  "memory_run (NewContactMemory 10 4) ([Decided (demo_addr 50) (demo_addr 51) 5 True 0, Recorded (demo_addr 50) (demo_addr 51) 5 0]
     @ Decided (demo_addr 52) (demo_addr 51) 9 False 0 # []) demo_memory"
proof -
  note d1 = memory_run.decide [OF memory_run.start range_order_id(1) demo_memory_calls(1)]
  note d2 = memory_run.keep [OF d1 range_order_id(1), of "demo_addr 50" "demo_addr 51" 5 0]
  note d3 = memory_run.decide [OF d2 range_order_id(1), unfolded demo_memory_calls(2), OF demo_memory_calls(3)]
  show ?thesis using d3 by simp
qed

theorem resumption_follows_full_witness:
  "\<exists>pre l' r' t gen' post. [Decided (demo_addr 50) (demo_addr 51) 5 True 0, Recorded (demo_addr 50) (demo_addr 51) 5 0]
        = pre @ Recorded l' r' t gen' # post
     \<and> addrKey l' = addrKey (demo_addr 52) \<and> addrKey r' = addrKey (demo_addr 51)
     \<and> time_Sub 9 t < ContactHorizon (Some (NewContactMemory 10 4))
     \<and> Forgotten \<notin> set post \<and> gen' = of_nat (resets pre)"
  by (rule resumption_follows_full [OF demo_memory_run])

text \<open>
  The converse: a full handshake recorded in the current generation is resumed, from any ports,
  while the horizon lasts, if the memory had room for it and its clock did not go back.
\<close>

theorem recorded_is_resumed:
  assumes "memory_ok m" and "range_order order" and "range_order order'"
    and "int (length (cm_seen m)) < cm_max m" and "addrKey l' = addrKey l" and "addrKey r' = addrKey r"
    and "time_Sub now' now < cm_horizon m"
  shows "fst (needsFull order' l' r' now' (record_contact order l r now (cm_gen m) m)) = (False, cm_gen m)"
proof -
  let ?m = "m\<lparr>cm_seen := AList.update (contact_key l r) now (cm_seen m)\<rparr>"
  have k: "contact_key l' r' = contact_key l r" using assms(5,6) by (simp add: contact_key_def)
  have d: "distinct (map fst (cm_seen ?m))" using assms(1) by (simp add: memory_ok_def AList.distinct_update)
  have room: "int (length (cm_seen ?m)) \<le> cm_max ?m" using assms(4) by (simp add: length_AList_update)
  have e1: "cm_seen (contact_evictLocked order now ?m) = drop_stale id (cm_horizon m) now (cm_seen ?m)"
    using contact_evict_room [OF d assms(2) _ room] assms(1) by (simp add: memory_ok_def)
  have "0 < cm_horizon m" using assms(1) by (simp add: memory_ok_def)
  then have l1: "map_of (cm_seen (contact_evictLocked order now ?m)) (contact_key l r) = Some now"
    unfolding e1 using d by (simp add: map_of_drop_stale update_conv' time_Sub_def)
  let ?m1 = "contact_evictLocked order now ?m"
  have d1: "distinct (map fst (cm_seen ?m1))" unfolding e1 by (rule distinct_drop_stale [OF d])
  have room1: "int (length (cm_seen ?m1)) \<le> cm_max ?m1"
    unfolding e1 using room length_drop_stale [of id "cm_horizon m" now "cm_seen ?m"] by simp
  have "cm_seen (contact_evictLocked order' now' ?m1) = drop_stale id (cm_horizon m) now' (cm_seen ?m1)"
    using contact_evict_room [OF d1 assms(3) _ room1] assms(1) by (simp add: memory_ok_def)
  then have "map_of (cm_seen (contact_evictLocked order' now' ?m1)) (contact_key l r) = Some now"
    using l1 d1 assms(7) by (simp add: map_of_drop_stale)
  then show ?thesis using assms(7) by (simp add: needsFull_def record_contact_def k Let_def)
qed

theorem recorded_is_resumed_witness:
  "fst (needsFull rev (demo_addr 52) (demo_addr 51) 9 (record_contact id (demo_addr 50) (demo_addr 51) 5
      (cm_gen (NewContactMemory 10 4)) (NewContactMemory 10 4))) = (False, cm_gen (NewContactMemory 10 4))"
proof (rule recorded_is_resumed [OF memory_ok_New range_order_id])
  show "addrKey (demo_addr 52) = addrKey (demo_addr 50)"
    unfolding demo_addr_def by (simp add: addrKey_v4 plain_host_def del: append_Cons append_Nil)
qed (simp_all add: NewContactMemory_def time_Sub_def)

end
