(* ===== verification/Handshake.thy ===== *)
theory Handshake
  imports Cover Twiddle Contacts Stream_Layer
begin

text \<open>
  \<^verbatim>\<open>src/handshake.go\<close>: opening a connection. \<open>Client\<close> and \<open>Server\<close> are actions over the world of their
  socket and over the memory their callers share: the contact memory and the replay cache. Each reads
  the clock where the code does. Here: the operations, and what each record of the opening costs and
  carries; theory \<open>Opening\<close> has what the two ends promise each other.
\<close>

section \<open>Configuration\<close>

record ClientConfig =
  cc_Pool :: "bytes list"
  cc_Cover :: CoverProfile
  cc_Credential :: "Credential option"
  cc_FullHandshake :: bool
  cc_Shaper :: "Shaper option"

record ServerConfig =
  sc_TicketKey :: "TicketKey option"
  sc_Cover :: CoverProfile
  sc_MaxAge :: int
  sc_Shaper :: "Shaper option"

text \<open>
  \<^verbatim>\<open>cfg.Contacts\<close> and \<^verbatim>\<open>cfg.Replay\<close> point to state that outlives the call, so they are the first
  component of the state of the actions, \<open>None\<close> for nil. A socket is its two addresses, if it has them.
\<close>

type_synonym ('g, 'a) hio = "('g option \<times> world, 'a) act"
type_synonym socket = "bytes option \<times> bytes option"

section \<open>Records on the raw socket\<close>

definition readRecord :: "bytes io" where
  "readRecord =
     bindA (io_ReadFull recordHeaderLen) (\<lambda>hdr.
     let n = unat (Uint16 (slice hdr 3 5))
     in if maxCiphertext < n then failA (Err ''twiddle: record length out of range'')
        else bindA (io_ReadFull n) (\<lambda>body. returnA (hdr @ body)))"

text \<open>An operation of a connection, run where only its socket is at hand.\<close>

definition with_conn :: "Conn \<Rightarrow> 'a cio \<Rightarrow> ('a \<times> Conn) io" where
  "with_conn c m = (\<lambda>w. case m (c, w) of
     (Inl e, (c, w)) \<Rightarrow> (Inl e, w)
   | (Inr x, (c, w)) \<Rightarrow> (Inr (x, c), w))"

section \<open>Tickets after the handshake\<close>

abbreviation sessionTicketWire :: int where "sessionTicketWire \<equiv> 370"

definition writeTickets :: "Credential \<Rightarrow> unit cio" where
  "writeTickets nxt =
     (let body = appendU16 [] (of_nat (length (cr_Ticket nxt))) @ cr_Ticket nxt @ cr_PSK nxt
      in bindA (writeSized contentHandshake body sessionTicketWire) (\<lambda>_.
         let full = appendU16 [] (of_nat (length (cr_FullTicket nxt))) @ cr_FullTicket nxt
         in writeSized contentHandshake full sessionTicketWire))"

definition readTickets :: "Credential cio" where
  "readTickets =
     bindA consumeRecord (\<lambda>(typ, body).
     if typ \<noteq> contentHandshake then failA ErrMalformed
     else if length body < 2 then failA ErrMalformed
     else let tl = unat (Uint16 (slice body 0 2))
          in if length body \<noteq> 2 + tl + 32 then failA ErrMalformed
             else let ticket = slice body 2 (2 + tl);
                      psk = go_copy 0 (slice body (2 + tl) (2 + tl + 32)) (replicate 32 0)
                  in bindA consumeRecord (\<lambda>(typ, body).
                     if typ \<noteq> contentHandshake then failA ErrMalformed
                     else if length body < 2 then failA ErrMalformed
                     else let fl = unat (Uint16 (slice body 0 2))
                          in if fl \<noteq> FullTicketLen \<or> length body \<noteq> 2 + fl then failA ErrMalformed
                             else returnA \<lparr>cr_Ticket = ticket, cr_FullTicket = slice body 2 (2 + fl), cr_PSK = psk\<rparr>))"

section \<open>The client\<close>

text \<open>The checks of the configuration, in the code's order; the socket may be nil.\<close>

definition client_checks :: "ClientConfig \<Rightarrow> socket option \<Rightarrow> (Credential \<times> socket) res" where
  "client_checks cfg raw =
     (if cc_Pool cfg = [] then Inl (Err ''twiddle: empty hello pool'')
      else bindE (Valid (cc_Cover cfg)) (\<lambda>_.
        case cc_Credential cfg of
          None \<Rightarrow> Inl (Err ''twiddle: missing credential'')
        | Some cred \<Rightarrow>
            if int (length (cr_Ticket cred)) \<noteq> cp_TicketLen (cc_Cover cfg)
            then Inl (Err ''twiddle: credential ticket length does not match cover'')
            else if cc_FullHandshake cfg \<and> \<not> CanEmitFullHandshake (cc_Cover cfg)
            then Inl (Err ''twiddle: cover has no measured full-handshake profile'')
            else if cc_FullHandshake cfg \<and> FullHandshakeCarriers (cc_Pool cfg) = []
            then Inl (Err ''twiddle: no hello in the pool has an ECH payload large enough to carry a full-handshake ticket'')
            else case raw of
              None \<Rightarrow> Inl (Err ''twiddle: nil connection'')
            | Some sock \<Rightarrow> Inr (cred, sock)))"

text \<open>
  Which shape: the explicit request, else the contact memory's wish when cover, pool and credential
  can all back it. The result is the shape and the generation it was decided under.
\<close>

definition client_shape ::
  "(contactKey, int) order \<Rightarrow> ClientConfig \<Rightarrow> Credential \<Rightarrow> socket \<Rightarrow> (ContactMemory, bool \<times> u64) hio" where
  "client_shape order cfg cred sock =
     bindA getA (\<lambda>(contacts, _).
     if contacts = None then returnA (cc_FullHandshake cfg, 0)
     else bindA (on_world time_Now) (\<lambda>now.
          let ((wantFull, gen), contacts) = needsFull_nil order (fst sock) (snd sock) now contacts;
              full = (if \<not> cc_FullHandshake cfg \<and> wantFull
                      then CanEmitFullHandshake (cc_Cover cfg) \<and> FullHandshakeCarriers (cc_Pool cfg) \<noteq> []
                           \<and> length (cr_FullTicket cred) = FullTicketLen
                      else cc_FullHandshake cfg)
          in bindA (modA (\<lambda>(_, w). (contacts, w))) (\<lambda>_. returnA (full, gen))))"

text \<open>The opening itself: hello out, ServerHello and ChangeCipherSpec in, keys.\<close>

definition client_options :: "ClientConfig \<Rightarrow> Credential \<Rightarrow> bool \<Rightarrow> Options" where
  "client_options cfg cred full =
     \<lparr>opt_CoverSNI = cp_Host (cc_Cover cfg), opt_Credential = cred, opt_TicketLen = 0,
      opt_BinderLen = nat (cp_BinderLen (cc_Cover cfg)), opt_FullHandshake = full\<rparr>"

definition client_open :: "kex \<Rightarrow> ClientConfig \<Rightarrow> Credential \<Rightarrow> bool \<Rightarrow> Conn io" where
  "client_open K cfg cred full =
     (let candidates = (if full then FullHandshakeCarriers (cc_Pool cfg) else cc_Pool cfg)
      in if full \<and> candidates = []
         then failA (Err ''twiddle: no hello in the pool has an ECH payload large enough to carry a full-handshake ticket'')
         else
         bindA (drawA (rand_Int (length candidates))) (\<lambda>pick.
         bindA (drawA (Twiddle K (candidates ! pick) (client_options cfg cred full))) (\<lambda>(wire, eph).
         bindA (raw_Write wire) (\<lambda>_.
         bindA readRecord (\<lambda>sh.
         bindA (liftA (ServerEphemeralFromShare sh)) (\<lambda>serverEph.
         bindA readRecord (\<lambda>ccs.
         if length ccs \<noteq> recordHeaderLen + 1 \<or> ccs ! 0 \<noteq> 0x14 \<or> ccs ! recordHeaderLen \<noteq> 0x01
         then failA ErrMalformed
         else
         bindA (liftA (x25519_ECDH K eph serverEph)) (\<lambda>shared.
         bindA (liftA (DeriveSession (cr_PSK cred) shared (cp_CipherSuite (cc_Cover cfg)) (Transcript wire sh ccs))) (\<lambda>sess.
         bindA (liftA (NewConn sess True (cc_Shaper cfg))) (\<lambda>conn.
         returnA (conn\<lparr>c_full := full\<rparr>)))))))))))"

text \<open>The encrypted half: the server's flight in, the client's out, the next credential in.\<close>

definition client_finish :: "ClientConfig \<Rightarrow> bool \<Rightarrow> Conn \<Rightarrow> (Conn \<times> Credential) io" where
  "client_finish cfg full conn =
     (let remainder = (if full then cp_FullRemainder (cc_Cover cfg) else cp_ResumedRemainder (cc_Cover cfg))
      in bindA (with_conn conn (forA (\<lambda>_. bindA consumeRecord (\<lambda>_. returnA ())) remainder)) (\<lambda>(_, conn).
         bindA (raw_Write ChangeCipherSpec) (\<lambda>_.
         bindA (with_conn conn (writeSized contentHandshake [] (ClientEncryptedWire (cc_Cover cfg)))) (\<lambda>(_, conn).
         bindA (with_conn conn readTickets) (\<lambda>(nxt, conn).
         returnA (conn, nxt))))))"

definition Client :: "kex \<Rightarrow> (contactKey, int) order \<Rightarrow> ClientConfig \<Rightarrow> socket option
    \<Rightarrow> (ContactMemory, Conn \<times> Credential) hio" where
  "Client K order cfg raw =
     bindA (liftA (client_checks cfg raw)) (\<lambda>(cred, sock).
     bindA (client_shape order cfg cred sock) (\<lambda>(full, gen).
     bindA (on_world (bindA (client_open K cfg cred full) (client_finish cfg full))) (\<lambda>(conn, nxt).
     bindA getA (\<lambda>(contacts, _).
     if full \<and> contacts \<noteq> None
     then bindA (on_world time_Now) (\<lambda>now.
          bindA (modA (\<lambda>(contacts, w). (record_nil order (fst sock) (snd sock) now gen contacts, w))) (\<lambda>_.
          returnA (conn, nxt)))
     else returnA (conn, nxt)))))"

section \<open>The server\<close>

definition server_checks :: "ServerConfig \<Rightarrow> ReplayCache option \<Rightarrow> (TicketKey \<times> int) res" where
  "server_checks cfg replay = bindE (Valid (sc_Cover cfg)) (\<lambda>_.
     case sc_TicketKey cfg of
       None \<Rightarrow> Inl (Err ''twiddle: ticket key is required'')
     | Some k \<Rightarrow>
         if replay = None then Inl (Err ''twiddle: shared replay cache is required'')
         else let maxAge = (if sc_MaxAge cfg \<le> 0 then DefaultTicketMaxAge else sc_MaxAge cfg)
              in if Horizon replay < maxAge then Inl (Err ''twiddle: replay horizon is shorter than ticket MaxAge'')
                 else Inr (k, maxAge))"

text \<open>
  Reading and judging the hello: whatever is wrong with it, the answer is \<open>ErrNotOurs\<close>. The result is
  the record, the hello, the shape and whom it authenticated.
\<close>

definition VerifyTicketAuth :: "ClientHello \<Rightarrow> TicketKey \<Rightarrow> int \<Rightarrow> AuthResult io" where
  "VerifyTicketAuth h k maxAge = bindA time_Now (\<lambda>now. liftA (verifyAt h k maxAge now))"

definition VerifyECHTicketAuth :: "ClientHello \<Rightarrow> TicketKey \<Rightarrow> int \<Rightarrow> AuthResult io" where
  "VerifyECHTicketAuth h k maxAge = bindA time_Now (\<lambda>now. liftA (verifyECHAt h k maxAge now))"

definition server_accept :: "(u64, clientSeen) order \<Rightarrow> ServerConfig \<Rightarrow> TicketKey \<Rightarrow> int
    \<Rightarrow> (ReplayCache, bytes \<times> ClientHello \<times> bool \<times> AuthResult) hio" where
  "server_accept order cfg k maxAge =
     bindA (orA ErrNotOurs (on_world readRecord)) (\<lambda>rec.
     bindA (orA ErrNotOurs (liftA (ParseClientHello rec))) (\<lambda>h.
     bindA (orA ErrNotOurs (liftA (validateClientHello (sc_Cover cfg) h))) (\<lambda>ticket.
     let full = (Find ExtPreSharedKey h = None)
     in bindA (orA ErrNotOurs (on_world (if full then VerifyECHTicketAuth h k maxAge else VerifyTicketAuth h k maxAge))) (\<lambda>res.
        bindA (on_world time_Now) (\<lambda>now.
        bindA getA (\<lambda>(replay, _).
        let (fresh, replay) = consume_gate order (ar_ClientID res) (ar_Issued res) ticket now replay
        in bindA (modA (\<lambda>(_, w). (replay, w))) (\<lambda>_.
           if \<not> fresh then failA ErrNotOurs else returnA (rec, h, full, res))))))))"

text \<open>The answer: ServerHello and ChangeCipherSpec out, keys.\<close>

definition server_answer :: "kex \<Rightarrow> ServerConfig \<Rightarrow> bytes \<Rightarrow> ClientHello \<Rightarrow> bool \<Rightarrow> AuthResult \<Rightarrow> Conn io" where
  "server_answer K cfg rec h full res =
     bindA (drawA x25519_GenerateKey) (\<lambda>priv.
     bindA (drawA (SynthesizeServerHello
        \<lparr>sp_SessionIDEcho = SessionID h, sp_CipherSuite = cp_CipherSuite (sc_Cover cfg),
         sp_ServerEphemeral = Some (x25519_public K priv), sp_SelectedIdentity = 0,
         sp_PSKFirst = cp_PSKFirst (sc_Cover cfg), sp_FullHandshake = full\<rparr>)) (\<lambda>sh.
     bindA (raw_Write sh) (\<lambda>_.
     bindA (raw_Write ChangeCipherSpec) (\<lambda>_.
     bindA (liftA (x25519_ECDH K priv (ar_ClientEphemeral res))) (\<lambda>shared.
     bindA (liftA (DeriveSession (ar_PSK res) shared (cp_CipherSuite (sc_Cover cfg)) (Transcript rec sh ChangeCipherSpec))) (\<lambda>sess.
     bindA (liftA (NewConn sess False (sc_Shaper cfg))) (\<lambda>conn.
     returnA (conn\<lparr>c_full := full\<rparr>))))))))"

text \<open>The encrypted half: the cover's flight out, the client's in, the next credential out.\<close>

definition server_finish :: "ServerConfig \<Rightarrow> TicketKey \<Rightarrow> bool \<Rightarrow> u64 \<Rightarrow> Conn \<Rightarrow> Conn io" where
  "server_finish cfg k full clientID conn =
     bindA (if full then drawA (DrawFullRemainder (sc_Cover cfg)) else returnA (cp_ResumedRemainder (sc_Cover cfg))) (\<lambda>remainder.
     bindA (with_conn conn (forA (writeSized contentHandshake []) remainder)) (\<lambda>(_, conn).
     bindA readRecord (\<lambda>_.
     bindA (with_conn conn consumeRecord) (\<lambda>(_, conn).
     bindA time_Now (\<lambda>now.
     bindA (drawA (issueAt k clientID (nat (cp_TicketLen (sc_Cover cfg))) now)) (\<lambda>nxt.
     bindA (with_conn conn (writeTickets nxt)) (\<lambda>(_, conn).
     returnA conn)))))))"

definition Server :: "kex \<Rightarrow> (u64, clientSeen) order \<Rightarrow> ServerConfig \<Rightarrow> (ReplayCache, Conn) hio" where
  "Server K order cfg =
     bindA getA (\<lambda>(replay, _).
     bindA (liftA (server_checks cfg replay)) (\<lambda>(k, maxAge).
     bindA (server_accept order cfg k maxAge) (\<lambda>(rec, h, full, res).
     on_world (bindA (server_answer K cfg rec h full res) (server_finish cfg k full (ar_ClientID res))))))"

end
