(* ===== verification/Gatekeeping.thy ===== *)
theory Gatekeeping
  imports Handshake
begin

text \<open>
  What \<open>Server\<close> gives away, and to whom. Until a hello has authenticated and the replay gate has
  accepted its ticket, nothing is written: a prober or a replayer sees no byte of ours, and the caller gets
  \<open>ErrNotOurs\<close> and forwards the connection. And what \<open>Client\<close> records: only completed full handshakes.
\<close>

section \<open>Actions that write nothing\<close>

definition silent :: "('g \<times> world, 'a) act \<Rightarrow> bool" where
  "silent m \<longleftrightarrow> (\<forall>g w. w_out (snd (snd (m (g, w)))) = w_out w)"

definition fails_as :: "err \<Rightarrow> ('s, 'a) act \<Rightarrow> bool" where
  "fails_as e m \<longleftrightarrow> (\<forall>s e' s'. m s = (Inl e', s') \<longrightarrow> e' = e)"

named_theorems silent_intros \<open>how silent actions compose\<close>

lemma silent_bindA [silent_intros]: "silent m \<Longrightarrow> (\<And>x. silent (f x)) \<Longrightarrow> silent (bindA m f)"
proof -
  assume m: "silent m" and f: "\<And>x. silent (f x)"
  have "w_out (snd (snd (bindA m f (g, w)))) = w_out w" for g w
  proof -
    obtain r s where e: "m (g, w) = (r, s)" by (cases "m (g, w)")
    have "w_out (snd s) = w_out w" using m [unfolded silent_def, rule_format, of g w] e by simp
    moreover have "w_out (snd (snd (f x s))) = w_out (snd s)" for x
      using f [unfolded silent_def, rule_format, of x "fst s" "snd s"] by simp
    ultimately show ?thesis by (cases r) (simp_all add: bindA_def e)
  qed
  then show ?thesis by (simp add: silent_def)
qed

lemma silent_orA [silent_intros]: "silent m \<Longrightarrow> silent (orA e m)"
  by (auto simp: silent_def orA_def split: prod.splits sum.splits) (metis snd_conv)+

lemma silent_basic [silent_intros]: "silent (liftA m)" "silent (failA e)" "silent (returnA x)" "silent getA"
  by (simp_all add: silent_def liftA_def failA_def returnA_def getA_def)

lemma silent_modA [silent_intros]: "(\<And>g w. w_out (snd (f (g, w))) = w_out w) \<Longrightarrow> silent (modA f)"
  by (simp add: silent_def modA_def)

lemma silent_on_world [silent_intros]: "(\<And>w. w_out (snd (m w)) = w_out w) \<Longrightarrow> silent (on_world m)"
  by (simp add: silent_def on_world_def split: prod.split) (metis snd_conv)

lemma silent_if [silent_intros]: "(b \<Longrightarrow> silent m) \<Longrightarrow> (\<not> b \<Longrightarrow> silent m') \<Longrightarrow> silent (if b then m else m')"
  by simp

lemma fails_as_bindA [silent_intros]: "fails_as e m \<Longrightarrow> (\<And>x. fails_as e (f x)) \<Longrightarrow> fails_as e (bindA m f)"
  unfolding fails_as_def bindA_eq_Inl by blast

lemma fails_as_orA [silent_intros]: "fails_as e (orA e m)"
  by (simp add: fails_as_def orA_eq_Inl)

lemma fails_as_basic [silent_intros]: "fails_as e (failA e)" "fails_as e (returnA x)" "fails_as e getA" "fails_as e (modA f)"
  by (simp_all add: fails_as_def failA_def returnA_def getA_def modA_def)

lemma fails_as_time [silent_intros]: "fails_as e (on_world time_Now)"
  by (auto simp: fails_as_def on_world_def time_Now_def split: prod.splits)

lemma fails_as_if [silent_intros]: "(b \<Longrightarrow> fails_as e m) \<Longrightarrow> (\<not> b \<Longrightarrow> fails_as e m') \<Longrightarrow> fails_as e (if b then m else m')"
  by simp

lemma readRecord_out [simp]: "w_out (snd (readRecord w)) = w_out w"
  by (auto simp: readRecord_def bindA_def io_ReadFull_def failA_def returnA_def Let_def)

lemma verify_out [simp]: "w_out (snd (VerifyTicketAuth h k maxAge w)) = w_out w"
    "w_out (snd (VerifyECHTicketAuth h k maxAge w)) = w_out w"
  by (simp_all add: VerifyTicketAuth_def VerifyECHTicketAuth_def bindA_def time_Now_def liftA_def)

lemma server_accept_silent: "silent (server_accept order cfg k maxAge)"
  unfolding server_accept_def Let_def case_prod_beta
  by (intro silent_intros) (simp_all add: time_Now_def split: prod.split)

lemma server_accept_fails: "fails_as ErrNotOurs (server_accept order cfg k maxAge)"
  unfolding server_accept_def Let_def case_prod_beta by (intro silent_intros)

section \<open>What acceptance means\<close>

lemma server_accept_Inr:
  assumes "server_accept order cfg k maxAge (g, w) = (Inr (rec, h, full, res), (g', w'))"
  obtains ticket w1 where "readRecord w = (Inr rec, w1)" "ParseClientHello rec = Inr h"
    "validateClientHello (sc_Cover cfg) h = Inr ticket" "full \<longleftrightarrow> Find ExtPreSharedKey h = None"
    "(if Find ExtPreSharedKey h = None then verifyECHAt else verifyAt) h k maxAge (w_clock w1 (w_ticks w1)) = Inr res"
    "fst (consume_gate order (ar_ClientID res) (ar_Issued res) ticket (w_clock w1 (Suc (w_ticks w1))) g)"
    "g' = snd (consume_gate order (ar_ClientID res) (ar_Issued res) ticket (w_clock w1 (Suc (w_ticks w1))) g)"
    "w' = w1\<lparr>w_ticks := Suc (Suc (w_ticks w1))\<rparr>"
  using assms
  unfolding server_accept_def Let_def case_prod_beta bindA_eq_Inr orA_eq_Inr on_world_eq VerifyTicketAuth_def VerifyECHTicketAuth_def
  by (auto simp: liftA_def time_Now_def getA_def modA_def failA_def returnA_def bindA_def on_world_def split: if_splits prod.splits sum.splits)

lemma authentic_ticket:
  assumes "validateClientHello p h = Inr ticket"
    and "(if Find ExtPreSharedKey h = None then verifyECHAt else verifyAt) h k maxAge now = Inr r"
  shows "open_ticket k ticket = Inr (ar_ClientID r, ar_PSK r, ar_Issued r) \<and> (0 < maxAge \<longrightarrow> time_Sub now (ar_Issued r) \<le> maxAge)"
proof (cases "Find ExtPreSharedKey h = None")
  case True
  then have "verifyECHAt h k maxAge now = Inr r" using assms(2) by simp
  then show ?thesis using validated_full [OF assms(1)] unfolding verifyECHAt_iff_aux by blast
next
  case False
  have "verifyAt h k maxAge now = Inr r" using assms(2) unfolding if_not_P [OF False] .
  then show ?thesis using validated_resumed [OF assms(1)] unfolding verifyAt_iff_aux by blast
qed

lemma server_checks_Inr: "server_checks cfg g = Inr (k, maxAge) \<Longrightarrow>
    Valid (sc_Cover cfg) = Inr () \<and> sc_TicketKey cfg = Some k \<and> 0 < maxAge
    \<and> maxAge = (if sc_MaxAge cfg \<le> 0 then DefaultTicketMaxAge else sc_MaxAge cfg)
    \<and> (\<exists>c. g = Some c \<and> maxAge \<le> rc_horizon c)"
  by (auto simp: server_checks_def res_simps Let_def Horizon_def DefaultTicketMaxAge_def split: option.splits if_splits)

lemma Server_cases:
  assumes "Server K order cfg (g, w) = (r, (g', w'))"
  obtains (config) e where "server_checks cfg g = Inl e" "r = Inl e" "g' = g" "w' = w"
  | (refused) k maxAge where "server_checks cfg g = Inr (k, maxAge)"
      "server_accept order cfg k maxAge (g, w) = (Inl ErrNotOurs, (g', w'))" "r = Inl ErrNotOurs" "w_out w' = w_out w"
  | (answered) k maxAge rec h full res w1 where "server_checks cfg g = Inr (k, maxAge)"
      "server_accept order cfg k maxAge (g, w) = (Inr (rec, h, full, res), (g', w1))" "w_out w1 = w_out w"
      "(r, w') = bindA (server_answer K cfg rec h full res) (server_finish cfg k full (ar_ClientID res)) w1"
proof (cases "server_checks cfg g")
  case (Inl e)
  then have "Server K order cfg (g, w) = (Inl e, (g, w))" by (simp add: Server_def bindA_def getA_def liftA_def)
  then show thesis using assms config [OF Inl] by simp
next
  case (Inr km)
  obtain k maxAge where km: "km = (k, maxAge)" by (cases km)
  obtain ra ga wa where acc: "server_accept order cfg k maxAge (g, w) = (ra, (ga, wa))"
    by (cases "server_accept order cfg k maxAge (g, w)") auto
  have out: "w_out wa = w_out w"
    using server_accept_silent [of order cfg k maxAge, unfolded silent_def, rule_format, of g w] acc by simp
  show thesis
  proof (cases ra)
    case (Inl e)
    then have "e = ErrNotOurs" using server_accept_fails [of order cfg k maxAge] acc unfolding fails_as_def by blast
    moreover have "Server K order cfg (g, w) = (Inl e, (ga, wa))"
      using Inr km Inl acc by (simp add: Server_def bindA_def getA_def liftA_def)
    ultimately show thesis using refused [of k maxAge] Inr km Inl acc out assms by simp
  next
    case r: (Inr x)
    obtain rec h full res where x: "x = (rec, h, full, res)" by (cases x)
    have "(r, (g', w')) = on_world (bindA (server_answer K cfg rec h full res) (server_finish cfg k full (ar_ClientID res))) (ga, wa)"
      using assms Inr km acc r x by (simp add: Server_def bindA_def getA_def liftA_def)
    then have "g' = ga" "(r, w') = bindA (server_answer K cfg rec h full res) (server_finish cfg k full (ar_ClientID res)) wa"
      by (auto simp: on_world_def split: prod.splits)
    then show thesis using answered [of k maxAge rec h full res wa] Inr km acc r x out by simp
  qed
qed

lemma readRecord_Inr:
  "readRecord w = (Inr rec, w1) \<Longrightarrow> (\<exists>rest. w_in w = rec @ rest) \<and> w1 = w\<lparr>w_in := w_in w1\<rparr>
     \<and> 5 \<le> length rec \<and> length rec = 5 + unat (Uint16 (slice rec 3 5))"
  unfolding readRecord_def Let_def
  by (auto simp: bindA_eq_Inr io_ReadFull_Inr failA_def returnA_def slice_def split: if_splits)
     (metis append_take_drop_id)+

text \<open>All there is to know of a run that answered.\<close>

lemma answered_facts:
  assumes "server_checks cfg g = Inr (k, maxAge)"
    and "server_accept order cfg k maxAge (g, w) = (Inr (rec, h, full, res), (g', w1))"
  obtains c ticket rest where "sc_TicketKey cfg = Some k" "g = Some c" "w_in w = rec @ rest" "ParseClientHello rec = Inr h"
    "validateClientHello (sc_Cover cfg) h = Inr ticket"
    "open_ticket k ticket = Inr (ar_ClientID res, ar_PSK res, ar_Issued res)"
    "time_Sub (w_clock w (w_ticks w)) (ar_Issued res) \<le> (if sc_MaxAge cfg \<le> 0 then DefaultTicketMaxAge else sc_MaxAge cfg)"
    "fst (Consume order (ar_ClientID res) (ar_Issued res) ticket (w_clock w (Suc (w_ticks w))) c)"
    "g' = Some (snd (Consume order (ar_ClientID res) (ar_Issued res) ticket (w_clock w (Suc (w_ticks w))) c))"
proof -
  obtain ticket w2 where a: "readRecord w = (Inr rec, w2)" "ParseClientHello rec = Inr h"
    "validateClientHello (sc_Cover cfg) h = Inr ticket"
    "(if Find ExtPreSharedKey h = None then verifyECHAt else verifyAt) h k maxAge (w_clock w2 (w_ticks w2)) = Inr res"
    "fst (consume_gate order (ar_ClientID res) (ar_Issued res) ticket (w_clock w2 (Suc (w_ticks w2))) g)"
    "g' = snd (consume_gate order (ar_ClientID res) (ar_Issued res) ticket (w_clock w2 (Suc (w_ticks w2))) g)"
    by (rule server_accept_Inr [OF assms(2)])
  obtain c where k: "sc_TicketKey cfg = Some k" "g = Some c" "0 < maxAge"
      and m: "maxAge = (if sc_MaxAge cfg \<le> 0 then DefaultTicketMaxAge else sc_MaxAge cfg)"
    using server_checks_Inr [OF assms(1)] by blast
  have t: "open_ticket k ticket = Inr (ar_ClientID res, ar_PSK res, ar_Issued res)"
    "time_Sub (w_clock w2 (w_ticks w2)) (ar_Issued res) \<le> maxAge"
    using authentic_ticket [OF a(3,4)] k(3) by auto
  obtain rest where w: "w_in w = rec @ rest" "w2 = w\<lparr>w_in := w_in w2\<rparr>" using readRecord_Inr [OF a(1)] by blast
  have w2: "w_clock w2 = w_clock w" "w_ticks w2 = w_ticks w" by (subst w(2), simp)+
  show thesis
    by (rule that [OF k(1,2) w(1) a(2,3) t(1)]) (use t(2) a(5,6) k(2) m w2 in \<open>simp_all add: consume_gate_def\<close>)
qed

text \<open>
  C4. The server does not answer strangers. If a run of \<open>Server\<close> wrote so much as a byte, the first record on
  the socket is a hello that its own cover profile accepts, whose ticket opens under the server's key and
  is no older than the limit, and that ticket was new to the replay gate, which has spent it.
\<close>

theorem Server_silent:
  assumes "Server K order cfg (g, w) = (r, (g', w'))" and "w_out w' \<noteq> w_out w"
  shows "\<exists>k c rec h ticket clientID psk issued now rest. sc_TicketKey cfg = Some k \<and> g = Some c \<and> w_in w = rec @ rest
     \<and> ParseClientHello rec = Inr h \<and> validateClientHello (sc_Cover cfg) h = Inr ticket
     \<and> open_ticket k ticket = Inr (clientID, psk, issued)
     \<and> time_Sub (w_clock w (w_ticks w)) issued \<le> (if sc_MaxAge cfg \<le> 0 then DefaultTicketMaxAge else sc_MaxAge cfg)
     \<and> fst (Consume order clientID issued ticket now c) \<and> g' = Some (snd (Consume order clientID issued ticket now c))"
  using assms(1)
proof (cases rule: Server_cases)
  case (answered k maxAge rec h full res w1)
  obtain c ticket rest where f: "sc_TicketKey cfg = Some k" "g = Some c" "w_in w = rec @ rest" "ParseClientHello rec = Inr h"
    "validateClientHello (sc_Cover cfg) h = Inr ticket"
    "open_ticket k ticket = Inr (ar_ClientID res, ar_PSK res, ar_Issued res)"
    "time_Sub (w_clock w (w_ticks w)) (ar_Issued res) \<le> (if sc_MaxAge cfg \<le> 0 then DefaultTicketMaxAge else sc_MaxAge cfg)"
    "fst (Consume order (ar_ClientID res) (ar_Issued res) ticket (w_clock w (Suc (w_ticks w))) c)"
    "g' = Some (snd (Consume order (ar_ClientID res) (ar_Issued res) ticket (w_clock w (Suc (w_ticks w))) c))"
    by (rule answered_facts [OF answered(1,2)])
  show ?thesis by (intro exI conjI) (fact f)+
qed (use assms(2) in auto)

text \<open>The first record of a stream is determined by its own length field.\<close>

lemma first_record_unique:
  assumes "rec @ rest = rec' @ rest'" and "length rec = 5 + unat (Uint16 (slice rec 3 5))"
    and "length rec' = 5 + unat (Uint16 (slice rec' 3 5))"
  shows "rec = rec'"
proof -
  have "take 5 (rec @ rest) = take 5 (rec' @ rest')" by (simp only: assms(1))
  then have "take 5 rec = take 5 rec'" using assms(2,3) by simp
  moreover have "slice xs 3 5 = drop 3 (take 5 xs)" for xs :: bytes by (simp add: slice_def drop_take)
  ultimately have "slice rec 3 5 = slice rec' 3 5" by simp
  then show ?thesis using assms by simp
qed

lemma server_checks_horizon: "rc_horizon g' = rc_horizon g \<Longrightarrow> server_checks cfg (Some g') = server_checks cfg (Some g)"
proof -
  assume "rc_horizon g' = rc_horizon g"
  then have h: "Horizon (Some g') = Horizon (Some g)" by (simp add: Horizon_def)
  show ?thesis unfolding server_checks_def by (simp only: h option.distinct)
qed

text \<open>
  C3. A replayed opening is not answered. After a run that answered a record, a second run on the same
  record, over whatever follows it and however the maps are visited, writes nothing and returns
  \<open>ErrNotOurs\<close> as long as the gate's horizon since the ticket's issue has not passed.
\<close>

theorem Server_replay:
  assumes "Server K order cfg (Some g, w) = (r, (Some g', w'))" and "w_out w' \<noteq> w_out w"
    and "gate_ok g" and "range_order order"
    and "w_in w = rec @ rest" and "w_in v = rec @ rest'" and "length rec = 5 + unat (Uint16 (slice rec 3 5))"
    and "ParseClientHello rec = Inr h" and "validateClientHello (sc_Cover cfg) h = Inr ticket"
    and "sc_TicketKey cfg = Some k" and "open_ticket k ticket = Inr (clientID, psk, issued)"
    and "time_Sub (w_clock v (Suc (w_ticks v))) issued < rc_horizon g"
  shows "\<exists>v' g''. Server K order' cfg (Some g', v) = (Inl ErrNotOurs, (g'', v')) \<and> w_out v' = w_out v"
proof -
  have heard: "fst (Consume o1 clientID issued ticket (w_clock x (Suc (w_ticks x))) c1)
      \<and> g1' = Some (snd (Consume o1 clientID issued ticket (w_clock x (Suc (w_ticks x))) c1))"
    if acc: "server_accept o1 cfg k1 m1 (Some c1, x) = (Inr (rec1, h1, full1, res1), (g1', x1))"
      and chk: "server_checks cfg (Some c1) = Inr (k1, m1)" and x: "w_in x = rec @ rest1"
    for o1 k1 m1 c1 x rec1 h1 full1 res1 g1' x1 rest1
  proof -
    obtain c ticket1 rest2 where f: "sc_TicketKey cfg = Some k1" "Some c1 = Some c" "w_in x = rec1 @ rest2"
      "ParseClientHello rec1 = Inr h1" "validateClientHello (sc_Cover cfg) h1 = Inr ticket1"
      "open_ticket k1 ticket1 = Inr (ar_ClientID res1, ar_PSK res1, ar_Issued res1)"
      "fst (Consume o1 (ar_ClientID res1) (ar_Issued res1) ticket1 (w_clock x (Suc (w_ticks x))) c)"
      "g1' = Some (snd (Consume o1 (ar_ClientID res1) (ar_Issued res1) ticket1 (w_clock x (Suc (w_ticks x))) c))"
      by (rule answered_facts [OF chk acc])
    obtain x2 where "readRecord x = (Inr rec1, x2)" by (rule server_accept_Inr [OF acc])
    then have "length rec1 = 5 + unat (Uint16 (slice rec1 3 5))" using readRecord_Inr by blast
    then have "rec1 = rec" using first_record_unique [of rec1 rest2 rec rest1] f(3) x assms(7) by simp
    then show ?thesis using f assms(8-11) by simp
  qed
  obtain k1 m1 where chk: "server_checks cfg (Some g) = Inr (k1, m1)"
    and spent: "Consume order clientID issued ticket (w_clock w (Suc (w_ticks w))) g = (True, g')"
    using assms(1)
  proof (cases rule: Server_cases)
    case (answered k1 m1 rec1 h1 full1 res1 w1)
    show thesis
      by (rule that [OF answered(1)]) (use heard [OF answered(2,1) assms(5)] in \<open>simp add: prod_eq_iff\<close>)
  qed (use assms(2) in auto)
  have "rc_horizon g' = rc_horizon g" using spent Consume_sel(1) by (metis snd_conv)
  then have chk': "server_checks cfg (Some g') = Inr (k1, m1)" unfolding chk [symmetric] by (rule server_checks_horizon)
  obtain r2 g2 v2 where run: "Server K order' cfg (Some g', v) = (r2, (g2, v2))"
    by (cases "Server K order' cfg (Some g', v)") auto
  then show ?thesis
  proof (cases rule: Server_cases)
    case (answered k2 m2 rec2 h2 full2 res2 v3)
    have "fst (Consume order' clientID issued ticket (w_clock v (Suc (w_ticks v))) g')"
      using heard [OF answered(2,1) assms(6)] by simp
    then show ?thesis using replay.second_refused [OF assms(3,4) spent assms(12)] by simp
  qed (use chk' run in auto)
qed

end
