(* ===== verification/Emission.thy ===== *)
theory Emission
  imports Twiddle
begin

text \<open>
  What an emission promises, end to end: a hello of the shape browsers send is always emitted,
  given entropy, and what is emitted is accepted by the server and shows the observer the name and
  the extensions it should. \<open>emittable\<close> is the shape, in terms of the parsed hello alone.
\<close>

section \<open>The outer ECH extension after a refresh\<close>

lemma sole_ECH_Rerandomize:
  assumes "Rerandomize K h t = Inr (h', t')" and "sole ExtECH d h" and "d \<noteq> []" and "d ! 0 = 0"
  shows "\<exists>d' p n. sole ExtECH d' h' \<and> echPayload d' = Inr (p, n) \<and> FullTicketLen \<le> n"
proof -
  obtain h1 t1 h2 t2 h3 t3 r where g: "rerandGREASE h t = Inr (h1, t1)"
    and h2: "h2 = h1\<lparr>Random := r, SessionID := SessionID h2\<rparr>"
    and k: "on_extR ExtKeyShare (rerandKeyShare K) h2 t2 = Inr (h3, t3)"
    and e: "on_extR ExtECH rerandECHGrease h3 t3 = Inr (h', t')"
    by (rule Rerandomize_steps [OF assms(1)])
  have ng: "\<not> IsGREASE ExtECH" by (simp add: IsGREASE_def)
  have "sole ExtECH d h1" using sole_rerandGREASE [OF g ng _ assms(2)] by simp
  then have "sole ExtECH d h2" by (simp add: sole_def arg_cong [OF h2, of Extensions])
  then have "sole ExtECH d h3" using sole_on_extR(1) [OF k] by simp
  from sole_on_extR(2) [OF e this] obtain d' where d': "rerandECHGrease d t3 = Inr (d', t')" and s: "sole ExtECH d' h'"
    by blast
  from rerandECHGrease_result [OF d'] assms(3,4) obtain kdf aid cfg enc payload where b: "length enc = 32"
    "length payload \<in> set echGREASELengths" "d' = ech_body kdf aid cfg enc payload" by metis
  have "FullTicketLen \<le> length payload \<and> length payload < 65536" using b(2) by (auto simp: echGREASELengths_def)
  then show ?thesis using s echPayload_ech_body [of enc payload] b by auto
qed

section \<open>Each step can be taken\<close>

lemma can_Rerandomize:
  assumes "sole ExtKeyShare d h" and "share_ok d"
  shows "can (Rerandomize K h)"
proof -
  have ng: "\<not> IsGREASE ExtKeyShare" by (simp add: IsGREASE_def)
  have ks: "can (on_extR ExtKeyShare (rerandKeyShare K) h')" if "Extensions h' = Extensions h1"
    and g: "rerandGREASE h t = Inr (h1, t1)" for h' h1 t t1
  proof (rule can_on_extR)
    fix e
    assume f: "Find ExtKeyShare h' = Some e"
    obtain grp where "IsGREASE grp" "sole ExtKeyShare (replaceGREASEKeyShareGroup d grp) h1"
      using sole_rerandGREASE [OF g ng _ assms(1)] by auto
    then have "share_ok (ExtData e)"
      using f sole_Find [of ExtKeyShare _ h1] share_ok_regroup [OF assms(2)] that(1) by (simp add: Find_def)
    then show "can (rerandKeyShare K (ExtData e))"
      unfolding share_ok_def using can_rerandKeyShare by metis
  qed
  have rest: "can (bindR (if 0 < length (SessionID (h1\<lparr>Random := r\<rparr>))
        then bindR (rand_Read (length (SessionID (h1\<lparr>Random := r\<rparr>)))) (\<lambda>sid. returnR ((h1\<lparr>Random := r\<rparr>)\<lparr>SessionID := sid\<rparr>))
        else returnR (h1\<lparr>Random := r\<rparr>))
      (\<lambda>h. bindR (on_extR ExtKeyShare (rerandKeyShare K) h) (on_extR ExtECH rerandECHGrease)))"
    if g: "rerandGREASE h t = Inr (h1, t1)" for h1 r t t1
  proof (rule can_bindR)
    fix h2 u u'
    assume "(if 0 < length (SessionID (h1\<lparr>Random := r\<rparr>))
        then bindR (rand_Read (length (SessionID (h1\<lparr>Random := r\<rparr>)))) (\<lambda>sid. returnR ((h1\<lparr>Random := r\<rparr>)\<lparr>SessionID := sid\<rparr>))
        else returnR (h1\<lparr>Random := r\<rparr>)) u = Inr (h2, u')"
    then have "Extensions h2 = Extensions h1" by (auto simp: bindR_eq_Inr returnR_eq_Inr split: if_splits)
    from ks [OF this g] show "can (bindR (on_extR ExtKeyShare (rerandKeyShare K) h2) (on_extR ExtECH rerandECHGrease))"
      by (rule can_bindR) (rule can_on_extR, rule can_rerandECHGrease)
  qed (auto intro!: can_intros)
  show ?thesis
    unfolding Rerandomize_def Let_def
    by (rule can_bindR [OF can_rerandGREASE], rule can_bindR [OF can_rand_Read], rule rest)
qed

lemma can_SetKeyShare:
  assumes "Find ExtKeyShare h = Some e" and "share_ok (ExtData e)" and "kex_ok K"
  shows "can (SetKeyShare K h)"
proof -
  obtain hdr ks k where d: "ExtData e = hdr @ exts_bytes ks" "length hdr = 2" "\<forall>k\<in>set ks. length (ExtData k) < 65536"
    and k: "find (\<lambda>k. ExtType k = GroupX25519) ks = Some k" "length (ExtData k) = 32"
    using assms(2) unfolding share_ok_def by blast
  have mem: "\<exists>k\<in>set ks. ExtType k = GroupX25519 \<and> length (ExtData k) = 32"
    using k by (auto simp: find_Some_iff)
  have "\<exists>d'. set_share_loop pub 2 (ExtData e) = Inr d'" if "length pub = 32" for pub
  proof -
    have "set_share pub ks \<noteq> None" unfolding set_share_Some that by (rule mem)
    then show ?thesis using set_share_loop_entries [OF d(3), of pub hdr] d(1,2) by auto
  qed
  then have pub: "\<exists>d'. set_share_loop (x25519_public K priv) 2 (ExtData e) = Inr d'" for priv
    using kex_ok_lengths(2) [OF assms(3)] by blast
  have rest: "can (bindR (liftR (set_share_loop (x25519_public K priv) 2 (ExtData e)))
      (\<lambda>d. returnR (priv, SetExtData ExtKeyShare d h)))" for priv
    using pub [of priv] by (auto intro!: can_intros)
  show ?thesis
    unfolding SetKeyShare_def assms(1) option.case x25519_GenerateKey_def
    by (rule can_bindR [OF can_rand_Read rest])
qed

lemma can_SetTicketAuth: "n = 32 \<or> n = 48 \<Longrightarrow> can (SetTicketAuth cred n h)"
  unfolding SetTicketAuth_def Let_def by (auto simp: binderHash_def intro!: can_intros)

lemma can_SetECHTicketAuth:
  assumes "sole ExtECH d h" and "echPayload d = Inr (p, n)" and "FullTicketLen \<le> n"
    and "Find ExtPreSharedKey h = None" and "length ticket = FullTicketLen"
  shows "can (SetECHTicketAuth ticket psk h)"
proof -
  have big: "\<not> n < FullTicketLen" using assms(3) by simp
  show ?thesis
    unfolding SetECHTicketAuth_def Let_def
    using assms(2,4,5) sole_Find [OF assms(1)] big by (auto intro!: can_intros)
qed

section \<open>Everything browsers send is emitted\<close>

definition emittable :: "Options \<Rightarrow> ClientHello \<Rightarrow> bool" where
  "emittable opt h \<longleftrightarrow>
     (opt_CoverSNI opt \<noteq> [] \<longrightarrow> Find ExtServerName h \<noteq> None \<and> length (opt_CoverSNI opt) \<le> 65530)
     \<and> (\<exists>d. sole ExtKeyShare d h \<and> share_ok d) \<and> shuffle_types (map ExtType (Extensions h))
     \<and> (if opt_FullHandshake opt
        then (\<exists>d. sole ExtECH d h \<and> d \<noteq> [] \<and> d ! 0 = 0) \<and> length (cr_FullTicket (opt_Credential opt)) = FullTicketLen
        else opt_BinderLen opt = 32 \<or> opt_BinderLen opt = 48)"

lemma emittable_SetSNI:
  assumes "emittable opt h" and "opt_CoverSNI opt \<noteq> []"
  obtains h' where "SetSNI (opt_CoverSNI opt) h = Inr h'" "emittable opt h'"
proof -
  have f: "Find ExtServerName h \<noteq> None" "length (opt_CoverSNI opt) \<le> 65530"
    using assms by (auto simp: emittable_def)
  have s: "SetSNI (opt_CoverSNI opt) h = Inr (SetExtData ExtServerName (sni_body (opt_CoverSNI opt)) h)" (is "_ = Inr ?h")
    using f by (simp add: SetSNI_eq)
  have "sole u d ?h = sole u d h" if "u \<noteq> ExtServerName" for u d
    using sole_SetSNI [OF s] that by blast
  moreover have "map ExtType (Extensions ?h) = map ExtType (Extensions h)" by (simp add: hello_simps)
  moreover have "Find ExtServerName ?h \<noteq> None" using f by (auto simp: hello_simps)
  ultimately have "emittable opt ?h" using assms(1) unfolding emittable_def by auto
  with s show thesis by (rule that)
qed

lemma shuffle_types_Rerandomize:
  assumes "Rerandomize K h t = Inr (h', t')" and "shuffle_types (map ExtType (Extensions h))"
  shows "\<exists>a mid tail. shuffle_parts (Extensions h') a mid tail"
  using Rerandomize_keeps [OF assms(1)] shuffle_types_regreased [OF assms(2)] shuffle_types_parts by blast

lemma can_finish:
  assumes "emittable opt h" and "Rerandomize K h t = Inr (h2, t1)" and "Shuffle h2 u = Inr (h3, u1)"
    and "SetKeyShare K h3 v = Inr ((eph, h4), v1)"
  shows "if opt_FullHandshake opt
     then can (SetECHTicketAuth (cr_FullTicket (opt_Credential opt)) psk (fst (dropExtension ExtPreSharedKey h4)))
     else can (SetTicketAuth (opt_Credential opt) (opt_BinderLen opt) h4)"
proof (cases "opt_FullHandshake opt")
  case True
  then obtain d where d: "sole ExtECH d h" "d \<noteq> []" "d ! 0 = 0"
    and len: "length (cr_FullTicket (opt_Credential opt)) = FullTicketLen"
    using assms(1) by (auto simp: emittable_def)
  obtain d' p n where "sole ExtECH d' h2" and e: "echPayload d' = Inr (p, n)" "FullTicketLen \<le> n"
    using sole_ECH_Rerandomize [OF assms(2) d] by blast
  then have "sole ExtECH d' h3" using sole_Shuffle [OF assms(3)] by blast
  then have "sole ExtECH d' h4" using sole_SetKeyShare [OF assms(4)] by simp
  then have "sole ExtECH d' (fst (dropExtension ExtPreSharedKey h4))" by (simp add: sole_dropExtension)
  with True show ?thesis using can_SetECHTicketAuth [OF _ e _ len] by (simp add: hello_simps)
next
  case False
  then show ?thesis using assms(1) can_SetTicketAuth by (auto simp: emittable_def)
qed

text \<open>A whole key share survives the refresh and the shuffle.\<close>

lemma share_refreshed:
  assumes "Rerandomize K h t = Inr (h2, t1)" and "Shuffle h2 t2 = Inr (h3, t3)" and "sole ExtKeyShare d h" and "share_ok d" and "kex_ok K"
  shows "\<exists>e. Find ExtKeyShare h3 = Some e \<and> share_ok (ExtData e)"
proof -
  have "\<not> IsGREASE ExtKeyShare" by (simp add: IsGREASE_def)
  then obtain grp d' u1 u2 where g: "IsGREASE grp"
    and k: "rerandKeyShare K (replaceGREASEKeyShareGroup d grp) u1 = Inr (d', u2)" and h2: "sole ExtKeyShare d' h2"
    using sole_Rerandomize [OF assms(1) _ _ assms(3)] by auto
  have "share_ok d'" by (rule share_ok_rerand [OF share_ok_regroup [OF assms(4) g] assms(5) k])
  with sole_Find [OF sole_Shuffle [OF assms(2) h2]] show ?thesis by simp
qed

lemma Twiddle_emits_aux:
  assumes "ParseClientHello harvested = Inr h" and "emittable opt h" and "kex_ok K"
  shows "can (Twiddle K harvested opt)"
proof -
  have tail: "can (bindR (Rerandomize K h) (\<lambda>h. bindR (Shuffle h) (\<lambda>h. bindR (SetKeyShare K h) (\<lambda>(eph, h).
     if opt_FullHandshake opt
     then let (h, _) = dropExtension ExtPreSharedKey h
          in if length (cr_FullTicket (opt_Credential opt)) \<noteq> FullTicketLen
             then failR (Err ''twiddle: credential carries no usable full ticket; it cannot open a full handshake'')
             else bindR (SetECHTicketAuth (cr_FullTicket (opt_Credential opt)) (cr_PSK (opt_Credential opt)) h) (\<lambda>h.
                  returnR (Marshal h, eph))
     else bindR (SetTicketAuth (opt_Credential opt) (opt_BinderLen opt) h) (\<lambda>h. returnR (Marshal h, eph))))))"
    if em: "emittable opt h" for h
  proof -
    obtain d where d: "sole ExtKeyShare d h" "share_ok d" and ty: "shuffle_types (map ExtType (Extensions h))"
      using em by (auto simp: emittable_def)
    show ?thesis
    proof (rule can_bindR [OF can_Rerandomize [OF d]], rule can_bindR, goal_cases)
      case (1 h2 t t1)
      then show ?case using shuffle_types_Rerandomize [OF _ ty] can_Shuffle by blast
    next
      case (2 h2 t t1 h3 t2 t3)
      then obtain e where e: "Find ExtKeyShare h3 = Some e" "share_ok (ExtData e)" using share_refreshed [OF _ _ d assms(3)] by blast
      show ?case
      proof (rule can_bindR [OF can_SetKeyShare [OF e assms(3)]], clarify)
        fix eph h4 u u'
        assume "SetKeyShare K h3 u = Inr ((eph, h4), u')"
        from can_finish [OF em 2 this, of "cr_PSK (opt_Credential opt)"] em
        show "can (if opt_FullHandshake opt
          then let (h, _) = dropExtension ExtPreSharedKey h4
               in if length (cr_FullTicket (opt_Credential opt)) \<noteq> FullTicketLen
                  then failR (Err ''twiddle: credential carries no usable full ticket; it cannot open a full handshake'')
                  else bindR (SetECHTicketAuth (cr_FullTicket (opt_Credential opt)) (cr_PSK (opt_Credential opt)) h) (\<lambda>h.
                       returnR (Marshal h, eph))
          else bindR (SetTicketAuth (opt_Credential opt) (opt_BinderLen opt) h4) (\<lambda>h. returnR (Marshal h, eph)))"
          unfolding case_prod_beta Let_def emittable_def by (auto intro!: can_intros)
      qed
    qed
  qed
  show ?thesis
  proof (cases "opt_CoverSNI opt = []")
    case True
    then show ?thesis using tail [OF assms(2)] assms(1) by (simp add: Twiddle_def)
  next
    case False
    then obtain h' where "SetSNI (opt_CoverSNI opt) h = Inr h'" "emittable opt h'"
      using emittable_SetSNI [OF assms(2)] by blast
    then show ?thesis using tail [of h'] assms(1) False by (simp add: Twiddle_def)
  qed
qed

text \<open>
  Everything browsers send is emitted: for a hello that parses, offers one whole 32-byte X25519
  share, has GREASE extensions at both ends (pre_shared_key may follow), a server_name to rewrite
  when a cover name is asked for and, for a full handshake, one outer ECH extension, there is
  entropy that makes \<open>Twiddle\<close> return a record and a key, whatever entropy follows it.
\<close>

theorem Twiddle_emits:
  assumes "ParseClientHello harvested = Inr h" and "emittable opt h" and "kex_ok K"
  shows "\<exists>r wire eph. \<forall>s. Twiddle K harvested opt (r @ s) = Inr ((wire, eph), s)"
proof -
  obtain x where "yields (Twiddle K harvested opt) x" using Twiddle_emits_aux [OF assms] unfolding can_def ..
  then show ?thesis unfolding yields_def by (cases x) auto
qed

text \<open>A harvested hello for the witnesses, in the shape of a browser's.\<close>

definition browser_hello :: ClientHello where
  "browser_hello = small_hello\<lparr>Extensions :=
     [Extension 0x0a0a [], Extension ExtServerName (sni_body [97, 46, 98]),
      Extension ExtKeyShare ([0, 36] @ exts_bytes [Extension GroupX25519 (replicate 32 0)]),
      Extension ExtECH (ech_body 1 1 9 (replicate 32 4) (replicate 144 6)), Extension 0x1a1a [0]]\<rparr>"

definition demo_opt :: "bool \<Rightarrow> Options" where
  "demo_opt full_handshake = \<lparr>opt_CoverSNI = [99, 46, 100], opt_Credential = demo_cred, opt_TicketLen = 176,
     opt_BinderLen = 32, opt_FullHandshake = full_handshake\<rparr>"

lemma browser_hello_parses: "ParseClientHello (Marshal browser_hello) = Inr browser_hello"
  by (rule parse_Marshal_wf) (simp add: wf_hello_def browser_hello_def small_hello_def body_len_def hello_prefix_def
    sni_body_def ech_body_def)

lemma browser_hello_length: "length (Marshal browser_hello) < 500"
  by (simp add: Marshal_eq_wire hello_wire_def browser_hello_def small_hello_def hello_prefix_def sni_body_def ech_body_def)

lemma browser_hello_sole:
  "sole ExtKeyShare ([0, 36] @ exts_bytes [Extension GroupX25519 (replicate 32 0)]) browser_hello"
  "sole ExtServerName (sni_body [97, 46, 98]) browser_hello"
  "sole ExtECH (ech_body 1 1 9 (replicate 32 4) (replicate 144 6)) browser_hello"
  by (simp_all add: sole_def browser_hello_def)

lemma browser_share_ok: "share_ok ([0, 36] @ exts_bytes [Extension GroupX25519 (replicate 32 0)])"
  unfolding share_ok_def
  by (rule exI [of _ "[0, 36]"], rule exI [of _ "[Extension GroupX25519 (replicate 32 0)]"]) (simp add: numeral_2_eq_2)

lemma browser_emittable: "emittable (demo_opt b) browser_hello"
proof -
  have "Find ExtServerName browser_hello \<noteq> None" using sole_Find [OF browser_hello_sole(2)] by simp
  moreover have "shuffle_types (map ExtType (Extensions browser_hello))"
    by (simp add: shuffle_types_def browser_hello_def IsGREASE_def)
  moreover have "ech_body 1 1 9 (replicate 32 4) (replicate 144 6) \<noteq> []"
    "ech_body 1 1 9 (replicate 32 4) (replicate 144 6) ! 0 = 0" by (simp_all add: ech_body_def)
  ultimately show ?thesis
    unfolding emittable_def using browser_hello_sole browser_share_ok demo_cred_opens(4) by (auto simp: demo_opt_def)
qed

theorem Twiddle_emits_witness:
  "\<exists>r wire eph. \<forall>s. Twiddle kex_demo (Marshal browser_hello) (demo_opt True) (r @ s) = Inr ((wire, eph), s)"
  by (rule Twiddle_emits [OF browser_hello_parses browser_emittable kex_demo_ok])

section \<open>Everything emitted is accepted\<close>

lemma emitted_wf:
  assumes "if opt_FullHandshake opt
     then SetECHTicketAuth (cr_FullTicket (opt_Credential opt)) (cr_PSK (opt_Credential opt))
            (fst (dropExtension ExtPreSharedKey h4)) t3 = Inr (h5, t4)
     else SetTicketAuth (opt_Credential opt) (opt_BinderLen opt) h4 t3 = Inr (h5, t4)"
    and "fits h4 (n + 287)" and "n + length (cr_Ticket (opt_Credential opt)) < 65000"
  shows "wf_hello h5"
proof (cases "opt_FullHandshake opt")
  case True
  then show ?thesis
    using assms fits_wf [OF fits_SetECHTicketAuth [OF _ fits_dropExtension [OF assms(2)]]] by auto
next
  case False
  then show ?thesis using assms fits_wf [OF fits_SetTicketAuth [OF _ assms(2)]] by auto
qed

lemma Twiddle_accepted_aux:
  assumes "Twiddle K harvested opt t = Inr ((wire, eph), t')" and "kex_ok K"
    and "ParseClientHello harvested = Inr h0" and "sole ExtKeyShare d h0" and "share_ok d"
    and "length harvested + length (opt_CoverSNI opt) + length (cr_Ticket (opt_Credential opt)) < 65000"
    and "open_ticket k (if opt_FullHandshake opt then cr_FullTicket (opt_Credential opt)
           else cr_Ticket (opt_Credential opt)) = Inr (c, cr_PSK (opt_Credential opt), issued)"
    and "0 < maxAge \<longrightarrow> time_Sub now issued \<le> maxAge"
  shows "bindE (ParseClientHello wire)
       (\<lambda>h. (if opt_FullHandshake opt then verifyECHAt else verifyAt) h k maxAge now)
     = Inr \<lparr>ar_ClientID = c, ar_PSK = cr_PSK (opt_Credential opt), ar_Issued = issued,
            ar_ClientEphemeral = x25519_public K eph\<rparr>"
proof -
  obtain h0' h1 h2 h3 h4 h5 t1 t2 t3 t4 where s: "ParseClientHello harvested = Inr h0'"
    "h1 = h0' \<and> opt_CoverSNI opt = [] \<or> opt_CoverSNI opt \<noteq> [] \<and> SetSNI (opt_CoverSNI opt) h0' = Inr h1"
    "Rerandomize K h1 t = Inr (h2, t1)" "Shuffle h2 t1 = Inr (h3, t2)" "SetKeyShare K h3 t2 = Inr ((eph, h4), t3)"
    and a: "if opt_FullHandshake opt
     then SetECHTicketAuth (cr_FullTicket (opt_Credential opt)) (cr_PSK (opt_Credential opt))
            (fst (dropExtension ExtPreSharedKey h4)) t3 = Inr (h5, t4)
     else SetTicketAuth (opt_Credential opt) (opt_BinderLen opt) h4 t3 = Inr (h5, t4)"
    and w: "wire = Marshal h5"
    by (rule Twiddle_steps [OF assms(1)])
  have h0: "h0' = h0" using s(1) assms(3) by simp
  have eph: "KeyShare h4 = Inr (x25519_public K eph)"
    by (rule emitted_share [OF assms(2,4,5) s(2) [unfolded h0] s(3-5)])
  have wf: "wf_hello h5" by (rule emitted_wf [OF a emitted_fits [OF s(1-5)] assms(6)])
  show ?thesis
  proof (cases "opt_FullHandshake opt")
    case True
    have "KeyShare (fst (dropExtension ExtPreSharedKey h4)) = KeyShare h4"
      by (rule KeyShare_cong) (simp add: hello_simps)
    moreover have "length (cr_FullTicket (opt_Credential opt)) + 6 < 65536"
      using a True by (auto elim: SetECHTicketAuth_result)
    ultimately show ?thesis
      using wf full.complete_on_wire [of "opt_Credential opt"] a True assms(7,8) eph w by simp
  next
    case False
    then show ?thesis
      using wf resumption.complete_on_wire [of "opt_Credential opt"] a False assms(6,7,8) eph w by simp
  qed
qed

text \<open>
  C6. Whatever \<open>Twiddle\<close> emits, the server accepts, from the wire: for a harvested hello with one
  key_share offering a 32-byte X25519 key, a record within the size TLS allows and a credential
  whose ticket the server sealed and still honours, the emitted record parses and authenticates, on
  the path chosen, and the server learns exactly the public half of the ephemeral key the client
  kept. The steps cannot be out of order: a shuffle after the binder would break this.
\<close>

theorem Twiddle_accepted:
  assumes "Twiddle K harvested opt t = Inr ((wire, eph), t')" and "kex_ok K"
    and "ParseClientHello harvested = Inr h0" and "sole ExtKeyShare d h0" and "share_ok d"
    and "length harvested + length (opt_CoverSNI opt) + length (cr_Ticket (opt_Credential opt)) < 65000"
    and "open_ticket k (if opt_FullHandshake opt then cr_FullTicket (opt_Credential opt)
           else cr_Ticket (opt_Credential opt)) = Inr (c, cr_PSK (opt_Credential opt), issued)"
    and "0 < maxAge \<longrightarrow> time_Sub now issued \<le> maxAge"
  shows "bindE (ParseClientHello wire)
       (\<lambda>h. (if opt_FullHandshake opt then verifyECHAt else verifyAt) h k maxAge now)
     = Inr \<lparr>ar_ClientID = c, ar_PSK = cr_PSK (opt_Credential opt), ar_Issued = issued,
            ar_ClientEphemeral = x25519_public K eph\<rparr>"
  by (rule Twiddle_accepted_aux [OF assms])

theorem Twiddle_accepted_witness:
  "\<exists>wire eph t t'. Twiddle kex_demo (Marshal browser_hello) (demo_opt True) t = Inr ((wire, eph), t')
     \<and> bindE (ParseClientHello wire) (\<lambda>h. verifyECHAt h demo_key (second * 60) second)
       = Inr \<lparr>ar_ClientID = 7, ar_PSK = cr_PSK demo_cred, ar_Issued = 0, ar_ClientEphemeral = x25519_public kex_demo eph\<rparr>"
proof -
  obtain x t where "Twiddle kex_demo (Marshal browser_hello) (demo_opt True) t = Inr (x, [])"
    using canE [OF Twiddle_emits_aux [OF browser_hello_parses browser_emittable kex_demo_ok]] by blast
  moreover obtain wire eph where "x = (wire, eph)" by (cases x)
  ultimately have r: "Twiddle kex_demo (Marshal browser_hello) (demo_opt True) t = Inr ((wire, eph), [])" by simp
  have op: "open_ticket demo_key (if opt_FullHandshake (demo_opt True) then cr_FullTicket (opt_Credential (demo_opt True))
      else cr_Ticket (opt_Credential (demo_opt True))) = Inr (7, cr_PSK (opt_Credential (demo_opt True)), 0)"
    by (simp add: demo_opt_def demo_cred_opens)
  from Twiddle_accepted [OF r kex_demo_ok browser_hello_parses browser_hello_sole(1) browser_share_ok _ op, of "second * 60" second]
  have "bindE (ParseClientHello wire) (\<lambda>h. verifyECHAt h demo_key (second * 60) second)
       = Inr \<lparr>ar_ClientID = 7, ar_PSK = cr_PSK demo_cred, ar_Issued = 0, ar_ClientEphemeral = x25519_public kex_demo eph\<rparr>"
    using browser_hello_length by (simp add: demo_opt_def demo_cred_opens time_Sub_def)
  with r show ?thesis by blast
qed

text \<open>
  What the observer sees: the emitted record parses, names the cover host asked for, and shows
  the shape of its path, no pre_shared_key on a full handshake and pre_shared_key as the last
  extension on a resumption.
\<close>

theorem Twiddle_shows:
  assumes "Twiddle K harvested opt t = Inr ((wire, eph), t')" and "ParseClientHello harvested = Inr h0"
    and "sole ExtServerName d h0" and "opt_CoverSNI opt \<noteq> []"
    and "length harvested + length (opt_CoverSNI opt) + length (cr_Ticket (opt_Credential opt)) < 65000"
  shows "\<exists>h. ParseClientHello wire = Inr h \<and> SNI h = opt_CoverSNI opt
     \<and> (if opt_FullHandshake opt then Find ExtPreSharedKey h = None
        else ExtType (last (Extensions h)) = ExtPreSharedKey)"
proof -
  obtain h0' h1 h2 h3 h4 h5 t1 t2 t3 t4 where s: "ParseClientHello harvested = Inr h0'"
    "h1 = h0' \<and> opt_CoverSNI opt = [] \<or> opt_CoverSNI opt \<noteq> [] \<and> SetSNI (opt_CoverSNI opt) h0' = Inr h1"
    "Rerandomize K h1 t = Inr (h2, t1)" "Shuffle h2 t1 = Inr (h3, t2)" "SetKeyShare K h3 t2 = Inr ((eph, h4), t3)"
    and a: "if opt_FullHandshake opt
     then SetECHTicketAuth (cr_FullTicket (opt_Credential opt)) (cr_PSK (opt_Credential opt))
            (fst (dropExtension ExtPreSharedKey h4)) t3 = Inr (h5, t4)
     else SetTicketAuth (opt_Credential opt) (opt_BinderLen opt) h4 t3 = Inr (h5, t4)"
    and w: "wire = Marshal h5"
    by (rule Twiddle_steps [OF assms(1)])
  have h0: "h0' = h0" using s(1) assms(2) by simp
  have p: "ParseClientHello wire = Inr h5"
    unfolding w by (rule parse_Marshal_wf [OF emitted_wf [OF a emitted_fits [OF s(1-5)] assms(5)]])
  have name: "SetSNI (opt_CoverSNI opt) h0 = Inr h1" using s(2) assms(4) h0 by auto
  have n4: "sole ExtServerName (sni_body (opt_CoverSNI opt)) h4" by (rule emitted_name [OF assms(3) name s(3-5)])
  have "sole ExtServerName (sni_body (opt_CoverSNI opt)) h5
     \<and> (if opt_FullHandshake opt then Find ExtPreSharedKey h5 = None
        else ExtType (last (Extensions h5)) = ExtPreSharedKey)"
  proof (cases "opt_FullHandshake opt")
    case True
    then have e: "SetECHTicketAuth (cr_FullTicket (opt_Credential opt)) (cr_PSK (opt_Credential opt))
            (fst (dropExtension ExtPreSharedKey h4)) t3 = Inr (h5, t4)" using a by simp
    have "Find ExtPreSharedKey h5 = None" by (rule SetECHTicketAuth_result [OF e]) (simp add: hello_simps)
    then show ?thesis using True n4 sole_SetECHTicketAuth [OF e] by (simp add: sole_dropExtension)
  next
    case False
    then have "SetTicketAuth (opt_Credential opt) (opt_BinderLen opt) h4 t3 = Inr (h5, t4)" using a by simp
    then obtain x y where "h5 = setPSK h4 (cr_Ticket (opt_Credential opt)) x y" using SetTicketAuth_result by blast
    then show ?thesis using False n4 by (simp add: sole_setPSK, simp add: setPSK_eq)
  qed
  moreover have "length (opt_CoverSNI opt) < 65536" using assms(5) by simp
  ultimately show ?thesis using p SNI_of_body [of h5] sole_Find by fastforce
qed

theorem Twiddle_shows_witness:
  "\<exists>wire h r. Twiddle kex_demo (Marshal browser_hello) (demo_opt False) r = Inr (wire, []) \<and>
     ParseClientHello (fst wire) = Inr h \<and> SNI h = [99, 46, 100] \<and> ExtType (last (Extensions h)) = ExtPreSharedKey"
proof -
  obtain x t where r: "Twiddle kex_demo (Marshal browser_hello) (demo_opt False) t = Inr (x, [])"
    using canE [OF Twiddle_emits_aux [OF browser_hello_parses browser_emittable kex_demo_ok]] by blast
  then have "Twiddle kex_demo (Marshal browser_hello) (demo_opt False) t = Inr ((fst x, snd x), [])" by simp
  from Twiddle_shows [OF this browser_hello_parses browser_hello_sole(2)] r
  show ?thesis using browser_hello_length by (cases x) (auto simp: demo_opt_def demo_cred_opens)
qed

end
