(* ===== verification/Opening.thy ===== *)
theory Opening
  imports Gatekeeping Emission
begin

text \<open>
  The opening, end to end. Each half of \<open>Client\<close> and \<open>Server\<close> is run symbolically over the flight the other
  end writes; together they show that a provisioned client and its server complete, with the same
  keys and numbers at both ends and a fresh credential in the client's hands.
\<close>

section \<open>Records on the raw socket\<close>

definition framed :: "bytes \<Rightarrow> bool" where
  "framed rec \<longleftrightarrow> length rec = 5 + unat (Uint16 (slice rec 3 5)) \<and> length rec \<le> 5 + maxCiphertext"

lemma readRecord_framed:
  assumes "w_in w = rec @ rest" and "framed rec"
  shows "readRecord w = (Inr rec, w\<lparr>w_in := rest\<rparr>)"
proof -
  let ?n = "unat (Uint16 (slice rec 3 5))"
  have len: "length rec = 5 + ?n" "\<not> maxCiphertext < ?n" using assms(2) by (auto simp: framed_def)
  have s: "slice (take 5 rec) 3 5 = slice rec 3 5" by (simp add: slice_def drop_take)
  have r1: "io_ReadFull recordHeaderLen w = (Inr (take 5 rec), w\<lparr>w_in := drop 5 rec @ rest\<rparr>)"
    by (rule io_ReadFull_ok) (use assms(1) len(1) in \<open>simp_all flip: append_assoc\<close>)
  have r2: "io_ReadFull ?n (w\<lparr>w_in := drop 5 rec @ rest\<rparr>) = (Inr (drop 5 rec), w\<lparr>w_in := rest\<rparr>)"
    by (subst io_ReadFull_ok [of _ "drop 5 rec" rest]) (use len(1) in simp_all)
  show ?thesis
    unfolding readRecord_def Let_def
    by (subst bindA_Inr [where m = "io_ReadFull recordHeaderLen" and s = w, OF r1]) (use len(2) r2 in \<open>simp add: s bindA_def returnA_def\<close>)
qed

lemma framed_header:
  assumes "rec = [a, b, c] @ PutUint16 (of_nat (length body)) @ body" and "length body \<le> maxCiphertext"
  shows "framed rec"
proof -
  have "Uint16 (slice rec 3 5) = of_nat (length body)"
    using assms(1) Uint16_PutUint16 [of "of_nat (length body)"] by (simp add: slice_def)
  then show ?thesis using assms by (simp add: framed_def unat_of_nat)
qed

lemma framed_CCS: "framed ChangeCipherSpec"
  by (simp add: framed_def ChangeCipherSpec_def slice_def Uint16_def be_nat_def)

lemma framed_hello:
  assumes "ParseClientHello rec = Inr h" and "length rec \<le> 5 + maxCiphertext"
  shows "framed rec"
proof -
  obtain v1 v2 t where r: "rec = hello_wire v1 v2 t h" using assms(1) unfolding parse_iff_wire_aux by blast
  let ?body = "[0x01] @ nat_be 3 (body_len h) @ hello_prefix h @ PutUint16 (of_nat t) @ exts_bytes (Extensions h)"
  have "length ?body = body_len h + 4" by (simp add: body_len_def)
  then have "rec = [0x16, v1, v2] @ PutUint16 (of_nat (length ?body)) @ ?body"
    by (simp only: r hello_wire_def)
  then show ?thesis by (rule framed_header) (use assms(2) in \<open>simp add: r hello_wire_def\<close>)
qed

lemma framed_server_wire:
  assumes "length ct = 1088" and "length eph = 32" and "length random = 32" and "length (sp_SessionIDEcho p) \<le> 32"
  shows "framed (server_wire p eph ct random)"
proof -
  let ?ext = "exts_bytes (server_exts p eph ct)"
  let ?b = "server_head p random @ PutUint16 (of_nat (length ?ext)) @ ?ext"
  let ?body = "[0x02] @ nat_be 3 (length ?b) @ ?b"
  have "server_wire p eph ct random = [0x16, 0x03, 0x03] @ PutUint16 (of_nat (length ?b + 4)) @ ?body"
    by (simp add: server_wire_def Let_def)
  also have "length ?b + 4 = length ?body" by simp
  finally show ?thesis
    by (rule framed_header) (use assms in \<open>simp add: length_server_exts length_server_head\<close>)
qed

section \<open>Flights of sealed records\<close>

definition blank :: "int \<Rightarrow> bytes" where
  "blank n = inner_of contentHandshake [] (n - 21)"

lemma length_blank: "length (blank n) \<le> maxInner"
  unfolding blank_def by (rule length_inner_of) simp

lemma content_type_blank: "content_type (blank n) = Inr (contentHandshake, [])"
  unfolding blank_def by (rule content_type_inner_of) simp

lemma consume_flight:
  assumes "aes_key_ok (c_recv c)" and "length xs = length ns"
    and "w_in w = seal_all (c_recv c) (c_recvIV c) (c_recvSeq c) (map blank ns) @ rest"
  shows "forA (\<lambda>_. bindA consumeRecord (\<lambda>_. returnA ())) xs (c, w)
     = (Inr (), (c\<lparr>c_recvSeq := c_recvSeq c + of_nat (length ns)\<rparr>, w\<lparr>w_in := rest\<rparr>))"
  using assms(2,1,3)
proof (induction xs ns arbitrary: c w rule: list_induct2)
  case Nil
  then have "w\<lparr>w_in := rest\<rparr> = w" by auto
  then show ?case by (simp add: returnA_def)
next
  case (Cons x xs n ns)
  have "w_in w = seal_record (c_recv c) (c_recvIV c) (c_recvSeq c) (blank n)
      @ (seal_all (c_recv c) (c_recvIV c) (c_recvSeq c + 1) (map blank ns) @ rest)"
    using Cons.prems(2) by simp
  from decrypt_sealed [OF Cons.prems(1) length_blank this]
  have d: "consumeRecord (c, w) = (Inr (contentHandshake, []), (c\<lparr>c_recvSeq := c_recvSeq c + 1\<rparr>,
      w\<lparr>w_in := seal_all (c_recv c) (c_recvIV c) (c_recvSeq c + 1) (map blank ns) @ rest\<rparr>))"
    by (simp add: consumeRecord_def content_type_blank)
  show ?case
    using Cons.IH [of "c\<lparr>c_recvSeq := c_recvSeq c + 1\<rparr>"
        "w\<lparr>w_in := seal_all (c_recv c) (c_recvIV c) (c_recvSeq c + 1) (map blank ns) @ rest\<rparr>"] Cons.prems(1)
    by (simp add: bindA_def d returnA_def algebra_simps)
qed

lemma write_flight:
  assumes "list_all can_emit ns" and "quiet w"
  shows "forA (writeSized contentHandshake []) ns (c, w)
     = (Inr (), (c\<lparr>c_sendSeq := c_sendSeq c + of_nat (length ns)\<rparr>,
         w\<lparr>w_out := w_out w @ seal_all (c_send c) (c_sendIV c) (c_sendSeq c) (map blank ns)\<rparr>))"
  using assms
proof (induction ns arbitrary: c w)
  case (Cons n ns)
  have "writeSized contentHandshake [] n (c, w) = (Inr (), (c\<lparr>c_sendSeq := c_sendSeq c + 1\<rparr>,
     w\<lparr>w_out := w_out w @ seal_record (c_send c) (c_sendIV c) (c_sendSeq c) (blank n)\<rparr>))"
    unfolding blank_def by (rule writeSized_quiet) (use Cons.prems in \<open>auto simp: can_emit_def\<close>)
  then show ?case
    using Cons.IH [of "w\<lparr>w_out := w_out w @ seal_record (c_send c) (c_sendIV c) (c_sendSeq c) (blank n)\<rparr>"
        "c\<lparr>c_sendSeq := c_sendSeq c + 1\<rparr>"] Cons.prems
    by (simp add: bindA_def algebra_simps)
qed (simp add: returnA_def)

section \<open>Ticket rotation\<close>

definition ticket_bodies :: "Credential \<Rightarrow> bytes list" where
  "ticket_bodies nxt =
     [PutUint16 (of_nat (length (cr_Ticket nxt))) @ cr_Ticket nxt @ cr_PSK nxt,
      PutUint16 (of_nat (length (cr_FullTicket nxt))) @ cr_FullTicket nxt]"

abbreviation ticket_inners :: "Credential \<Rightarrow> bytes list" where
  "ticket_inners nxt \<equiv> map (\<lambda>b. inner_of contentHandshake b 349) (ticket_bodies nxt)"

definition rotates :: "Credential \<Rightarrow> bool" where
  "rotates nxt \<longleftrightarrow> length (cr_Ticket nxt) \<le> 314 \<and> length (cr_FullTicket nxt) = FullTicketLen \<and> length (cr_PSK nxt) = 32"

lemma writeTickets_quiet:
  assumes "rotates nxt" and "quiet w"
  shows "writeTickets nxt (c, w) = (Inr (), (c\<lparr>c_sendSeq := c_sendSeq c + 2\<rparr>,
     w\<lparr>w_out := w_out w @ seal_all (c_send c) (c_sendIV c) (c_sendSeq c) (ticket_inners nxt)\<rparr>))"
  using assms
  by (simp add: writeTickets_def Let_def appendU16_eq bindA_def writeSized_quiet rotates_def ticket_bodies_def)

lemma ticket_body_length: "rotates nxt \<Longrightarrow> b \<in> set (ticket_bodies nxt) \<Longrightarrow> length b \<le> maxPlaintext"
  by (auto simp: rotates_def ticket_bodies_def)

lemma readTickets_sealed:
  assumes "rotates nxt" and "aes_key_ok (c_recv c)"
    and "w_in w = seal_all (c_recv c) (c_recvIV c) (c_recvSeq c) (ticket_inners nxt) @ rest"
  shows "readTickets (c, w) = (Inr nxt, (c\<lparr>c_recvSeq := c_recvSeq c + 2\<rparr>, w\<lparr>w_in := rest\<rparr>))"
proof -
  obtain b1 b2 where b: "ticket_bodies nxt = [b1, b2]" by (simp add: ticket_bodies_def)
  have b1: "b1 = PutUint16 (of_nat (length (cr_Ticket nxt))) @ cr_Ticket nxt @ cr_PSK nxt"
    and b2: "b2 = PutUint16 (of_nat (length (cr_FullTicket nxt))) @ cr_FullTicket nxt"
    using b by (simp_all add: ticket_bodies_def)
  let ?r2 = "seal_record (c_recv c) (c_recvIV c) (c_recvSeq c + 1) (inner_of contentHandshake b2 349) @ rest"
  have "w_in w = seal_record (c_recv c) (c_recvIV c) (c_recvSeq c) (inner_of contentHandshake b1 349) @ ?r2"
    using assms(3) b by simp
  from decrypt_sealed_inner [OF assms(2) _ _ this]
  have d1: "consumeRecord (c, w) = (Inr (contentHandshake, b1), (c\<lparr>c_recvSeq := c_recvSeq c + 1\<rparr>, w\<lparr>w_in := ?r2\<rparr>))"
    using ticket_body_length [OF assms(1), of b1] b by (simp add: consumeRecord_def)
  have d2: "consumeRecord (c\<lparr>c_recvSeq := c_recvSeq c + 1\<rparr>, w\<lparr>w_in := ?r2\<rparr>)
      = (Inr (contentHandshake, b2), (c\<lparr>c_recvSeq := c_recvSeq c + 2\<rparr>, w\<lparr>w_in := rest\<rparr>))"
    using decrypt_sealed_inner [of "c\<lparr>c_recvSeq := c_recvSeq c + 1\<rparr>" contentHandshake b2 "w\<lparr>w_in := ?r2\<rparr>" 349 rest]
      ticket_body_length [OF assms(1), of b2] b assms(2) by (simp add: consumeRecord_def)
  have len: "length (cr_Ticket nxt) < 65536" "length (cr_FullTicket nxt) = 144" "length (cr_PSK nxt) = 32"
    using assms(1) by (auto simp: rotates_def)
  have s1: "unat (Uint16 (slice b1 0 2)) = length (cr_Ticket nxt)" "length b1 = 2 + length (cr_Ticket nxt) + 32"
    "slice b1 2 (2 + length (cr_Ticket nxt)) = cr_Ticket nxt"
    "go_copy 0 (slice b1 (2 + length (cr_Ticket nxt)) (2 + length (cr_Ticket nxt) + 32)) (replicate 32 0) = cr_PSK nxt"
    using len unfolding b1 by (simp_all add: slice_def Uint16_PutUint16 unat_of_nat go_copy_def)
  have s2: "unat (Uint16 (slice b2 0 2)) = 144" "length b2 = 2 + 144" "slice b2 2 (2 + 144) = cr_FullTicket nxt"
    using len unfolding b2 by (simp_all add: slice_def Uint16_PutUint16 unat_of_nat)
  show ?thesis
    unfolding readTickets_def Let_def bindA_Inr [where m = consumeRecord, OF d1] case_prod_conv s1
      bindA_Inr [where m = consumeRecord, OF d2] s2
    using s1(2) s2(2) by (simp add: bindA_Inr [where m = consumeRecord, OF d2] s2 s2(3) [simplified] returnA_def)
qed

section \<open>What is emitted validates\<close>

text \<open>Emission keeps the session id's length and every cipher suite that is not GREASE.\<close>

definition keeps_ids :: "ClientHello \<Rightarrow> ClientHello \<Rightarrow> bool" where
  "keeps_ids h h' \<longleftrightarrow> length (SessionID h') = length (SessionID h)
     \<and> (\<forall>s\<in>set (CipherSuites h). \<not> IsGREASE s \<longrightarrow> s \<in> set (CipherSuites h'))"

lemma keeps_ids_trans: "keeps_ids a b \<Longrightarrow> keeps_ids b c \<Longrightarrow> keeps_ids a c"
  by (auto simp: keeps_ids_def)

lemma keeps_ids_same: "SessionID h' = SessionID h \<Longrightarrow> CipherSuites h' = CipherSuites h \<Longrightarrow> keeps_ids h h'"
  by (simp add: keeps_ids_def)

lemma keeps_ids_Rerandomize:
  assumes "Rerandomize K h t = Inr (h', t')"
  shows "keeps_ids h h'"
proof -
  obtain h1 t1 h2 t2 h3 t3 r where g: "rerandGREASE h t = Inr (h1, t1)"
    and h2: "h2 = h1\<lparr>Random := r, SessionID := SessionID h2\<rparr>" "length (SessionID h2) = length (SessionID h1)"
    and k: "on_extR ExtKeyShare (rerandKeyShare K) h2 t2 = Inr (h3, t3)"
    and e: "on_extR ExtECH rerandECHGrease h3 t3 = Inr (h', t')"
    by (rule Rerandomize_steps [OF assms])
  obtain cipher where c: "CipherSuites h1 = map (regrease_u16 cipher) (CipherSuites h)" and s: "SessionID h1 = SessionID h"
    by (rule rerandGREASE_result [OF g]) (auto simp: hello_simps)
  have "\<forall>s\<in>set (CipherSuites h). \<not> IsGREASE s \<longrightarrow> s \<in> set (CipherSuites h1)"
    unfolding c by (auto simp: regrease_u16_def intro: rev_image_eqI)
  then have "keeps_ids h h1" using s by (simp add: keeps_ids_def)
  moreover have "CipherSuites h2 = CipherSuites h1" by (subst h2(1)) simp
  then have "keeps_ids h1 h2" using h2(2) by (simp add: keeps_ids_def)
  moreover have "keeps_ids h2 h3" using on_extR_result [OF k] by (auto simp: hello_simps intro!: keeps_ids_same)
  moreover have "keeps_ids h3 h'" using on_extR_result [OF e] by (auto simp: hello_simps intro!: keeps_ids_same)
  ultimately show ?thesis by (blast intro: keeps_ids_trans)
qed

lemma keeps_ids_prepared:
  assumes "h1 = h0 \<and> name = [] \<or> name \<noteq> [] \<and> SetSNI name h0 = Inr h1"
    and "Rerandomize K h1 t = Inr (h2, t1)" and "Shuffle h2 t1 = Inr (h3, t2)"
    and "SetKeyShare K h3 t2 = Inr ((eph, h4), t3)"
  shows "keeps_ids h0 h4"
proof -
  have "keeps_ids h0 h1" using assms(1) by (auto simp: SetSNI_eq hello_simps intro!: keeps_ids_same split: if_splits)
  moreover have "keeps_ids h1 h2" by (rule keeps_ids_Rerandomize [OF assms(2)])
  moreover have "keeps_ids h2 h3" by (rule Shuffle_result [OF assms(3)]) (simp add: keeps_ids_same)
  moreover have "keeps_ids h3 h4"
    using assms(4) by (auto simp: SetKeyShare_def bindR_eq_Inr returnR_eq_Inr liftR_eq_Inr failR_eq_Inr hello_simps
        intro!: keeps_ids_same split: option.splits)
  ultimately show ?thesis by (blast intro: keeps_ids_trans)
qed

lemma EqualFold_ascii: "\<forall>c\<in>set s. c \<le> 127 \<Longrightarrow> EqualFold s s"
proof -
  assume a: "\<forall>c\<in>set s. c \<le> 127"
  have lt: "c \<le> 127 \<Longrightarrow> c < 128" for c :: byte by (simp add: word_le_nat_alt word_less_nat_alt)
  have "runes s = map unat s" using a by (induction s) (auto simp: lt)
  then show ?thesis by (simp add: EqualFold_def)
qed

text \<open>The ticket an opening spends, by shape.\<close>

definition spends :: "Credential \<Rightarrow> bool \<Rightarrow> bytes" where
  "spends cred full = (if full then cr_FullTicket cred else cr_Ticket cred)"

text \<open>Each authenticator keeps what identifies the browser and the name, and is what its half of the check expects.\<close>

lemma full_validates:
  assumes "SetECHTicketAuth (cr_FullTicket cred) psk (fst (dropExtension ExtPreSharedKey h4)) t3 = Inr (h5, t4)"
    and "sole ExtServerName d h4" and "CanEmitFullHandshake p"
  shows "keeps_ids h4 h5 \<and> sole ExtServerName d h5 \<and> Find ExtPreSharedKey h5 = None
    \<and> validateFullClientHello p h5 = Inr (cr_FullTicket cred)"
proof -
  obtain x q n pad hx where f: "Find ExtPreSharedKey (fst (dropExtension ExtPreSharedKey h4)) = None"
    "Find ExtECH (fst (dropExtension ExtPreSharedKey h4)) = Some x"
    "echPayload (ExtData x) = Inr (q, n)" "FullTicketLen \<le> n" "length (cr_FullTicket cred) = FullTicketLen"
    "length pad = n - FullTicketLen"
    "hx = (SetExtData ExtECH (go_copy (q + length (cr_FullTicket cred)) pad (go_copy q (cr_FullTicket cred) (ExtData x)))
       (fst (dropExtension ExtPreSharedKey h4)))\<lparr>Random := replicate 32 0\<rparr>"
    "h5 = hx\<lparr>Random := hmac SHA256 (fullMACKey psk) (Marshal hx)\<rparr>"
    by (rule SetECHTicketAuth_result [OF assms(1)])
  have "keeps_ids h4 h5" unfolding f(7,8) by (simp add: keeps_ids_same hello_simps dropExtension_def Let_def)
  moreover have "sole ExtServerName d h5"
    using assms(2) sole_SetECHTicketAuth [OF assms(1)] by (simp add: sole_dropExtension)
  moreover have "Find ExtPreSharedKey h5 = None" unfolding f(7,8) using f(1) by (simp add: hello_simps)
  moreover have "validateFullClientHello p h5 = Inr (cr_FullTicket cred)"
    using assms(3) go_copy_twice_payload [OF f(3), of "cr_FullTicket cred" pad] f(2,4-6)
    unfolding f(7,8) by (simp add: validateFullClientHello_def hello_simps)
  ultimately show ?thesis by blast
qed

lemma resumed_validates:
  assumes "SetTicketAuth cred (nat (cp_BinderLen p)) h4 t3 = Inr (h5, t4)" and "sole ExtServerName d h4" and "profile_ok p"
    and "length (cr_Ticket cred) < 64000" and "int (length (cr_Ticket cred)) = cp_TicketLen p"
  shows "keeps_ids h4 h5 \<and> sole ExtServerName d h5 \<and> Find ExtPreSharedKey h5 \<noteq> None
    \<and> validateResumedClientHello p h5 = Inr (cr_Ticket cred)"
proof -
  obtain alg age where b: "binderHash (nat (cp_BinderLen p)) = Inr alg" "length age = 4"
    and h5: "h5 = setPSK h4 (cr_Ticket cred) age (binder_for alg (cr_PSK cred) h4 (cr_Ticket cred) age (nat (cp_BinderLen p)))"
    using SetTicketAuth_result [OF assms(1)] by blast
  let ?b = "binder_for alg (cr_PSK cred) h4 (cr_Ticket cred) age (nat (cp_BinderLen p))"
  have bl: "length ?b = nat (cp_BinderLen p)" using binderHash_size [OF b(1)] by (simp add: binder_for_def)
  have "length ?b < 256" "int (length ?b) = cp_BinderLen p" unfolding bl using assms(3) by (auto simp: profile_ok_def)
  then have "validateResumedClientHello p h5 = Inr (cr_Ticket cred)"
    using parsePSK_body [of "cr_Ticket cred" age ?b] b(2) assms(4,5) by (simp add: validateResumedClientHello_def h5 hello_simps)
  moreover have "keeps_ids h4 h5" by (simp add: h5 setPSK_eq keeps_ids_same)
  ultimately show ?thesis using assms(2) by (simp add: h5 sole_setPSK hello_simps)
qed

lemma emitted_validates:
  assumes e: "Twiddle K harvested opt t = Inr ((wire, eph), t')" and h0: "ParseClientHello harvested = Inr h0"
    and opt: "opt = client_options cfg cred full" and p: "profile_ok (cc_Cover cfg)"
    and sni: "sole ExtServerName d h0" and suite: "cp_CipherSuite (cc_Cover cfg) \<in> set (CipherSuites h0)"
    and len: "length harvested + length (cr_Ticket cred) < 64000"
    and tk: "int (length (cr_Ticket cred)) = cp_TicketLen (cc_Cover cfg)"
    and can: "full \<longrightarrow> CanEmitFullHandshake (cc_Cover cfg)"
  shows "\<exists>h. ParseClientHello wire = Inr h \<and> validateClientHello (cc_Cover cfg) h = Inr (spends cred full)
     \<and> (Find ExtPreSharedKey h = None \<longleftrightarrow> full) \<and> length (SessionID h) = length (SessionID h0)"
proof -
  let ?p = "cc_Cover cfg"
  have host: "cp_Host ?p \<noteq> []" "length (cp_Host ?p) \<le> 253" "\<forall>c\<in>set (cp_Host ?p). c \<le> 127"
    using p by (auto simp: profile_ok_def)
  have o: "opt_CoverSNI opt = cp_Host ?p" "opt_Credential opt = cred" "opt_BinderLen opt = nat (cp_BinderLen ?p)"
    "opt_FullHandshake opt = full" by (simp_all add: opt client_options_def)
  obtain h0' h1 h2 h3 h4 h5 t1 t2 t3 t4 where s: "ParseClientHello harvested = Inr h0'"
    "h1 = h0' \<and> opt_CoverSNI opt = [] \<or> opt_CoverSNI opt \<noteq> [] \<and> SetSNI (opt_CoverSNI opt) h0' = Inr h1"
    "Rerandomize K h1 t = Inr (h2, t1)" "Shuffle h2 t1 = Inr (h3, t2)" "SetKeyShare K h3 t2 = Inr ((eph, h4), t3)"
    and a: "if opt_FullHandshake opt
     then SetECHTicketAuth (cr_FullTicket (opt_Credential opt)) (cr_PSK (opt_Credential opt))
            (fst (dropExtension ExtPreSharedKey h4)) t3 = Inr (h5, t4)
     else SetTicketAuth (opt_Credential opt) (opt_BinderLen opt) h4 t3 = Inr (h5, t4)"
    and w: "wire = Marshal h5"
    by (rule Twiddle_steps [OF e])
  have eq: "h0' = h0" using s(1) h0 by simp
  have parsed: "ParseClientHello wire = Inr h5"
    unfolding w by (rule parse_Marshal_wf [OF emitted_wf [OF a emitted_fits [OF s(1-5)]]]) (use len host o in simp)
  have n4: "sole ExtServerName (sni_body (cp_Host ?p)) h4"
    by (rule emitted_name [OF sni _ s(3-5)]) (use s(2) eq o(1) host(1) in auto)
  have k4: "keeps_ids h0 h4" using keeps_ids_prepared [OF s(2-5)] eq by simp
  have not_grease: "\<not> IsGREASE (cp_CipherSuite ?p)" using p by (auto simp: profile_ok_def IsGREASE_def)
  have fin: "keeps_ids h4 h5 \<and> sole ExtServerName (sni_body (cp_Host ?p)) h5 \<and> (Find ExtPreSharedKey h5 = None \<longleftrightarrow> full)
     \<and> (if full then validateFullClientHello ?p h5 else validateResumedClientHello ?p h5) = Inr (spends cred full)"
    using full_validates [OF _ n4, of cred "cr_PSK cred" t3 h5 t4 ?p] resumed_validates [OF _ n4 p, of cred t3 h5 t4] a o len tk can
    by (cases full) (simp_all add: spends_def)
  have k5: "keeps_ids h0 h5" using keeps_ids_trans [OF k4] fin by blast
  have "SNI h5 = cp_Host ?p" using SNI_of_body [of h5] sole_Find fin host(2) by fastforce
  then have "validateCoverIdentity ?p h5 = Inr ()"
    using k5 suite not_grease EqualFold_ascii [OF host(3)] by (auto simp: validateCoverIdentity_def keeps_ids_def list_ex_iff)
  then have "validateClientHello ?p h5 = Inr (spends cred full)"
    using fin by (auto simp: validateClientHello_def)
  then show ?thesis using parsed fin k5 by (auto simp: keeps_ids_def)
qed

end
