(* ===== verification/Completion.thy ===== *)
theory Completion
  imports Opening
begin

text \<open>
  A provisioned client and its server complete the opening. Each stage of \<open>Client\<close> and \<open>Server\<close> is run over
  the flight it reads; the theorem puts the four flights together.
\<close>

section \<open>Keys\<close>

text \<open>
  Honest X25519: beyond \<open>kex_ok\<close>, two generated keys never agree on the all-zero value, which RFC 7748
  has for low-order points only.
\<close>

definition kex_honest :: "kex \<Rightarrow> bool" where
  "kex_honest K \<longleftrightarrow> kex_ok K \<and> (\<forall>a b. kex_x25519 K a (x25519_public K b) \<noteq> replicate 32 0)"

lemma honest_agree:
  assumes "kex_honest K"
  shows "\<exists>z. x25519_ECDH K a (x25519_public K b) = Inr z \<and> x25519_ECDH K b (x25519_public K a) = Inr z"
  using assms x25519_agree [of K a b] by (auto simp: kex_honest_def x25519_ECDH_def Let_def)

lemma session_total:
  assumes "suite = TLS_AES_128_GCM_SHA256 \<or> suite = TLS_AES_256_GCM_SHA384" and "transcript \<noteq> []"
  shows "\<exists>s. DeriveSession psk shared suite transcript = Inr s \<and> aes_key_ok (k_Key (s_Client s)) \<and> aes_key_ok (k_Key (s_Server s))"
proof -
  have dk: "\<exists>ks. derive_keys alg shared psk th n label = Inr ks \<and> length (k_Key ks) = n"
    if "n + 12 \<le> 255 * hash_size alg" for alg th n label
    using hkdf_Key_total [OF that, of shared psk "label @ th"] hkdf_Key_length [of alg shared psk "label @ th" "n + 12"]
    by (auto simp: derive_keys_def)
  obtain alg n th where s: "(if suite = TLS_AES_128_GCM_SHA256 then Inr (SHA256, 16, sha256 transcript)
      else if suite = TLS_AES_256_GCM_SHA384 then Inr (SHA384, 32, sha384 transcript)
      else Inl (Err ''twiddle: unsupported cipher suite'')) = (Inr (alg, n, th) :: (hash_alg \<times> nat \<times> bytes) res)"
    and n: "n = 16 \<or> n = 32" "n + 12 \<le> 255 * hash_size alg"
    using assms(1) by (cases "suite = TLS_AES_128_GCM_SHA256") auto
  obtain kc ks where "derive_keys alg shared psk th n (str ''twiddle c ap traffic'') = Inr kc" "length (k_Key kc) = n"
    "derive_keys alg shared psk th n (str ''twiddle s ap traffic'') = Inr ks" "length (k_Key ks) = n"
    using dk [OF n(2)] by metis
  then show ?thesis
    unfolding DeriveSession_def s using assms(2) n(1) by (auto simp: aes_key_ok_def)
qed

lemma NewConn_total:
  "aes_key_ok (k_Key (s_Client s)) \<Longrightarrow> aes_key_ok (k_Key (s_Server s)) \<Longrightarrow> \<exists>c. NewConn s b sh = Inr c"
  by (cases b) (simp_all add: NewConn_def keys_aead_def)

lemma Transcript_nonempty:
  "5 < length a \<Longrightarrow> 5 < length b \<Longrightarrow> 5 < length c \<Longrightarrow> Transcript a b c \<noteq> []"
  by (simp add: Transcript_def)

section \<open>The client's stages\<close>

lemma bindA_liftA: "m = Inr x \<Longrightarrow> bindA (liftA m) f s = f x s"
  by (simp add: bindA_def liftA_def)

lemma raw_Write_quiet: "quiet w \<Longrightarrow> raw_Write b w = (Inr (), w\<lparr>w_out := w_out w @ b\<rparr>)"
  by (simp add: raw_Write_ok quiet_def)

lemma quiet_updates [simp]: "quiet (w\<lparr>w_rand := t\<rparr>) = quiet w" "quiet (w\<lparr>w_in := i\<rparr>) = quiet w" "quiet (w\<lparr>w_ticks := n\<rparr>) = quiet w"
  by (simp_all add: quiet_def)

definition candidates_of :: "ClientConfig \<Rightarrow> bool \<Rightarrow> bytes list" where
  "candidates_of cfg full = (if full then FullHandshakeCarriers (cc_Pool cfg) else cc_Pool cfg)"

lemma client_open_run:
  assumes "candidates_of cfg full \<noteq> []"
    and pick: "rand_Int (length (candidates_of cfg full)) (w_rand w) = Inr (i, t1)"
    and tw: "Twiddle K (candidates_of cfg full ! i) (client_options cfg cred full) t1 = Inr ((wire, eph), t2)"
    and "quiet w" and win: "w_in w = sh @ ChangeCipherSpec @ rest" and "framed sh"
    and sp: "ServerEphemeralFromShare sh = Inr spub" and dh: "x25519_ECDH K eph spub = Inr shared"
    and ds: "DeriveSession (cr_PSK cred) shared (cp_CipherSuite (cc_Cover cfg)) (Transcript wire sh ChangeCipherSpec) = Inr sess"
    and nc: "NewConn sess True (cc_Shaper cfg) = Inr c"
  shows "client_open K cfg cred full w = (Inr (c\<lparr>c_full := full\<rparr>), w\<lparr>w_in := rest, w_out := w_out w @ wire, w_rand := t2\<rparr>)"
proof -
  let ?w1 = "w\<lparr>w_rand := t1\<rparr>" and ?w2 = "w\<lparr>w_rand := t2\<rparr>"
  let ?w3 = "w\<lparr>w_out := w_out w @ wire, w_rand := t2\<rparr>"
  have s1: "drawA (rand_Int (length (candidates_of cfg full))) w = (Inr i, ?w1)" using pick by (simp add: drawA_def)
  have s2: "drawA (Twiddle K (candidates_of cfg full ! i) (client_options cfg cred full)) ?w1 = (Inr (wire, eph), ?w2)"
    using tw by (simp add: drawA_def)
  have s3: "raw_Write wire ?w2 = (Inr (), ?w3)" using raw_Write_quiet [of ?w2 wire] assms(4) by simp
  have s4: "readRecord ?w3 = (Inr sh, ?w3\<lparr>w_in := ChangeCipherSpec @ rest\<rparr>)"
    by (rule readRecord_framed) (use win \<open>framed sh\<close> in simp_all)
  have s5: "readRecord (?w3\<lparr>w_in := ChangeCipherSpec @ rest\<rparr>) = (Inr ChangeCipherSpec, ?w3\<lparr>w_in := rest\<rparr>)"
    using readRecord_framed [OF _ framed_CCS, of "?w3\<lparr>w_in := ChangeCipherSpec @ rest\<rparr>" rest] by simp
  have ccs: "\<not> (length ChangeCipherSpec \<noteq> recordHeaderLen + 1 \<or> ChangeCipherSpec ! 0 \<noteq> 0x14 \<or> ChangeCipherSpec ! recordHeaderLen \<noteq> 0x01)"
    by (simp add: ChangeCipherSpec_def)
  have ne: "\<not> (full \<and> candidates_of cfg full = [])" using assms(1) by simp
  show ?thesis
    unfolding client_open_def Let_def candidates_of_def [symmetric] if_not_P [OF ne]
      bindA_Inr [where m = "drawA (rand_Int (length (candidates_of cfg full)))" and s = w, OF s1]
      bindA_Inr [where m = "drawA (Twiddle K (candidates_of cfg full ! i) (client_options cfg cred full))", OF s2] case_prod_conv
      bindA_Inr [where m = "raw_Write wire", OF s3] bindA_Inr [where m = readRecord and s = ?w3, OF s4]
      bindA_liftA [OF sp] bindA_Inr [where m = readRecord, OF s5] if_not_P [OF ccs]
      bindA_liftA [OF dh] bindA_liftA [OF ds] bindA_liftA [OF nc]
    by (simp add: returnA_def)
qed

lemma client_finish_run:
  assumes "aes_key_ok (c_recv c)" and "quiet w" and emit: "can_emit (ClientEncryptedWire (cc_Cover cfg))"
    and len: "length ns = length (if full then cp_FullRemainder (cc_Cover cfg) else cp_ResumedRemainder (cc_Cover cfg))"
    and "rotates nxt"
    and win: "w_in w = seal_all (c_recv c) (c_recvIV c) (c_recvSeq c) (map blank ns @ ticket_inners nxt) @ rest"
  shows "client_finish cfg full c w =
     (Inr (c\<lparr>c_recvSeq := c_recvSeq c + of_nat (length ns + 2), c_sendSeq := c_sendSeq c + 1\<rparr>, nxt),
      w\<lparr>w_in := rest, w_out := w_out w @ ChangeCipherSpec
         @ seal_record (c_send c) (c_sendIV c) (c_sendSeq c) (blank (ClientEncryptedWire (cc_Cover cfg)))\<rparr>)"
proof -
  let ?rem = "if full then cp_FullRemainder (cc_Cover cfg) else cp_ResumedRemainder (cc_Cover cfg)"
  let ?tail = "seal_all (c_recv c) (c_recvIV c) (c_recvSeq c + of_nat (length ns)) (ticket_inners nxt) @ rest"
  let ?c1 = "c\<lparr>c_recvSeq := c_recvSeq c + of_nat (length ns)\<rparr>"
  let ?w1 = "w\<lparr>w_in := ?tail\<rparr>" and ?w2 = "w\<lparr>w_in := ?tail, w_out := w_out w @ ChangeCipherSpec\<rparr>"
  let ?fin = "seal_record (c_send c) (c_sendIV c) (c_sendSeq c) (blank (ClientEncryptedWire (cc_Cover cfg)))"
  let ?c3 = "?c1\<lparr>c_sendSeq := c_sendSeq c + 1\<rparr>"
  let ?w3 = "w\<lparr>w_in := ?tail, w_out := w_out w @ ChangeCipherSpec @ ?fin\<rparr>"
  have s1: "with_conn c (forA (\<lambda>_. bindA consumeRecord (\<lambda>_. returnA ())) ?rem) w = (Inr ((), ?c1), ?w1)"
    using consume_flight [OF assms(1) len [symmetric], of w ?tail] win by (simp add: with_conn_def seal_all_append)
  have s2: "raw_Write ChangeCipherSpec ?w1 = (Inr (), ?w2)" using raw_Write_quiet [of ?w1 ChangeCipherSpec] assms(2) by simp
  have s3: "with_conn ?c1 (writeSized contentHandshake [] (ClientEncryptedWire (cc_Cover cfg))) ?w2 = (Inr ((), ?c3), ?w3)"
    using emit assms(2) by (simp add: with_conn_def writeSized_quiet can_emit_def blank_def)
  have s4: "with_conn ?c3 readTickets ?w3
      = (Inr (nxt, ?c3\<lparr>c_recvSeq := c_recvSeq c + of_nat (length ns) + 2\<rparr>), ?w3\<lparr>w_in := rest\<rparr>)"
    using readTickets_sealed [OF assms(5), of ?c3 ?w3 rest] assms(1) by (simp add: with_conn_def)
  show ?thesis
    unfolding client_finish_def Let_def
    by (subst bindA_Inr [where m = "with_conn c _", OF s1], unfold case_prod_conv,
        subst bindA_Inr [where m = "raw_Write _", OF s2], subst bindA_Inr [where m = "with_conn ?c1 _", OF s3], unfold case_prod_conv,
        subst bindA_Inr [where m = "with_conn ?c3 _", OF s4])
       (simp add: returnA_def algebra_simps)
qed

section \<open>The server's stages\<close>

lemma orA_on_world: "m w = (Inr x, w') \<Longrightarrow> orA e (on_world m) (g, w) = (Inr x, (g, w'))"
  by (simp add: orA_def on_world_def)

lemma orA_liftA: "m = Inr x \<Longrightarrow> orA e (liftA m) s = (Inr x, s)"
  by (simp add: orA_def liftA_def)

lemma server_accept_run:
  assumes win: "w_in w = rec @ rest" and "framed rec" and ph: "ParseClientHello rec = Inr h"
    and va: "validateClientHello (sc_Cover cfg) h = Inr ticket"
    and ver: "(if Find ExtPreSharedKey h = None then verifyECHAt else verifyAt) h k maxAge (w_clock w (w_ticks w)) = Inr res"
    and spent: "Consume order (ar_ClientID res) (ar_Issued res) ticket (w_clock w (Suc (w_ticks w))) g = (True, g')"
  shows "server_accept order cfg k maxAge (Some g, w)
     = (Inr (rec, h, Find ExtPreSharedKey h = None, res), (Some g', w\<lparr>w_in := rest, w_ticks := Suc (Suc (w_ticks w))\<rparr>))"
proof -
  let ?w1 = "w\<lparr>w_in := rest\<rparr>" and ?w2 = "w\<lparr>w_in := rest, w_ticks := Suc (w_ticks w)\<rparr>"
  have s1: "orA ErrNotOurs (on_world readRecord) (Some g, w) = (Inr rec, (Some g, ?w1))"
    by (rule orA_on_world) (rule readRecord_framed [OF win \<open>framed rec\<close>])
  have s2: "orA ErrNotOurs (liftA (ParseClientHello rec)) (Some g, ?w1) = (Inr h, (Some g, ?w1))" by (rule orA_liftA [OF ph])
  have s3: "orA ErrNotOurs (liftA (validateClientHello (sc_Cover cfg) h)) (Some g, ?w1) = (Inr ticket, (Some g, ?w1))"
    by (rule orA_liftA [OF va])
  have s4: "orA ErrNotOurs (on_world (if Find ExtPreSharedKey h = None then VerifyECHTicketAuth h k maxAge
      else VerifyTicketAuth h k maxAge)) (Some g, ?w1) = (Inr res, (Some g, ?w2))"
    using ver by (intro orA_on_world, cases "Find ExtPreSharedKey h")
      (simp_all add: VerifyECHTicketAuth_def VerifyTicketAuth_def bindA_def time_Now_def liftA_def)
  have s5: "on_world time_Now (Some g, ?w2) = (Inr (w_clock w (Suc (w_ticks w))), (Some g, ?w2\<lparr>w_ticks := Suc (Suc (w_ticks w))\<rparr>))"
    by (simp add: on_world_def time_Now_def)
  show ?thesis
    unfolding server_accept_def Let_def
      bindA_Inr [where m = "orA ErrNotOurs (on_world readRecord)" and s = "(Some g, w)", OF s1]
      bindA_Inr [where m = "orA ErrNotOurs (liftA (ParseClientHello rec))", OF s2]
      bindA_Inr [where m = "orA ErrNotOurs (liftA (validateClientHello (sc_Cover cfg) h))", OF s3]
    by (subst bindA_Inr [where m = "orA ErrNotOurs (on_world (if _ then _ else _))", OF s4],
        subst bindA_Inr [where m = "on_world time_Now", OF s5])
       (simp add: bindA_def getA_def modA_def returnA_def consume_gate_def spent)
qed

definition server_params :: "kex \<Rightarrow> ServerConfig \<Rightarrow> ClientHello \<Rightarrow> bool \<Rightarrow> bytes \<Rightarrow> ServerHelloParams" where
  "server_params K cfg h full priv =
     \<lparr>sp_SessionIDEcho = SessionID h, sp_CipherSuite = cp_CipherSuite (sc_Cover cfg),
      sp_ServerEphemeral = Some (x25519_public K priv), sp_SelectedIdentity = 0,
      sp_PSKFirst = cp_PSKFirst (sc_Cover cfg), sp_FullHandshake = full\<rparr>"

lemma server_answer_run:
  assumes gen: "x25519_GenerateKey (w_rand w) = Inr (priv, t1)"
    and syn: "SynthesizeServerHello (server_params K cfg h full priv) t1 = Inr (sh, t2)"
    and "quiet w" and dh: "x25519_ECDH K priv (ar_ClientEphemeral res) = Inr shared"
    and ds: "DeriveSession (ar_PSK res) shared (cp_CipherSuite (sc_Cover cfg)) (Transcript rec sh ChangeCipherSpec) = Inr sess"
    and nc: "NewConn sess False (sc_Shaper cfg) = Inr c"
  shows "server_answer K cfg rec h full res w
     = (Inr (c\<lparr>c_full := full\<rparr>), w\<lparr>w_out := w_out w @ sh @ ChangeCipherSpec, w_rand := t2\<rparr>)"
proof -
  let ?w2 = "w\<lparr>w_rand := t2\<rparr>" and ?w3 = "w\<lparr>w_out := w_out w @ sh, w_rand := t2\<rparr>"
  have s1: "drawA x25519_GenerateKey w = (Inr priv, w\<lparr>w_rand := t1\<rparr>)" using gen by (simp add: drawA_def)
  have s2: "drawA (SynthesizeServerHello (server_params K cfg h full priv)) (w\<lparr>w_rand := t1\<rparr>) = (Inr sh, ?w2)"
    using syn by (simp add: drawA_def)
  have s3: "raw_Write sh ?w2 = (Inr (), ?w3)" using raw_Write_quiet [of ?w2 sh] assms(3) by simp
  have s4: "raw_Write ChangeCipherSpec ?w3 = (Inr (), w\<lparr>w_out := w_out w @ sh @ ChangeCipherSpec, w_rand := t2\<rparr>)"
    using raw_Write_quiet [of ?w3 ChangeCipherSpec] assms(3) by (simp add: quiet_def)
  show ?thesis
    unfolding server_answer_def server_params_def [symmetric]
      bindA_Inr [where m = "drawA x25519_GenerateKey" and s = w, OF s1]
      bindA_Inr [where m = "drawA (SynthesizeServerHello (server_params K cfg h full priv))", OF s2]
      bindA_Inr [where m = "raw_Write sh", OF s3] bindA_Inr [where m = "raw_Write ChangeCipherSpec", OF s4]
      bindA_liftA [OF dh] bindA_liftA [OF ds] bindA_liftA [OF nc]
    by (simp add: returnA_def)
qed

lemma server_finish_run:
  assumes key: "aes_key_ok (c_recv c)" and "quiet w"
    and flight: "(if full then drawA (DrawFullRemainder (sc_Cover cfg)) else returnA (cp_ResumedRemainder (sc_Cover cfg))) w
        = (Inr ns, w\<lparr>w_rand := t1\<rparr>)"
    and emit: "list_all can_emit ns"
    and win: "w_in w = ChangeCipherSpec @ seal_record (c_recv c) (c_recvIV c) (c_recvSeq c) (blank n) @ rest"
    and iss: "issueAt k clientID (nat (cp_TicketLen (sc_Cover cfg))) (w_clock w (w_ticks w)) t1 = Inr (nxt, t2)"
    and "rotates nxt"
  shows "server_finish cfg k full clientID c w =
     (Inr (c\<lparr>c_sendSeq := c_sendSeq c + of_nat (length ns + 2), c_recvSeq := c_recvSeq c + 1\<rparr>),
      w\<lparr>w_in := rest, w_rand := t2, w_ticks := Suc (w_ticks w),
        w_out := w_out w @ seal_all (c_send c) (c_sendIV c) (c_sendSeq c) (map blank ns @ ticket_inners nxt)\<rparr>)"
proof -
  let ?c1 = "c\<lparr>c_sendSeq := c_sendSeq c + of_nat (length ns)\<rparr>" and ?c2 = "c\<lparr>c_sendSeq := c_sendSeq c + of_nat (length ns), c_recvSeq := c_recvSeq c + 1\<rparr>"
  let ?fl = "seal_all (c_send c) (c_sendIV c) (c_sendSeq c) (map blank ns)"
  let ?fin = "seal_record (c_recv c) (c_recvIV c) (c_recvSeq c) (blank n)"
  let ?w1 = "w\<lparr>w_rand := t1\<rparr>" and ?w2 = "w\<lparr>w_rand := t1, w_out := w_out w @ ?fl\<rparr>"
  let ?w3 = "?w2\<lparr>w_in := ?fin @ rest\<rparr>" and ?w4 = "?w2\<lparr>w_in := rest\<rparr>"
  let ?w6 = "?w4\<lparr>w_ticks := Suc (w_ticks w), w_rand := t2\<rparr>"
  have s1: "with_conn c (forA (writeSized contentHandshake []) ns) ?w1 = (Inr ((), ?c1), ?w2)"
    using write_flight [OF emit, of ?w1 c] assms(2) by (simp add: with_conn_def)
  have s2: "readRecord ?w2 = (Inr ChangeCipherSpec, ?w3)"
    using readRecord_framed [OF _ framed_CCS, of ?w2 "?fin @ rest"] win by simp
  have s3: "with_conn ?c1 consumeRecord ?w3 = (Inr ((contentHandshake, []), ?c2), ?w4)"
    using decrypt_sealed [of ?c1 "blank n" ?w3 rest] key length_blank [of n]
    by (simp add: with_conn_def consumeRecord_def content_type_blank)
  have s4: "time_Now ?w4 = (Inr (w_clock w (w_ticks w)), ?w4\<lparr>w_ticks := Suc (w_ticks w)\<rparr>)" by (simp add: time_Now_def)
  have s5: "drawA (issueAt k clientID (nat (cp_TicketLen (sc_Cover cfg))) (w_clock w (w_ticks w))) (?w4\<lparr>w_ticks := Suc (w_ticks w)\<rparr>)
      = (Inr nxt, ?w6)" using iss by (simp add: drawA_def)
  have s6: "with_conn ?c2 (writeTickets nxt) ?w6 = (Inr ((), ?c2\<lparr>c_sendSeq := c_sendSeq c + of_nat (length ns) + 2\<rparr>),
      ?w6\<lparr>w_out := w_out w @ ?fl @ seal_all (c_send c) (c_sendIV c) (c_sendSeq c + of_nat (length ns)) (ticket_inners nxt)\<rparr>)"
    using writeTickets_quiet [OF assms(7), of ?w6 ?c2] assms(2) by (simp add: with_conn_def quiet_def)
  show ?thesis
    unfolding server_finish_def
    by (subst bindA_Inr [where m = "if full then _ else _", OF flight],
        subst bindA_Inr [where m = "with_conn c _", OF s1], unfold case_prod_conv,
        subst bindA_Inr [where m = readRecord, OF s2], subst bindA_Inr [where m = "with_conn ?c1 _", OF s3], unfold case_prod_conv,
        subst bindA_Inr [where m = time_Now, OF s4], subst bindA_Inr [where m = "drawA (issueAt _ _ _ _)", OF s5],
        subst bindA_Inr [where m = "with_conn ?c2 _", OF s6])
       (simp add: returnA_def algebra_simps seal_all_append)
qed

section \<open>The opening completes\<close>

definition start :: "bytes \<Rightarrow> tape \<Rightarrow> (nat \<Rightarrow> int) \<Rightarrow> world" where
  "start input tape clk = \<lparr>w_in = input, w_out = [], w_fail = [], w_closed = False, w_rand = tape, w_clock = clk, w_ticks = 0\<rparr>"

lemma quiet_start [simp]: "quiet (start i t clk)"
  by (simp add: start_def quiet_def)

text \<open>A harvested hello the pipeline can emit and the server answer.\<close>

definition usable_hello :: "ClientConfig \<Rightarrow> Credential \<Rightarrow> bool \<Rightarrow> bytes \<Rightarrow> bool" where
  "usable_hello cfg cred full rec \<longleftrightarrow> length rec \<le> 15000
     \<and> (\<exists>h d. ParseClientHello rec = Inr h \<and> emittable (client_options cfg cred full) h \<and> sole ExtServerName d h
          \<and> cp_CipherSuite (cc_Cover cfg) \<in> set (CipherSuites h) \<and> SessionID h \<noteq> [] \<and> length (SessionID h) \<le> 32)"

lemma emitted_length:
  assumes "Twiddle K harvested opt t = Inr ((wire, eph), t')"
  shows "length wire \<le> length harvested + length (opt_CoverSNI opt) + length (cr_Ticket (opt_Credential opt)) + 400"
proof -
  obtain h0 h1 h2 h3 h4 h5 t1 t2 t3 t4 where s: "ParseClientHello harvested = Inr h0"
    "h1 = h0 \<and> opt_CoverSNI opt = [] \<or> opt_CoverSNI opt \<noteq> [] \<and> SetSNI (opt_CoverSNI opt) h0 = Inr h1"
    "Rerandomize K h1 t = Inr (h2, t1)" "Shuffle h2 t1 = Inr (h3, t2)" "SetKeyShare K h3 t2 = Inr ((eph, h4), t3)"
    and a: "if opt_FullHandshake opt
     then SetECHTicketAuth (cr_FullTicket (opt_Credential opt)) (cr_PSK (opt_Credential opt))
            (fst (dropExtension ExtPreSharedKey h4)) t3 = Inr (h5, t4)
     else SetTicketAuth (opt_Credential opt) (opt_BinderLen opt) h4 t3 = Inr (h5, t4)"
    and w: "wire = Marshal h5"
    by (rule Twiddle_steps [OF assms])
  let ?n = "length harvested + length (opt_CoverSNI opt) + 287"
  have f4: "fits h4 ?n" by (rule emitted_fits [OF s(1-5)])
  have "fits h5 (?n + (63 + length (cr_Ticket (opt_Credential opt))))"
  proof (cases "opt_FullHandshake opt")
    case True
    then show ?thesis using a fits_SetECHTicketAuth [OF _ fits_dropExtension [OF f4]] fits_mono by fastforce
  next
    case False
    then show ?thesis using a fits_SetTicketAuth [OF _ f4] by simp
  qed
  then show ?thesis by (auto simp: w Marshal_eq_wire hello_wire_def hello_prefix_def fits_def)
qed

lemma can_issue: "length k = 32 \<Longrightarrow> MinTicketLen \<le> n \<Longrightarrow> can (issueAt k clientID n now)"
  unfolding issueAt_def seal_ticket_def Let_def by (auto intro!: can_intros)

lemma yields_reaches: "can m \<Longrightarrow> \<exists>x r. \<forall>s. m (r @ s) = Inr (x, s)"
  by (auto simp: can_def yields_def)

text \<open>Both ends of a fresh session, and what they agree on once the opening is done.\<close>

definition peers :: "Conn \<Rightarrow> Conn \<Rightarrow> bool" where
  "peers c d \<longleftrightarrow> c_send c = c_recv d \<and> c_sendIV c = c_recvIV d \<and> c_sendSeq c = c_recvSeq d
     \<and> c_send d = c_recv c \<and> c_sendIV d = c_recvIV c \<and> c_sendSeq d = c_recvSeq c
     \<and> aes_key_ok (c_send c) \<and> aes_key_ok (c_send d) \<and> idle c \<and> idle d
     \<and> c_pending c = [] \<and> c_pending d = [] \<and> c_rerr c = None \<and> c_rerr d = None \<and> c_full c = c_full d"

lemma client_checks_Inr: "client_checks cfg (Some sock) = Inr (cred, sock) \<Longrightarrow>
    profile_ok (cc_Cover cfg) \<and> int (length (cr_Ticket cred)) = cp_TicketLen (cc_Cover cfg)
    \<and> (cc_FullHandshake cfg \<longrightarrow> CanEmitFullHandshake (cc_Cover cfg))"
  by (auto simp: client_checks_def res_simps Valid_profile_ok split: if_splits option.splits)

text \<open>The first flight: a hello that is emitted, read, validated and authenticated.\<close>

lemma first_flight:
  assumes K: "kex_ok K" and p: "profile_ok (cc_Cover cfg)" and tl: "int (length (cr_Ticket cred)) = cp_TicketLen (cc_Cover cfg)"
    and can: "full \<longrightarrow> CanEmitFullHandshake (cc_Cover cfg)"
    and cands: "candidates_of cfg full \<noteq> []" and hello: "usable_hello cfg cred full (candidates_of cfg full ! 0)"
    and tk: "open_ticket k (spends cred full) = Inr (clientID, cr_PSK cred, issued)" and young: "time_Sub now issued \<le> maxAge"
  obtains tc t1 wire eph h where "rand_Int (length (candidates_of cfg full)) tc = Inr (0, t1)"
    "Twiddle K (candidates_of cfg full ! 0) (client_options cfg cred full) t1 = Inr ((wire, eph), [])"
    "framed wire" "5 < length wire" "ParseClientHello wire = Inr h"
    "validateClientHello (cc_Cover cfg) h = Inr (spends cred full)" "Find ExtPreSharedKey h = None \<longleftrightarrow> full"
    "SessionID h \<noteq> []" "length (SessionID h) \<le> 32"
    "(if Find ExtPreSharedKey h = None then verifyECHAt else verifyAt) h k maxAge now
       = Inr \<lparr>ar_ClientID = clientID, ar_PSK = cr_PSK cred, ar_Issued = issued, ar_ClientEphemeral = x25519_public K eph\<rparr>"
proof -
  let ?rec = "candidates_of cfg full ! 0" and ?opt = "client_options cfg cred full"
  obtain h0 d where h0: "length ?rec \<le> 15000" "ParseClientHello ?rec = Inr h0" "emittable ?opt h0" "sole ExtServerName d h0"
    "cp_CipherSuite (cc_Cover cfg) \<in> set (CipherSuites h0)" "SessionID h0 \<noteq> []" "length (SessionID h0) \<le> 32"
    using hello unfolding usable_hello_def by blast
  obtain dk where dk: "sole ExtKeyShare dk h0" "share_ok dk" using h0(3) unfolding emittable_def by blast
  obtain x r2 where x: "\<forall>s. Twiddle K ?rec ?opt (r2 @ s) = Inr (x, s)"
    using yields_reaches [OF Twiddle_emits_aux [OF h0(2,3) K]] by blast
  obtain wire eph where xe: "x = (wire, eph)" by (cases x)
  have tw: "Twiddle K ?rec ?opt r2 = Inr ((wire, eph), [])" using x [rule_format, of "[]"] xe by simp
  obtain r1 where r1: "\<forall>s. rand_Int (length (candidates_of cfg full)) (r1 @ s) = Inr (0, s)"
    using yields_rand_Int [of 0 "length (candidates_of cfg full)"] cands unfolding yields_def by auto
  have small: "length (cp_Host (cc_Cover cfg)) \<le> 253" "length (cr_Ticket cred) \<le> 314"
    using p tl by (auto simp: profile_ok_def)
  have o: "opt_CoverSNI ?opt = cp_Host (cc_Cover cfg)" "opt_Credential ?opt = cred" "opt_FullHandshake ?opt = full"
    by (simp_all add: client_options_def)
  obtain h where h: "ParseClientHello wire = Inr h" "validateClientHello (cc_Cover cfg) h = Inr (spends cred full)"
    "Find ExtPreSharedKey h = None \<longleftrightarrow> full" "length (SessionID h) = length (SessionID h0)"
    using emitted_validates [OF tw h0(2) refl p h0(4,5) _ tl can] h0(1) small(2) by auto
  have "length wire \<le> 5 + maxCiphertext" using emitted_length [OF tw] small h0(1) o by simp
  then have fr: "framed wire" by (rule framed_hello [OF h(1)])
  have big: "5 < length wire"
    using h(1) unfolding parse_iff_wire_aux by (auto simp: hello_wire_def)
  have "bindE (ParseClientHello wire) (\<lambda>h. (if opt_FullHandshake ?opt then verifyECHAt else verifyAt) h k maxAge now)
     = Inr \<lparr>ar_ClientID = clientID, ar_PSK = cr_PSK (opt_Credential ?opt), ar_Issued = issued,
            ar_ClientEphemeral = x25519_public K eph\<rparr>"
    by (rule Twiddle_accepted_aux [OF tw K h0(2) dk])
       (use h0(1) small o tk young in \<open>auto simp: spends_def\<close>)
  then have "(if full then verifyECHAt else verifyAt) h k maxAge now
     = Inr \<lparr>ar_ClientID = clientID, ar_PSK = cr_PSK cred, ar_Issued = issued, ar_ClientEphemeral = x25519_public K eph\<rparr>"
    using h(1) o by simp
  moreover have "SessionID h \<noteq> []" using h(4) h0(6) by (metis length_0_conv)
  ultimately show thesis
    using that [of "r1 @ r2" r2 wire eph h] r1 tw fr big h h0(7) by auto
qed

text \<open>The server's answer to it, whatever entropy follows.\<close>

lemma second_flight:
  assumes K: "kex_ok K" and "SessionID h \<noteq> []" and "length (SessionID h) \<le> 32"
  obtains t0 priv sh where "\<forall>s. \<exists>t1. x25519_GenerateKey (t0 @ s) = Inr (priv, t1)
       \<and> SynthesizeServerHello (server_params K cfg h full priv) t1 = Inr (sh, s)"
    "framed sh" "5 < length sh" "ServerEphemeralFromShare sh = Inr (x25519_public K priv)"
proof -
  let ?priv = "replicate 32 0 :: bytes" and ?ct = "replicate 1088 0 :: bytes"
  let ?p = "server_params K cfg h full ?priv" and ?eph = "x25519_public K ?priv"
  let ?sh = "server_wire ?p ?eph ?ct ?priv"
  have sp: "sp_ServerEphemeral ?p = Some ?eph" "length ?eph = 32" "sp_SessionIDEcho ?p = SessionID h"
    using K by (simp_all add: server_params_def)
  have gen: "x25519_GenerateKey ((?priv @ ?ct @ ?priv) @ s) = Inr (?priv, ?ct @ ?priv @ s)" for s
    by (simp add: x25519_GenerateKey_def rand_Read_def)
  have "slice (?ct @ ?priv @ s) 1088 1120 = ?priv" for s by (simp add: slice_def)
  then have syn: "SynthesizeServerHello ?p (?ct @ ?priv @ s) = Inr (?sh, s)" for s
    using synth_wire [OF sp(1,2), of "?ct @ ?priv @ s"] assms(2,3) sp(3) by simp
  have sizes: "length ?ct = 1088" "length ?eph = 32" "length ?priv = 32" "length (sp_SessionIDEcho ?p) \<le> 32"
    using sp assms(3) by simp_all
  show thesis
  proof (rule that [of "?priv @ ?ct @ ?priv" ?priv ?sh])
    show "\<forall>s. \<exists>t1. x25519_GenerateKey ((?priv @ ?ct @ ?priv) @ s) = Inr (?priv, t1)
       \<and> SynthesizeServerHello ?p t1 = Inr (?sh, s)"
      using gen syn by blast
    show "framed ?sh" by (rule framed_server_wire [OF sizes])
    show "5 < length ?sh" using length_server_wire [OF sizes(1-3), of ?p] by simp
    show "ServerEphemeralFromShare ?sh = Inr ?eph" by (rule share_ephemeral [OF sizes])
  qed
qed

text \<open>The encrypted flight of the server, drawn or fixed, and the next credential.\<close>

lemma third_flight:
  assumes p: "profile_ok p" and k: "length k = 32" and now: "instant_ok now"
    and flights: "full \<longrightarrow> flight_ok p \<and> list_all can_emit (cp_FullRemainder p)"
  obtains t1 ns t2 nxt where "\<forall>s. (full \<longrightarrow> DrawFullRemainder p (t1 @ s) = Inr (ns, s)) \<and> (\<not> full \<longrightarrow> t1 = [])"
    "length ns = length (if full then cp_FullRemainder p else cp_ResumedRemainder p)" "list_all can_emit ns"
    "\<not> full \<longrightarrow> ns = cp_ResumedRemainder p"
    "issueAt k clientID (nat (cp_TicketLen p)) now t2 = Inr (nxt, [])" "rotates nxt"
    "open_ticket k (cr_Ticket nxt) = Inr (clientID, cr_PSK nxt, time_Unix (unix_of now))"
    "open_ticket k (cr_FullTicket nxt) = Inr (clientID, cr_PSK nxt, time_Unix (unix_of now))"
    "int (length (cr_Ticket nxt)) = cp_TicketLen p"
proof -
  have tl: "MinTicketLen \<le> nat (cp_TicketLen p)" "nat (cp_TicketLen p) \<le> 314" "0 \<le> cp_TicketLen p"
    "list_all can_emit (cp_ResumedRemainder p)"
    using p by (auto simp: profile_ok_def)
  obtain nxt t2 where "\<forall>s. issueAt k clientID (nat (cp_TicketLen p)) now (t2 @ s) = Inr (nxt, s)"
    using yields_reaches [OF can_issue [OF k tl(1)]] by blast
  then have iss: "issueAt k clientID (nat (cp_TicketLen p)) now t2 = Inr (nxt, [])" by (metis append_Nil2)
  note c = issue_companions [OF iss k now]
  have "length (cr_PSK nxt) = 32" by (rule open_ticket_psk) (use c in blast)
  then have rot: "rotates nxt" "int (length (cr_Ticket nxt)) = cp_TicketLen p"
    using c tl(2,3) by (auto simp: rotates_def)
  have "\<exists>t1. \<forall>s. DrawFullRemainder p (t1 @ s) = Inr (cp_FullRemainder p, s)" if full
    using Draw_yields [of p "cp_FullRemainder p"] flights that by (auto simp: yields_def in_range_def slack_def)
  then obtain td where td: "full \<Longrightarrow> DrawFullRemainder p (td @ s) = Inr (cp_FullRemainder p, s)" for s by blast
  show thesis
    by (rule that [of "if full then td else []" "if full then cp_FullRemainder p else cp_ResumedRemainder p" t2 nxt])
       (use td flights tl(4) iss rot c in auto)
qed

lemma Server_run:
  assumes "server_checks cfg (Some g) = Inr (k, maxAge)"
    and "server_accept order cfg k maxAge (Some g, w) = (Inr (rec, h, full, res), (Some g', w1))"
    and "server_answer K cfg rec h full res w1 = (Inr c, w2)"
    and "server_finish cfg k full (ar_ClientID res) c w2 = (Inr d, w3)"
  shows "Server K order cfg (Some g, w) = (Inr d, (Some g', w3))"
  using assms by (simp add: Server_def bindA_def getA_def liftA_def on_world_def)

lemma Client_run:
  assumes "client_checks cfg (Some sock) = Inr (cred, sock)"
    and "client_open K cfg cred (cc_FullHandshake cfg) w = (Inr c, w1)"
    and "client_finish cfg (cc_FullHandshake cfg) c w1 = (Inr (d, nxt), w2)"
  shows "Client K order cfg (Some sock) (None, w) = (Inr (d, nxt), (None, w2))"
  using assms by (simp add: Client_def client_shape_def bindA_def getA_def liftA_def on_world_def returnA_def)

lemma client_completes:
  assumes cc: "client_checks cfg (Some sock) = Inr (cred, sock)" and full: "cc_FullHandshake cfg = full"
    and cands: "candidates_of cfg full \<noteq> []"
    and pick: "rand_Int (length (candidates_of cfg full)) tc = Inr (0, t1)"
    and tw: "Twiddle K (candidates_of cfg full ! 0) (client_options cfg cred full) t1 = Inr ((wire, eph), [])"
    and sh: "framed sh" "ServerEphemeralFromShare sh = Inr spub" and dh: "x25519_ECDH K eph spub = Inr z"
    and ds: "DeriveSession (cr_PSK cred) z (cp_CipherSuite (cc_Cover cfg)) (Transcript wire sh ChangeCipherSpec) = Inr sess"
    and nc: "NewConn sess True (cc_Shaper cfg) = Inr c" and key: "aes_key_ok (c_recv c)"
    and len: "length ns = length (if full then cp_FullRemainder (cc_Cover cfg) else cp_ResumedRemainder (cc_Cover cfg))"
    and rot: "rotates nxt"
    and flight: "flight = seal_all (c_recv c) (c_recvIV c) (c_recvSeq c) (map blank ns @ ticket_inners nxt)"
  shows "\<exists>vc. Client K order cfg (Some sock) (None, (start ((sh @ ChangeCipherSpec) @ flight) tc clk)\<lparr>w_ticks := ticks\<rparr>) =
     (Inr (c\<lparr>c_full := full, c_recvSeq := c_recvSeq c + of_nat (length ns + 2), c_sendSeq := c_sendSeq c + 1\<rparr>, nxt), (None, vc))
     \<and> w_in vc = [] \<and> w_out vc = wire @ ChangeCipherSpec
        @ seal_record (c_send c) (c_sendIV c) (c_sendSeq c) (blank (ClientEncryptedWire (cc_Cover cfg)))"
proof -
  let ?w = "(start ((sh @ ChangeCipherSpec) @ flight) tc clk)\<lparr>w_ticks := ticks\<rparr>"
  let ?w1 = "?w\<lparr>w_in := flight, w_out := w_out ?w @ wire, w_rand := []\<rparr>"
  have o: "client_open K cfg cred full ?w = (Inr (c\<lparr>c_full := full\<rparr>), ?w1)"
    by (rule client_open_run [OF cands _ tw _ _ sh dh ds nc]) (simp_all add: start_def pick quiet_def)
  have emit: "can_emit (ClientEncryptedWire (cc_Cover cfg))" using client_checks_Inr [OF cc] by (simp add: profile_ok_def)
  have f: "client_finish cfg full (c\<lparr>c_full := full\<rparr>) ?w1 =
     (Inr (c\<lparr>c_full := full\<rparr>\<lparr>c_recvSeq := c_recvSeq (c\<lparr>c_full := full\<rparr>) + of_nat (length ns + 2),
        c_sendSeq := c_sendSeq (c\<lparr>c_full := full\<rparr>) + 1\<rparr>, nxt),
      ?w1\<lparr>w_in := [], w_out := w_out ?w1 @ ChangeCipherSpec @ seal_record (c_send (c\<lparr>c_full := full\<rparr>)) (c_sendIV (c\<lparr>c_full := full\<rparr>))
         (c_sendSeq (c\<lparr>c_full := full\<rparr>)) (blank (ClientEncryptedWire (cc_Cover cfg)))\<rparr>)"
    by (rule client_finish_run [OF _ _ emit len rot]) (simp_all add: key flight start_def quiet_def)
  show ?thesis
    by (intro exI conjI, rule Client_run [OF cc o [folded full] f [folded full], unfolded full, THEN trans],
        simp, simp_all add: start_def)
qed

lemma server_completes:
  assumes sc: "server_checks cfg (Some g) = Inr (k, maxAge)" and rec: "framed rec" "ParseClientHello rec = Inr h"
    and va: "validateClientHello (sc_Cover cfg) h = Inr ticket" and full: "Find ExtPreSharedKey h = None \<longleftrightarrow> full"
    and ver: "(if Find ExtPreSharedKey h = None then verifyECHAt else verifyAt) h k maxAge (clk 0) = Inr res"
    and spent: "Consume order (ar_ClientID res) (ar_Issued res) ticket (clk 1) g = (True, g')"
    and syn: "x25519_GenerateKey (t0 @ td @ ti) = Inr (priv, t1)"
      "SynthesizeServerHello (server_params K cfg h full priv) t1 = Inr (sh, td @ ti)"
    and dh: "x25519_ECDH K priv (ar_ClientEphemeral res) = Inr z"
    and ds: "DeriveSession (ar_PSK res) z (cp_CipherSuite (sc_Cover cfg)) (Transcript rec sh ChangeCipherSpec) = Inr sess"
    and nc: "NewConn sess False (sc_Shaper cfg) = Inr d" and key: "aes_key_ok (c_recv d)"
    and flight: "full \<longrightarrow> DrawFullRemainder (sc_Cover cfg) (td @ ti) = Inr (ns, ti)"
      "\<not> full \<longrightarrow> td = [] \<and> ns = cp_ResumedRemainder (sc_Cover cfg)" and emit: "list_all can_emit ns"
    and iss: "issueAt k (ar_ClientID res) (nat (cp_TicketLen (sc_Cover cfg))) (clk 2) ti = Inr (nxt, [])" and rot: "rotates nxt"
    and up2: "up2 = ChangeCipherSpec @ seal_record (c_recv d) (c_recvIV d) (c_recvSeq d) (blank n)"
  shows "\<exists>vs. Server K order cfg (Some g, start (rec @ up2) (t0 @ td @ ti) clk) =
     (Inr (d\<lparr>c_full := full, c_sendSeq := c_sendSeq d + of_nat (length ns + 2), c_recvSeq := c_recvSeq d + 1\<rparr>), (Some g', vs))
     \<and> w_in vs = [] \<and> w_out vs = (sh @ ChangeCipherSpec)
        @ seal_all (c_send d) (c_sendIV d) (c_sendSeq d) (map blank ns @ ticket_inners nxt)"
proof -
  let ?w = "start (rec @ up2) (t0 @ td @ ti) clk" and ?d = "d\<lparr>c_full := full\<rparr>"
  let ?w1 = "?w\<lparr>w_in := up2, w_ticks := Suc (Suc (w_ticks ?w))\<rparr>"
  let ?w2 = "?w1\<lparr>w_out := w_out ?w1 @ sh @ ChangeCipherSpec, w_rand := td @ ti\<rparr>"
  have a: "server_accept order cfg k maxAge (Some g, ?w) = (Inr (rec, h, full, res), (Some g', ?w1))"
    using server_accept_run [OF _ rec va, of ?w up2 k maxAge res order g g'] ver spent full
    by (simp add: start_def)
  have b: "server_answer K cfg rec h full res ?w1 = (Inr ?d, ?w2)"
    by (rule server_answer_run [OF _ syn(2) _ dh ds nc]) (simp_all add: start_def syn(1) quiet_def)
  have fl: "(if full then drawA (DrawFullRemainder (sc_Cover cfg)) else returnA (cp_ResumedRemainder (sc_Cover cfg))) ?w2
      = (Inr ns, ?w2\<lparr>w_rand := ti\<rparr>)"
    using flight by (auto simp: drawA_def returnA_def)
  have f: "server_finish cfg k full (ar_ClientID res) ?d ?w2 =
     (Inr (?d\<lparr>c_sendSeq := c_sendSeq ?d + of_nat (length ns + 2), c_recvSeq := c_recvSeq ?d + 1\<rparr>),
      ?w2\<lparr>w_in := [], w_rand := [], w_ticks := Suc (w_ticks ?w2),
        w_out := w_out ?w2 @ seal_all (c_send ?d) (c_sendIV ?d) (c_sendSeq ?d) (map blank ns @ ticket_inners nxt)\<rparr>)"
    by (rule server_finish_run [OF _ _ fl emit _ _ rot])
       (use iss in \<open>simp_all add: key up2 start_def quiet_def eval_nat_numeral\<close>)
  show ?thesis
    by (intro exI conjI, rule Server_run [OF sc a b f, THEN trans], simp, simp_all add: start_def)
qed

text \<open>A profile the library hands out names a suite every session is derived for, and both its ends are fresh.\<close>

lemma fresh_ends:
  assumes "profile_ok p" and "transcript \<noteq> []"
  obtains s c d where "DeriveSession psk z (cp_CipherSuite p) transcript = Inr s"
    "NewConn s True shc = Inr c" "NewConn s (\<not> True) shs = Inr d"
    "c_send c = c_recv d \<and> c_sendIV c = c_recvIV d \<and> c_recv c = c_send d \<and> c_recvIV c = c_sendIV d
     \<and> c_sendSeq c = 0 \<and> c_recvSeq d = 0 \<and> aes_key_ok (c_send c) \<and> aes_key_ok (c_recv d)
     \<and> idle c \<and> \<not> c_alerted c \<and> c_rerr d = None \<and> c_pending d = []"
    "c_sendSeq d = 0 \<and> c_recvSeq c = 0 \<and> aes_key_ok (c_send d) \<and> idle d \<and> c_rerr c = None \<and> c_pending c = []"
proof -
  have "cp_CipherSuite p = TLS_AES_128_GCM_SHA256 \<or> cp_CipherSuite p = TLS_AES_256_GCM_SHA384"
    using assms(1) by (auto simp: profile_ok_def)
  then obtain s where s: "DeriveSession psk z (cp_CipherSuite p) transcript = Inr s"
    "aes_key_ok (k_Key (s_Client s))" "aes_key_ok (k_Key (s_Server s))" using session_total assms(2) by blast
  obtain c d where c: "NewConn s True shc = Inr c" and d: "NewConn s (\<not> True) shs = Inr d"
    using NewConn_total [OF s(2,3)] by blast
  have d': "NewConn s False shs = Inr d" and c': "NewConn s (\<not> False) shc = Inr c" using c d by simp_all
  have "c_sendSeq d = 0 \<and> c_recvSeq c = 0 \<and> aes_key_ok (c_send d) \<and> idle d \<and> c_rerr c = None \<and> c_pending c = []"
    using NewConn_ends [OF d' c'] by blast
  then show thesis by (rule that [OF s(1) c d NewConn_ends [OF c d]])
qed

lemma handshake_aux:
  assumes K: "kex_honest K" and cc: "client_checks cfg (Some sock) = Inr (cred, sock)" and full: "cc_FullHandshake cfg = full"
    and sc: "server_checks scfg (Some g) = Inr (k, maxAge)" and same: "sc_Cover scfg = cc_Cover cfg" and k: "length k = 32"
    and flights: "full \<longrightarrow> flight_ok (cc_Cover cfg) \<and> list_all can_emit (cp_FullRemainder (cc_Cover cfg))"
    and cands: "candidates_of cfg full \<noteq> []" and hello: "usable_hello cfg cred full (candidates_of cfg full ! 0)"
    and tk: "open_ticket k (spends cred full) = Inr (clientID, cr_PSK cred, issued)" and young: "time_Sub (clk 0) issued \<le> maxAge"
    and spent: "Consume order' clientID issued (spends cred full) (clk 1) g = (True, g')" and now: "instant_ok (clk 2)"
  shows "\<exists>tc ts up1 up2 down1 down2 c d nxt vc vs.
     Client K order cfg (Some sock) (None, (start (down1 @ down2) tc clk')\<lparr>w_ticks := ticks\<rparr>) = (Inr (c, nxt), (None, vc))
     \<and> w_out vc = up1 @ up2 \<and> w_in vc = []
     \<and> Server K order' scfg (Some g, start (up1 @ up2) ts clk) = (Inr d, (Some g', vs))
     \<and> w_out vs = down1 @ down2 \<and> w_in vs = [] \<and> up1 \<noteq> [] \<and> down1 \<noteq> []
     \<and> peers c d \<and> c_full c = full
     \<and> open_ticket k (cr_Ticket nxt) = Inr (clientID, cr_PSK nxt, time_Unix (unix_of (clk 2)))
     \<and> open_ticket k (cr_FullTicket nxt) = Inr (clientID, cr_PSK nxt, time_Unix (unix_of (clk 2)))
     \<and> int (length (cr_Ticket nxt)) = cp_TicketLen (cc_Cover cfg)"
proof -
  let ?p = "cc_Cover cfg"
  have ok: "kex_ok K" using K by (simp add: kex_honest_def)
  have p: "profile_ok ?p" "int (length (cr_Ticket cred)) = cp_TicketLen ?p" "full \<longrightarrow> CanEmitFullHandshake ?p"
    using client_checks_Inr [OF cc] full by auto
  obtain tc t1 wire eph h where f1: "rand_Int (length (candidates_of cfg full)) tc = Inr (0, t1)"
    "Twiddle K (candidates_of cfg full ! 0) (client_options cfg cred full) t1 = Inr ((wire, eph), [])"
    "framed wire" "5 < length wire" "ParseClientHello wire = Inr h" "validateClientHello ?p h = Inr (spends cred full)"
    "Find ExtPreSharedKey h = None \<longleftrightarrow> full" "SessionID h \<noteq> []" "length (SessionID h) \<le> 32"
    and ver: "(if Find ExtPreSharedKey h = None then verifyECHAt else verifyAt) h k maxAge (clk 0)
       = Inr \<lparr>ar_ClientID = clientID, ar_PSK = cr_PSK cred, ar_Issued = issued, ar_ClientEphemeral = x25519_public K eph\<rparr>"
    by (rule first_flight [OF ok p cands hello tk young])
  let ?res = "\<lparr>ar_ClientID = clientID, ar_PSK = cr_PSK cred, ar_Issued = issued, ar_ClientEphemeral = x25519_public K eph\<rparr>"
  obtain t0 priv sh where f2: "\<forall>s. \<exists>t1. x25519_GenerateKey (t0 @ s) = Inr (priv, t1)
       \<and> SynthesizeServerHello (server_params K scfg h full priv) t1 = Inr (sh, s)"
    "framed sh" "5 < length sh" "ServerEphemeralFromShare sh = Inr (x25519_public K priv)"
    by (rule second_flight [OF ok f1(8,9), of scfg full])
  obtain td ns ti nxt where f3: "\<forall>s. (full \<longrightarrow> DrawFullRemainder ?p (td @ s) = Inr (ns, s)) \<and> (\<not> full \<longrightarrow> td = [])"
    "length ns = length (if full then cp_FullRemainder ?p else cp_ResumedRemainder ?p)" "list_all can_emit ns"
    "\<not> full \<longrightarrow> ns = cp_ResumedRemainder ?p" "issueAt k clientID (nat (cp_TicketLen ?p)) (clk 2) ti = Inr (nxt, [])"
    "rotates nxt" and nx: "open_ticket k (cr_Ticket nxt) = Inr (clientID, cr_PSK nxt, time_Unix (unix_of (clk 2)))"
    "open_ticket k (cr_FullTicket nxt) = Inr (clientID, cr_PSK nxt, time_Unix (unix_of (clk 2)))"
    "int (length (cr_Ticket nxt)) = cp_TicketLen ?p"
    by (rule third_flight [OF p(1) k now flights])
  obtain z where z: "x25519_ECDH K eph (x25519_public K priv) = Inr z" "x25519_ECDH K priv (x25519_public K eph) = Inr z"
    using honest_agree [OF K] by blast
  have "Transcript wire sh ChangeCipherSpec \<noteq> []" by (rule Transcript_nonempty) (use f1(4) f2(3) in simp_all)
  then obtain sess c0 d0 where se: "DeriveSession (cr_PSK cred) z (cp_CipherSuite ?p) (Transcript wire sh ChangeCipherSpec) = Inr sess"
    and c0: "NewConn sess True (cc_Shaper cfg) = Inr c0" and d0: "NewConn sess (\<not> True) (sc_Shaper scfg) = Inr d0"
    and ends1: "c_send c0 = c_recv d0 \<and> c_sendIV c0 = c_recvIV d0 \<and> c_recv c0 = c_send d0 \<and> c_recvIV c0 = c_sendIV d0
     \<and> c_sendSeq c0 = 0 \<and> c_recvSeq d0 = 0 \<and> aes_key_ok (c_send c0) \<and> aes_key_ok (c_recv d0)
     \<and> idle c0 \<and> \<not> c_alerted c0 \<and> c_rerr d0 = None \<and> c_pending d0 = []"
    and ends2: "c_sendSeq d0 = 0 \<and> c_recvSeq c0 = 0 \<and> aes_key_ok (c_send d0) \<and> idle d0 \<and> c_rerr c0 = None \<and> c_pending c0 = []"
    by (rule fresh_ends [OF p(1)])
  note ends = ends1 ends2
  let ?c = "c0\<lparr>c_full := full\<rparr>" and ?d = "d0\<lparr>c_full := full\<rparr>"
  let ?fin = "blank (ClientEncryptedWire ?p)"
  let ?down = "seal_all (c_send ?d) (c_sendIV ?d) (c_sendSeq ?d)"
  let ?up2 = "ChangeCipherSpec @ seal_record (c_send ?c) (c_sendIV ?c) (c_sendSeq ?c) ?fin"
  let ?flight = "?down (map blank ns @ ticket_inners nxt)"
  obtain vc where client: "Client K order cfg (Some sock) (None, (start ((sh @ ChangeCipherSpec) @ ?flight) tc clk')\<lparr>w_ticks := ticks\<rparr>) =
     (Inr (c0\<lparr>c_full := full, c_recvSeq := c_recvSeq c0 + of_nat (length ns + 2), c_sendSeq := c_sendSeq c0 + 1\<rparr>, nxt), (None, vc))"
     "w_in vc = []" "w_out vc = wire @ ?up2"
    using client_completes [OF cc full cands f1(1,2) f2(2,4) z(1) se c0 _ f3(2,6), where flight = ?flight and order = order and clk = clk' and ticks = ticks] ends by auto
  obtain vs where server: "Server K order' scfg (Some g, start (wire @ ?up2) (t0 @ td @ ti) clk) =
     (Inr (d0\<lparr>c_full := full, c_sendSeq := c_sendSeq d0 + of_nat (length ns + 2), c_recvSeq := c_recvSeq d0 + 1\<rparr>), (Some g', vs))"
     "w_in vs = []" "w_out vs = (sh @ ChangeCipherSpec) @ ?flight"
  proof -
    obtain t1' where syn: "x25519_GenerateKey (t0 @ td @ ti) = Inr (priv, t1')"
      "SynthesizeServerHello (server_params K scfg h full priv) t1' = Inr (sh, td @ ti)" using f2(1) by blast
    have "\<exists>vs. Server K order' scfg (Some g, start (wire @ ?up2) (t0 @ td @ ti) clk) =
     (Inr (d0\<lparr>c_full := full, c_sendSeq := c_sendSeq d0 + of_nat (length ns + 2), c_recvSeq := c_recvSeq d0 + 1\<rparr>), (Some g', vs))
      \<and> w_in vs = [] \<and> w_out vs = (sh @ ChangeCipherSpec)
        @ seal_all (c_send d0) (c_sendIV d0) (c_sendSeq d0) (map blank ns @ ticket_inners nxt)"
      by (rule server_completes [where clk = clk and n = "ClientEncryptedWire ?p" and z = z and sess = sess
            and ticket = "spends cred full", OF sc f1(3,5) _ f1(7) ver _ syn])
         (use same f1(6) spent z(2) se d0 ends f3 in \<open>simp_all\<close>)
    then show thesis using that by auto
  qed
  show ?thesis
    by (rule exI [of _ tc], rule exI [of _ "t0 @ td @ ti"], rule exI [of _ wire], rule exI [of _ ?up2],
        rule exI [of _ "sh @ ChangeCipherSpec"], rule exI [of _ ?flight], intro exI conjI,
        rule client(1), rule client(3), rule client(2), rule server(1))
       (use server(2,3) f1(4) f2(3) ends nx in \<open>auto simp: peers_def idle_def\<close>)
qed

lemma start_ticks [simp]: "(start i t clk)\<lparr>w_ticks := 0\<rparr> = start i t clk"
  by (simp add: start_def)

text \<open>
  C1. The opening completes. A provisioned client and its server, on one cover profile, with honest X25519 and
  a ticket young and unspent: there are entropies and four flights on which both ends return a
  connection, the bytes each writes being the bytes the other reads. The two ends agree on keys,
  numbers and shape, nothing is left over on either wire, the ticket is spent, and the credential the
  client leaves with opens under the server's key to the same client and the same psk, in both its forms.
\<close>

theorem handshake_completes:
  assumes K: "kex_honest K" and cc: "client_checks cfg (Some sock) = Inr (cred, sock)" and full: "cc_FullHandshake cfg = full"
    and sc: "server_checks scfg (Some g) = Inr (k, maxAge)" and same: "sc_Cover scfg = cc_Cover cfg" and k: "length k = 32"
    and flights: "full \<longrightarrow> flight_ok (cc_Cover cfg) \<and> list_all can_emit (cp_FullRemainder (cc_Cover cfg))"
    and cands: "candidates_of cfg full \<noteq> []" and hello: "usable_hello cfg cred full (candidates_of cfg full ! 0)"
    and tk: "open_ticket k (spends cred full) = Inr (clientID, cr_PSK cred, issued)" and young: "time_Sub (clk 0) issued \<le> maxAge"
    and spent: "Consume order' clientID issued (spends cred full) (clk 1) g = (True, g')" and now: "instant_ok (clk 2)"
  shows "\<exists>tc ts up1 up2 down1 down2 c d nxt vc vs.
     Client K order cfg (Some sock) (None, start (down1 @ down2) tc clk') = (Inr (c, nxt), (None, vc))
     \<and> w_out vc = up1 @ up2 \<and> w_in vc = []
     \<and> Server K order' scfg (Some g, start (up1 @ up2) ts clk) = (Inr d, (Some g', vs))
     \<and> w_out vs = down1 @ down2 \<and> w_in vs = [] \<and> up1 \<noteq> [] \<and> down1 \<noteq> []
     \<and> peers c d \<and> c_full c = full
     \<and> open_ticket k (cr_Ticket nxt) = Inr (clientID, cr_PSK nxt, time_Unix (unix_of (clk 2)))
     \<and> open_ticket k (cr_FullTicket nxt) = Inr (clientID, cr_PSK nxt, time_Unix (unix_of (clk 2)))
     \<and> int (length (cr_Ticket nxt)) = cp_TicketLen (cc_Cover cfg)"
  using handshake_aux [OF assms, where order = order and clk' = clk' and ticks = 0] by simp

text \<open>
  A run for the witnesses: a client of the default profile with one harvested hello, over an instance of
  X25519 in which every agreement has one value.
\<close>

definition flat_kex :: kex where
  "flat_kex = \<lparr>kex_x25519 = \<lambda>_ _. replicate 32 1, kex_mlkem = \<lambda>_. replicate 1184 0\<rparr>"

definition opening_cover :: CoverProfile where
  "opening_cover = \<lparr>cp_Host = str ''c.d'', cp_CipherSuite = TLS_AES_128_GCM_SHA256,
     cp_BinderLen = 32, cp_TicketLen = DefaultTicketLen, cp_PSKFirst = False, cp_ResumedRemainder = [64], cp_FullRemainder = [],
     cp_FullRemainderJitter = [], cp_ResumedClientFlight = 149\<rparr>"

definition opening_client :: ClientConfig where
  "opening_client = \<lparr>cc_Pool = [Marshal browser_hello], cc_Cover = opening_cover,
     cc_Credential = Some demo_cred, cc_FullHandshake = False, cc_Shaper = None\<rparr>"

definition opening_server :: ServerConfig where
  "opening_server = \<lparr>sc_TicketKey = Some demo_key, sc_Cover = cc_Cover opening_client, sc_MaxAge = 0, sc_Shaper = None\<rparr>"

lemma flat_kex_honest: "kex_honest flat_kex"
proof -
  have "replicate 32 (1 :: byte) ! 0 \<noteq> replicate 32 0 ! 0" by simp
  then have "replicate 32 (1 :: byte) \<noteq> replicate 32 0" by metis
  then show ?thesis by (simp add: kex_honest_def kex_ok_def flat_kex_def x25519_public_def)
qed

lemma opening_Valid: "Valid opening_cover = Inr ()"
proof -
  have "CoverFor (str ''c.d'') = Inr opening_cover" by code_simp
  moreover have "cp_Host opening_cover = str ''c.d''" by (simp add: opening_cover_def)
  ultimately show ?thesis unfolding Valid_Inr by auto
qed

lemma opening_checks: "client_checks opening_client (Some (None, None)) = Inr (demo_cred, (None, None))"
  using opening_Valid demo_cred_opens(3) by (simp add: client_checks_def res_simps opening_client_def) (simp add: opening_cover_def)

lemma opening_server_checks: "server_checks opening_server (Some (NewReplayCache 0 0)) = Inr (demo_key, DefaultTicketMaxAge)"
  using opening_Valid by (simp add: server_checks_def res_simps opening_server_def opening_client_def Horizon_def NewReplayCache_def)

lemma opening_usable: "usable_hello opening_client demo_cred False (Marshal browser_hello)"
proof -
  have "emittable (client_options opening_client demo_cred False) browser_hello"
    using browser_emittable [of False]
    by (simp add: emittable_def demo_opt_def client_options_def opening_client_def opening_cover_def str_def)
  moreover have "cp_CipherSuite (cc_Cover opening_client) \<in> set (CipherSuites browser_hello)" "SessionID browser_hello \<noteq> []"
    "length (SessionID browser_hello) \<le> 32" by (simp_all add: opening_client_def opening_cover_def browser_hello_def small_hello_def)
  ultimately show ?thesis
    unfolding usable_hello_def using browser_hello_parses browser_hello_length browser_hello_sole(2) by fastforce
qed

lemma opening_spends: "Consume id 7 0 (spends demo_cred False) second (NewReplayCache 0 0)
    = (True, snd (Consume id 7 0 (spends demo_cred False) second (NewReplayCache 0 0)))"
  by (simp add: Consume_def NewReplayCache_def evictLocked_def drop_stale_def)

lemma opening_rest:
  "cc_FullHandshake opening_client = False" "sc_Cover opening_server = cc_Cover opening_client" "length demo_key = 32"
  "candidates_of opening_client False \<noteq> []"
  "usable_hello opening_client demo_cred False (candidates_of opening_client False ! 0)"
  "open_ticket demo_key (spends demo_cred False) = Inr (7, cr_PSK demo_cred, 0)"
  "time_Sub second 0 \<le> DefaultTicketMaxAge" "instant_ok second"
  "False \<longrightarrow> flight_ok (cc_Cover opening_client) \<and> list_all can_emit (cp_FullRemainder (cc_Cover opening_client))"
  using opening_usable demo_cred_opens by (simp_all add: candidates_of_def opening_server_def spends_def)
    (simp_all add: opening_client_def demo_key_def time_Sub_def instant_ok_def unix_of_def time_Unix_def DefaultTicketMaxAge_def)

lemmas opening_run = flat_kex_honest opening_checks opening_rest(1) opening_server_checks opening_rest(2,3,9,4,5,6,7) opening_spends opening_rest(8)

theorem handshake_completes_witness:
  "\<exists>tc ts up1 up2 down1 down2 c d nxt vc vs g'.
     Client flat_kex id opening_client (Some (None, None)) (None, start (down1 @ down2) tc (\<lambda>_. second)) = (Inr (c, nxt), (None, vc))
     \<and> w_out vc = up1 @ up2
     \<and> Server flat_kex id opening_server (Some (NewReplayCache 0 0), start (up1 @ up2) ts (\<lambda>_. second)) = (Inr d, (Some g', vs))
     \<and> w_out vs = down1 @ down2 \<and> peers c d \<and> open_ticket demo_key (cr_Ticket nxt) = Inr (7, cr_PSK nxt, time_Unix (unix_of second))"
  using handshake_completes [where clk = "\<lambda>_. second" and clk' = "\<lambda>_. second" and order = id, OF opening_run] by blast

text \<open>The server of that run answered: its opening is heard once, and not again.\<close>

lemma opening_answered:
  "\<exists>w r g' w'. Server flat_kex id opening_server (Some (NewReplayCache 0 0), w) = (r, (Some g', w')) \<and> w_out w' \<noteq> w_out w"
proof -
  have "\<exists>i ts d down1 down2 vs. Server flat_kex id opening_server (Some (NewReplayCache 0 0), start i ts (\<lambda>_. second)) =
       (Inr d, (Some (snd (Consume id 7 0 (spends demo_cred False) second (NewReplayCache 0 0))), vs))
     \<and> w_out vs = down1 @ down2 \<and> down1 \<noteq> []"
    using handshake_aux [where clk = "\<lambda>_. second" and clk' = "\<lambda>_. second" and order = id, OF opening_run] by metis
  then show ?thesis by (metis Nil_is_append_conv start_def world.select_convs(2))
qed

theorem Server_silent_witness:
  "\<exists>w r g' w' rec h ticket rest. Server flat_kex id opening_server (Some (NewReplayCache 0 0), w) = (r, (Some g', w'))
     \<and> w_out w' \<noteq> w_out w \<and> w_in w = rec @ rest \<and> ParseClientHello rec = Inr h
     \<and> validateClientHello (sc_Cover opening_server) h = Inr ticket"
proof -
  obtain w r g' w' where run: "Server flat_kex id opening_server (Some (NewReplayCache 0 0), w) = (r, (Some g', w'))"
    "w_out w' \<noteq> w_out w" using opening_answered by blast
  show ?thesis using Server_silent [OF run] run by blast
qed

theorem Server_replay_witness:
  "\<exists>w r g' w' v v' g''. Server flat_kex id opening_server (Some (NewReplayCache 0 0), w) = (r, (Some g', w'))
     \<and> w_out w' \<noteq> w_out w \<and> w_in v = w_in w
     \<and> Server flat_kex id opening_server (Some g', v) = (Inl ErrNotOurs, (g'', v')) \<and> w_out v' = w_out v"
proof -
  obtain w r g' w' where run: "Server flat_kex id opening_server (Some (NewReplayCache 0 0), w) = (r, (Some g', w'))"
    "w_out w' \<noteq> w_out w" using opening_answered by blast
  obtain rec rest h ticket k cid psk issued where f: "w_in w = rec @ rest" "length rec = 5 + unat (Uint16 (slice rec 3 5))"
    "ParseClientHello rec = Inr h" "validateClientHello (sc_Cover opening_server) h = Inr ticket"
    "sc_TicketKey opening_server = Some k" "open_ticket k ticket = Inr (cid, psk, issued)"
    using run(1)
  proof (cases rule: Server_cases)
    case (answered k maxAge rec h full res w1)
    obtain w2 where "readRecord w = (Inr rec, w2)" by (rule server_accept_Inr [OF answered(2)])
    then have "length rec = 5 + unat (Uint16 (slice rec 3 5))" using readRecord_Inr by blast
    then show ?thesis using answered_facts [OF answered(1,2)] that by metis
  qed (use run(2) in auto)
  let ?v = "w\<lparr>w_clock := \<lambda>_. issued\<rparr>"
  have "w_in ?v = rec @ rest" "time_Sub (w_clock ?v (Suc (w_ticks ?v))) issued < rc_horizon (NewReplayCache 0 0)"
    using f(1) by (simp_all add: time_Sub_def NewReplayCache_def DefaultTicketMaxAge_def)
  from Server_replay [OF run gate_ok_New range_order_id(1) f(1) this(1) f(2-6) this(2)]
  show ?thesis using run by (metis world.select_convs(1) world.surjective world.update_convs(6))
qed

end
