(* ===== verification/Continuity.thy ===== *)
theory Continuity
  imports Completion
begin

text \<open>
  One client over several connections: \<open>Client\<close> with a contact memory. The memory decides the shape of an opening and
  nothing else, only an opening that completed is recorded, and so a client that meets a network for the first time opens
  in full and resumes from there on.
\<close>

section \<open>The shape stays with the connection\<close>

definition keeps_shape :: "'a cio \<Rightarrow> bool" where
  "keeps_shape m \<longleftrightarrow> (\<forall>s. c_full (fst (snd (m s))) = c_full (fst s))"

named_theorems shape_intros \<open>actions of a connection that keep its shape\<close>

lemma keeps_bindA [shape_intros]: "keeps_shape m \<Longrightarrow> (\<And>x. keeps_shape (f x)) \<Longrightarrow> keeps_shape (bindA m f)"
  unfolding keeps_shape_def bindA_def by (auto split: prod.split sum.split) (metis fst_conv snd_conv)+

lemma keeps_basic [shape_intros]: "keeps_shape (returnA x)" "keeps_shape (failA e)" "keeps_shape (liftA r)" "keeps_shape getA"
  by (simp_all add: keeps_shape_def returnA_def failA_def liftA_def getA_def)

lemma keeps_world [shape_intros]: "keeps_shape (on_world m)"
  by (auto simp: keeps_shape_def on_world_def split: prod.splits)

lemma keeps_on_conn [shape_intros]: "(\<And>c. c_full (f c) = c_full c) \<Longrightarrow> keeps_shape (on_conn f)"
  by (auto simp: keeps_shape_def on_conn_def modA_def)

lemma keeps_if [shape_intros]: "(b \<Longrightarrow> keeps_shape m) \<Longrightarrow> (\<not> b \<Longrightarrow> keeps_shape m') \<Longrightarrow> keeps_shape (if b then m else m')"
  by simp

lemma keeps_forA [shape_intros]: "(\<And>x. keeps_shape (f x)) \<Longrightarrow> keeps_shape (forA f xs)"
  by (induction xs) (auto intro!: shape_intros)

lemma keeps_decrypt: "keeps_shape decryptRecord"
  unfolding decryptRecord_def Let_def by (auto intro!: shape_intros split: prod.split option.split)

lemma keeps_consume [shape_intros]: "keeps_shape consumeRecord"
  unfolding consumeRecord_def by (rule keeps_decrypt)

lemma keeps_writeSized [shape_intros]: "keeps_shape (writeSized typ payload n)"
proof -
  have "keeps_shape (writeRecord typ payload padTo)" for padTo
    by (auto simp: keeps_shape_def writeRecord_def Let_def on_world_def split: prod.splits)
  then show ?thesis unfolding writeSized_def Let_def by (auto intro!: shape_intros)
qed

lemma keeps_readTickets: "keeps_shape readTickets"
  unfolding readTickets_def Let_def by (auto intro!: shape_intros)

lemma with_conn_shape: "keeps_shape m \<Longrightarrow> with_conn c m w = (Inr (x, c'), w') \<Longrightarrow> c_full c' = c_full c"
proof -
  assume k: "keeps_shape m" and "with_conn c m w = (Inr (x, c'), w')"
  then have "m (c, w) = (Inr x, (c', w'))" by (auto simp: with_conn_def split: prod.splits sum.splits)
  moreover have "c_full (fst (snd (m (c, w)))) = c_full (fst (c, w))" using k unfolding keeps_shape_def by blast
  ultimately show ?thesis by simp
qed

lemma client_shape_kept:
  assumes "bindA (client_open K cfg cred full) (client_finish cfg full) w = (Inr (c, nxt), w')"
  shows "c_full c = full"
proof -
  obtain c0 w0 where o: "client_open K cfg cred full w = (Inr c0, w0)" and f: "client_finish cfg full c0 w0 = (Inr (c, nxt), w')"
    using assms by (auto simp: bindA_eq_Inr)
  have "c_full c0 = full"
    using o unfolding client_open_def Let_def
    by (auto simp: bindA_eq_Inr returnA_def failA_def split: if_splits prod.splits)
  obtain c1 w1 c2 w2 c3 w3 where s: "with_conn c0 (forA (\<lambda>_. bindA consumeRecord (\<lambda>_. returnA ()))
        (if full then cp_FullRemainder (cc_Cover cfg) else cp_ResumedRemainder (cc_Cover cfg))) w0 = (Inr ((), c1), w1)"
      "with_conn c1 (writeSized contentHandshake [] (ClientEncryptedWire (cc_Cover cfg))) w2 = (Inr ((), c2), w3)"
      "with_conn c2 readTickets w3 = (Inr (nxt, c), w')"
    using f unfolding client_finish_def Let_def by (auto simp: bindA_eq_Inr returnA_def)
  have "c_full c1 = c_full c0" by (rule with_conn_shape [OF _ s(1)]) (auto intro!: shape_intros)
  moreover have "c_full c2 = c_full c1" by (rule with_conn_shape [OF _ s(2)]) (rule shape_intros)
  moreover have "c_full c = c_full c2" by (rule with_conn_shape [OF keeps_readTickets s(3)])
  ultimately show ?thesis using \<open>c_full c0 = full\<close> by simp
qed

section \<open>What the memory sees of a connection\<close>

text \<open>A client whose cover, pool and credential can back a full handshake, and that leaves the choice to its memory.\<close>

definition backed :: "ClientConfig \<Rightarrow> Credential \<Rightarrow> bool" where
  "backed cfg cred \<longleftrightarrow> \<not> cc_FullHandshake cfg \<and> CanEmitFullHandshake (cc_Cover cfg)
     \<and> FullHandshakeCarriers (cc_Pool cfg) \<noteq> [] \<and> length (cr_FullTicket cred) = FullTicketLen"

definition wants_full :: "(contactKey, int) order \<Rightarrow> socket \<Rightarrow> int \<Rightarrow> ContactMemory \<Rightarrow> bool" where
  "wants_full order sock now m = fst (fst (needsFull order (fst sock) (snd sock) now m))"

lemma client_shape_memory:
  assumes "backed cfg cred"
  shows "client_shape order cfg cred sock (Some m, w) =
     (Inr (wants_full order sock (w_clock w (w_ticks w)) m, cm_gen m),
      (Some (contact_evictLocked order (w_clock w (w_ticks w)) m), w\<lparr>w_ticks := Suc (w_ticks w)\<rparr>))"
  using assms
  by (simp add: client_shape_def backed_def wants_full_def needsFull_nil_def needsFull_def Let_def bindA_def getA_def on_world_def
      time_Now_def modA_def returnA_def)

text \<open>The client with a memory, as the client with an explicit shape and none.\<close>

lemma client_parts_shape:
  "client_open K (cfg\<lparr>cc_FullHandshake := b\<rparr>) cred full = client_open K cfg cred full"
  "client_finish (cfg\<lparr>cc_FullHandshake := b\<rparr>) full = client_finish cfg full"
proof -
  have sel: "cc_Pool (cfg\<lparr>cc_FullHandshake := b\<rparr>) = cc_Pool cfg" "cc_Cover (cfg\<lparr>cc_FullHandshake := b\<rparr>) = cc_Cover cfg"
    "cc_Shaper (cfg\<lparr>cc_FullHandshake := b\<rparr>) = cc_Shaper cfg" by simp_all
  show "client_open K (cfg\<lparr>cc_FullHandshake := b\<rparr>) cred full = client_open K cfg cred full"
    unfolding client_open_def client_options_def sel ..
  show "client_finish (cfg\<lparr>cc_FullHandshake := b\<rparr>) full = client_finish cfg full"
    unfolding client_finish_def sel ..
qed

lemma Client_memory:
  assumes "client_checks cfg (Some sock) = Inr (cred, sock)" and "backed cfg cred"
    and "full = wants_full order sock (w_clock w (w_ticks w)) m"
    and "m' = contact_evictLocked order (w_clock w (w_ticks w)) m"
    and "bindA (client_open K cfg cred full) (client_finish cfg full) (w\<lparr>w_ticks := Suc (w_ticks w)\<rparr>) = (r, v)"
  shows "Client K order cfg (Some sock) (Some m, w) =
     (case r of Inl e \<Rightarrow> (Inl e, (Some m', v))
      | Inr (c, nxt) \<Rightarrow> (Inr (c, nxt),
          if full then (Some (record_contact order (fst sock) (snd sock) (w_clock v (w_ticks v)) (cm_gen m) m'), v\<lparr>w_ticks := Suc (w_ticks v)\<rparr>)
          else (Some m', v)))"
proof -
  let ?w = "w\<lparr>w_ticks := Suc (w_ticks w)\<rparr>"
  have s1: "liftA (client_checks cfg (Some sock)) (Some m, w) = (Inr (cred, sock), (Some m, w))" using assms(1) by (simp add: liftA_def)
  note s2 = client_shape_memory [OF assms(2), of order sock m w, folded assms(3,4)]
  have s3: "on_world (bindA (client_open K cfg cred full) (client_finish cfg full)) (Some m', ?w) = (r, (Some m', v))"
    using assms(5) by (simp add: on_world_def)
  show ?thesis
  proof (cases r)
    case (Inl e)
    show ?thesis
      unfolding Client_def bindA_Inr [where m = "liftA _", OF s1] case_prod_conv bindA_Inr [where m = "client_shape _ _ _ _", OF s2]
        bindA_Inl [where m = "on_world _", OF s3 [unfolded Inl]] by (simp add: Inl)
  next
    case (Inr x)
    obtain c nxt where x: "r = Inr (c, nxt)" using Inr by (cases x) simp
    show ?thesis
      unfolding Client_def bindA_Inr [where m = "liftA _", OF s1] case_prod_conv bindA_Inr [where m = "client_shape _ _ _ _", OF s2]
        bindA_Inr [where m = "on_world _", OF s3 [unfolded x]] x
      by (simp add: bindA_def getA_def on_world_def time_Now_def modA_def returnA_def record_nil_def)
  qed
qed

text \<open>
  C2. Full first, then resumption. A client that leaves the shape to its contact memory and meets a pair of addresses the
  memory does not hold opens in full; once that opening has completed, and for as long as the horizon lasts, its next
  connection between the same hosts, whatever the ports, is a resumption. An opening that failed is not recorded.
\<close>

theorem full_then_resume:
  assumes "Client K order cfg (Some sock) (Some m, w) = (r, (Some m1, w1))"
    and "client_checks cfg (Some sock) = Inr (cred, sock)" and "backed cfg cred" and "backed cfg' cred'"
    and "memory_ok m" and "int (length (cm_seen m)) < cm_max m" and "range_order order" and "range_order order'"
    and "map_of (cm_seen m) (contact_key (fst sock) (snd sock)) = None"
    and "contact_key (fst sock') (snd sock') = contact_key (fst sock) (snd sock)"
  shows "case r of
      Inr (c, nxt) \<Rightarrow> c_full c \<and> (time_Sub (w_clock w2 (w_ticks w2)) (w_clock w1 (w_ticks w1 - 1)) < cm_horizon m \<longrightarrow>
        fst (client_shape order' cfg' cred' sock' (Some m1, w2)) = Inr (False, cm_gen m))
    | Inl e \<Rightarrow> fst (client_shape order' cfg' cred' sock' (Some m1, w2)) = Inr (True, cm_gen m)"
proof -
  let ?now = "w_clock w (w_ticks w)"
  define m' where "m' = contact_evictLocked order ?now m"
  have seen': "cm_seen m' = drop_stale id (cm_horizon m) ?now (cm_seen m)" and d: "distinct (map fst (cm_seen m))"
    using contact_evict_room [of m order ?now] assms(5-7) by (simp_all add: m'_def memory_ok_def)
  have none: "map_of (cm_seen m') (contact_key (fst sock) (snd sock)) = None"
    unfolding seen' using assms(9) by (simp add: map_of_drop_stale [OF d])
  then have full: "wants_full order sock ?now m" by (simp add: wants_full_def needsFull_def Let_def m'_def)
  obtain r0 v where run: "bindA (client_open K cfg cred True) (client_finish cfg True) (w\<lparr>w_ticks := Suc (w_ticks w)\<rparr>) = (r0, v)"
    by force
  from Client_memory [OF assms(2,3) _ m'_def, of True K r0 v] full run assms(1)
  have cl: "(case r0 of Inl e \<Rightarrow> (Inl e, (Some m', v))
      | Inr (c, nxt) \<Rightarrow> (Inr (c, nxt),
          (Some (record_contact order (fst sock) (snd sock) (w_clock v (w_ticks v)) (cm_gen m) m'), v\<lparr>w_ticks := Suc (w_ticks v)\<rparr>)))
     = (r, (Some m1, w1))" by simp
  have ok: "memory_ok m'" "cm_gen m' = cm_gen m" "cm_horizon m' = cm_horizon m" "int (length (cm_seen m')) < cm_max m'"
    using memory_ok_needsFull [OF assms(5,7), of "fst sock" "snd sock" ?now] length_drop_stale [of id "cm_horizon m" ?now "cm_seen m"]
      assms(6) seen' by (simp_all add: needsFull_state m'_def)
  show ?thesis
  proof (cases r0)
    case (Inl e)
    have "map_of (cm_seen (contact_evictLocked order' now m')) (contact_key (fst sock) (snd sock)) = None" for now
      using contact_evict_room [of m' order' now] ok assms(8) none by (simp add: memory_ok_def map_of_drop_stale)
    moreover have "r = Inl e" "m1 = m'" using cl Inl by auto
    ultimately show ?thesis
      using ok(2) by (simp add: client_shape_memory [OF assms(4)] wants_full_def needsFull_def Let_def assms(10))
  next
    case (Inr x)
    obtain c nxt where x: "r0 = Inr (c, nxt)" using Inr by (cases x) simp
    have "c_full c" using client_shape_kept [of K cfg cred True] run x by simp
    moreover have "fst (client_shape order' cfg' cred' sock' (Some m1, w2)) = Inr (False, cm_gen m)"
      if "time_Sub (w_clock w2 (w_ticks w2)) (w_clock w1 (w_ticks w1 - 1)) < cm_horizon m"
    proof -
      have m1: "m1 = record_contact order (fst sock) (snd sock) (w_clock v (w_ticks v)) (cm_gen m') m'"
        and w1: "w_clock w1 (w_ticks w1 - 1) = w_clock v (w_ticks v)" using cl x ok(2) by auto
      have "fst (needsFull order' (fst sock') (snd sock') (w_clock w2 (w_ticks w2)) m1) = (False, cm_gen m')"
        unfolding m1 by (rule recorded_is_resumed [OF ok(1) assms(7,8) ok(4)])
          (use assms(10) that w1 ok(3) in \<open>simp_all add: contact_key_def\<close>)
      moreover have "cm_gen m1 = cm_gen m" using ok(2) by (simp add: m1 record_contact_def)
      ultimately show ?thesis by (simp add: client_shape_memory [OF assms(4)] wants_full_def)
    qed
    ultimately show ?thesis using cl x by auto
  qed
qed

text \<open>A run for the witness: the client of \<open>Completion\<close> with a cover that has a measured flight, first explicit, then by memory.\<close>

lemma Client_explicit:
  assumes "Client K order cfg (Some sock) (None, w) = (Inr x, (None, v))" and "client_checks cfg (Some sock) = Inr (cred, sock)"
  shows "bindA (client_open K cfg cred (cc_FullHandshake cfg)) (client_finish cfg (cc_FullHandshake cfg)) w = (Inr x, v)"
proof -
  obtain r v' where run: "bindA (client_open K cfg cred (cc_FullHandshake cfg)) (client_finish cfg (cc_FullHandshake cfg)) w = (r, v')" by force
  have s1: "liftA (client_checks cfg (Some sock)) (None, w) = (Inr (cred, sock), (None, w))" using assms(2) by (simp add: liftA_def)
  have s2: "client_shape order cfg cred sock (None, w) = (Inr (cc_FullHandshake cfg, 0), (None, w))"
    by (simp add: client_shape_def bindA_def getA_def returnA_def)
  have s3: "on_world (bindA (client_open K cfg cred (cc_FullHandshake cfg)) (client_finish cfg (cc_FullHandshake cfg))) (None, w) = (r, (None, v'))"
    using run by (simp add: on_world_def)
  have "r = Inr x \<and> v' = v"
  proof (cases r)
    case (Inl e)
    show ?thesis
      using assms(1) unfolding Client_def bindA_Inr [where m = "liftA _", OF s1] case_prod_conv
        bindA_Inr [where m = "client_shape _ _ _ _", OF s2] bindA_Inl [where m = "on_world _", OF s3 [unfolded Inl]] by simp
  next
    case (Inr y)
    obtain c nxt where y: "r = Inr (c, nxt)" using Inr by (cases y) simp
    show ?thesis
      using assms(1) unfolding Client_def bindA_Inr [where m = "liftA _", OF s1] case_prod_conv
        bindA_Inr [where m = "client_shape _ _ _ _", OF s2] bindA_Inr [where m = "on_world _", OF s3 [unfolded y]] y
      by (simp add: bindA_def getA_def returnA_def)
  qed
  then show ?thesis using run by simp
qed

definition full_cover :: CoverProfile where
  "full_cover = opening_cover\<lparr>cp_FullRemainder := [1000]\<rparr>"

definition memory_client :: ClientConfig where
  "memory_client = opening_client\<lparr>cc_Cover := full_cover\<rparr>"

definition full_client :: ClientConfig where
  "full_client = memory_client\<lparr>cc_FullHandshake := True\<rparr>"

lemma full_Valid: "Valid full_cover = Inr ()"
  using opening_Valid by (simp add: full_cover_def Valid_def)

lemma browser_carries: "FullHandshakeCarriers [Marshal browser_hello] = [Marshal browser_hello]"
  using sole_Find [OF browser_hello_sole(3)]
  by (simp add: FullHandshakeCarriers_def browser_hello_parses ECHPayloadLen_def echPayload_ech_body)

lemma memory_client_sel [simp]: "cc_Pool memory_client = [Marshal browser_hello]" "cc_Cover memory_client = full_cover"
  "cc_Credential memory_client = Some demo_cred" "cc_FullHandshake memory_client = False"
  by (simp_all add: memory_client_def opening_client_def)

lemma full_cover_ok: "CanEmitFullHandshake full_cover" "flight_ok full_cover" "list_all can_emit (cp_FullRemainder full_cover)"
  by (simp_all add: full_cover_def opening_cover_def CanEmitFullHandshake_def flight_ok_def can_emit_def)

lemma memory_backed: "backed memory_client demo_cred"
  using full_cover_ok browser_carries demo_cred_opens by (simp add: backed_def)

lemma full_checks: "client_checks full_client (Some sock) = Inr (demo_cred, sock)" "client_checks memory_client (Some sock) = Inr (demo_cred, sock)"
  using full_Valid full_cover_ok browser_carries demo_cred_opens
  by (simp_all add: client_checks_def res_simps full_client_def) (simp_all add: full_cover_def opening_cover_def)

lemma full_usable: "usable_hello full_client demo_cred True (Marshal browser_hello)"
proof -
  have "emittable (client_options full_client demo_cred True) browser_hello"
    using browser_emittable [of True]
    by (simp add: emittable_def demo_opt_def client_options_def full_client_def full_cover_def opening_cover_def str_def)
  moreover have "cp_CipherSuite (cc_Cover full_client) \<in> set (CipherSuites browser_hello)" "SessionID browser_hello \<noteq> []"
    "length (SessionID browser_hello) \<le> 32"
    by (simp_all add: full_client_def full_cover_def opening_cover_def browser_hello_def small_hello_def)
  ultimately show ?thesis
    unfolding usable_hello_def using browser_hello_parses browser_hello_length browser_hello_sole(2) by fastforce
qed

lemma full_run:
  "\<exists>w c nxt v. bindA (client_open flat_kex memory_client demo_cred True) (client_finish memory_client True) (w\<lparr>w_ticks := Suc (w_ticks w)\<rparr>)
     = (Inr (c, nxt), v) \<and> w_clock w = (\<lambda>_. second) \<and> w_ticks w = 0"
proof -
  let ?server = "opening_server\<lparr>sc_Cover := full_cover\<rparr>" and ?g = "NewReplayCache 0 0"
  have server: "server_checks ?server (Some ?g) = Inr (demo_key, DefaultTicketMaxAge)"
    using full_Valid by (simp add: server_checks_def res_simps opening_server_def Horizon_def NewReplayCache_def)
  have cands: "candidates_of full_client True = [Marshal browser_hello]"
    using browser_carries by (simp add: candidates_of_def full_client_def)
  have spent: "Consume id 7 0 (spends demo_cred True) second ?g = (True, snd (Consume id 7 0 (spends demo_cred True) second ?g))"
    by (simp add: Consume_def NewReplayCache_def evictLocked_def drop_stale_def)
  have ticket: "open_ticket demo_key (spends demo_cred True) = Inr (7, cr_PSK demo_cred, 0)"
    using demo_cred_opens by (simp add: spends_def)
  have flights: "True \<longrightarrow> flight_ok (cc_Cover full_client) \<and> list_all can_emit (cp_FullRemainder (cc_Cover full_client))"
    using full_cover_ok by (simp add: full_client_def)
  have rest: "cc_FullHandshake full_client = True" "sc_Cover ?server = cc_Cover full_client" "length demo_key = 32"
    "candidates_of full_client True \<noteq> []" "usable_hello full_client demo_cred True (candidates_of full_client True ! 0)"
    "time_Sub second 0 \<le> DefaultTicketMaxAge" "instant_ok second"
    using full_usable cands
    by (simp_all add: full_client_def demo_key_def time_Sub_def instant_ok_def unix_of_def time_Unix_def DefaultTicketMaxAge_def)
  obtain i tc c nxt vc where "Client flat_kex id full_client (Some (None, None)) (None, (start i tc (\<lambda>_. second))\<lparr>w_ticks := 1\<rparr>) = (Inr (c, nxt), (None, vc))"
    using handshake_aux [where clk = "\<lambda>_. second" and clk' = "\<lambda>_. second" and order = id and ticks = 1,
      OF flat_kex_honest full_checks(1) rest(1) server rest(2,3) flights rest(4,5) ticket rest(6) spent rest(7)] by blast
  from Client_explicit [OF this full_checks(1)]
  have "bindA (client_open flat_kex memory_client demo_cred True) (client_finish memory_client True)
      ((start i tc (\<lambda>_. second))\<lparr>w_ticks := 1\<rparr>) = (Inr (c, nxt), vc)"
    unfolding rest(1) unfolding full_client_def client_parts_shape .
  then show ?thesis by (intro exI [of _ "start i tc (\<lambda>_. second)"] exI [of _ c] exI [of _ nxt] exI [of _ vc]) (simp add: start_def)
qed

theorem full_then_resume_witness:
  "\<exists>w c nxt m1 w1 w2. Client flat_kex id memory_client (Some (demo_addr 50, demo_addr 51)) (Some (NewContactMemory 0 0), w)
       = (Inr (c, nxt), (Some m1, w1)) \<and> c_full c
     \<and> fst (client_shape rev memory_client demo_cred (demo_addr 52, demo_addr 51) (Some m1, w2)) = Inr (False, 0)"
proof -
  let ?m = "NewContactMemory 0 0" and ?sock = "(demo_addr 50, demo_addr 51)"
  obtain w c nxt v where run: "bindA (client_open flat_kex memory_client demo_cred True) (client_finish memory_client True)
      (w\<lparr>w_ticks := Suc (w_ticks w)\<rparr>) = (Inr (c, nxt), v)" using full_run by blast
  have full: "True = wants_full id ?sock (w_clock w (w_ticks w)) ?m"
    by (simp add: wants_full_def needsFull_def Let_def NewContactMemory_def contact_evictLocked_def drop_stale_def)
  obtain m1 w1 where cl: "Client flat_kex id memory_client (Some ?sock) (Some ?m, w) = (Inr (c, nxt), (Some m1, w1))"
    using Client_memory [OF full_checks(2) memory_backed full refl run] by simp
  define w2 where "w2 = w1\<lparr>w_clock := \<lambda>_. w_clock w1 (w_ticks w1 - 1)\<rparr>"
  have "time_Sub (w_clock w2 (w_ticks w2)) (w_clock w1 (w_ticks w1 - 1)) < cm_horizon ?m"
    by (simp add: w2_def time_Sub_def NewContactMemory_def DefaultContactHorizon_def)
  then have "c_full c \<and> fst (client_shape rev memory_client demo_cred (demo_addr 52, demo_addr 51) (Some m1, w2)) = Inr (False, 0)"
    using full_then_resume [where order' = rev and sock' = "(demo_addr 52, demo_addr 51)" and ?w2.0 = w2,
        OF cl full_checks(2) memory_backed memory_backed memory_ok_New _ range_order_id]
    by (simp add: NewContactMemory_def demo_contact_key defaultContactMax_def)
  then show ?thesis using cl by blast
qed

end
