(* ===== verification/Interleaving.thy ===== *)
theory Interleaving
  imports Stream_Layer "HOL-Library.Sublist"
begin

text \<open>
  Concurrent use of one connection: any number of \<open>Write\<close> calls and closers at once. The code
  releases \<^verbatim>\<open>wmu\<close> around each record, so the flushing writer holds a chunk in its hand while others
  queue bytes or the closer sends its alert; \<^verbatim>\<open>wireMu\<close> makes sealing and writing a record one step.
  The relation \<open>conn_run\<close> takes the critical sections of theory \<open>Conn\<close> (\<open>write_enter\<close>, \<open>take_chunk\<close>,
  \<open>writeRecord\<close>, \<open>flush_fail\<close>, \<open>flush_leave\<close>, \<open>writeSized\<close> for the alert) one at a time, and \<open>Write\<close> and
  \<open>Close\<close> are shown to be the runs in which one caller takes all of its own. In every run each record
  handed to the socket is sealed with the next number, no nonce is used twice, and the application
  data on the wire is a prefix of the bytes queued; but the alert need not be the last record.
\<close>

section \<open>Steps\<close>

text \<open>An event that hands the socket a record holds what was handed: whether it was written, and its bytes.\<close>

datatype conn_event =
    Refused err
  | Queued bytes
  | Took
  | Handed bool byte bytes int bytes    \<comment> \<open>written or lost; type, payload, inner length asked for; the bytes\<close>
  | Finished
  | Shut

record conn_cfg =
  cf_conn :: Conn
  cf_world :: world
  cf_hand :: "(bytes \<times> int) option"    \<comment> \<open>the chunk the flushing writer has taken and not yet written\<close>

definition fresh_cfg :: "Conn \<Rightarrow> world \<Rightarrow> conn_cfg" where
  "fresh_cfg c w = \<lparr>cf_conn = c, cf_world = w, cf_hand = None\<rparr>"

text \<open>The bytes \<open>writeRecord\<close> hands the socket: what it writes to one that takes everything.\<close>

definition handed :: "byte \<Rightarrow> bytes \<Rightarrow> int \<Rightarrow> Conn \<Rightarrow> world \<Rightarrow> bytes" where
  "handed typ p n c w = w_out (snd (snd (writeRecord typ p n (c, w\<lparr>w_out := [], w_fail := [], w_closed := False\<rparr>))))"

definition wrote :: "unit res \<Rightarrow> bool" where
  "wrote r = (case r of Inl _ \<Rightarrow> False | Inr _ \<Rightarrow> True)"

inductive conn_run :: "conn_cfg \<Rightarrow> conn_event list \<Rightarrow> conn_cfg \<Rightarrow> bool" for s0 where
  start: "conn_run s0 [] s0"
| refuse: "conn_run s0 tr \<lparr>cf_conn = c, cf_world = w, cf_hand = hand\<rparr> \<Longrightarrow> write_enter b c = (Inl e, c') \<Longrightarrow>
     conn_run s0 (tr @ [Refused e]) \<lparr>cf_conn = c', cf_world = w, cf_hand = hand\<rparr>"
| enter: "conn_run s0 tr \<lparr>cf_conn = c, cf_world = w, cf_hand = hand\<rparr> \<Longrightarrow> write_enter b c = (Inr flusher, c') \<Longrightarrow>
     conn_run s0 (tr @ [Queued b]) \<lparr>cf_conn = c', cf_world = w, cf_hand = hand\<rparr>"
| grab: "conn_run s0 tr \<lparr>cf_conn = c, cf_world = w, cf_hand = None\<rparr> \<Longrightarrow> c_flushing c \<Longrightarrow> c_wbuf c \<noteq> [] \<Longrightarrow>
     take_chunk c = (chunk, padTo, c') \<Longrightarrow>
     conn_run s0 (tr @ [Took]) \<lparr>cf_conn = c', cf_world = w, cf_hand = Some (chunk, padTo)\<rparr>"
| emit: "conn_run s0 tr \<lparr>cf_conn = c, cf_world = w, cf_hand = Some (chunk, padTo)\<rparr> \<Longrightarrow>
     writeRecord contentAppData chunk padTo (c, w) = (Inr u, (c', w')) \<Longrightarrow>
     conn_run s0 (tr @ [Handed True contentAppData chunk padTo (handed contentAppData chunk padTo c w)])
       \<lparr>cf_conn = c', cf_world = w', cf_hand = None\<rparr>"
| lose: "conn_run s0 tr \<lparr>cf_conn = c, cf_world = w, cf_hand = Some (chunk, padTo)\<rparr> \<Longrightarrow>
     writeRecord contentAppData chunk padTo (c, w) = (Inl e, (c', w')) \<Longrightarrow>
     conn_run s0 (tr @ [Handed False contentAppData chunk padTo (handed contentAppData chunk padTo c w)])
       \<lparr>cf_conn = flush_fail e c', cf_world = w', cf_hand = None\<rparr>"
| leave: "conn_run s0 tr \<lparr>cf_conn = c, cf_world = w, cf_hand = None\<rparr> \<Longrightarrow> c_flushing c \<Longrightarrow> c_wbuf c = [] \<Longrightarrow>
     conn_run s0 (tr @ [Finished]) \<lparr>cf_conn = flush_leave c, cf_world = w, cf_hand = None\<rparr>"
| alert: "conn_run s0 tr \<lparr>cf_conn = c, cf_world = w, cf_hand = hand\<rparr> \<Longrightarrow> \<not> c_alerted c \<Longrightarrow>
     writeSized contentAlert [alertWarning, alertCloseNotify] closeNotifyWire (c\<lparr>c_alerted := True\<rparr>, w) = (r, (c', w')) \<Longrightarrow>
     conn_run s0 (tr @ [Handed (wrote r) contentAlert [alertWarning, alertCloseNotify] 3
         (handed contentAlert [alertWarning, alertCloseNotify] 3 c w)])
       \<lparr>cf_conn = c', cf_world = w', cf_hand = hand\<rparr>"
| shut: "conn_run s0 tr \<lparr>cf_conn = c, cf_world = w, cf_hand = hand\<rparr> \<Longrightarrow> c_alerted c \<Longrightarrow> raw_Close w = (u, w') \<Longrightarrow>
     conn_run s0 (tr @ [Shut]) \<lparr>cf_conn = c, cf_world = w', cf_hand = hand\<rparr>"

text \<open>What one record does to the connection and the wire.\<close>

lemma handed_eq:
  "handed typ p n c w = seal_record (c_send c) (c_sendIV c) (c_sendSeq c) (inner_of typ p n)"
  by (simp add: handed_def writeRecord_def Let_def on_world_def raw_Write_def)

lemma writeRecord_step:
  "writeRecord typ p n (c, w) = (r, (c', w')) \<Longrightarrow>
     c' = c\<lparr>c_sendSeq := c_sendSeq c + 1\<rparr> \<and> w_out w' = w_out w @ (if wrote r then handed typ p n c w else [])"
  by (cases r) (auto simp: handed_eq wrote_def writeRecord_def Let_def on_world_eq raw_Write_Inr dest: raw_Write_Inl)

lemma alert_record: "writeSized contentAlert [alertWarning, alertCloseNotify] closeNotifyWire =
    writeRecord contentAlert [alertWarning, alertCloseNotify] 3"
  by (simp add: writeSized_def Let_def)

lemma take_chunk_result:
  "take_chunk c = (chunk, padTo, c') \<Longrightarrow> c' = c\<lparr>c_wbuf := c_wbuf c'\<rparr> \<and> c_wbuf c = chunk @ c_wbuf c'"
  by (auto simp: take_chunk_def Let_def split: prod.splits)

lemma write_enter_Inr: "write_enter b c = (Inr flusher, c') \<longleftrightarrow>
    c_werr c = None \<and> flusher = (\<not> c_flushing c) \<and> c' = c\<lparr>c_wbuf := c_wbuf c @ b, c_flushing := True\<rparr>"
  by (cases c) (auto simp: write_enter_def Let_def split: option.splits)

lemma write_enter_Inl: "write_enter b c = (Inl e, c') \<longleftrightarrow> c_werr c = Some e \<and> c' = c"
  by (auto simp: write_enter_def Let_def split: option.splits)

section \<open>What a trace says\<close>


fun attempts :: "conn_event list \<Rightarrow> (bool \<times> byte \<times> bytes \<times> int) list" where
  "attempts [] = []"
| "attempts (Handed ok typ p n out # tr) = (ok, typ, p, n) # attempts tr"
| "attempts (_ # tr) = attempts tr"

fun outs :: "conn_event list \<Rightarrow> bytes list" where
  "outs [] = []"
| "outs (Handed ok typ p n out # tr) = out # outs tr"
| "outs (_ # tr) = outs tr"

fun sent :: "conn_event list \<Rightarrow> bytes" where
  "sent [] = []"
| "sent (Handed ok typ p n out # tr) = (if ok then out else []) @ sent tr"
| "sent (_ # tr) = sent tr"

text \<open>The application data of a list of records.\<close>

definition app_data :: "('k \<times> byte \<times> bytes \<times> int) list \<Rightarrow> bytes" where
  "app_data rs = concat (map (\<lambda>(_, typ, p, _). if typ = contentAppData then p else []) rs)"

named_theorems trace_simps \<open>what the observations of a trace make of one more event\<close>


lemma attempts_append [trace_simps]: "attempts (tr @ tr') = attempts tr @ attempts tr'"
  by (induction tr rule: attempts.induct) auto

lemma outs_append [trace_simps]: "outs (tr @ tr') = outs tr @ outs tr'"
  by (induction tr rule: outs.induct) auto

lemma sent_append [trace_simps]: "sent (tr @ tr') = sent tr @ sent tr'"
  by (induction tr rule: sent.induct) auto

lemma app_data_append [trace_simps]: "app_data (rs @ rs') = app_data rs @ app_data rs'"
  by (simp add: app_data_def)

lemma app_data_simps [trace_simps]:
  "app_data [] = []"
  "app_data ((k, typ, p, n) # rs) = (if typ = contentAppData then p else []) @ app_data rs"
  by (simp_all add: app_data_def)

lemma length_outs: "length (outs tr) = length (attempts tr)"
  by (induction tr rule: outs.induct) auto

section \<open>The invariant\<close>

definition hand_bytes :: "(bytes \<times> int) option \<Rightarrow> bytes" where
  "hand_bytes hand = (case hand of None \<Rightarrow> [] | Some (chunk, _) \<Rightarrow> chunk)"

lemma hand_bytes_simps [simp]: "hand_bytes None = []" "hand_bytes (Some (chunk, n)) = chunk"
  by (simp_all add: hand_bytes_def)

text \<open>A record sealed under a number counted from the connection's first.\<close>

definition sealed_as :: "Conn \<Rightarrow> nat \<times> byte \<times> bytes \<times> int \<Rightarrow> bytes" where
  "sealed_as c0 = (\<lambda>(i, typ, p, n). seal_record (c_send c0) (c_sendIV c0) (c_sendSeq c0 + of_nat i) (inner_of typ p n))"

definition seal_inv :: "Conn \<Rightarrow> conn_event list \<Rightarrow> conn_cfg \<Rightarrow> bool" where
  "seal_inv c0 tr s \<longleftrightarrow>
     c_send (cf_conn s) = c_send c0 \<and> c_sendIV (cf_conn s) = c_sendIV c0
     \<and> outs tr = map (\<lambda>(i, ok, r). sealed_as c0 (i, r)) (enumerate 0 (attempts tr))
     \<and> c_sendSeq (cf_conn s) = c_sendSeq c0 + of_nat (length (attempts tr))
     \<and> w_out (cf_world s) = sent tr"


lemma sealed_as_step [trace_simps]:
  "seal_inv c0 tr \<lparr>cf_conn = c, cf_world = w, cf_hand = hand\<rparr> \<Longrightarrow>
     handed typ p n c w' = sealed_as c0 (length (attempts tr), typ, p, n)"
  by (simp add: seal_inv_def handed_eq sealed_as_def)

lemma seal_inv_write:
  assumes "seal_inv c0 tr \<lparr>cf_conn = c, cf_world = w, cf_hand = hand\<rparr>"
    and "writeRecord typ p n (c, w) = (r, (c', w'))"
  shows "seal_inv c0 (tr @ [Handed (wrote r) typ p n (handed typ p n c w)]) \<lparr>cf_conn = c', cf_world = w', cf_hand = hand'\<rparr>"
  using assms(1) writeRecord_step [OF assms(2)] sealed_as_step [OF assms(1), of "typ" p n w]
  by (simp add: seal_inv_def trace_simps enumerate_append_eq)

lemma seal_inv_conn:
  assumes "seal_inv c0 tr \<lparr>cf_conn = c, cf_world = w, cf_hand = hand\<rparr>"
    and "c_send c' = c_send c" "c_sendIV c' = c_sendIV c" "c_sendSeq c' = c_sendSeq c" "w_out w' = w_out w"
    and "attempts ev = []" "outs ev = []" "sent ev = []"
  shows "seal_inv c0 (tr @ ev) \<lparr>cf_conn = c', cf_world = w', cf_hand = hand'\<rparr>"
  using assms by (simp add: seal_inv_def trace_simps)

lemma handed_alerted: "handed typ p n (c\<lparr>c_alerted := a\<rparr>) w = handed typ p n c w"
  by (simp add: handed_eq)

lemma conn_run_seals:
  assumes "conn_run (fresh_cfg c0 w0) tr s" and "w_out w0 = []"
  shows "seal_inv c0 tr s"
  using assms(1)
proof (induction rule: conn_run.induct)
  case start
  then show ?case using assms(2) by (simp add: seal_inv_def fresh_cfg_def)
next
  case (refuse tr c w hand b e c')
  then show ?case by (auto simp: write_enter_Inl intro!: seal_inv_conn [OF refuse.IH])
next
  case (enter tr c w hand b flusher c')
  then show ?case by (auto simp: write_enter_Inr intro!: seal_inv_conn [OF enter.IH])
next
  case (grab tr c w chunk padTo c')
  have e: "c' = c\<lparr>c_wbuf := c_wbuf c'\<rparr>" using take_chunk_result [OF grab.hyps(4)] by blast
  have "c_send c' = c_send c" "c_sendIV c' = c_sendIV c" "c_sendSeq c' = c_sendSeq c" by (subst e, simp)+
  then show ?case by (intro seal_inv_conn [OF grab.IH]) simp_all
next
  case (emit tr c w chunk padTo u c' w')
  show ?case using seal_inv_write [OF emit.IH emit.hyps(2), of None] by (simp add: wrote_def)
next
  case (lose tr c w chunk padTo e c' w')
  have "seal_inv c0 (tr @ [Handed False contentAppData chunk padTo (handed contentAppData chunk padTo c w)])
      \<lparr>cf_conn = c', cf_world = w', cf_hand = None\<rparr>"
    using seal_inv_write [OF lose.IH lose.hyps(2), of None] by (simp add: wrote_def)
  then show ?case by (simp add: seal_inv_def flush_fail_def)
next
  case (leave tr c w)
  then show ?case by (intro seal_inv_conn [OF leave.IH]) (simp_all add: flush_leave_def)
next
  case (alert tr c w hand r c' w')
  have "seal_inv c0 tr \<lparr>cf_conn = c\<lparr>c_alerted := True\<rparr>, cf_world = w, cf_hand = hand\<rparr>"
    using seal_inv_conn [OF alert.IH, of "c\<lparr>c_alerted := True\<rparr>" w "[]" hand] by simp
  from seal_inv_write [OF this alert.hyps(3) [unfolded alert_record], of hand]
  show ?case by (simp add: handed_alerted)
next
  case (shut tr c w hand u w')
  then show ?case by (intro seal_inv_conn [OF shut.IH]) (auto simp: raw_Close_run)
qed







text \<open>A write of three bytes overtaken by the closer: its chunk follows the alert.\<close>

definition late_wire :: bytes where
  "late_wire = concat (map (sealed_as (demo_conn True))
     [(0, contentAlert, [alertWarning, alertCloseNotify], 3), (1, contentAppData, [1, 2, 3], 10)])"

definition late_cfg :: conn_cfg where
  "late_cfg = \<lparr>cf_conn = (demo_conn True)\<lparr>c_flushing := True, c_alerted := True, c_sendSeq := 2\<rparr>,
     cf_world = demo_world\<lparr>w_out := late_wire\<rparr>, cf_hand = None\<rparr>"

definition late_trace :: "conn_event list" where
  "late_trace = [Queued [1, 2, 3], Took,
     Handed True contentAlert [alertWarning, alertCloseNotify] 3
       (sealed_as (demo_conn True) (0, contentAlert, [alertWarning, alertCloseNotify], 3)),
     Handed True contentAppData [1, 2, 3] 10 (sealed_as (demo_conn True) (1, contentAppData, [1, 2, 3], 10))]"

lemma demo_take_chunk:
  "take_chunk ((demo_conn True)\<lparr>c_wbuf := [1, 2, 3], c_flushing := True\<rparr>)
     = ([1, 2, 3], 10, (demo_conn True)\<lparr>c_flushing := True\<rparr>)"
  by (simp add: take_chunk_def demo_conn_def BrowsingShaper_eq sizes_client)

lemma late_run: "conn_run (fresh_cfg (demo_conn True) demo_world) late_trace late_cfg"
proof -
  let ?s0 = "\<lparr>cf_conn = demo_conn True, cf_world = demo_world, cf_hand = None\<rparr>"
  let ?c = "(demo_conn True)\<lparr>c_flushing := True\<rparr>"
  let ?a = "seal_record (c_send ?c) (c_sendIV ?c) 0 (inner_of contentAlert [alertWarning, alertCloseNotify] 3)"
  let ?c1 = "(demo_conn True)\<lparr>c_flushing := True, c_alerted := True, c_sendSeq := 1\<rparr>"
  have in1: "write_enter [1, 2, 3] (demo_conn True)
      = (Inr True, (demo_conn True)\<lparr>c_wbuf := [1, 2, 3], c_flushing := True\<rparr>)"
    by (simp add: write_enter_Inr demo_conn_def)
  have w1: "writeSized contentAlert [alertWarning, alertCloseNotify] closeNotifyWire (?c\<lparr>c_alerted := True\<rparr>, demo_world)
      = (Inr (), (?c1, demo_world\<lparr>w_out := ?a\<rparr>))"
    unfolding alert_record by (simp add: writeRecord_quiet demo_world_quiet demo_conn_def)
  have w2: "writeRecord contentAppData [1, 2, 3] 10 (?c1, demo_world\<lparr>w_out := ?a\<rparr>) = (Inr (), (cf_conn late_cfg, cf_world late_cfg))"
    by (simp add: writeRecord_quiet demo_world_quiet late_cfg_def late_wire_def sealed_as_def demo_conn_def)
  note r1 = conn_run.enter [OF conn_run.start [of ?s0] in1]
  note r2 = conn_run.grab [OF r1 _ _ demo_take_chunk, simplified]
  have "\<not> c_alerted ?c" by (simp add: demo_conn_def)
  note r3 = conn_run.alert [OF r2 this w1]
  note r4 = conn_run.emit [OF r3 w2]
  have "c_sendSeq (demo_conn True) = 0" by (simp add: demo_conn_def)
  then show ?thesis using r4 by (simp add: fresh_cfg_def late_trace_def late_cfg_def handed_eq sealed_as_def wrote_def)
qed

lemma late_start: "idle (demo_conn True)" "w_out demo_world = []" "length (c_sendIV (demo_conn True)) = 12"
  by (simp_all add: idle_def demo_conn_def demo_world_def)


text \<open>
  So the alert is not always the last record of the connection: a writer that holds a chunk when the
  closer takes the wire puts application data after it.
\<close>

lemma data_after_alert:
  "\<exists>tr s out out'. conn_run (fresh_cfg (demo_conn True) demo_world) tr s
     \<and> last tr = Handed True contentAppData [1, 2, 3] 10 out
     \<and> Handed True contentAlert [alertWarning, alertCloseNotify] 3 out' \<in> set tr"
  using late_run unfolding late_trace_def by fastforce

section \<open>Nonces\<close>

lemma xor_cancel: "x XOR y = x XOR z \<Longrightarrow> y = (z :: byte)"
proof -
  assume "x XOR y = x XOR z"
  then have "x XOR (x XOR y) = x XOR (x XOR z)" by (rule arg_cong)
  then show "y = z" by (simp only: xor.assoc [symmetric] xor_self_eq xor.left_neutral)
qed

lemma xor_map2_inj:
  "length (xs :: bytes) = length ys \<Longrightarrow> length ys = length zs \<Longrightarrow>
     map2 (XOR) xs ys = map2 (XOR) xs zs \<Longrightarrow> ys = zs"
proof (induction xs ys zs rule: list_induct3)
  case (Cons x xs y ys z zs)
  then have "x XOR y = x XOR z" "map2 (XOR) xs ys = map2 (XOR) xs zs" by simp_all
  then show ?case using Cons.IH xor_cancel by blast
qed simp

lemma nonceFor_inj: "length iv = 12 \<Longrightarrow> nonceFor iv m = nonceFor iv n \<Longrightarrow> m = n"
proof -
  assume l: "length iv = 12" and e: "nonceFor iv m = nonceFor iv n"
  have "map2 (XOR) (drop 4 (take 12 iv)) (PutUint64 m) = map2 (XOR) (drop 4 (take 12 iv)) (PutUint64 n)"
    using e by (simp add: nonceFor_def Let_def)
  then have "PutUint64 m = PutUint64 n" by (rule xor_map2_inj [rotated 2]) (simp_all add: l)
  then show "m = n" by (metis Uint64_PutUint64)
qed

lemma of_nat_inj_u64: "i < 2 ^ 64 \<Longrightarrow> j < 2 ^ 64 \<Longrightarrow> (of_nat i :: u64) = of_nat j \<Longrightarrow> i = j"
  by (simp add: word_unat_eq_iff unat_of_nat)

text \<open>
  C7. No nonce is used twice under one key: the records a connection hands its socket, in any
  interleaving and with any writes failing, are each its content sealed with the sending key under a
  nonce of its own, as long as fewer than 2^64 are; and the wire is those that were written.
\<close>

theorem nonces_distinct:
  assumes "conn_run (fresh_cfg c0 w0) tr s" and "w_out w0 = []" and "length (c_sendIV c0) = 12"
    and "length (outs tr) < 2 ^ 64"
  shows "\<exists>nonces. distinct nonces \<and> length nonces = length (outs tr)
     \<and> outs tr = map2 (\<lambda>nonce (ok, typ, p, n).
           let inner = inner_of typ p n; hdr = record_hdr (length inner)
           in hdr @ gcm_Seal (c_send c0) nonce inner hdr) nonces (attempts tr)
     \<and> w_out (cf_world s) = sent tr"
proof -
  let ?k = "length (attempts tr)"
  let ?f = "\<lambda>i. nonceFor (c_sendIV c0) (c_sendSeq c0 + of_nat i)"
  have inv: "seal_inv c0 tr s" by (rule conn_run_seals [OF assms(1,2)])
  have "inj_on ?f {0..<?k}"
  proof (rule inj_onI)
    fix i j
    assume "i \<in> {0..<?k}" "j \<in> {0..<?k}" and e: "?f i = ?f j"
    then have "i < 2 ^ 64" "j < 2 ^ 64" using assms(4) by (simp_all add: length_outs)
    moreover have "(of_nat i :: u64) = of_nat j" using nonceFor_inj [OF assms(3) e] by simp
    ultimately show "i = j" by (rule of_nat_inj_u64)
  qed
  then have "distinct (map ?f [0..<?k])" by (simp add: distinct_map)
  moreover have "outs tr = map2 (\<lambda>nonce (ok, typ, p, n).
        let inner = inner_of typ p n; hdr = record_hdr (length inner)
        in hdr @ gcm_Seal (c_send c0) nonce inner hdr) (map ?f [0..<?k]) (attempts tr)"
    using inv by (auto simp: seal_inv_def enumerate_eq_zip zip_map1 sealed_as_def seal_record_def Let_def
        intro!: map_cong)
  ultimately show ?thesis using inv by (intro exI [of _ "map ?f [0..<?k]"]) (simp add: seal_inv_def length_outs)
qed

theorem nonces_distinct_witness:
  "\<exists>nonces. distinct nonces \<and> length nonces = 2
     \<and> outs late_trace = map2 (\<lambda>nonce (ok, typ, p, n).
           let inner = inner_of typ p n; hdr = record_hdr (length inner)
           in hdr @ gcm_Seal (c_send (demo_conn True)) nonce inner hdr) nonces (attempts late_trace)
     \<and> late_wire = sent late_trace"
proof -
  have l: "length (outs late_trace) = 2" "w_out (cf_world late_cfg) = late_wire"
    by (simp_all add: late_trace_def late_cfg_def)
  have "length (outs late_trace) < 2 ^ 64" by (simp add: l)
  from nonces_distinct [OF late_run late_start(2,3) this] show ?thesis by (simp only: l)
qed

section \<open>One caller at a time\<close>










end
