(* ===== verification/Builds.thy ===== *)
theory Builds
  imports Emission GoStrings "HOL-Library.List_Lexorder" "HOL-Library.Product_Lexorder"
begin

text \<open>
  Which browser build a hello comes from, and what of it the emitter cannot make itself:
  \<^verbatim>\<open>Fingerprint\<close>, \<^verbatim>\<open>Coherent\<close> and \<^verbatim>\<open>largestBuild\<close> of \<^verbatim>\<open>src/source.go\<close> and the canonical forms of
  \<^verbatim>\<open>src/harvester.go\<close>. The facts: emission keeps the build and the canonical form of the hello it
  starts from, and the choice of a build does not depend on the order a map is visited in.
\<close>

section \<open>Fingerprints\<close>

abbreviation greaseSentinel :: u16 where "greaseSentinel \<equiv> 0x0a0a"

definition ext_word :: "Extension \<Rightarrow> u32" where
  "ext_word e =
     (let t = (if IsGREASE (ExtType e) then 0x0a0a else ExtType e)
      in push_bit 16 (ucast t) OR of_nat (length (ExtData e)))"

text \<open>The bytes that are hashed, and the first eight of their hash.\<close>

definition fingerprint_input :: "ClientHello \<Rightarrow> bytes" where
  "fingerprint_input h =
     (let b = appendU16 [] (LegacyVersion h);
          b = foldl (\<lambda>b c. appendU16 b (if IsGREASE c then 0x0a0a else c)) b (CipherSuites h);
          b = b @ Compression h
      in foldl (\<lambda>b v. b @ PutUint32 v) b (sort (map ext_word (Extensions h))))"

definition Fingerprint :: "ClientHello \<Rightarrow> bytes" where
  "Fingerprint h = hex_EncodeToString (take 8 (sha256 (fingerprint_input h)))"

definition without_ech_data :: "ClientHello \<Rightarrow> ClientHello" where
  "without_ech_data h =
     h\<lparr>Extensions := map (\<lambda>e. if ExtType e = ExtECH then Extension (ExtType e) [] else e) (Extensions h)\<rparr>"

definition fingerprintIgnoringECHLength :: "ClientHello \<Rightarrow> bytes" where
  "fingerprintIgnoringECHLength h = Fingerprint (without_ech_data h)"

definition recordBuild :: "bytes \<Rightarrow> bytes" where
  "recordBuild rec = (case ParseClientHello rec of Inl _ \<Rightarrow> [] | Inr h \<Rightarrow> fingerprintIgnoringECHLength h)"

section \<open>Groups of one build\<close>

text \<open>A Go map from fingerprints to lists, as an association list; a new key goes last.\<close>

fun add_group :: "bytes \<Rightarrow> 'a \<Rightarrow> (bytes \<times> 'a list) list \<Rightarrow> (bytes \<times> 'a list) list" where
  "add_group k x [] = [(k, [x])]"
| "add_group k x ((k', xs) # m) = (if k' = k then (k', xs @ [x]) # m else (k', xs) # add_group k x m)"

definition group_builds :: "bytes list \<Rightarrow> (bytes \<times> bytes list) list" where
  "group_builds hellos = foldl (\<lambda>groups rec. case ParseClientHello rec of
       Inl _ \<Rightarrow> groups
     | Inr h \<Rightarrow> add_group (fingerprintIgnoringECHLength h) rec groups) [] hellos"

abbreviation group_of :: "(bytes \<times> 'a list) list \<Rightarrow> bytes \<Rightarrow> 'a list" where
  "group_of groups k \<equiv> (case map_of groups k of None \<Rightarrow> [] | Some xs \<Rightarrow> xs)"

text \<open>
  \<open>order\<close> is the order the map is visited in. \<^verbatim>\<open>sort.Slice\<close> may be unstable; its comparison here never
  holds two different fingerprints equal, so it sorts by the pair of the size, largest first, and the key.
\<close>

definition largestBuild :: "(bytes list \<Rightarrow> bytes list) \<Rightarrow> bytes list \<Rightarrow> bytes list \<times> nat" where
  "largestBuild order hellos =
     (let groups = group_builds hellos;
          keys = order (map fst groups);
          keys = sort_key (\<lambda>k. (- int (length (group_of groups k)), k)) keys
      in case keys of
           [] \<Rightarrow> ([], 0)
         | k # _ \<Rightarrow> let best = group_of groups k in (best, length hellos - length best))"

text \<open>\<^verbatim>\<open>Coherent\<close>: the map holds indices, of which only the number of keys decides.\<close>

definition Coherent :: "bytes list \<Rightarrow> unit res" where
  "Coherent hellos =
     (if hellos = [] then Inl (Err ''twiddle: pool is empty'')
      else bindE (foldl (\<lambda>groups (i, rec). bindE groups (\<lambda>groups.
             case ParseClientHello rec of
               Inl e \<Rightarrow> Inl e
             | Inr h \<Rightarrow> Inr (add_group (fingerprintIgnoringECHLength h) i groups))) (Inr []) (enumerate 0 hellos))
           (\<lambda>groups. if length groups = 1 then Inr () else Inl (Err ''twiddle: pool mixes browser builds'')))"

section \<open>Canonical forms\<close>

function blank_loop :: "nat \<Rightarrow> bytes \<Rightarrow> bytes" where
  "blank_loop p d =
     (if p + 4 \<le> length d
      then let n = unat (Uint16 (slice d (p + 2) (p + 4)))
           in if length d < p + 4 + n then d else blank_loop (p + 4 + n) (go_copy (p + 4) (replicate n 0) d)
      else d)"
  by pat_completeness auto
termination by (relation "measure (\<lambda>(p, d). length d - p)") auto

declare blank_loop.simps [simp del]

definition blankKeyShareValues :: "bytes \<Rightarrow> bytes" where
  "blankKeyShareValues d = (if length d < 2 then d else blank_loop 2 d)"

definition canonical_ext :: "Extension \<Rightarrow> Extension" where
  "canonical_ext e =
     (let t = (if IsGREASE (ExtType e) then greaseSentinel else ExtType e); d = ExtData e
      in Extension t
        (if t = ExtServerName then []
         else if t = ExtECH then (if 5 \<le> length d then take 5 d else [])
         else if t = ExtKeyShare then replaceGREASEKeyShareGroup (blankKeyShareValues d) greaseSentinel
         else if t = ExtSupportedGroups \<or> t = ExtSignatureAlgorithms then replaceGREASEInU16List d 2 greaseSentinel
         else if t = ExtSupportedVersions then replaceGREASEInU16List d 1 greaseSentinel
         else d))"

definition canonicalForm :: "ClientHello \<Rightarrow> bytes" where
  "canonicalForm h = Marshal
     \<lparr>LegacyVersion = LegacyVersion h, Random = replicate 32 0, SessionID = replicate (length (SessionID h)) 0,
      CipherSuites = map (\<lambda>v. if IsGREASE v then greaseSentinel else v) (CipherSuites h),
      Compression = Compression h,
      Extensions = sort_key (\<lambda>e. (ExtType e, ExtData e)) (map canonical_ext (Extensions h))\<rparr>"

definition contributionKey :: "bytes \<Rightarrow> bytes option" where
  "contributionKey rec =
     (case ParseClientHello rec of
        Inl _ \<Rightarrow> None
      | Inr h \<Rightarrow> Some (hex_EncodeToString (take 12 (sha256 (canonicalForm h)))))"

section \<open>What the emitter redraws, seen blind\<close>

text \<open>
  A view of an extension is blind to the refresh when it sees neither the GREASE codepoints, nor the key
  shares, nor what \<open>rerandECHGrease\<close> rewrites. Fingerprints and canonical forms are two such views.
\<close>

abbreviation share_entries :: "Extension list \<Rightarrow> Extension list \<Rightarrow> bool" where
  "share_entries \<equiv> list_all2 (\<lambda>k k'. regrease_u16 greaseSentinel (ExtType k') = regrease_u16 greaseSentinel (ExtType k)
     \<and> length (ExtData k') = length (ExtData k))"

text \<open>An outer GREASE ECH extension long enough to say its cipher suite.\<close>

definition ech_sized :: "ClientHello \<Rightarrow> bool" where
  "ech_sized h \<longleftrightarrow> (\<forall>d. map_option ExtData (Find ExtECH h) = Some d \<longrightarrow> d = [] \<or> d ! 0 \<noteq> 0 \<or> 5 \<le> length d)"

locale refresh_blind =
  fixes W :: "Extension \<Rightarrow> 'b"
  assumes grease: "IsGREASE a \<Longrightarrow> IsGREASE b \<Longrightarrow> W (Extension b d) = W (Extension a d)"
    and groups: "IsGREASE v \<Longrightarrow> W (Extension ExtSupportedGroups (replaceGREASEInU16List d 2 v)) = W (Extension ExtSupportedGroups d)"
    and sigalgs: "IsGREASE v \<Longrightarrow> W (Extension ExtSignatureAlgorithms (replaceGREASEInU16List d 2 v)) = W (Extension ExtSignatureAlgorithms d)"
    and versions: "IsGREASE v \<Longrightarrow> W (Extension ExtSupportedVersions (replaceGREASEInU16List d 1 v)) = W (Extension ExtSupportedVersions d)"
    and share: "share_entries ks ks' \<Longrightarrow> \<forall>k\<in>set ks. length (ExtData k) < 65536 \<Longrightarrow> length hdr = 2 \<Longrightarrow>
      W (Extension ExtKeyShare (hdr @ exts_bytes ks')) = W (Extension ExtKeyShare (hdr @ exts_bytes ks))"
    and ech: "rerandECHGrease d t = Inr (d', t') \<Longrightarrow> d = [] \<or> d ! 0 \<noteq> 0 \<or> 5 \<le> length d \<Longrightarrow> W (Extension ExtECH d') = W (Extension ExtECH d)"
    and payload: "5 \<le> length d \<Longrightarrow> length d' = length d \<Longrightarrow> take 5 d' = take 5 d \<Longrightarrow> W (Extension ExtECH d') = W (Extension ExtECH d)"
begin

lemma set_view:
  assumes "Find u h = Some e" and "W (Extension u d) = W e"
  shows "map W (Extensions (SetExtData u d h)) = map W (Extensions h)"
proof -
  have "find (\<lambda>e. ExtType e = u) es = Some e \<Longrightarrow> map W (set_first u d es) = map W es" for es
    using assms(2) by (induction es) (auto split: if_splits)
  then show ?thesis using assms(1) by (simp add: Find_def SetExtData_def)
qed

lemma on_ext_view:
  assumes "\<And>e. Find u h = Some e \<Longrightarrow> W (Extension u (f (ExtData e))) = W e"
  shows "map W (Extensions (on_ext u f h)) = map W (Extensions h)"
  using assms set_view [of u h] by (auto simp: on_ext_def split: option.split)

lemma regreased_view:
  assumes "list_all2 (\<lambda>a b. if IsGREASE a then IsGREASE b else b = a) (map ExtType es) (map ExtType es')"
    and "map ExtData es' = map ExtData es"
  shows "map W es' = map W es"
proof (rule nth_equalityI)
  show len: "length (map W es') = length (map W es)" using assms(2) map_eq_imp_length_eq by fastforce
  fix i
  assume i: "i < length (map W es')"
  have t: "if IsGREASE (ExtType (es ! i)) then IsGREASE (ExtType (es' ! i)) else ExtType (es' ! i) = ExtType (es ! i)"
    using assms(1) i len by (auto simp: list_all2_conv_all_nth)
  have "ExtData (es' ! i) = ExtData (es ! i)" using assms(2) i len by (metis length_map nth_map)
  then have "W (es' ! i) = W (es ! i)"
    using t grease [of "ExtType (es ! i)" "ExtType (es' ! i)" "ExtData (es ! i)"]
    by (cases "es ! i"; cases "es' ! i") (auto split: if_splits)
  then show "map W es' ! i = map W es ! i" using i len by simp
qed

lemma rerandGREASE_view:
  assumes "rerandGREASE h t = Inr (h', t')" and "sole ExtKeyShare (hdr @ exts_bytes ks) h" and "length hdr = 2"
    and "\<forall>k\<in>set ks. length (ExtData k) < 65536"
  shows "map W (Extensions h') = map W (Extensions h)"
proof -
  obtain cipher e1 e2 grp version sigAlg es where g: "IsGREASE grp" "IsGREASE version" "IsGREASE sigAlg"
    and r: "regreased e1 e2 (map ExtType (Extensions h)) (map ExtType es)" "map ExtData es = map ExtData (Extensions h)"
    and h': "h' = on_ext ExtSignatureAlgorithms (\<lambda>d. replaceGREASEInU16List d 2 sigAlg)
        (on_ext ExtSupportedVersions (\<lambda>d. replaceGREASEInU16List d 1 version)
        (on_ext ExtKeyShare (\<lambda>d. replaceGREASEKeyShareGroup d grp)
        (on_ext ExtSupportedGroups (\<lambda>d. replaceGREASEInU16List d 2 grp)
          (h\<lparr>CipherSuites := map (regrease_u16 cipher) (CipherSuites h), Extensions := es\<rparr>))))"
    by (rule rerandGREASE_result [OF assms(1)])
  let ?h0 = "h\<lparr>CipherSuites := map (regrease_u16 cipher) (CipherSuites h), Extensions := es\<rparr>"
  have types: "list_all2 (\<lambda>a b. if IsGREASE a then IsGREASE b else b = a) (map ExtType (Extensions h)) (map ExtType es)"
    using r(1) by (simp add: regreased_def)
  have v0: "map W (Extensions ?h0) = map W (Extensions h)" using regreased_view [OF types r(2)] by simp
  have nk: "\<not> IsGREASE ExtKeyShare" by (simp add: IsGREASE_def)
  have sh: "Find ExtKeyShare h = Some (Extension ExtKeyShare (hdr @ exts_bytes ks))" using sole_Find [OF assms(2)] .
  have "map_option ExtData (Find ExtKeyShare ?h0) = map_option ExtData (Find ExtKeyShare h)"
    unfolding Find_def using regreased_find [OF types r(2) nk] by simp
  then obtain e where e: "Find ExtKeyShare ?h0 = Some e" "ExtData e = hdr @ exts_bytes ks" using sh by auto
  have "share_entries ks (map (regroup grp) ks)"
    using g(1) by (simp add: list_all2_conv_all_nth regroup_def regrease_u16_def)
  from share [OF this assms(4,3)]
  have k: "W (Extension ExtKeyShare (replaceGREASEKeyShareGroup (hdr @ exts_bytes ks) grp)) = W (Extension ExtKeyShare (hdr @ exts_bytes ks))"
    unfolding replace_in_key_share [OF assms(4,3)] .
  have ext: "e = Extension u (ExtData e)" if "Find u x = Some e" for e u x
    using Find_type [OF that] by (cases e) simp
  show ?thesis
    unfolding h' v0 [symmetric]
    by (subst on_ext_view [of ExtSignatureAlgorithms], metis ext sigalgs g(3),
        subst on_ext_view [of ExtSupportedVersions], metis ext versions g(2),
        subst on_ext_view [of ExtKeyShare], insert e k, simp add: Find_on_ext, metis ext,
        subst on_ext_view [of ExtSupportedGroups], metis ext groups g(1), rule refl)
qed

lemma rerandGREASE_ech:
  assumes "rerandGREASE h t = Inr (h', t')"
  shows "map_option ExtData (Find ExtECH h') = map_option ExtData (Find ExtECH h)"
proof -
  obtain cipher e1 e2 grp version sigAlg es where
    r: "regreased e1 e2 (map ExtType (Extensions h)) (map ExtType es)" "map ExtData es = map ExtData (Extensions h)"
    and h': "h' = on_ext ExtSignatureAlgorithms (\<lambda>d. replaceGREASEInU16List d 2 sigAlg)
        (on_ext ExtSupportedVersions (\<lambda>d. replaceGREASEInU16List d 1 version)
        (on_ext ExtKeyShare (\<lambda>d. replaceGREASEKeyShareGroup d grp)
        (on_ext ExtSupportedGroups (\<lambda>d. replaceGREASEInU16List d 2 grp)
          (h\<lparr>CipherSuites := map (regrease_u16 cipher) (CipherSuites h), Extensions := es\<rparr>))))"
    by (rule rerandGREASE_result [OF assms])
  have types: "list_all2 (\<lambda>a b. if IsGREASE a then IsGREASE b else b = a) (map ExtType (Extensions h)) (map ExtType es)"
    using r(1) by (simp add: regreased_def)
  have "\<not> IsGREASE ExtECH" by (simp add: IsGREASE_def)
  from regreased_find [OF types r(2) this] show ?thesis by (simp add: h' Find_on_ext) (simp add: Find_def)
qed

text \<open>The key shares survive every step as entries.\<close>

lemma rerandKeyShare_entries_kept:
  assumes "\<forall>k\<in>set ks. length (ExtData k) < 65536" and "length hdr = 2" and "rerandKeyShare K (hdr @ exts_bytes ks) t = Inr (d, t')"
  obtains ks' where "d = hdr @ exts_bytes ks'" "share_entries ks ks'" "map ExtType ks' = map ExtType ks"
proof -
  obtain ks' where ks: "mapR (fresh_entry K) ks t = Inr (ks', t')" and d: "d = hdr @ exts_bytes ks'"
    using assms(3) unfolding rerandKeyShare_entries [OF assms(1,2)] by (auto simp: bindR_def returnR_def split: sum.splits)
  have e: "list_all2 (\<lambda>k k'. ExtType k' = ExtType k \<and> length (ExtData k') = length (ExtData k)) ks ks'"
    by (rule mapR_all2 [OF ks])
       (auto simp: fresh_entry_def bindR_eq_Inr returnR_eq_Inr dest: length_freshKeyShare)
  then have "share_entries ks ks'" by (rule list_all2_mono) simp
  moreover have "map ExtType ks' = map ExtType ks" using e by (induction rule: list_all2_induct) simp_all
  ultimately show thesis using that d by blast
qed

lemma Rerandomize_view:
  assumes "Rerandomize K h t = Inr (h', t')" and "sole ExtKeyShare (hdr @ exts_bytes ks) h" and "length hdr = 2"
    and ks: "\<forall>k\<in>set ks. length (ExtData k) < 65536" and "ech_sized h"
  shows "map W (Extensions h') = map W (Extensions h)
     \<and> (\<exists>ks'. sole ExtKeyShare (hdr @ exts_bytes ks') h' \<and> share_entries ks ks')"
proof -
  obtain h1 t1 h2 t2 h3 t3 r where g: "rerandGREASE h t = Inr (h1, t1)"
    and h2: "h2 = h1\<lparr>Random := r, SessionID := SessionID h2\<rparr>"
    and k: "on_extR ExtKeyShare (rerandKeyShare K) h2 t2 = Inr (h3, t3)"
    and e: "on_extR ExtECH rerandECHGrease h3 t3 = Inr (h', t')"
    by (rule Rerandomize_steps [OF assms(1)])
  have x2: "Extensions h2 = Extensions h1" by (subst h2, simp)
  have nk: "\<not> IsGREASE ExtKeyShare" by (simp add: IsGREASE_def)
  obtain grp where grp: "IsGREASE grp" "sole ExtKeyShare (replaceGREASEKeyShareGroup (hdr @ exts_bytes ks) grp) h1"
    using sole_rerandGREASE [OF g nk _ assms(2)] by auto
  define ks1 where "ks1 = map (regroup grp) ks"
  have l1: "\<forall>k\<in>set ks1. length (ExtData k) < 65536" using ks by (auto simp: ks1_def regroup_def)
  have s2: "sole ExtKeyShare (hdr @ exts_bytes ks1) h2"
    using grp(2) x2 unfolding ks1_def replace_in_key_share [OF ks assms(3)] by (simp add: sole_def)
  obtain d where d: "rerandKeyShare K (hdr @ exts_bytes ks1) t2 = Inr (d, t3)" "h3 = SetExtData ExtKeyShare d h2"
    using on_extR_result [OF k] sole_Find [OF s2] by auto
  obtain ks2 where ks2: "d = hdr @ exts_bytes ks2" "share_entries ks1 ks2"
    by (rule rerandKeyShare_entries_kept [OF l1 assms(3) d(1)])
  have s3: "sole ExtKeyShare (hdr @ exts_bytes ks2) h'"
    using sole_SetExtData_same [OF s2] sole_on_extR(1) [OF e] ks2(1) d(2) by simp
  have "share_entries ks ks2"
    using ks2(2) grp(1) by (auto simp: ks1_def list_all2_conv_all_nth regroup_def regrease_u16_def)
  moreover have "map W (Extensions h') = map W (Extensions h)"
  proof -
    have "map_option ExtData (Find ExtECH h3) = map_option ExtData (Find ExtECH h)"
      using rerandGREASE_ech [OF g] x2 by (simp add: d(2) hello_simps) (simp add: Find_def)
    then have sized: "ech_sized h3" using assms(5) by (simp add: ech_sized_def)
    have "map W (Extensions h') = map W (Extensions h3)"
      using on_extR_result [OF e]
    proof
      assume "\<exists>x d. Find ExtECH h3 = Some x \<and> rerandECHGrease (ExtData x) t3 = Inr (d, t') \<and> h' = SetExtData ExtECH d h3"
      then obtain x d where x: "Find ExtECH h3 = Some x" "rerandECHGrease (ExtData x) t3 = Inr (d, t')" "h' = SetExtData ExtECH d h3"
        by blast
      have "ExtData x = [] \<or> ExtData x ! 0 \<noteq> 0 \<or> 5 \<le> length (ExtData x)" using sized x(1) by (simp add: ech_sized_def)
      from ech [OF x(2) this] have "W (Extension ExtECH d) = W x" using Find_type [OF x(1)] by (cases x) simp
      then show ?thesis using set_view [OF x(1)] x(3) by simp
    qed simp
    also have "\<dots> = map W (Extensions h2)"
      unfolding d(2) using set_view [OF sole_Find [OF s2]] share [OF ks2(2) l1 assms(3)] ks2(1) by simp
    also have "\<dots> = map W (Extensions h)" using rerandGREASE_view [OF g assms(2,3) ks] x2 by simp
    finally show ?thesis .
  qed
  ultimately show ?thesis using s3 by blast
qed

lemma Shuffle_view:
  assumes "Shuffle h t = Inr (h', t')"
  shows "image_mset W (mset (Extensions h')) = image_mset W (mset (Extensions h))"
  by (rule Shuffle_result [OF assms]) (auto simp: shuffle_parts_def)

lemma SetKeyShare_view:
  assumes "SetKeyShare K h t = Inr ((priv, h'), t')" and "kex_ok K" and "sole ExtKeyShare (hdr @ exts_bytes ks) h"
    and "\<forall>k\<in>set ks. length (ExtData k) < 65536" and "length hdr = 2"
  shows "map W (Extensions h') = map W (Extensions h)"
proof -
  obtain ks' where k: "set_share (x25519_public K priv) ks = Some ks'" "h' = SetExtData ExtKeyShare (hdr @ exts_bytes ks') h"
    by (rule SetKeyShare_result [OF assms(1,2) sole_Find [OF assms(3)] _ assms(4,5)]) simp_all
  have "set_share pub ks = Some ks' \<Longrightarrow> share_entries ks ks'" for pub
    by (induction ks arbitrary: ks') (auto split: if_splits intro: list_all2_refl)
  from share [OF this [OF k(1)] assms(4,5)] show ?thesis
    unfolding k(2) by (intro set_view [OF sole_Find [OF assms(3)]]) simp
qed

lemma prepared_view:
  assumes "Rerandomize K h1 t = Inr (h2, t1)" and "Shuffle h2 t1 = Inr (h3, t2)" and "SetKeyShare K h3 t2 = Inr ((eph, h4), t3)"
    and "kex_ok K" and "sole ExtKeyShare d h1" and "share_ok d" and "ech_sized h1"
  shows "image_mset W (mset (Extensions h4)) = image_mset W (mset (Extensions h1))"
proof -
  obtain hdr ks where d: "d = hdr @ exts_bytes ks" "length hdr = 2" "\<forall>k\<in>set ks. length (ExtData k) < 65536"
    using assms(6) unfolding share_ok_def by blast
  obtain ks' where v: "map W (Extensions h2) = map W (Extensions h1)" "sole ExtKeyShare (hdr @ exts_bytes ks') h2" "share_entries ks ks'"
    using Rerandomize_view [OF assms(1) assms(5) [unfolded d(1)] d(2,3) assms(7)] by blast
  have "\<forall>k\<in>set ks'. length (ExtData k) < 65536"
    using v(3) d(3) by (induction rule: list_all2_induct) auto
  from SetKeyShare_view [OF assms(3,4) sole_Shuffle [OF assms(2) v(2)] this d(2)]
  have "map W (Extensions h4) = map W (Extensions h3)" .
  then have "image_mset W (mset (Extensions h4)) = image_mset W (mset (Extensions h3))" by (metis mset_map)
  also have "\<dots> = image_mset W (mset (Extensions h2))" by (rule Shuffle_view [OF assms(2)])
  also have "\<dots> = image_mset W (mset (Extensions h1))" using v(1) by (metis mset_map)
  finally show ?thesis .
qed

lemma full_view:
  assumes "SetECHTicketAuth ticket psk h t = Inr (h', t')"
  shows "map W (Extensions h') = map W (Extensions h)"
proof -
  obtain e p n pad h0 where e: "Find ExtPreSharedKey h = None" "Find ExtECH h = Some e"
    "echPayload (ExtData e) = Inr (p, n)" "FullTicketLen \<le> n" "length ticket = FullTicketLen" "length pad = n - FullTicketLen"
    "h0 = (SetExtData ExtECH (go_copy (p + length ticket) pad (go_copy p ticket (ExtData e))) h)\<lparr>Random := replicate 32 0\<rparr>"
    "h' = h0\<lparr>Random := hmac SHA256 (fullMACKey psk) (Marshal h0)\<rparr>"
    by (rule SetECHTicketAuth_result [OF assms])
  let ?d = "go_copy (p + length ticket) pad (go_copy p ticket (ExtData e))"
  have "p + n \<le> length (ExtData e)" "10 \<le> p" using echPayload_bounds [OF e(3)] by simp_all
  then have "take 5 ?d = take 5 (ExtData e)" "length ?d = length (ExtData e)" "5 \<le> length (ExtData e)"
    using e(4-6) by (simp_all add: go_copy_def min_def)
  from payload [OF this(3,2,1)] have "W (Extension ExtECH ?d) = W e" using Find_type [OF e(2)] by (cases e) simp
  then show ?thesis using set_view [OF e(2)] by (simp add: e(7,8))
qed

end

text \<open>The two views.\<close>

definition build_view :: "Extension \<Rightarrow> u32" where
  "build_view e = ext_word (if ExtType e = ExtECH then Extension (ExtType e) [] else e)"

definition blank_entry :: "Extension \<Rightarrow> Extension" where
  "blank_entry k = Extension (ExtType k) (replicate (length (ExtData k)) 0)"

lemma blank_loop_entries:
  assumes "\<forall>k\<in>set ks. length (ExtData k) < 65536"
  shows "blank_loop (length pre) (pre @ exts_bytes ks) = pre @ exts_bytes (map blank_entry ks)"
  using assms
proof (induction ks arbitrary: pre)
  case Nil
  then show ?case by (subst blank_loop.simps) simp
next
  case (Cons k ks)
  let ?d = "pre @ ext_bytes k @ exts_bytes ks"
  have len: "length (ExtData k) < 65536" using Cons.prems by simp
  note sl = entry_slices [OF len, of pre "exts_bytes ks"]
  have "go_copy (length pre + 4) (replicate (length (ExtData k)) 0) ?d = (pre @ ext_bytes (blank_entry k)) @ exts_bytes ks"
    by (simp add: go_copy_def ext_bytes_def blank_entry_def)
  then have "blank_loop (length pre) ?d
      = blank_loop (length (pre @ ext_bytes (blank_entry k))) ((pre @ ext_bytes (blank_entry k)) @ exts_bytes ks)"
    using sl(2,4) by (subst blank_loop.simps) (simp add: Let_def blank_entry_def add.assoc)
  then show ?case using Cons.IH [of "pre @ ext_bytes (blank_entry k)"] Cons.prems by simp
qed

lemma blank_entries:
  "\<forall>k\<in>set ks. length (ExtData k) < 65536 \<Longrightarrow> length hdr = 2 \<Longrightarrow>
     blankKeyShareValues (hdr @ exts_bytes ks) = hdr @ exts_bytes (map blank_entry ks)"
  using blank_loop_entries [of ks hdr] by (simp add: blankKeyShareValues_def)

lemma share_entries_small:
  "share_entries ks ks' \<Longrightarrow> \<forall>k\<in>set ks. length (ExtData k) < 65536 \<Longrightarrow> \<forall>k\<in>set ks'. length (ExtData k) < 65536"
  by (induction rule: list_all2_induct) auto

lemma share_entries_canonical:
  "share_entries ks ks' \<Longrightarrow> map (regroup greaseSentinel) (map blank_entry ks') = map (regroup greaseSentinel) (map blank_entry ks)"
  by (induction rule: list_all2_induct) (auto simp: regroup_def blank_entry_def)

lemma share_entries_length: "share_entries ks ks' \<Longrightarrow> length (exts_bytes ks') = length (exts_bytes ks)"
  by (induction rule: list_all2_induct) auto

lemma ech_lengths:
  assumes "rerandECHGrease d t = Inr (d', t')" and "d = [] \<or> d ! 0 \<noteq> 0 \<or> 5 \<le> length d"
  shows "d' = d \<or> 5 \<le> length d \<and> 5 \<le> length d' \<and> take 5 d' = take 5 d"
  using rerandECHGrease_result [OF assms(1)]
proof (elim disjE conjE exE)
  fix cfg enc payload
  assume d: "d \<noteq> []" "d ! 0 = 0" and d': "d' = ech_body (if 5 \<le> length d then Uint16 (slice d 1 3) else 1)
                     (if 5 \<le> length d then Uint16 (slice d 3 5) else 1) cfg enc payload"
  then have len: "5 \<le> length d" using assms(2) by simp
  have "take 5 d = [d ! 0] @ slice d 1 3 @ slice d 3 5"
  proof -
    have "take 5 d = take 1 d @ slice d 1 5" using len by (simp add: slice_def take_drop [symmetric] flip: take_add)
    moreover have "take 1 d = [d ! 0]" using d(1) by (cases d) simp_all
    moreover have "slice d 1 5 = slice d 1 3 @ slice d 3 5" by (simp add: slice_join)
    ultimately show ?thesis by simp
  qed
  moreover have "take 5 d' = [0] @ PutUint16 (Uint16 (slice d 1 3)) @ PutUint16 (Uint16 (slice d 3 5))"
    using len by (simp add: d' ech_body_def numeral_eq_Suc)
  moreover have "length (slice d 1 3) = 2" "length (slice d 3 5) = 2" using len by simp_all
  ultimately have "take 5 d' = take 5 d" using d(2) by (simp add: PutUint16_Uint16)
  moreover have "5 \<le> length d'" by (simp add: d' ech_body_def)
  ultimately show ?thesis using len by simp
qed simp_all

interpretation canonical: refresh_blind canonical_ext
proof
  show "canonical_ext (Extension ExtKeyShare (hdr @ exts_bytes ks')) = canonical_ext (Extension ExtKeyShare (hdr @ exts_bytes ks))"
    if "share_entries ks ks'" "\<forall>k\<in>set ks. length (ExtData k) < 65536" "length hdr = 2" for ks ks' hdr
  proof -
    have small: "\<forall>k\<in>set (map blank_entry ks). length (ExtData k) < 65536" "\<forall>k\<in>set (map blank_entry ks'). length (ExtData k) < 65536"
      using that(2) share_entries_small [OF that(1,2)] by (auto simp: blank_entry_def)
    have "replaceGREASEKeyShareGroup (blankKeyShareValues (hdr @ exts_bytes ks')) greaseSentinel
        = replaceGREASEKeyShareGroup (blankKeyShareValues (hdr @ exts_bytes ks)) greaseSentinel"
      unfolding blank_entries [OF that(2,3)] blank_entries [OF share_entries_small [OF that(1,2)] that(3)]
        replace_in_key_share [OF small(1) that(3)] replace_in_key_share [OF small(2) that(3)] share_entries_canonical [OF that(1)] ..
    then show ?thesis by (simp add: canonical_ext_def IsGREASE_def)
  qed
  show "canonical_ext (Extension ExtECH d') = canonical_ext (Extension ExtECH d)"
    if "rerandECHGrease d t = Inr (d', t')" "d = [] \<or> d ! 0 \<noteq> 0 \<or> 5 \<le> length d" for d t d' t'
    using ech_lengths [OF that] by (auto simp: canonical_ext_def IsGREASE_def)
qed (simp_all add: canonical_ext_def IsGREASE_def replaceGREASEInU16List_twice)

interpretation build: refresh_blind build_view
  by unfold_locales (auto simp: build_view_def ext_word_def IsGREASE_def share_entries_length)

text \<open>And whether an extension is pre_shared_key.\<close>

interpretation resumed: refresh_blind "\<lambda>e. ExtType e = ExtPreSharedKey"
  by unfold_locales (auto simp: IsGREASE_def)

section \<open>Emission keeps builds and contributions\<close>

definition same_fields :: "ClientHello \<Rightarrow> ClientHello \<Rightarrow> bool" where
  "same_fields h h' \<longleftrightarrow> LegacyVersion h' = LegacyVersion h \<and> length (SessionID h') = length (SessionID h)
     \<and> map (regrease_u16 greaseSentinel) (CipherSuites h') = map (regrease_u16 greaseSentinel) (CipherSuites h)
     \<and> Compression h' = Compression h"

lemma same_fields_trans: "same_fields a b \<Longrightarrow> same_fields b c \<Longrightarrow> same_fields a c"
  by (simp add: same_fields_def)

lemma same_fields_Rerandomize: "Rerandomize K h t = Inr (h', t') \<Longrightarrow> same_fields h h'"
proof -
  assume a: "Rerandomize K h t = Inr (h', t')"
  obtain h1 t1 h2 t2 h3 t3 r where g: "rerandGREASE h t = Inr (h1, t1)" and h2: "h2 = h1\<lparr>Random := r, SessionID := SessionID h2\<rparr>"
    and k: "on_extR ExtKeyShare (rerandKeyShare K) h2 t2 = Inr (h3, t3)"
    and e: "on_extR ExtECH rerandECHGrease h3 t3 = Inr (h', t')"
    by (rule Rerandomize_steps [OF a])
  obtain cipher where c: "IsGREASE cipher" "CipherSuites h1 = map (regrease_u16 cipher) (CipherSuites h)"
    by (rule rerandGREASE_result [OF g]) (auto simp: hello_simps)
  have "CipherSuites h' = CipherSuites h1"
    using on_extR_result [OF e] on_extR_result [OF k] arg_cong [OF h2, of CipherSuites] by (auto simp: hello_simps)
  then show ?thesis using Rerandomize_keeps [OF a] c by (simp add: same_fields_def regrease_u16_def)
qed

lemma fingerprint_input_eq: "fingerprint_input (without_ech_data h) =
    PutUint16 (LegacyVersion h) @ suites_bytes (map (regrease_u16 greaseSentinel) (CipherSuites h)) @ Compression h
      @ concat (map PutUint32 (sort (map build_view (Extensions h))))"
proof -
  have suites: "foldl (\<lambda>b c. appendU16 b (if IsGREASE c then 0x0a0a else c)) b cs = b @ suites_bytes (map (regrease_u16 greaseSentinel) cs)"
    for b cs by (induction cs arbitrary: b) (simp_all add: appendU16_eq regrease_u16_def)
  have view: "map ext_word (map (\<lambda>e. if ExtType e = ExtECH then Extension (ExtType e) [] else e) es) = map build_view es" for es
    by (simp add: build_view_def)
  have words: "foldl (\<lambda>b v. b @ PutUint32 v) b vs = b @ concat (map PutUint32 vs)" for b vs
    by (induction vs arbitrary: b) simp_all
  have "appendU16 [] v = PutUint16 v" for v by (simp add: appendU16_eq)
  then show ?thesis by (simp add: fingerprint_input_def without_ech_data_def suites view words Let_def del: map_map)
qed

lemma fingerprint_of_views:
  assumes "same_fields h h'" and "image_mset build_view (mset (Extensions h')) = image_mset build_view (mset (Extensions h))"
  shows "fingerprintIgnoringECHLength h' = fingerprintIgnoringECHLength h"
proof -
  have "mset (map build_view (Extensions h')) = mset (map build_view (Extensions h))" using assms(2) by simp
  then have "sort (map build_view (Extensions h')) = sort (map build_view (Extensions h))"
    by (intro properties_for_sort) simp_all
  then show ?thesis
    using assms(1) by (simp add: fingerprintIgnoringECHLength_def Fingerprint_def fingerprint_input_eq same_fields_def)
qed

text \<open>
  What the fingerprint does see of a connection: the length of the name of the site. Two hellos of one browser
  that differ only in it are hashed from different bytes.
\<close>

lemma PutUint32_inj: "PutUint32 v = PutUint32 w \<Longrightarrow> v = w"
proof -
  assume "PutUint32 v = PutUint32 w"
  then have "be_nat (PutUint32 v) = be_nat (PutUint32 w)" by simp
  moreover have "unat x mod 256 ^ 4 = unat x" for x :: u32 using unsigned_less [of x, where 'a = nat] by simp
  ultimately show ?thesis by (simp add: PutUint32_def be_nat_nat_be word_unat_eq_iff)
qed

lemma concat_words_inj: "concat (map PutUint32 vs) = concat (map PutUint32 ws) \<Longrightarrow> vs = ws"
proof (induction vs arbitrary: ws)
  case Nil
  then show ?case by (cases ws) (auto dest: arg_cong [of _ _ length])
next
  case (Cons v vs)
  then obtain w ws' where ws: "ws = w # ws'" by (cases ws) (auto dest: arg_cong [of _ _ length])
  then have "PutUint32 v @ concat (map PutUint32 vs) = PutUint32 w @ concat (map PutUint32 ws')" using Cons.prems by simp
  then have "PutUint32 v = PutUint32 w \<and> concat (map PutUint32 vs) = concat (map PutUint32 ws')"
    by (intro append_eq_append_conv [THEN iffD1]) simp_all
  then show ?case using Cons.IH ws PutUint32_inj by blast
qed

lemma fingerprint_sees_name_length:
  assumes "sole ExtServerName n h" and "length n < 65536" and "SetSNI name h = Inr h'" and "length name + 5 \<noteq> length n"
  shows "fingerprint_input (without_ech_data h') \<noteq> fingerprint_input (without_ech_data h)"
proof
  assume eq: "fingerprint_input (without_ech_data h') = fingerprint_input (without_ech_data h)"
  have h': "h' = SetExtData ExtServerName (sni_body name) h" and len: "length name \<le> 65530"
    using assms(3) by (auto simp: SetSNI_eq split: if_splits)
  have word: "unat (build_view (Extension ExtServerName d)) = length d" if "length d < 65536" for d
    using that by (simp add: build_view_def ext_word_def IsGREASE_def unat_of_nat)
  have split: "find (\<lambda>e. ExtType e = u) es = Some e \<Longrightarrow>
      mset (map build_view (set_first u d es)) + {#build_view e#} = mset (map build_view es) + {#build_view (Extension u d)#}" for u d e es
    by (induction es) (auto split: if_splits)
  have "concat (map PutUint32 (sort (map build_view (Extensions h')))) = concat (map PutUint32 (sort (map build_view (Extensions h))))"
    using eq by (simp add: fingerprint_input_eq h' hello_simps)
  from arg_cong [OF concat_words_inj [OF this], of mset]
  have "mset (map build_view (Extensions h')) = mset (map build_view (Extensions h))" by simp
  then have "{#build_view (Extension ExtServerName n)#} = {#build_view (Extension ExtServerName (sni_body name))#}"
    using split [OF sole_Find [OF assms(1), unfolded Find_def], of "sni_body name"] by (simp add: h' SetExtData_def)
  then have "length n = length (sni_body name)" using word [of n] word [of "sni_body name"] assms(2) len by (simp add: sni_body_def)
  then show False using assms(4) by (simp add: sni_body_def)
qed

lemma canonicalForm_of_views:
  assumes "same_fields h h'" and "image_mset canonical_ext (mset (Extensions h')) = image_mset canonical_ext (mset (Extensions h))"
  shows "canonicalForm h' = canonicalForm h"
proof -
  have suites: "(\<lambda>v. if IsGREASE v then greaseSentinel else v) = regrease_u16 greaseSentinel"
    by (simp add: fun_eq_iff regrease_u16_def)
  let ?key = "\<lambda>e. (ExtType e, ExtData e)"
  have "inj ?key" by (rule injI) (auto intro: Extension.expand)
  have "mset (map canonical_ext (Extensions h')) = mset (map canonical_ext (Extensions h))" using assms(2) by simp
  then have "sort_key ?key (map canonical_ext (Extensions h')) = sort_key ?key (map canonical_ext (Extensions h))"
    using \<open>inj ?key\<close> by (intro sort_key_inj_key_eq) (auto intro: inj_on_subset)
  then show ?thesis using assms(1) by (simp add: canonicalForm_def suites same_fields_def)
qed

lemma no_psk: "Find ExtPreSharedKey h = None \<longleftrightarrow> True \<notin># image_mset (\<lambda>e. ExtType e = ExtPreSharedKey) (mset (Extensions h))"
  by (auto simp: Find_None)

lemma dropExtension_none: "Find u h = None \<Longrightarrow> fst (dropExtension u h) = h"
proof -
  assume "Find u h = None"
  then have "filter (\<lambda>e. ExtType e \<noteq> u) (Extensions h) = Extensions h" by (auto simp: Find_None intro!: filter_True)
  then show ?thesis by (simp add: dropExtension_def)
qed

lemma canonical_ext_server_name: "canonical_ext (Extension ExtServerName d) = Extension ExtServerName []"
  by (simp add: canonical_ext_def IsGREASE_def)

lemma SetSNI_views:
  assumes "SetSNI name h = Inr h'"
  shows "image_mset canonical_ext (mset (Extensions h')) = image_mset canonical_ext (mset (Extensions h))"
    and "image_mset (\<lambda>e. ExtType e = ExtPreSharedKey) (mset (Extensions h')) = image_mset (\<lambda>e. ExtType e = ExtPreSharedKey) (mset (Extensions h))"
    and "sole ExtServerName d h \<Longrightarrow> length name + 5 = length d \<Longrightarrow>
      image_mset build_view (mset (Extensions h')) = image_mset build_view (mset (Extensions h))"
proof -
  obtain e where e: "Find ExtServerName h = Some e" and h': "h' = SetExtData ExtServerName (sni_body name) h"
    using assms by (auto simp: SetSNI_eq split: if_splits)
  have x: "e = Extension ExtServerName (ExtData e)" using Find_type [OF e] by (cases e) simp
  show "image_mset canonical_ext (mset (Extensions h')) = image_mset canonical_ext (mset (Extensions h))"
    using canonical.set_view [OF e, of "sni_body name"] x unfolding h' by (metis canonical_ext_server_name mset_map)
  show "image_mset (\<lambda>e. ExtType e = ExtPreSharedKey) (mset (Extensions h')) = image_mset (\<lambda>e. ExtType e = ExtPreSharedKey) (mset (Extensions h))"
  proof -
    have "map (\<lambda>e. ExtType e = ExtPreSharedKey) (Extensions h') = map (\<lambda>e. ExtType e = ExtPreSharedKey) (Extensions h)"
      unfolding h' by (rule resumed.set_view [OF e]) (simp add: Find_type [OF e])
    from arg_cong [OF this, of mset] show ?thesis by simp
  qed
  assume "sole ExtServerName d h" "length name + 5 = length d"
  then have "ExtData e = d" "length (sni_body name) = length d" using e sole_Find [of ExtServerName d h] by (auto simp: sni_body_def)
  then have "build_view (Extension ExtServerName (sni_body name)) = build_view e" by (subst x) (simp add: build_view_def ext_word_def)
  then show "image_mset build_view (mset (Extensions h')) = image_mset build_view (mset (Extensions h))"
    using build.set_view [OF e] unfolding h' by (metis mset_map)
qed

text \<open>The refresh keeps the other fields; the authenticator, but for the extension it adds, keeps both views and the fields.\<close>

lemma prepared_fields:
  assumes "Rerandomize K h1 t = Inr (h2, t1)" and "Shuffle h2 t1 = Inr (h3, t2)" and "SetKeyShare K h3 t2 = Inr ((eph, h4), t3)"
  shows "same_fields h1 h4"
proof -
  have "same_fields h2 h3" by (rule Shuffle_result [OF assms(2)]) (simp add: same_fields_def)
  moreover have "same_fields h3 h4"
    using assms(3) by (auto simp: SetKeyShare_def bindR_eq_Inr returnR_eq_Inr liftR_eq_Inr failR_eq_Inr hello_simps same_fields_def
        split: option.splits)
  ultimately show ?thesis using same_fields_Rerandomize [OF assms(1)] by (blast intro: same_fields_trans)
qed

lemma authenticated_views:
  assumes "Find ExtPreSharedKey h4 = None"
    and "if full then SetECHTicketAuth ticket psk (fst (dropExtension ExtPreSharedKey h4)) t3 = Inr (h5, t4)
      else SetTicketAuth cred n h4 t3 = Inr (h5, t4)"
  shows "map canonical_ext (Extensions (fst (dropExtension ExtPreSharedKey h5))) = map canonical_ext (Extensions h4)
    \<and> map build_view (Extensions (fst (dropExtension ExtPreSharedKey h5))) = map build_view (Extensions h4)
    \<and> same_fields h4 (fst (dropExtension ExtPreSharedKey h5))"
proof (cases full)
  case True
  then have e: "SetECHTicketAuth ticket psk h4 t3 = Inr (h5, t4)"
    using assms dropExtension_none [OF assms(1)] by simp
  have n5: "Find ExtPreSharedKey h5 = None" by (rule SetECHTicketAuth_result [OF e]) (simp add: hello_simps)
  have "same_fields h4 h5" by (rule SetECHTicketAuth_result [OF e]) (simp add: same_fields_def hello_simps)
  then show ?thesis using canonical.full_view [OF e] build.full_view [OF e] dropExtension_none [OF n5] by simp
next
  case False
  then obtain tk age b where h5: "h5 = setPSK h4 tk age b" using assms(2) SetTicketAuth_result by (metis (full_types))
  have "fst (dropExtension ExtPreSharedKey h5) = h4"
    using dropExtension_none [OF assms(1)] unfolding h5 by (simp add: setPSK_eq dropExtension_def Let_def)
  then show ?thesis by (simp add: same_fields_def)
qed

lemma emission_views:
  assumes "Twiddle K rec opt t = Inr ((wire, eph), t')" and "kex_ok K" and "ParseClientHello rec = Inr h"
    and "Find ExtPreSharedKey h = None" and "sole ExtKeyShare d h" and "share_ok d" and "ech_sized h"
    and "length rec + length (opt_CoverSNI opt) + length (cr_Ticket (opt_Credential opt)) < 65000"
  shows "\<exists>h'. ParseClientHello wire = Inr h' \<and> same_fields h (fst (dropExtension ExtPreSharedKey h'))
     \<and> image_mset canonical_ext (mset (Extensions (fst (dropExtension ExtPreSharedKey h')))) = image_mset canonical_ext (mset (Extensions h))
     \<and> (opt_CoverSNI opt = [] \<or> (\<exists>n. sole ExtServerName n h \<and> length n = length (opt_CoverSNI opt) + 5) \<longrightarrow>
          image_mset build_view (mset (Extensions (fst (dropExtension ExtPreSharedKey h')))) = image_mset build_view (mset (Extensions h)))"
proof -
  obtain h0 h1 h2 h3 h4 h5 t1 t2 t3 t4 where s: "ParseClientHello rec = Inr h0"
    "h1 = h0 \<and> opt_CoverSNI opt = [] \<or> opt_CoverSNI opt \<noteq> [] \<and> SetSNI (opt_CoverSNI opt) h0 = Inr h1"
    "Rerandomize K h1 t = Inr (h2, t1)" "Shuffle h2 t1 = Inr (h3, t2)" "SetKeyShare K h3 t2 = Inr ((eph, h4), t3)"
    and a: "if opt_FullHandshake opt
     then SetECHTicketAuth (cr_FullTicket (opt_Credential opt)) (cr_PSK (opt_Credential opt))
            (fst (dropExtension ExtPreSharedKey h4)) t3 = Inr (h5, t4)
     else SetTicketAuth (opt_Credential opt) (opt_BinderLen opt) h4 t3 = Inr (h5, t4)"
    and w: "wire = Marshal h5"
    by (rule Twiddle_steps [OF assms(1)])
  have h: "h0 = h" using s(1) assms(3) by simp
  let ?pv = "\<lambda>e. ExtType e = ExtPreSharedKey"
  have parsed: "ParseClientHello wire = Inr h5"
    unfolding w by (rule parse_Marshal_wf [OF emitted_wf [OF a emitted_fits [OF s(1-5)]]]) (use assms(8) in simp)
  have sh: "sole ExtKeyShare d h1" and sz: "ech_sized h1" and f1: "same_fields h h1"
    using s(2) assms(5,7) h sole_SetSNI by (auto simp: SetSNI_eq ech_sized_def same_fields_def hello_simps split: if_splits)
  have v1: "image_mset canonical_ext (mset (Extensions h1)) = image_mset canonical_ext (mset (Extensions h))"
    "image_mset ?pv (mset (Extensions h1)) = image_mset ?pv (mset (Extensions h))"
    "opt_CoverSNI opt = [] \<or> (\<exists>n. sole ExtServerName n h \<and> length n = length (opt_CoverSNI opt) + 5) \<Longrightarrow>
       image_mset build_view (mset (Extensions h1)) = image_mset build_view (mset (Extensions h))"
    using s(2) h SetSNI_views [of "opt_CoverSNI opt" h h1] by auto
  note pre = s(3-5) assms(2) sh assms(6) sz
  have f4: "same_fields h h4" using f1 prepared_fields [OF s(3-5)] by (blast intro: same_fields_trans)
  have n4: "Find ExtPreSharedKey h4 = None"
    using assms(4) resumed.prepared_view [OF pre] v1(2) unfolding no_psk by simp
  note last = authenticated_views [OF n4 a]
  have f5: "same_fields h (fst (dropExtension ExtPreSharedKey h5))" using f4 last by (blast intro: same_fields_trans)
  have c: "image_mset canonical_ext (mset (Extensions (fst (dropExtension ExtPreSharedKey h5)))) = image_mset canonical_ext (mset (Extensions h))"
    using last canonical.prepared_view [OF pre] v1(1) by (metis mset_map)
  have b: "image_mset build_view (mset (Extensions (fst (dropExtension ExtPreSharedKey h5)))) = image_mset build_view (mset (Extensions h))"
    if "opt_CoverSNI opt = [] \<or> (\<exists>n. sole ExtServerName n h \<and> length n = length (opt_CoverSNI opt) + 5)"
    using last build.prepared_view [OF pre] v1(3) [OF that] by (metis mset_map)
  show ?thesis using parsed f5 c b by blast
qed

lemma emission_keeps_aux:
  assumes "Twiddle K rec opt t = Inr ((wire, eph), t')" and "kex_ok K" and "ParseClientHello rec = Inr h"
    and "Find ExtPreSharedKey h = None" and "sole ExtKeyShare d h" and "share_ok d" and "ech_sized h"
    and "length rec + length (opt_CoverSNI opt) + length (cr_Ticket (opt_Credential opt)) < 65000"
  shows "\<exists>h'. ParseClientHello wire = Inr h' \<and> canonicalForm (fst (dropExtension ExtPreSharedKey h')) = canonicalForm h
     \<and> (opt_CoverSNI opt = [] \<or> (\<exists>n. sole ExtServerName n h \<and> length n = length (opt_CoverSNI opt) + 5) \<longrightarrow>
          fingerprintIgnoringECHLength (fst (dropExtension ExtPreSharedKey h')) = fingerprintIgnoringECHLength h)"
  using emission_views [OF assms] canonicalForm_of_views fingerprint_of_views by blast

section \<open>The largest build\<close>

definition build_of :: "bytes \<Rightarrow> bytes option" where
  "build_of rec = (case ParseClientHello rec of Inl _ \<Rightarrow> None | Inr h \<Rightarrow> Some (fingerprintIgnoringECHLength h))"

lemma map_of_add_group: "map_of (add_group k x m) k' = (if k' = k then Some (group_of m k @ [x]) else map_of m k')"
  by (induction m) auto

lemma keys_add_group: "fst ` set (add_group k x m) = insert k (fst ` set m)"
proof (induction m)
  case (Cons a m)
  then show ?case by (cases a) (simp add: insert_commute)
qed simp

lemma distinct_add_group: "distinct (map fst m) \<Longrightarrow> distinct (map fst (add_group k x m))"
proof (induction m)
  case (Cons a m)
  then show ?case using keys_add_group [of k x m] by (cases a) auto
qed simp

lemma group_builds_snoc: "group_builds (hs @ [rec]) = (case build_of rec of
    None \<Rightarrow> group_builds hs | Some fp \<Rightarrow> add_group fp rec (group_builds hs))"
  by (simp add: group_builds_def build_of_def split: sum.split)

abbreviation of_build :: "bytes \<Rightarrow> bytes list \<Rightarrow> bytes list" where
  "of_build fp hs \<equiv> filter (\<lambda>r. build_of r = Some fp) hs"

lemma distinct_group_builds: "distinct (map fst (group_builds hs))"
  by (induction hs rule: rev_induct) (simp_all add: group_builds_snoc distinct_add_group split: option.split, simp add: group_builds_def)

lemma group_builds_spec: "map_of (group_builds hs) fp = (if of_build fp hs = [] then None else Some (of_build fp hs))"
proof (induction hs arbitrary: fp rule: rev_induct)
  case Nil
  then show ?case by (simp add: group_builds_def)
next
  case (snoc rec hs)
  then show ?case by (cases "build_of rec") (auto simp: group_builds_snoc map_of_add_group simp del: map_of_eq_Some_iff)
qed

lemma group_of_builds: "group_of (group_builds hs) fp = of_build fp hs"
  using group_builds_spec [of hs fp] by (auto split: if_splits)

lemma keys_builds: "fp \<in> set (map fst (group_builds hs)) \<longleftrightarrow> of_build fp hs \<noteq> []"
proof -
  have "fp \<in> set (map fst (group_builds hs)) \<longleftrightarrow> map_of (group_builds hs) fp \<noteq> None"
    unfolding map_of_eq_None_iff by simp
  then show ?thesis using group_builds_spec [of hs fp] by (auto split: if_splits)
qed

text \<open>The fingerprint chosen: of the builds with the most hellos the least.\<close>

definition chosen :: "bytes list \<Rightarrow> bytes \<Rightarrow> bool" where
  "chosen hs fp \<longleftrightarrow> of_build fp hs \<noteq> []
     \<and> (\<forall>fp'. length (of_build fp' hs) < length (of_build fp hs)
          \<or> length (of_build fp' hs) = length (of_build fp hs) \<and> fp \<le> fp')"

lemma largestBuild_cases:
  assumes "\<And>ks. mset (order ks) = mset ks"
  shows "(\<forall>r\<in>set hs. build_of r = None) \<and> largestBuild order hs = ([], 0)
     \<or> (\<exists>fp. chosen hs fp \<and> largestBuild order hs = (of_build fp hs, length hs - length (of_build fp hs)))"
proof -
  let ?key = "\<lambda>k. (- int (length (of_build k hs)), k)"
  define keys where "keys = sort_key ?key (order (map fst (group_builds hs)))"
  have set: "set keys = {fp. of_build fp hs \<noteq> []}"
    using keys_builds [of _ hs] arg_cong [OF assms [of "map fst (group_builds hs)"], of set_mset] by (auto simp: keys_def)
  have sorted: "sorted (map ?key keys)" unfolding keys_def by (rule sorted_sort_key)
  have L: "largestBuild order hs = (case keys of [] \<Rightarrow> ([], 0)
      | fp # _ \<Rightarrow> (of_build fp hs, length hs - length (of_build fp hs)))"
    by (simp add: largestBuild_def Let_def group_of_builds keys_def split: list.split)
  show ?thesis
  proof (cases keys)
    case Nil
    have "build_of r = None" if "r \<in> set hs" for r
    proof (rule ccontr)
      assume "build_of r \<noteq> None"
      then obtain fp where "build_of r = Some fp" by blast
      then have "r \<in> set (of_build fp hs)" using that by simp
      then have "of_build fp hs \<noteq> []" by (cases "of_build fp hs") auto
      then show False using set Nil by auto
    qed
    then show ?thesis using L Nil by simp
  next
    case (Cons fp rest)
    have "?key fp \<le> ?key fp'" if "of_build fp' hs \<noteq> []" for fp'
    proof -
      have "fp' \<in> set keys" using that set by simp
      then show ?thesis using sorted Cons by auto
    qed
    moreover have "of_build fp hs \<noteq> []" using set Cons by auto
    ultimately have "of_build fp hs \<noteq> [] \<and> (\<forall>fp'. of_build fp' hs = [] \<or> length (of_build fp' hs) < length (of_build fp hs)
        \<or> length (of_build fp' hs) = length (of_build fp hs) \<and> fp \<le> fp')"
      unfolding less_eq_prod_def prod.sel by fastforce
    then have "chosen hs fp" unfolding chosen_def by (metis length_greater_0_conv list.size(3))
    then show ?thesis using L Cons by auto
  qed
qed

lemma chosen_unique: "chosen hs fp \<Longrightarrow> chosen hs fp' \<Longrightarrow> fp' = fp"
  unfolding chosen_def by (metis less_asym less_irrefl order_antisym)

lemma one_build:
  assumes "hs \<noteq> []" and "\<forall>r\<in>set hs. build_of r \<noteq> None"
  shows "(\<exists>fp. {fp. Some fp \<in> build_of ` set hs} = {fp}) \<longleftrightarrow> (\<exists>fp. \<forall>r\<in>set hs. build_of r = Some fp)"
proof
  assume "\<exists>fp. {fp. Some fp \<in> build_of ` set hs} = {fp}"
  then obtain fp where fp: "{fp. Some fp \<in> build_of ` set hs} = {fp}" by blast
  have "build_of r = Some fp" if r: "r \<in> set hs" for r
  proof -
    obtain fp' where "build_of r = Some fp'" using assms(2) r by blast
    then have "fp' \<in> {fp. Some fp \<in> build_of ` set hs}" using r by (auto intro: rev_image_eqI)
    then show ?thesis using fp \<open>build_of r = Some fp'\<close> by simp
  qed
  then show "\<exists>fp. \<forall>r\<in>set hs. build_of r = Some fp" by blast
next
  assume "\<exists>fp. \<forall>r\<in>set hs. build_of r = Some fp"
  then obtain fp where "\<forall>r\<in>set hs. build_of r = Some fp" by blast
  moreover obtain r0 where "r0 \<in> set hs" using assms(1) by (cases hs) auto
  ultimately have "{fp. Some fp \<in> build_of ` set hs} = {fp}" by (auto simp: image_iff)
  then show "\<exists>fp. {fp. Some fp \<in> build_of ` set hs} = {fp}" by blast
qed

lemma Coherent_iff_aux: "Coherent hs = Inr () \<longleftrightarrow> hs \<noteq> [] \<and> (\<exists>fp. \<forall>r\<in>set hs. build_of r = Some fp)"
proof -
  let ?step = "\<lambda>groups (i, rec). bindE groups (\<lambda>groups. case ParseClientHello rec of
      Inl e \<Rightarrow> Inl e | Inr h \<Rightarrow> Inr (add_group (fingerprintIgnoringECHLength h) i groups))"
  let ?fps = "\<lambda>hs. {fp. Some fp \<in> build_of ` set hs}"
  have run: "(\<forall>r\<in>set hs. build_of r \<noteq> None) \<longrightarrow> (\<exists>m. foldl ?step (Inr []) (enumerate n hs) = Inr m
       \<and> fst ` set m = ?fps hs \<and> distinct (map fst m))" for n
  proof (induction hs rule: rev_induct)
    case (snoc r hs)
    show ?case
    proof
      assume all: "\<forall>x\<in>set (hs @ [r]). build_of x \<noteq> None"
      then obtain m where m: "foldl ?step (Inr []) (enumerate n hs) = Inr m" "fst ` set m = ?fps hs" "distinct (map fst m)"
        using snoc by auto
      obtain h where h: "ParseClientHello r = Inr h" using all by (auto simp: build_of_def split: sum.splits)
      then have "build_of r = Some (fingerprintIgnoringECHLength h)" by (simp add: build_of_def)
      then have "?fps (hs @ [r]) = insert (fingerprintIgnoringECHLength h) (?fps hs)" by auto
      then show "\<exists>m. foldl ?step (Inr []) (enumerate n (hs @ [r])) = Inr m \<and> fst ` set m = ?fps (hs @ [r]) \<and> distinct (map fst m)"
        using m h by (simp add: enumerate_append_eq keys_add_group distinct_add_group)
    qed
  qed simp
  have fail: "(\<exists>r\<in>set hs. build_of r = None) \<longrightarrow> (\<exists>e. foldl ?step (Inr []) (enumerate n hs) = Inl e)" for n
  proof (induction hs rule: rev_induct)
    case (snoc r hs)
    then show ?case
      by (cases "foldl ?step (Inr []) (enumerate n hs)") (auto simp: enumerate_append_eq build_of_def split: sum.splits)
  qed simp
  show ?thesis
  proof (cases "hs \<noteq> [] \<and> (\<forall>r\<in>set hs. build_of r \<noteq> None)")
    case True
    then obtain m where m: "foldl ?step (Inr []) (enumerate 0 hs) = Inr m" "fst ` set m = ?fps hs" "distinct (map fst m)"
      using run [of 0] by auto
    have "length m = card (fst ` set m)" using distinct_card [OF m(3)] by simp
    then have "Coherent hs = Inr () \<longleftrightarrow> card (?fps hs) = 1" using True m(1,2) by (simp add: Coherent_def)
    also have "\<dots> \<longleftrightarrow> (\<exists>fp. ?fps hs = {fp})" by (simp add: card_1_singleton_iff)
    also have "\<dots> \<longleftrightarrow> (\<exists>fp. \<forall>r\<in>set hs. build_of r = Some fp)" using True by (intro one_build) auto
    finally show ?thesis using True by simp
  next
    case False
    then show ?thesis using fail [of 0] by (auto simp: Coherent_def)
  qed
qed

text \<open>
  C12. Emission keeps what a pool entry is. The record emitted from a full-handshake hello parses, and without
  the pre_shared_key a resumption adds it has the canonical form of the entry it came from, and, where
  the cover's name is as long as the entry's, the fingerprint of its build: so an entry offered back after
  emission contributes nothing new, and the refresh never leaves the build it imitates.
\<close>

theorem emission_keeps_contribution:
  assumes "Twiddle K rec opt t = Inr ((wire, eph), t')" and "kex_ok K" and "ParseClientHello rec = Inr h"
    and "Find ExtPreSharedKey h = None" and "sole ExtKeyShare d h" and "share_ok d" and "ech_sized h"
    and "length rec + length (opt_CoverSNI opt) + length (cr_Ticket (opt_Credential opt)) < 65000"
  shows "\<exists>h'. ParseClientHello wire = Inr h' \<and> canonicalForm (fst (dropExtension ExtPreSharedKey h')) = canonicalForm h
     \<and> (opt_CoverSNI opt = [] \<or> (\<exists>n. sole ExtServerName n h \<and> length n = length (opt_CoverSNI opt) + 5) \<longrightarrow>
          fingerprintIgnoringECHLength (fst (dropExtension ExtPreSharedKey h')) = fingerprintIgnoringECHLength h)"
  by (rule emission_keeps_aux [OF assms])

theorem emission_keeps_contribution_witness:
  "\<exists>t wire eph h'. Twiddle kex_demo (Marshal browser_hello) (demo_opt False) t = Inr ((wire, eph), [])
     \<and> ParseClientHello wire = Inr h' \<and> canonicalForm (fst (dropExtension ExtPreSharedKey h')) = canonicalForm browser_hello
     \<and> fingerprintIgnoringECHLength (fst (dropExtension ExtPreSharedKey h')) = fingerprintIgnoringECHLength browser_hello"
proof -
  obtain x t where "Twiddle kex_demo (Marshal browser_hello) (demo_opt False) t = Inr (x, [])"
    using canE [OF Twiddle_emits_aux [OF browser_hello_parses browser_emittable kex_demo_ok]] by blast
  moreover obtain wire eph where "x = (wire, eph)" by (cases x)
  ultimately have r: "Twiddle kex_demo (Marshal browser_hello) (demo_opt False) t = Inr ((wire, eph), [])" by simp
  have psk: "Find ExtPreSharedKey browser_hello = None" by (simp add: Find_def browser_hello_def)
  have sized: "ech_sized browser_hello"
    using sole_Find [OF browser_hello_sole(3)] by (simp add: ech_sized_def ech_body_def)
  have len: "length (Marshal browser_hello) + length (opt_CoverSNI (demo_opt False)) + length (cr_Ticket (opt_Credential (demo_opt False))) < 65000"
    using browser_hello_length demo_cred_opens(3) by (simp add: demo_opt_def)
  have name: "\<exists>n. sole ExtServerName n browser_hello \<and> length n = length (opt_CoverSNI (demo_opt False)) + 5"
    using browser_hello_sole(2) by (intro exI [of _ "sni_body [97, 46, 98]"]) (simp add: demo_opt_def sni_body_def)
  show ?thesis
    using emission_keeps_contribution [OF r kex_demo_ok browser_hello_parses psk browser_hello_sole(1) browser_share_ok sized len]
      name r by blast
qed

text \<open>
  C33. The choice of a build. Whatever order the map of builds is visited in, the same hellos are kept: all
  those of one build, in their order, and no build has more; nothing is kept only if nothing parses. What is
  kept is coherent, and the number dropped is the number of the rest.
\<close>

theorem largestBuild_largest:
  assumes "\<And>ks. mset (order ks) = mset ks" and "\<And>ks. mset (order' ks) = mset ks"
  shows "largestBuild order' hs = largestBuild order hs
     \<and> (if list_all (\<lambda>r. build_of r = None) hs then largestBuild order hs = ([], 0)
        else \<exists>fp. largestBuild order hs = (of_build fp hs, length hs - length (of_build fp hs))
          \<and> Coherent (of_build fp hs) = Inr () \<and> (\<forall>fp'. length (of_build fp' hs) \<le> length (of_build fp hs)))"
proof -
  have none: "\<not> chosen hs fp" if "\<forall>r\<in>set hs. build_of r = None" for fp
    using that by (auto simp: chosen_def filter_empty_conv)
  have some: "\<not> list_all (\<lambda>r. build_of r = None) hs" if "chosen hs fp" for fp
    using none [of fp] that unfolding list_all_iff by blast
  show ?thesis
    using largestBuild_cases [of order hs, OF assms(1)]
  proof
    assume "(\<forall>r\<in>set hs. build_of r = None) \<and> largestBuild order hs = ([], 0)"
    then show ?thesis using largestBuild_cases [of order' hs, OF assms(2)] none by (auto simp: list_all_iff)
  next
    assume "\<exists>fp. chosen hs fp \<and> largestBuild order hs = (of_build fp hs, length hs - length (of_build fp hs))"
    then obtain fp where fp: "chosen hs fp" "largestBuild order hs = (of_build fp hs, length hs - length (of_build fp hs))" by blast
    have "largestBuild order' hs = largestBuild order hs"
      using largestBuild_cases [of order' hs, OF assms(2)] fp none chosen_unique [OF fp(1)] by metis
    moreover have "Coherent (of_build fp hs) = Inr ()" using fp(1) by (auto simp: Coherent_iff_aux chosen_def)
    moreover have "\<forall>fp'. length (of_build fp' hs) \<le> length (of_build fp hs)"
      using fp(1) unfolding chosen_def by (metis less_or_eq_imp_le)
    ultimately show ?thesis using fp(2) some [OF fp(1)] by auto
  qed
qed

theorem largestBuild_largest_witness:
  "largestBuild rev [[], Marshal browser_hello] = largestBuild id [[], Marshal browser_hello]
     \<and> largestBuild id [[], Marshal browser_hello] = ([Marshal browser_hello], 1)"
proof -
  have "ParseClientHello [] \<noteq> Inr h" for h by (simp add: ParseClientHello_def)
  then have b: "build_of [] = None" "build_of (Marshal browser_hello) = Some (fingerprintIgnoringECHLength browser_hello)"
    by (auto simp: build_of_def browser_hello_parses split: sum.split)
  show ?thesis
    using largestBuild_largest [of id rev "[[], Marshal browser_hello]"] b by (auto split: if_splits)
qed

text \<open>
  \<open>Coherent\<close> holds exactly of a pool that is not empty and whose records all parse and all come from one build.
\<close>

theorem Coherent_iff: "Coherent hs = Inr () \<longleftrightarrow> hs \<noteq> [] \<and> (\<exists>fp. \<forall>r\<in>set hs. build_of r = Some fp)"
  by (rule Coherent_iff_aux)

end
