(* ===== verification/Pools.thy ===== *)
theory Pools
  imports Builds
begin

text \<open>
  Pools of harvested hellos: \<^verbatim>\<open>src/pool.go\<close> and the reading, writing, screening and choosing of
  \<^verbatim>\<open>src/source.go\<close>. A pool file is read back as it was written; what is screened in can be emitted; what is
  sanitised no longer says where the browser went.
\<close>

section \<open>Screening\<close>

definition Usable :: "bytes \<Rightarrow> unit res" where
  "Usable rec = bindE (ParseClientHello rec) (\<lambda>h.
     if Find ExtServerName h = None then Inl (Err ''twiddle: hello has no server_name to rewrite'')
     else if Find ExtKeyShare h = None then Inl (Err ''twiddle: hello has no key_share'')
     else if Find ExtPreSharedKey h \<noteq> None then Inl (Err ''twiddle: hello carries pre_shared_key; sanitize it first'')
     else if length (Extensions h) < 3 then Inl (Err ''twiddle: hello has too few extensions to shuffle'')
     else if \<not> IsGREASE (ExtType (Extensions h ! 0)) then Inl (Err ''twiddle: first extension is not GREASE'')
     else if \<not> IsGREASE (ExtType (Extensions h ! (length (Extensions h) - 1))) then Inl (Err ''twiddle: last extension is not GREASE'')
     else Inr ())"

section \<open>Pool files\<close>

text \<open>
  An error of a pool: of a line of a named source, of the file, a report of hellos left out, or another.
\<close>

datatype Origin = OriginEmbedded | OriginConfig | OriginDevice

text \<open>The values Go's \<^verbatim>\<open>iota\<close> gives the constants; the loader prefers a greater origin to a lesser one.\<close>

primrec origin_iota :: "Origin \<Rightarrow> nat" where
  "origin_iota OriginEmbedded = 0"
| "origin_iota OriginConfig = 1"
| "origin_iota OriginDevice = 2"

lemma origin_iota_inj: "origin_iota a = origin_iota b \<longleftrightarrow> a = b"
  by (cases a; cases b) simp_all

instantiation Origin :: linorder
begin

definition less_eq_Origin :: "Origin \<Rightarrow> Origin \<Rightarrow> bool" where
  "less_eq_Origin a b \<longleftrightarrow> origin_iota a \<le> origin_iota b"

definition less_Origin :: "Origin \<Rightarrow> Origin \<Rightarrow> bool" where
  "less_Origin a b \<longleftrightarrow> origin_iota a < origin_iota b"

instance
  by standard (auto simp: less_eq_Origin_def less_Origin_def origin_iota_inj [symmetric])

end

lemma origin_order [simp]:
  "OriginEmbedded < OriginConfig" "OriginConfig < OriginDevice" "OriginEmbedded \<le> a" "a \<le> OriginDevice"
  by (simp_all add: less_Origin_def) (cases a; simp add: less_eq_Origin_def)+

fun Origin_String :: "Origin \<Rightarrow> bytes" where
  "Origin_String OriginDevice = str ''device''"
| "Origin_String OriginConfig = str ''config''"
| "Origin_String OriginEmbedded = str ''embedded''"

datatype pool_error =
    AtLine bytes nat err
  | Unreadable bytes err
  | Mixed Origin nat nat
  | PoolErr string

text \<open>The strict reader of the embedded pool.\<close>

fun ParsePool_lines :: "nat \<Rightarrow> bytes list \<Rightarrow> pool_error + bytes list" where
  "ParsePool_lines i [] = Inr []"
| "ParsePool_lines i (line # lines) =
     (let line = TrimSpace line
      in if line = [] \<or> take 1 line = [35] then ParsePool_lines (i + 1) lines
         else case hex_DecodeString line of
           Inl e \<Rightarrow> Inl (AtLine [] (i + 1) e)
         | Inr rec \<Rightarrow> (case ParseClientHello rec of
             Inl e \<Rightarrow> Inl (AtLine [] (i + 1) e)
           | Inr _ \<Rightarrow> bindE (ParsePool_lines (i + 1) lines) (\<lambda>out. Inr (rec # out))))"

definition ParsePool :: "bytes \<Rightarrow> pool_error + bytes list" where
  "ParsePool s = bindE (ParsePool_lines 0 (Split s 10)) (\<lambda>out.
     if out = [] then Inl (PoolErr ''twiddle: pool is empty'') else Inr out)"

text \<open>The tolerant reader of files and of pools delivered inline. One line yields nothing, a record or an error.\<close>

definition pool_line :: "bytes \<Rightarrow> nat \<Rightarrow> bytes \<Rightarrow> (pool_error + bytes) option" where
  "pool_line what i line =
     (let line = TrimSpace line
      in if line = [] \<or> take 1 line = [35] then None
         else let f = Fields line;
                  line = (if 1 < length f then f ! (length f - 1) else line)
              in Some (case hex_DecodeString line of
                   Inl e \<Rightarrow> Inl (AtLine what (i + 1) e)
                 | Inr rec \<Rightarrow> (case Usable rec of
                     Inl e \<Rightarrow> Inl (AtLine what (i + 1) e)
                   | Inr _ \<Rightarrow> Inr rec)))"

definition parsePool :: "bytes \<Rightarrow> bytes \<Rightarrow> bytes list \<times> pool_error list" where
  "parsePool body what = foldl (\<lambda>(out, errs) (i, line). case pool_line what i line of
       None \<Rightarrow> (out, errs)
     | Some (Inl e) \<Rightarrow> (out, errs @ [e])
     | Some (Inr rec) \<Rightarrow> (out @ [rec], errs)) ([], []) (enumerate 0 (Split body 10))"

definition FormatPool :: "bytes list \<Rightarrow> bytes" where
  "FormatPool hellos = foldl (\<lambda>b rec. (b @ hex_EncodeToString rec) @ [10]) [] hellos"

text \<open>What \<^verbatim>\<open>os.ReadFile\<close> answers: no such file, an error, or the contents.\<close>

datatype file_read = Absent | Failed err | Contents bytes

definition readPoolFile :: "(bytes \<Rightarrow> file_read) \<Rightarrow> bytes \<Rightarrow> bytes list \<times> pool_error list" where
  "readPoolFile readFile path =
     (if path = [] then ([], [])
      else case readFile path of
        Absent \<Rightarrow> ([], [])
      | Failed e \<Rightarrow> ([], [Unreadable path e])
      | Contents b \<Rightarrow> parsePool b path)"

section \<open>Loading\<close>

record Sources =
  so_Device :: bytes
  so_Config :: bytes
  so_ConfigInline :: bytes
  so_AllowEmbedded :: bool

record Pool =
  po_Hellos :: "bytes list"
  po_Origin :: Origin
  po_Skipped :: "pool_error list"

text \<open>\<^verbatim>\<open>DefaultPool\<close> panics on a corrupt embedded pool, whose text is a parameter.\<close>

datatype loaded = Loaded Pool | Refused "pool_error list" | Panicked pool_error

definition DefaultPool :: "bytes \<Rightarrow> pool_error + bytes list" where
  "DefaultPool embeddedPool = ParsePool embeddedPool"

text \<open>The loop over the sources, with what was skipped so far.\<close>

fun load_from :: "(bytes list \<Rightarrow> bytes list) \<Rightarrow> (bytes \<Rightarrow> file_read) \<Rightarrow> (Origin \<times> bytes \<times> bytes) list \<Rightarrow> pool_error list
    \<Rightarrow> Pool option \<times> pool_error list" where
  "load_from order readFile [] skipped = (None, skipped)"
| "load_from order readFile ((origin, path, inline) # srcs) skipped =
     (if path = [] \<and> inline = [] then load_from order readFile srcs skipped
      else let (hellos, errs) = readPoolFile readFile path;
               skipped = skipped @ errs;
               (hellos, skipped) = (if hellos = [] \<and> inline \<noteq> []
                  then let (hellos, errs) = parsePool inline (Origin_String origin @ str '' (inline)'') in (hellos, skipped @ errs)
                  else (hellos, skipped))
           in if hellos = [] then load_from order readFile srcs skipped
              else let (best, dropped) = largestBuild order hellos;
                       skipped = (if 0 < dropped then skipped @ [Mixed origin (length best) dropped] else skipped)
                   in (Some \<lparr>po_Hellos = best, po_Origin = origin, po_Skipped = skipped\<rparr>, skipped))"

definition LoadPool :: "(bytes list \<Rightarrow> bytes list) \<Rightarrow> (bytes \<Rightarrow> file_read) \<Rightarrow> bytes \<Rightarrow> Sources \<Rightarrow> loaded" where
  "LoadPool order readFile embeddedPool s =
     (case load_from order readFile
         [(OriginDevice, so_Device s, []), (OriginConfig, so_Config s, so_ConfigInline s)] [] of
        (Some pool, _) \<Rightarrow> Loaded pool
      | (None, skipped) \<Rightarrow>
          if \<not> so_AllowEmbedded s
          then (if 0 < length skipped
                then Refused (PoolErr ''twiddle: no usable hello pool from device or config, and the embedded fallback is disabled'' # skipped)
                else Refused [PoolErr ''no device or config source was configured''])
          else case DefaultPool embeddedPool of
            Inl e \<Rightarrow> Panicked e
          | Inr hellos \<Rightarrow>
              let (best, dropped) = largestBuild order hellos;
                  skipped = (if 0 < dropped then skipped @ [Mixed OriginEmbedded (length best) dropped] else skipped)
              in Loaded \<lparr>po_Hellos = best, po_Origin = OriginEmbedded, po_Skipped = skipped\<rparr>)"

section \<open>Sanitising\<close>

definition Sanitize :: "ClientHello \<Rightarrow> ClientHello res" where
  "Sanitize h =
     (if Find ExtServerName h = None then Inl (Err ''twiddle: hello has no server_name'')
      else bindE (SetSNI (replicate (length (SNI h)) 120) h) (\<lambda>h.
        let kept = foldl (\<lambda>kept e.
              if ExtType e = ExtPreSharedKey \<or> ExtType e = ExtEarlyData then kept
              else if ExtType e = ExtSessionTicket then kept @ [Extension (ExtType e) []]
              else kept @ [e]) [] (Extensions h)
        in Inr (h\<lparr>Extensions := kept, Random := replicate 32 0, SessionID := replicate (length (SessionID h)) 0\<rparr>)))"

section \<open>Provisioned forms\<close>

definition CredentialFromWireFull :: "bytes \<Rightarrow> bytes option \<Rightarrow> bytes \<Rightarrow> Credential res" where
  "CredentialFromWireFull ticket fullTicket psk =
     (if length psk \<noteq> 32 then Inl (Err ''twiddle: psk is not 32 bytes'')
      else if fullTicket \<noteq> None \<and> length (the fullTicket) \<noteq> FullTicketLen
      then Inl (Err ''twiddle: full ticket has another length'')
      else Inr \<lparr>cr_Ticket = ticket, cr_FullTicket = (case fullTicket of None \<Rightarrow> [] | Some t \<Rightarrow> t),
                cr_PSK = go_copy 0 psk (replicate 32 0)\<rparr>)"

definition CredentialFromWire :: "bytes \<Rightarrow> bytes \<Rightarrow> Credential res" where
  "CredentialFromWire ticket psk = CredentialFromWireFull ticket None psk"

definition TicketKeyFromWire :: "bytes \<Rightarrow> TicketKey res" where
  "TicketKeyFromWire b =
     (if length b \<noteq> 32 then Inl (Err ''twiddle: ticket key is not 32 bytes'')
      else Inr (go_copy 0 b (replicate 32 0)))"

section \<open>Reading back what was written\<close>

lemma FormatPool_concat: "FormatPool hs = concat (map (\<lambda>r. hex_EncodeToString r @ [10]) hs)"
proof -
  have "foldl (\<lambda>b rec. (b @ hex_EncodeToString rec) @ [10]) b hs = b @ concat (map (\<lambda>r. hex_EncodeToString r @ [10]) hs)" for b
    by (induction hs arbitrary: b) simp_all
  then show ?thesis by (simp add: FormatPool_def)
qed

lemma Split_FormatPool: "Split (FormatPool hs) 10 = map hex_EncodeToString hs @ [[]]"
proof (induction hs)
  case (Cons r hs)
  have "10 \<notin> set (hex_EncodeToString r)" using hex_visible [of r] by (auto simp: visible_def)
  then show ?case using Cons.IH Split_append [of 10 "hex_EncodeToString r" "FormatPool hs"] by (simp add: FormatPool_concat)
qed (simp add: FormatPool_concat)

lemma hex_first: "take 1 (hex_EncodeToString r) \<noteq> [35]"
proof
  assume "take 1 (hex_EncodeToString r) = [35]"
  then obtain b s where r: "r = b # s" and d: "hex_digit (drop_bit 4 b) = 35"
    by (cases r) (auto simp: hex_EncodeToString_def)
  have "hex_value (hex_digit (drop_bit 4 b)) = Some (drop_bit 4 b)" by (rule hex_value_digit [OF nibble_lt(1)])
  then show False unfolding d by (simp add: hex_value_def is_digit_def)
qed

lemma parse_nonempty: "ParseClientHello rec = Inr h \<Longrightarrow> rec \<noteq> []"
  by (auto simp: ParseClientHello_def)

lemma Usable_parses: "Usable rec = Inr () \<Longrightarrow> \<exists>h. ParseClientHello rec = Inr h"
  by (auto simp: Usable_def res_simps)

lemma pool_line_hex: "Usable rec = Inr () \<Longrightarrow> pool_line what i (hex_EncodeToString rec) = Some (Inr rec)"
proof -
  assume u: "Usable rec = Inr ()"
  have ne: "hex_EncodeToString rec \<noteq> []" using Usable_parses [OF u] parse_nonempty by auto
  show ?thesis
    using u TrimSpace_visible [OF hex_visible] Fields_visible [OF hex_visible ne] ne hex_first
    by (simp add: pool_line_def Let_def hex_roundtrip)
qed

lemma pool_line_empty: "pool_line what i [] = None"
  by (simp add: pool_line_def TrimSpace_def cut_spaces.simps)

lemma parsePool_FormatPool_aux:
  assumes "\<forall>rec\<in>set hs. Usable rec = Inr ()"
  shows "parsePool (FormatPool hs) what = (hs, [])"
proof -
  let ?step = "\<lambda>(out, errs) (i, line). case pool_line what i line of None \<Rightarrow> (out, errs)
     | Some (Inl e) \<Rightarrow> (out, errs @ [e]) | Some (Inr rec) \<Rightarrow> (out @ [rec], errs)"
  have "foldl ?step (out, []) (enumerate n (map hex_EncodeToString hs)) = (out @ hs, [])" for out n
    using assms by (induction hs arbitrary: out n) (simp_all add: pool_line_hex)
  then show ?thesis
    by (simp add: parsePool_def Split_FormatPool enumerate_append_eq pool_line_empty)
qed

lemma ParsePool_FormatPool_parses:
  assumes "hs \<noteq> []" and "\<forall>rec\<in>set hs. \<exists>h. ParseClientHello rec = Inr h"
  shows "ParsePool (FormatPool hs) = Inr hs"
proof -
  have "ParsePool_lines n (map hex_EncodeToString hs @ [[]]) = Inr hs" for n
    using assms(2)
  proof (induction hs arbitrary: n)
    case Nil
    then show ?case by (simp add: TrimSpace_def cut_spaces.simps)
  next
    case (Cons r hs)
    obtain h where h: "ParseClientHello r = Inr h" using Cons.prems by auto
    then have "hex_EncodeToString r \<noteq> []" using parse_nonempty by simp
    then show ?case using Cons h TrimSpace_visible [OF hex_visible] hex_first by (simp add: hex_roundtrip)
  qed
  then show ?thesis using assms(1) by (simp add: ParsePool_def Split_FormatPool)
qed

lemma ParsePool_FormatPool_aux:
  assumes "hs \<noteq> []" and "\<forall>rec\<in>set hs. Usable rec = Inr ()"
  shows "ParsePool (FormatPool hs) = Inr hs"
  using ParsePool_FormatPool_parses [OF assms(1)] assms(2) Usable_parses by blast

text \<open>
  A pool file reads back as it was written: the usable records a harvester formats are what either reader
  returns, in order and without an error.
\<close>

theorem FormatPool_roundtrip:
  assumes "hs \<noteq> []" and "\<forall>rec\<in>set hs. Usable rec = Inr ()"
  shows "parsePool (FormatPool hs) what = (hs, []) \<and> ParsePool (FormatPool hs) = Inr hs"
  using parsePool_FormatPool_aux [OF assms(2)] ParsePool_FormatPool_aux [OF assms] by blast

lemma browser_usable: "Usable (Marshal browser_hello) = Inr ()"
  by (simp add: Usable_def browser_hello_parses) (simp add: browser_hello_def Find_def IsGREASE_def)

theorem FormatPool_roundtrip_witness:
  "parsePool (FormatPool [Marshal browser_hello, Marshal browser_hello]) (str ''device'') = ([Marshal browser_hello, Marshal browser_hello], [])"
  using FormatPool_roundtrip [of "[Marshal browser_hello, Marshal browser_hello]" "str ''device''"] browser_usable by simp

section \<open>What a tolerant read answers\<close>

lemma pool_line_usable: "pool_line what i line = Some (Inr rec) \<Longrightarrow> Usable rec = Inr ()"
  by (auto simp: pool_line_def Let_def split: if_splits sum.splits)

text \<open>A tolerant read, line by line: each line gives nothing, its record or its error.\<close>

definition line_results :: "bytes \<Rightarrow> bytes \<Rightarrow> (pool_error + bytes) list" where
  "line_results body what = List.map_filter (\<lambda>(i, line). pool_line what i line) (enumerate 0 (Split body 10))"

lemma parsePool_results: "parsePool body what =
    (map projr (filter (\<lambda>r. \<not> isl r) (line_results body what)), map projl (filter isl (line_results body what)))"
proof -
  let ?step = "\<lambda>(out, errs) (i, line). case pool_line what i line of None \<Rightarrow> (out, errs)
     | Some (Inl e) \<Rightarrow> (out, errs @ [e]) | Some (Inr rec) \<Rightarrow> (out @ [rec], errs)"
  have "foldl ?step (out, errs) ls = (out @ map projr (filter (\<lambda>r. \<not> isl r) (List.map_filter (\<lambda>(i, line). pool_line what i line) ls)),
      errs @ map projl (filter isl (List.map_filter (\<lambda>(i, line). pool_line what i line) ls)))" for out errs ls
    by (induction ls arbitrary: out errs) (auto simp: map_filter_simps split: option.splits sum.splits)
  then show ?thesis by (simp add: parsePool_def line_results_def)
qed

lemma parsePool_usable: "\<forall>rec\<in>set (fst (parsePool body what)). Usable rec = Inr ()"
proof
  fix rec
  assume "rec \<in> set (fst (parsePool body what))"
  then obtain r where "r \<in> set (line_results body what)" "\<not> isl r" "rec = projr r" by (auto simp: parsePool_results)
  then have "Inr rec \<in> set (line_results body what)" by (cases r) auto
  then show "Usable rec = Inr ()"
    by (auto simp: line_results_def List.map_filter_def dest: pool_line_usable)
qed

lemma readPoolFile_usable: "\<forall>rec\<in>set (fst (readPoolFile readFile path)). Usable rec = Inr ()"
  using parsePool_usable by (auto simp: readPoolFile_def split: file_read.split)

lemma ParsePool_parses: "ParsePool s = Inr hs \<Longrightarrow> hs \<noteq> [] \<and> (\<forall>rec\<in>set hs. \<exists>h. ParseClientHello rec = Inr h)"
proof -
  have "ParsePool_lines i ls = Inr hs \<Longrightarrow> \<forall>rec\<in>set hs. \<exists>h. ParseClientHello rec = Inr h" for i ls hs
    by (induction i ls arbitrary: hs rule: ParsePool_lines.induct)
       (auto simp: Let_def res_simps split: if_splits sum.splits)
  then show "ParsePool s = Inr hs \<Longrightarrow> ?thesis" by (auto simp: ParsePool_def res_simps split: if_splits)
qed

section \<open>Loading\<close>

abbreviation visits :: "(bytes list \<Rightarrow> bytes list) \<Rightarrow> bool" where
  "visits order \<equiv> \<forall>ks. mset (order ks) = mset ks"

text \<open>The records a source delivers: its file's, or those delivered inline when the file has none.\<close>

definition delivers :: "(bytes \<Rightarrow> file_read) \<Rightarrow> Origin \<times> bytes \<times> bytes \<Rightarrow> bytes list" where
  "delivers readFile src = (case src of (origin, path, inline) \<Rightarrow>
     if fst (readPoolFile readFile path) = [] \<and> inline \<noteq> [] then fst (parsePool inline (Origin_String origin @ str '' (inline)''))
     else fst (readPoolFile readFile path))"

lemma delivers_usable: "\<forall>rec\<in>set (delivers readFile src). Usable rec = Inr ()"
  using readPoolFile_usable parsePool_usable by (auto simp: delivers_def split: prod.splits)

lemma load_from_step:
  "\<exists>sk. load_from order readFile (src # srcs) skipped =
     (if delivers readFile src = [] then load_from order readFile srcs sk
      else (Some \<lparr>po_Hellos = fst (largestBuild order (delivers readFile src)), po_Origin = fst src, po_Skipped = sk\<rparr>, sk))"
proof -
  obtain origin path inline where src: "src = (origin, path, inline)" by (cases src)
  obtain fh fe where f: "readPoolFile readFile path = (fh, fe)" by (cases "readPoolFile readFile path")
  obtain ih ie where i: "parsePool inline (Origin_String origin @ str '' (inline)'') = (ih, ie)" by (metis surj_pair)
  obtain best dropped where b: "largestBuild order (delivers readFile src) = (best, dropped)" by (metis surj_pair)
  have d: "delivers readFile src = (if fh = [] \<and> inline \<noteq> [] then ih else fh)" by (simp add: delivers_def src f i)
  show ?thesis
  proof (cases "path = [] \<and> inline = []")
    case True
    then have "delivers readFile src = []" using d f by (simp add: readPoolFile_def)
    then show ?thesis using True by (auto simp: src)
  next
    case False
    show ?thesis
      using b d unfolding src load_from.simps if_not_P [OF False] f by (auto simp: Let_def i split: if_splits)
  qed
qed

lemma load_from_spec:
  "fst (load_from order readFile srcs skipped) = None \<and> (\<forall>src\<in>set srcs. delivers readFile src = [])
   \<or> (\<exists>pool pre src post. fst (load_from order readFile srcs skipped) = Some pool \<and> srcs = pre @ src # post
        \<and> (\<forall>src\<in>set pre. delivers readFile src = []) \<and> delivers readFile src \<noteq> []
        \<and> po_Origin pool = fst src \<and> po_Hellos pool = fst (largestBuild order (delivers readFile src)))"
proof (induction srcs arbitrary: skipped)
  case (Cons src srcs)
  obtain sk where step: "load_from order readFile (src # srcs) skipped =
     (if delivers readFile src = [] then load_from order readFile srcs sk
      else (Some \<lparr>po_Hellos = fst (largestBuild order (delivers readFile src)), po_Origin = fst src, po_Skipped = sk\<rparr>, sk))"
    using load_from_step by blast
  show ?case
  proof (cases "delivers readFile src = []")
    case True
    show ?thesis
      using Cons.IH [of sk]
    proof
      assume "fst (load_from order readFile srcs sk) = None \<and> (\<forall>src\<in>set srcs. delivers readFile src = [])"
      then show ?thesis using True step by simp
    next
      assume "\<exists>pool pre s post. fst (load_from order readFile srcs sk) = Some pool \<and> srcs = pre @ s # post
        \<and> (\<forall>src\<in>set pre. delivers readFile src = []) \<and> delivers readFile s \<noteq> []
        \<and> po_Origin pool = fst s \<and> po_Hellos pool = fst (largestBuild order (delivers readFile s))"
      then obtain pool pre s post where "fst (load_from order readFile srcs sk) = Some pool" "srcs = pre @ s # post"
        "\<forall>src\<in>set pre. delivers readFile src = []" "delivers readFile s \<noteq> []"
        "po_Origin pool = fst s" "po_Hellos pool = fst (largestBuild order (delivers readFile s))" by blast
      then show ?thesis
        using True step by (intro disjI2 exI [of _ pool] exI [of _ "src # pre"] exI [of _ s] exI [of _ post]) simp
    qed
  next
    case False
    then show ?thesis using step by (intro disjI2 exI conjI) (auto intro: exI [of _ "[]"])
  qed
qed simp

lemma kept_usable:
  assumes "visits order" and "\<forall>r\<in>set hs. \<exists>h. ParseClientHello r = Inr h" and "hs \<noteq> []"
  shows "Coherent (fst (largestBuild order hs)) = Inr () \<and> set (fst (largestBuild order hs)) \<subseteq> set hs"
proof -
  have "\<not> (\<forall>r\<in>set hs. build_of r = None)" using assms(2,3) by (cases hs) (auto simp: build_of_def)
  then obtain fp where "chosen hs fp" "largestBuild order hs = (of_build fp hs, length hs - length (of_build fp hs))"
    using largestBuild_cases [of order hs] assms(1) by auto
  then show ?thesis by (auto simp: Coherent_iff_aux chosen_def)
qed

text \<open>
  C31. What a loaded pool is. It holds one build and comes from one source, the first, of device and configuration,
  to deliver a usable record, and then every record of it is usable; the embedded snapshot only when neither
  delivers any and it is allowed.
\<close>

theorem LoadPool_source:
  assumes "visits order" and "LoadPool order readFile embeddedPool s = Loaded pool"
  shows "Coherent (po_Hellos pool) = Inr ()
     \<and> (case po_Origin pool of
          OriginDevice \<Rightarrow> set (po_Hellos pool) \<subseteq> set (fst (readPoolFile readFile (so_Device s)))
            \<and> list_all (\<lambda>r. Usable r = Inr ()) (po_Hellos pool)
        | OriginConfig \<Rightarrow> fst (readPoolFile readFile (so_Device s)) = []
            \<and> set (po_Hellos pool) \<subseteq> set (delivers readFile (OriginConfig, so_Config s, so_ConfigInline s))
            \<and> list_all (\<lambda>r. Usable r = Inr ()) (po_Hellos pool)
        | OriginEmbedded \<Rightarrow> so_AllowEmbedded s \<and> fst (readPoolFile readFile (so_Device s)) = []
            \<and> delivers readFile (OriginConfig, so_Config s, so_ConfigInline s) = []
            \<and> (\<exists>hs. DefaultPool embeddedPool = Inr hs \<and> set (po_Hellos pool) \<subseteq> set hs))"
proof -
  let ?dev = "(OriginDevice, so_Device s, [])" and ?cfg = "(OriginConfig, so_Config s, so_ConfigInline s)"
  have dev: "delivers readFile ?dev = fst (readPoolFile readFile (so_Device s))" by (simp add: delivers_def)
  have kept: "Coherent (fst (largestBuild order (delivers readFile src))) = Inr ()
      \<and> set (fst (largestBuild order (delivers readFile src))) \<subseteq> set (delivers readFile src)
      \<and> list_all (\<lambda>r. Usable r = Inr ()) (fst (largestBuild order (delivers readFile src)))"
    if "delivers readFile src \<noteq> []" for src
    using kept_usable [OF assms(1) _ that] delivers_usable [of readFile src] Usable_parses by (auto simp: list_all_iff)
  show ?thesis
    using load_from_spec [of order readFile "[?dev, ?cfg]" "[]"]
  proof
    assume none: "fst (load_from order readFile [?dev, ?cfg] []) = None \<and> (\<forall>src\<in>set [?dev, ?cfg]. delivers readFile src = [])"
    then have allowed: "so_AllowEmbedded s" using assms(2) by (auto simp: LoadPool_def split: prod.splits option.splits if_splits)
    then obtain hs where hs: "DefaultPool embeddedPool = Inr hs" "po_Hellos pool = fst (largestBuild order hs)" "po_Origin pool = OriginEmbedded"
      using none assms(2) by (auto simp: LoadPool_def split: prod.splits option.splits sum.splits)
    have "Coherent (po_Hellos pool) = Inr () \<and> set (po_Hellos pool) \<subseteq> set hs"
      unfolding hs(2) using ParsePool_parses hs(1) by (intro kept_usable [OF assms(1)]) (auto simp: DefaultPool_def)
    then show ?thesis using none allowed hs(1,3) dev by simp
  next
    assume "\<exists>pl pre src post. fst (load_from order readFile [?dev, ?cfg] []) = Some pl \<and> [?dev, ?cfg] = pre @ src # post
        \<and> (\<forall>src\<in>set pre. delivers readFile src = []) \<and> delivers readFile src \<noteq> []
        \<and> po_Origin pl = fst src \<and> po_Hellos pl = fst (largestBuild order (delivers readFile src))"
    then obtain pl pre src post where l: "fst (load_from order readFile [?dev, ?cfg] []) = Some pl" "[?dev, ?cfg] = pre @ src # post"
      "\<forall>src\<in>set pre. delivers readFile src = []" "delivers readFile src \<noteq> []"
      "po_Origin pl = fst src" "po_Hellos pl = fst (largestBuild order (delivers readFile src))" by blast
    have "pool = pl" using l(1) assms(2) by (auto simp: LoadPool_def split: prod.splits)
    moreover have "pre = [] \<and> src = ?dev \<or> pre = [?dev] \<and> src = ?cfg"
      using l(2) by (cases pre) (auto simp: Cons_eq_append_conv)
    ultimately show ?thesis using kept [OF l(4)] l(3,5,6) dev by auto
  qed
qed

text \<open>
  Preference is the order of the origins: as the sources are tried from the greatest down, no origin that delivers a
  record is greater than that of the pool that is loaded.
\<close>

lemma load_from_greatest:
  assumes "sorted_wrt (>) (map fst srcs)" and "fst (load_from order readFile srcs skipped) = Some pool"
    and "src \<in> set srcs" and "delivers readFile src \<noteq> []"
  shows "fst src \<le> po_Origin pool"
proof -
  obtain pre s post where s: "srcs = pre @ s # post" "\<forall>src\<in>set pre. delivers readFile src = []" "po_Origin pool = fst s"
    using load_from_spec [of order readFile srcs skipped] assms(2) by auto
  then have "src = s \<or> src \<in> set post" using assms(3,4) by auto
  then show ?thesis using assms(1) s(1,3) by (auto simp: sorted_wrt_append)
qed

lemma LoadPool_prefers:
  assumes "LoadPool order readFile embeddedPool s = Loaded pool"
    and "src \<in> {(OriginDevice, so_Device s, []), (OriginConfig, so_Config s, so_ConfigInline s)}" and "delivers readFile src \<noteq> []"
  shows "fst src \<le> po_Origin pool"
proof -
  let ?srcs = "[(OriginDevice, so_Device s, []), (OriginConfig, so_Config s, so_ConfigInline s)]"
  have "fst (load_from order readFile ?srcs []) \<noteq> None"
  proof
    assume "fst (load_from order readFile ?srcs []) = None"
    then have "\<forall>src\<in>set ?srcs. delivers readFile src = []" using load_from_spec [of order readFile ?srcs "[]"] by simp
    moreover have "src \<in> set ?srcs" using assms(2) by simp
    ultimately show False using assms(3) by blast
  qed
  then obtain pool' skipped where l: "load_from order readFile ?srcs [] = (Some pool', skipped)"
    by (cases "load_from order readFile ?srcs []") auto
  then have "fst (load_from order readFile ?srcs []) = Some pool" using assms(1) unfolding LoadPool_def l by simp
  moreover have "src \<in> set ?srcs" using assms(2) by simp
  moreover have "sorted_wrt (>) (map fst ?srcs)" by simp
  ultimately show ?thesis using load_from_greatest assms(3) by blast
qed

theorem LoadPool_source_witness:
  "\<exists>pool. LoadPool id (\<lambda>_. Contents (FormatPool [Marshal browser_hello])) []
       \<lparr>so_Device = [1], so_Config = [], so_ConfigInline = [], so_AllowEmbedded = False\<rparr> = Loaded pool
     \<and> Coherent (po_Hellos pool) = Inr () \<and> set (po_Hellos pool) \<subseteq> {Marshal browser_hello}"
proof -
  let ?rf = "\<lambda>_. Contents (FormatPool [Marshal browser_hello])"
  let ?s = "\<lparr>so_Device = [1], so_Config = [], so_ConfigInline = [], so_AllowEmbedded = False\<rparr>"
  have read: "readPoolFile ?rf [1] = ([Marshal browser_hello], [])"
    using browser_usable by (simp add: readPoolFile_def parsePool_FormatPool_aux)
  obtain best dropped where "largestBuild id [Marshal browser_hello] = (best, dropped)" by (metis surj_pair)
  then obtain pool where l: "LoadPool id ?rf [] ?s = Loaded pool" "po_Origin pool = OriginDevice"
    by (simp add: LoadPool_def read Let_def)
  show ?thesis using LoadPool_source [OF _ l(1)] l read by auto
qed

section \<open>Sanitising\<close>

text \<open>What is dropped, and what is left of the rest.\<close>

definition carried :: "Extension \<Rightarrow> bool" where
  "carried e \<longleftrightarrow> ExtType e \<noteq> ExtPreSharedKey \<and> ExtType e \<noteq> ExtEarlyData"

definition emptied :: "Extension \<Rightarrow> Extension" where
  "emptied e = (if ExtType e = ExtSessionTicket then Extension (ExtType e) [] else e)"

lemma Sanitize_eq: "Sanitize h = (if Find ExtServerName h = None then Inl (Err ''twiddle: hello has no server_name'')
    else bindE (SetSNI (replicate (length (SNI h)) 120) h) (\<lambda>h.
      Inr (h\<lparr>Extensions := map emptied (filter carried (Extensions h)), Random := replicate 32 0,
             SessionID := replicate (length (SessionID h)) 0\<rparr>)))"
proof -
  have "foldl (\<lambda>kept e. if ExtType e = ExtPreSharedKey \<or> ExtType e = ExtEarlyData then kept
          else if ExtType e = ExtSessionTicket then kept @ [Extension (ExtType e) []] else kept @ [e]) out es
      = out @ map emptied (filter carried es)" for out es
    by (induction es arbitrary: out) (simp_all add: carried_def emptied_def)
  then show ?thesis by (simp add: Sanitize_def Let_def)
qed

text \<open>Equal but for what a browser says of the site and of itself: the name, the tickets, the random bytes.\<close>

definition same_but_private :: "ClientHello \<Rightarrow> ClientHello \<Rightarrow> bool" where
  "same_but_private h h' \<longleftrightarrow> LegacyVersion h' = LegacyVersion h \<and> length (SessionID h') = length (SessionID h)
     \<and> CipherSuites h' = CipherSuites h \<and> Compression h' = Compression h
     \<and> (let public = \<lambda>e. if ExtType e = ExtServerName \<or> ExtType e = ExtSessionTicket then Extension (ExtType e) [] else e
        in map public (filter carried (Extensions h')) = map public (filter carried (Extensions h)))"

lemma sole_set_first: "sole u d h \<Longrightarrow> set_first u x (Extensions h) = map (\<lambda>e. if ExtType e = u then Extension u x else e) (Extensions h)"
proof -
  have "filter (\<lambda>e. ExtType e = u) es = [] \<Longrightarrow> map (\<lambda>e. if ExtType e = u then Extension u x else e) es = es" for es :: "Extension list"
    by (induction es) (auto split: if_splits)
  then have "filter (\<lambda>e. ExtType e = u) es = [Extension u d] \<Longrightarrow>
      set_first u x es = map (\<lambda>e. if ExtType e = u then Extension u x else e) es" for es
    by (induction es) (auto split: if_splits)
  then show "sole u d h \<Longrightarrow> ?thesis" by (simp add: sole_def)
qed

text \<open>
  C13. A sanitised hello keeps nothing private. It exists for a hello with one well-formed server name, and it
  is the same for any two hellos that differ only in the site's name (its length apart), the session
  tickets and pre-shared keys, early data, the random and the session id. So no byte of these reaches a pool file.
\<close>

theorem Sanitize_private:
  assumes "sole ExtServerName (sni_body a) h" and "sole ExtServerName (sni_body b) h'" and "length b = length a"
    and "length a \<le> 65530" and "same_but_private h h'"
  shows "\<exists>clean. Sanitize h = Inr clean \<and> Sanitize h' = Inr clean \<and> SNI clean = replicate (length a) 120
     \<and> Find ExtPreSharedKey clean = None \<and> Random clean = replicate 32 0 \<and> SessionID clean = replicate (length (SessionID h)) 0"
proof -
  let ?x = "sni_body (replicate (length a) 120)"
  let ?put = "\<lambda>e. if ExtType e = ExtServerName then Extension ExtServerName ?x else e"
  let ?public = "\<lambda>e. if ExtType e = ExtServerName \<or> ExtType e = ExtSessionTicket then Extension (ExtType e) [] else e"
  let ?clean = "h\<lparr>Extensions := map emptied (filter carried (map ?put (Extensions h))), Random := replicate 32 0,
      SessionID := replicate (length (SessionID h)) 0\<rparr>"
  have clean: "Sanitize g = Inr (g\<lparr>Extensions := map emptied (filter carried (map ?put (Extensions g))), Random := replicate 32 0,
      SessionID := replicate (length (SessionID g)) 0\<rparr>)"
    if "sole ExtServerName (sni_body c) g" "length c = length a" for c g
  proof -
    have f: "Find ExtServerName g = Some (Extension ExtServerName (sni_body c))" by (rule sole_Find [OF that(1)])
    have "SNI g = c" using SNI_of_body [of g] f that(2) assms(4) by fastforce
    then show ?thesis
      using f that(2) assms(4) sole_set_first [OF that(1), of ?x] by (simp add: Sanitize_eq SetSNI_eq SetExtData_def)
  qed
  have exts: "map emptied (filter carried (map ?put es)) = map (emptied \<circ> ?put) (map ?public (filter carried es))" for es
    by (induction es) (auto simp: carried_def emptied_def)
  have "map ?public (filter carried (Extensions h')) = map ?public (filter carried (Extensions h))"
    using assms(5) by (simp add: same_but_private_def Let_def)
  then have "Sanitize h' = Inr ?clean"
    using clean [OF assms(2,3)] assms(5) unfolding exts by (simp add: same_but_private_def)
  moreover have "SNI ?clean = replicate (length a) 120"
  proof -
    have "filter (\<lambda>e. ExtType e = ExtServerName) (map emptied (filter carried (map ?put es)))
        = map (\<lambda>_. Extension ExtServerName ?x) (filter (\<lambda>e. ExtType e = ExtServerName) es)" for es
      by (induction es) (auto simp: carried_def emptied_def)
    then have "sole ExtServerName ?x ?clean" using assms(1) by (simp add: sole_def)
    then show ?thesis using SNI_of_body [of ?clean] sole_Find assms(4) by fastforce
  qed
  moreover have "Find ExtPreSharedKey ?clean = None" by (auto simp: Find_None carried_def emptied_def)
  ultimately show ?thesis using clean [OF assms(1) refl] by auto
qed

theorem Sanitize_private_witness:
  "\<exists>clean. Sanitize (browser_hello\<lparr>Extensions := [Extension 0x0a0a [], Extension ExtServerName (sni_body [97, 46, 98]), Extension ExtSessionTicket [1, 2]]\<rparr>) = Inr clean
     \<and> Sanitize (browser_hello\<lparr>Random := replicate 32 5, Extensions := [Extension 0x0a0a [], Extension ExtServerName (sni_body [99, 46, 100]),
          Extension ExtSessionTicket [], Extension ExtPreSharedKey [3]]\<rparr>) = Inr clean \<and> SNI clean = [120, 120, 120]"
proof -
  let ?h = "browser_hello\<lparr>Extensions := [Extension 0x0a0a [], Extension ExtServerName (sni_body [97, 46, 98]), Extension ExtSessionTicket [1, 2]]\<rparr>"
  let ?h' = "browser_hello\<lparr>Random := replicate 32 5, Extensions := [Extension 0x0a0a [], Extension ExtServerName (sni_body [99, 46, 100]),
          Extension ExtSessionTicket [], Extension ExtPreSharedKey [3]]\<rparr>"
  have "sole ExtServerName (sni_body [97, 46, 98]) ?h" "sole ExtServerName (sni_body [99, 46, 100]) ?h'" by (simp_all add: sole_def)
  moreover have "same_but_private ?h ?h'" by (simp add: same_but_private_def carried_def)
  ultimately show ?thesis using Sanitize_private [of "[97, 46, 98]" ?h "[99, 46, 100]" ?h'] by (auto simp: numeral_3_eq_3)
qed

section \<open>Screening is enough, but for the key share\<close>

lemma Usable_shuffles: "Usable rec = Inr () \<Longrightarrow> ParseClientHello rec = Inr h \<Longrightarrow> shuffle_types (map ExtType (Extensions h))
    \<and> Find ExtServerName h \<noteq> None \<and> Find ExtPreSharedKey h = None"
proof -
  assume u: "Usable rec = Inr ()" "ParseClientHello rec = Inr h"
  then have c: "Find ExtServerName h \<noteq> None" "Find ExtPreSharedKey h = None" "3 \<le> length (Extensions h)"
    "IsGREASE (ExtType (Extensions h ! 0))" "IsGREASE (ExtType (Extensions h ! (length (Extensions h) - 1)))"
    by (auto simp: Usable_def split: if_splits)
  then have "0 < length (Extensions h)" "length (Extensions h) - 1 < length (Extensions h)" by linarith+
  then show ?thesis using c by (simp add: shuffle_types_def)
qed

text \<open>
  C34. What is screened in is emitted. A usable record whose one key_share has a 32-byte X25519 entry before any
  other X25519 entry goes through the whole of \<open>Twiddle\<close>, given entropy, on the resumption path for either
  binder, and on the full path with a full ticket and one outer ECH extension.
\<close>

theorem Usable_emits:
  assumes "Usable rec = Inr ()" and "ParseClientHello rec = Inr h" and "sole ExtKeyShare d h" and "share_ok d"
    and "kex_ok K" and "length (opt_CoverSNI opt) \<le> 65530"
    and "if opt_FullHandshake opt
         then (\<exists>e. sole ExtECH e h \<and> e \<noteq> [] \<and> e ! 0 = 0) \<and> length (cr_FullTicket (opt_Credential opt)) = FullTicketLen
         else opt_BinderLen opt = 32 \<or> opt_BinderLen opt = 48"
  shows "\<exists>r wire eph. \<forall>s. Twiddle K rec opt (r @ s) = Inr ((wire, eph), s)"
proof -
  have "emittable opt h" using Usable_shuffles [OF assms(1,2)] assms(3,4,6,7) by (auto simp: emittable_def)
  then obtain x where "yields (Twiddle K rec opt) x" using Twiddle_emits_aux [OF assms(2) _ assms(5)] unfolding can_def by blast
  then show ?thesis unfolding yields_def by (cases x) auto
qed

theorem Usable_emits_witness:
  "\<exists>r wire eph. \<forall>s. Twiddle kex_demo (Marshal browser_hello) (demo_opt True) (r @ s) = Inr ((wire, eph), s)"
  by (rule Usable_emits [OF browser_usable browser_hello_parses browser_hello_sole(1) browser_share_ok kex_demo_ok])
     (use browser_hello_sole(3) demo_cred_opens(4) in \<open>auto simp: demo_opt_def ech_body_def\<close>)

text \<open>
  Without that entry screening is not enough: this hello, with a key_share of no entries, is usable and can never be
  emitted, whatever the options and the entropy.
\<close>

definition shareless_hello :: ClientHello where
  "shareless_hello = small_hello\<lparr>Extensions := [Extension 0x0a0a [], Extension ExtServerName (sni_body [97, 46, 98]),
      Extension ExtKeyShare [0, 0], Extension 0x1a1a [0]]\<rparr>"

lemma shareless_parses: "ParseClientHello (Marshal shareless_hello) = Inr shareless_hello"
  by (rule parse_Marshal_wf) (simp add: wf_hello_def shareless_hello_def small_hello_def body_len_def hello_prefix_def sni_body_def)

lemma shareless_usable: "Usable (Marshal shareless_hello) = Inr ()"
  by (simp add: Usable_def shareless_parses) (simp add: shareless_hello_def Find_def IsGREASE_def)

lemma shareless_never_emitted:
  "Twiddle K (Marshal shareless_hello) opt t \<noteq> Inr x"
proof
  assume "Twiddle K (Marshal shareless_hello) opt t = Inr x"
  then obtain wire eph t' where tw: "Twiddle K (Marshal shareless_hello) opt t = Inr ((wire, eph), t')" by (metis surj_pair)
  obtain h0 h1 h2 h3 h4 t1 t2 t3 where s: "ParseClientHello (Marshal shareless_hello) = Inr h0"
    "h1 = h0 \<and> opt_CoverSNI opt = [] \<or> opt_CoverSNI opt \<noteq> [] \<and> SetSNI (opt_CoverSNI opt) h0 = Inr h1"
    "Rerandomize K h1 t = Inr (h2, t1)" "Shuffle h2 t1 = Inr (h3, t2)" "SetKeyShare K h3 t2 = Inr ((eph, h4), t3)"
    by (rule Twiddle_steps [OF tw])
  have "sole ExtKeyShare [0, 0] h0" using s(1) shareless_parses by (auto simp: sole_def shareless_hello_def)
  then have one: "sole ExtKeyShare [0, 0] h1" using s(2) sole_SetSNI by auto
  have ng: "\<not> IsGREASE ExtKeyShare" by (simp add: IsGREASE_def)
  have "replaceGREASEKeyShareGroup [0, 0] g = [0, 0]" for g
    unfolding replaceGREASEKeyShareGroup_def by (subst replace_group_loop.simps) simp
  moreover have "d = [0, 0]" if "rerandKeyShare K [0, 0] u = Inr (d, u')" for d u u'
    using that unfolding rerandKeyShare_def by (subst (asm) rerandKeyShare_loop.simps) (simp add: returnR_eq_Inr)
  ultimately have "sole ExtKeyShare [0, 0] h2" using sole_Rerandomize [OF s(3) ng _ one] by auto
  then have "Find ExtKeyShare h3 = Some (Extension ExtKeyShare [0, 0])" by (rule sole_Find [OF sole_Shuffle [OF s(4)]])
  moreover have "set_share_loop pub 2 [0, 0] = Inl (Err ''twiddle: hello offers no X25519 key_share'')" for pub
    by (subst set_share_loop.simps) simp
  ultimately show False
    using s(5) by (auto simp: SetKeyShare_def bindR_eq_Inr liftR_eq_Inr failR_eq_Inr)
qed

end
