(* ===== verification/Harvester.thy ===== *)
theory Harvester
  imports Pools "HOL-Library.Sublist"
begin

text \<open>
  \<^verbatim>\<open>src/harvester.go\<close>: the device pool that grows from tapped hellos. \<open>Offer\<close> is its critical section, a
  function from the harvester and a record to the answer, the snapshot to write if it accepted, and the
  harvester after; theory \<open>Pool_File\<close> has the writing. The facts: what every reachable harvester satisfies,
  that nothing is kept twice, that the samples held aside are bounded, and how the bound can starve a build.
\<close>

section \<open>The harvester\<close>

abbreviation DefaultHarvestMax :: nat where "DefaultHarvestMax \<equiv> 32"

record Harvester =
  hv_path :: bytes
  hv_max :: nat
  hv_hellos :: "bytes list"
  hv_keys :: "bytes set"
  hv_pending :: "bytes list"
  hv_pendingKeys :: "bytes set"

text \<open>The set of contribution keys of a list of records, built in a loop.\<close>

definition keys_of :: "bytes list \<Rightarrow> bytes set" where
  "keys_of hellos = foldl (\<lambda>keys r. case contributionKey r of None \<Rightarrow> keys | Some k \<Rightarrow> insert k keys) {} hellos"

fun take_existing :: "nat \<Rightarrow> bytes list \<Rightarrow> Harvester \<Rightarrow> Harvester" where
  "take_existing maxi [] h = h"
| "take_existing maxi (rec # recs) h =
     (if maxi \<le> length (hv_hellos h) then h
      else take_existing maxi recs (case contributionKey rec of
          None \<Rightarrow> h
        | Some k \<Rightarrow> if k \<in> hv_keys h then h
                     else h\<lparr>hv_keys := insert k (hv_keys h), hv_hellos := hv_hellos h @ [rec]\<rparr>))"

definition NewHarvester :: "(bytes \<Rightarrow> file_read) \<Rightarrow> bytes \<Rightarrow> int \<Rightarrow> Harvester" where
  "NewHarvester readFile path maxi =
     (let maxi = (if maxi \<le> 0 then DefaultHarvestMax else nat maxi);
          h = \<lparr>hv_path = path, hv_max = maxi, hv_hellos = [], hv_keys = {}, hv_pending = [], hv_pendingKeys = {}\<rparr>;
          (existing, _) = readPoolFile readFile path
      in take_existing maxi existing h)"

definition Len :: "Harvester \<Rightarrow> nat" where
  "Len h = length (hv_hellos h)"

section \<open>Samples held aside\<close>

definition pendingBudget :: "Harvester \<Rightarrow> nat" where
  "pendingBudget h = hv_max h + 1"

definition index_groups :: "bytes list \<Rightarrow> (bytes \<times> nat list) list" where
  "index_groups pending = foldl (\<lambda>groups (i, rec). add_group (recordBuild rec) i groups) [] (enumerate 0 pending)"

text \<open>One turn of the loop that picks the victim.\<close>

definition pick_victim :: "(bytes \<times> nat list) list \<Rightarrow> bytes \<Rightarrow> bytes \<Rightarrow> bytes" where
  "pick_victim groups victim fp =
     (if victim = [] \<or> length (group_of groups fp) < length (group_of groups victim)
         \<or> length (group_of groups fp) = length (group_of groups victim) \<and> fp < victim
      then fp else victim)"

lemma index_groups_bound: "i \<in> set (group_of (index_groups pending) fp) \<Longrightarrow> i < length pending"
proof -
  have "\<forall>fp. \<forall>i\<in>set (group_of (foldl (\<lambda>groups (i, rec). add_group (recordBuild rec) i groups) [] (enumerate 0 pending)) fp).
      i < length pending"
  proof (induction pending rule: rev_induct)
    case (snoc r rs)
    then show ?case
      by (fastforce simp: enumerate_append_eq map_of_add_group split: if_splits option.splits)
  qed simp
  then show "i \<in> set (group_of (index_groups pending) fp) \<Longrightarrow> ?thesis" by (simp add: index_groups_def)
qed

text \<open>
  The loop. \<open>order\<close> is the order in which the map of groups is visited. The victim's group is never empty when
  the map is visited in full; on an empty one Go's index expression would panic, and the model stops.
\<close>

function trimPendingLocked :: "(bytes list \<Rightarrow> bytes list) \<Rightarrow> Harvester \<Rightarrow> Harvester" where
  "trimPendingLocked order h =
     (if length (hv_pending h) \<le> pendingBudget h then h
      else let groups = index_groups (hv_pending h);
               victim = foldl (pick_victim groups) [] (order (map fst groups))
           in case group_of groups victim of
                [] \<Rightarrow> h
              | d # _ \<Rightarrow> trimPendingLocked order
                  (h\<lparr>hv_pendingKeys := (case contributionKey (hv_pending h ! d) of
                        None \<Rightarrow> hv_pendingKeys h | Some k \<Rightarrow> hv_pendingKeys h - {k}),
                     hv_pending := take d (hv_pending h) @ drop (d + 1) (hv_pending h)\<rparr>))"
  by pat_completeness auto
termination
proof (relation "measure (\<lambda>(order, h). length (hv_pending h))")
  fix order h groups victim d rest
  assume "groups = index_groups (hv_pending h)" and "group_of groups victim = d # rest"
  then have "d < length (hv_pending h)" using index_groups_bound [of d "hv_pending h" victim] by simp
  then show "((order, h\<lparr>hv_pendingKeys := (case contributionKey (hv_pending h ! d) of
                        None \<Rightarrow> hv_pendingKeys h | Some k \<Rightarrow> hv_pendingKeys h - {k}),
                     hv_pending := take d (hv_pending h) @ drop (d + 1) (hv_pending h)\<rparr>), order, h)
      \<in> measure (\<lambda>(order, h). length (hv_pending h))"
    by simp
qed simp

declare trimPendingLocked.simps [simp del]

section \<open>Offers\<close>

text \<open>What an offered record becomes before anything is kept: sanitised, re-serialised, screened, keyed.\<close>

definition offer_clean :: "bytes \<Rightarrow> (bytes \<times> bytes) option" where
  "offer_clean rec =
     (case ParseClientHello rec of
        Inl _ \<Rightarrow> None
      | Inr parsed \<Rightarrow> (case Sanitize parsed of
          Inl _ \<Rightarrow> None
        | Inr parsed \<Rightarrow>
            let clean = Marshal parsed
            in case Usable clean of
                 Inl _ \<Rightarrow> None
               | Inr _ \<Rightarrow> (case contributionKey clean of None \<Rightarrow> None | Some key \<Rightarrow> Some (clean, key))))"

text \<open>Back to the bound, the oldest out; the code has these lines twice.\<close>

definition keep_newest :: "Harvester \<Rightarrow> Harvester" where
  "keep_newest h =
     (if hv_max h < length (hv_hellos h)
      then let hellos = drop (length (hv_hellos h) - hv_max h) (hv_hellos h)
           in h\<lparr>hv_hellos := hellos, hv_keys := keys_of hellos\<rparr>
      else h)"

text \<open>
  The answer, what \<^verbatim>\<open>writePoolFile\<close> is then called with, if it is called, and the harvester. \<open>order\<close> and \<open>vorder\<close> are
  the orders in which the maps of \<open>largestBuild\<close> and of \<open>trimPendingLocked\<close> are visited.
\<close>

definition Offer :: "(bytes list \<Rightarrow> bytes list) \<Rightarrow> (bytes list \<Rightarrow> bytes list) \<Rightarrow> bytes \<Rightarrow> Harvester
    \<Rightarrow> bool \<times> bytes list option \<times> Harvester" where
  "Offer order vorder rec h =
     (case offer_clean rec of
        None \<Rightarrow> (False, None, h)
      | Some (clean, key) \<Rightarrow>
          if key \<in> hv_keys h then (False, None, h)
          else let newFP = recordBuild clean;
                   curFP = (if 0 < length (hv_hellos h) then recordBuild (hv_hellos h ! 0) else [])
               in if length (hv_hellos h) = 0 \<or> newFP = curFP
                  then let h = keep_newest (h\<lparr>hv_hellos := hv_hellos h @ [clean], hv_keys := insert key (hv_keys h)\<rparr>)
                       in (True, Some (hv_hellos h), h)
                  else if key \<in> hv_pendingKeys h then (False, None, h)
                  else let h = h\<lparr>hv_pending := hv_pending h @ [clean], hv_pendingKeys := insert key (hv_pendingKeys h)\<rparr>;
                           (best, _) = largestBuild order (hv_pending h)
                       in if length best \<le> length (hv_hellos h)
                          then (False, None, trimPendingLocked vorder h)
                          else let h = keep_newest (h\<lparr>hv_hellos := best, hv_keys := keys_of best,
                                        hv_pending := [], hv_pendingKeys := {}\<rparr>)
                               in (True, Some (hv_hellos h), h))"

section \<open>Keys and builds of usable records\<close>

lemma keys_of_eq: "keys_of hs = {k. \<exists>r\<in>set hs. contributionKey r = Some k}"
proof -
  have "foldl (\<lambda>keys r. case contributionKey r of None \<Rightarrow> keys | Some k \<Rightarrow> insert k keys) K hs
      = K \<union> {k. \<exists>r\<in>set hs. contributionKey r = Some k}" for K
    by (induction hs arbitrary: K) (auto split: option.splits)
  then show ?thesis by (simp add: keys_of_def)
qed

lemma keys_of_simps [simp]: "keys_of [] = {}" "contributionKey r = Some k \<Longrightarrow> keys_of (hs @ [r]) = insert k (keys_of hs)"
  by (auto simp: keys_of_eq)

lemma usable_key: "Usable r = Inr () \<Longrightarrow> \<exists>k. contributionKey r = Some k"
  by (auto simp: contributionKey_def dest: Usable_parses)

lemma usable_build: "Usable r = Inr () \<Longrightarrow> build_of r = Some (recordBuild r)"
  by (auto simp: build_of_def recordBuild_def dest!: Usable_parses)

lemma recordBuild_nonempty: "Usable r = Inr () \<Longrightarrow> recordBuild r \<noteq> []"
proof -
  assume u: "Usable r = Inr ()"
  have "take 8 (sha256 x) \<noteq> []" for x by (metis length_sha256 length_take list.size(3) min_def not_numeral_le_zero zero_neq_numeral)
  then show ?thesis using Usable_parses [OF u] by (auto simp: recordBuild_def fingerprintIgnoringECHLength_def Fingerprint_def)
qed

lemma offer_clean_Some: "offer_clean rec = Some (clean, key) \<Longrightarrow> Usable clean = Inr () \<and> contributionKey clean = Some key"
  by (auto simp: offer_clean_def Let_def split: sum.splits option.splits)

text \<open>A list of usable records without two of one contribution, and the set of their keys.\<close>

definition keyed :: "bytes list \<Rightarrow> bytes set \<Rightarrow> bool" where
  "keyed rs keys \<longleftrightarrow> (\<forall>r\<in>set rs. Usable r = Inr ()) \<and> distinct (map contributionKey rs) \<and> keys = keys_of rs"

lemma keyed_snoc: "keyed rs keys \<Longrightarrow> Usable r = Inr () \<Longrightarrow> contributionKey r = Some k \<Longrightarrow> k \<notin> keys \<Longrightarrow>
    keyed (rs @ [r]) (insert k keys)"
  by (auto simp: keyed_def keys_of_eq image_iff)

lemma keyed_parts:
  assumes "keyed rs keys" and "set rs' \<subseteq> set rs" and "distinct (map contributionKey rs')"
  shows "keyed rs' (keys_of rs')"
  using assms by (auto simp: keyed_def)

lemma keyed_drop: "keyed rs keys \<Longrightarrow> keyed (drop n rs) (keys_of (drop n rs))"
  by (rule keyed_parts) (auto simp: keyed_def drop_map [symmetric] dest: in_set_dropD)

lemma keyed_filter: "keyed rs keys \<Longrightarrow> keyed (filter P rs) (keys_of (filter P rs))"
  by (rule keyed_parts) (auto simp: keyed_def distinct_map_filter)

lemma keyed_remove:
  assumes "keyed rs keys" and "d < length rs" and "contributionKey (rs ! d) = Some k"
  shows "keyed (take d rs @ drop (d + 1) rs) (keys - {k})"
proof -
  define xs ys where "xs = take d rs" and "ys = drop (d + 1) rs"
  have rs: "rs = xs @ rs ! d # ys" using assms(2) by (simp add: xs_def ys_def id_take_nth_drop)
  have us: "\<forall>r\<in>set rs. Usable r = Inr ()" and dis: "distinct (map contributionKey rs)" and keys: "keys = keys_of rs"
    using assms(1) by (auto simp: keyed_def)
  have "distinct (map contributionKey (xs @ ys))" using dis by (subst (asm) rs) auto
  moreover have "set (xs @ ys) \<subseteq> set rs" by (subst rs) auto
  ultimately have "keyed (xs @ ys) (keys_of (xs @ ys))" using keyed_parts [OF assms(1)] by blast
  moreover have "keys_of (xs @ ys) = keys - {k}"
  proof -
    have "Some k \<notin> contributionKey ` set (xs @ ys)" using dis assms(3) by (subst (asm) rs) auto
    then have "\<And>r. r \<in> set (xs @ ys) \<Longrightarrow> contributionKey r \<noteq> Some k" by force
    moreover have "set rs = insert (rs ! d) (set (xs @ ys))" by (subst rs) auto
    ultimately show ?thesis using assms(3) unfolding keys keys_of_eq by auto
  qed
  ultimately show ?thesis by (simp add: xs_def ys_def)
qed

section \<open>Trimming\<close>

lemma index_groups_snoc: "index_groups (rs @ [r]) = add_group (recordBuild r) (length rs) (index_groups rs)"
  by (simp add: index_groups_def enumerate_append_eq)

abbreviation places :: "bytes \<Rightarrow> bytes list \<Rightarrow> nat list" where
  "places fp rs \<equiv> filter (\<lambda>i. recordBuild (rs ! i) = fp) [0..<length rs]"

lemma index_groups_spec: "map_of (index_groups rs) fp = (if places fp rs = [] then None else Some (places fp rs))"
proof (induction rs arbitrary: fp rule: rev_induct)
  case Nil
  then show ?case by (simp add: index_groups_def)
next
  case (snoc r rs)
  have "places fp (rs @ [r]) = places fp rs @ (if recordBuild r = fp then [length rs] else [])" for fp
    by (auto simp: nth_append intro!: filter_cong)
  then show ?case using snoc by (auto simp: index_groups_snoc map_of_add_group simp del: map_of_eq_Some_iff upt_Suc)
qed

lemma group_of_index: "group_of (index_groups rs) fp = places fp rs"
  by (simp add: index_groups_spec)

lemma keys_index: "set (map fst (index_groups rs)) = recordBuild ` set rs"
proof -
  have "fp \<in> set (map fst (index_groups rs)) \<longleftrightarrow> places fp rs \<noteq> []" for fp
    using map_of_eq_None_iff [of "index_groups rs" fp] unfolding index_groups_spec by (auto split: if_splits)
  also have "places fp rs \<noteq> [] \<longleftrightarrow> fp \<in> recordBuild ` set rs" for fp
    by (auto simp: filter_empty_conv set_conv_nth)
  finally show ?thesis by blast
qed

text \<open>The victim is the least of the smallest groups, whatever the order of the visit.\<close>

abbreviation rank :: "bytes list \<Rightarrow> bytes \<Rightarrow> nat \<times> bytes" where
  "rank rs fp \<equiv> (length (places fp rs), fp)"

definition least_group :: "bytes list \<Rightarrow> bytes \<Rightarrow> bool" where
  "least_group rs v \<longleftrightarrow> v \<in> recordBuild ` set rs \<and> (\<forall>fp\<in>recordBuild ` set rs. rank rs v \<le> rank rs fp)"

lemma pick_victim_rank: "victim \<noteq> [] \<Longrightarrow> pick_victim (index_groups rs) victim fp = (if rank rs fp < rank rs victim then fp else victim)"
  by (auto simp: pick_victim_def group_of_index)

lemma pick_victims: "ks \<noteq> [] \<Longrightarrow> [] \<notin> set ks \<Longrightarrow> (let v = foldl (pick_victim (index_groups rs)) [] ks
    in v \<in> set ks \<and> (\<forall>fp\<in>set ks. rank rs v \<le> rank rs fp))"
proof (induction ks rule: rev_induct)
  case (snoc k ks)
  show ?case
  proof (cases "ks = []")
    case True
    then show ?thesis by (simp add: pick_victim_def)
  next
    case False
    define v where "v = foldl (pick_victim (index_groups rs)) [] ks"
    have v: "v \<in> set ks" "\<forall>fp\<in>set ks. rank rs v \<le> rank rs fp" using snoc False by (auto simp: v_def Let_def)
    then have "v \<noteq> []" using snoc.prems by auto
    have F: "foldl (pick_victim (index_groups rs)) [] (ks @ [k]) = (if rank rs k < rank rs v then k else v)"
      using pick_victim_rank [OF \<open>v \<noteq> []\<close>, of rs k] by (simp add: v_def)
    show ?thesis
    proof (cases "rank rs k < rank rs v")
      case True
      then have "\<forall>fp\<in>set ks. rank rs k \<le> rank rs fp" using v(2) less_imp_le order_trans by meson
      then show ?thesis unfolding F Let_def if_P [OF True] by simp
    next
      case N: False
      then have "rank rs v \<le> rank rs k" by (meson not_less)
      then show ?thesis unfolding F Let_def if_not_P [OF N] using v by simp
    qed
  qed
qed simp

lemma victim_least:
  assumes "visits order" and "rs \<noteq> []" and "[] \<notin> recordBuild ` set rs"
  shows "least_group rs (foldl (pick_victim (index_groups rs)) [] (order (map fst (index_groups rs))))"
proof -
  have set: "set (order (map fst (index_groups rs))) = recordBuild ` set rs"
    using arg_cong [OF assms(1) [rule_format, of "map fst (index_groups rs)"], of set_mset] keys_index [of rs] by simp
  then have "order (map fst (index_groups rs)) \<noteq> []" using assms(2) by auto
  from pick_victims [OF this, of rs] show ?thesis using assms(3) unfolding set least_group_def Let_def by blast
qed

text \<open>The reference: the victim's build, and the list without the oldest sample of it.\<close>

definition smallest_group :: "bytes list \<Rightarrow> bytes" where
  "smallest_group rs = snd (Min ((\<lambda>r. rank rs (recordBuild r)) ` set rs))"

definition evict_oldest :: "bytes list \<Rightarrow> bytes list" where
  "evict_oldest rs = (case find (\<lambda>r. recordBuild r = smallest_group rs) rs of None \<Rightarrow> rs | Some r \<Rightarrow> remove1 r rs)"

lemma least_group_smallest: "least_group rs v \<Longrightarrow> smallest_group rs = v"
proof -
  assume l: "least_group rs v"
  then have "Min ((\<lambda>r. rank rs (recordBuild r)) ` set rs) = rank rs v"
    unfolding least_group_def by (intro Min_eqI) (auto simp del: less_eq_prod_simp)
  then show ?thesis by (simp add: smallest_group_def)
qed

lemma remove_first:
  "d < length rs \<Longrightarrow> P (rs ! d) \<Longrightarrow> \<forall>i<d. \<not> P (rs ! i) \<Longrightarrow>
    find P rs = Some (rs ! d) \<and> remove1 (rs ! d) rs = take d rs @ drop (d + 1) rs"
proof (induction rs arbitrary: d)
  case (Cons r rs)
  show ?case
  proof (cases d)
    case (Suc d')
    have "\<forall>i<d'. \<not> P (rs ! i)" using Cons.prems(3) Suc by auto
    moreover have "\<not> P r" using Cons.prems(3) Suc by auto
    ultimately show ?thesis using Cons Suc by auto
  qed (use Cons in auto)
qed simp

text \<open>One turn: the oldest sample of the least group goes.\<close>

lemma trim_step:
  assumes "visits order" and "\<forall>r\<in>set (hv_pending h). Usable r = Inr ()" and "pendingBudget h < length (hv_pending h)"
  obtains d k where "d < length (hv_pending h)" "recordBuild (hv_pending h ! d) = smallest_group (hv_pending h)"
    "least_group (hv_pending h) (smallest_group (hv_pending h))" "contributionKey (hv_pending h ! d) = Some k"
    "evict_oldest (hv_pending h) = take d (hv_pending h) @ drop (d + 1) (hv_pending h)"
    "trimPendingLocked order h = trimPendingLocked order (h\<lparr>hv_pendingKeys := hv_pendingKeys h - {k},
        hv_pending := evict_oldest (hv_pending h)\<rparr>)"
proof -
  let ?rs = "hv_pending h"
  define v where "v = foldl (pick_victim (index_groups ?rs)) [] (order (map fst (index_groups ?rs)))"
  have ne: "?rs \<noteq> []" using assms(3) by auto
  have us: "Usable r = Inr ()" if "r \<in> set ?rs" for r using assms(2) that by blast
  then have "[] \<notin> recordBuild ` set ?rs" by (metis imageE recordBuild_nonempty)
  from victim_least [OF assms(1) ne this] have least: "least_group ?rs v" unfolding v_def .
  then obtain i where "i < length ?rs" "recordBuild (?rs ! i) = v" by (auto simp: least_group_def in_set_conv_nth)
  then have "i \<in> set (places v ?rs)" by simp
  then obtain d rest where d: "places v ?rs = d # rest" by (cases "places v ?rs") auto
  then have "d \<in> set (places v ?rs)" by simp
  then have dm: "d < length ?rs" "recordBuild (?rs ! d) = v" by auto
  then obtain k where k: "contributionKey (?rs ! d) = Some k" using us usable_key by fastforce
  have before: "\<forall>i<d. recordBuild (?rs ! i) \<noteq> v"
  proof (intro allI impI notI)
    fix i
    assume i: "i < d" "recordBuild (?rs ! i) = v"
    then have "i \<in> set (d # rest)" using dm unfolding d [symmetric] by auto
    moreover have "sorted (d # rest)" unfolding d [symmetric] by (simp add: sorted_wrt_filter)
    ultimately show False using i(1) by auto
  qed
  have v: "smallest_group ?rs = v" by (rule least_group_smallest [OF least])
  have e: "evict_oldest ?rs = take d ?rs @ drop (d + 1) ?rs"
    using remove_first [of d ?rs "\<lambda>r. recordBuild r = v"] dm before by (simp add: evict_oldest_def v)
  have "trimPendingLocked order h = trimPendingLocked order (h\<lparr>hv_pendingKeys := hv_pendingKeys h - {k},
        hv_pending := evict_oldest ?rs\<rparr>)"
    unfolding e by (subst trimPendingLocked.simps, unfold Let_def v_def [symmetric] group_of_index d)
       (use assms(3) k in \<open>simp del: trimPendingLocked.simps\<close>)
  then show thesis by (intro that [OF dm(1) _ _ k e]) (simp_all only: v dm(2) least)
qed

lemma trim_pending_aux:
  assumes "visits order" and "\<forall>r\<in>set (hv_pending h). Usable r = Inr ()"
  shows "hv_pending (trimPendingLocked order h) = (evict_oldest ^^ (length (hv_pending h) - pendingBudget h)) (hv_pending h)
     \<and> length (hv_pending (trimPendingLocked order h)) = min (length (hv_pending h)) (pendingBudget h)"
  using assms(2)
proof (induction "length (hv_pending h)" arbitrary: h rule: less_induct)
  case less
  show ?case
  proof (cases "pendingBudget h < length (hv_pending h)")
    case True
    obtain d k where d: "d < length (hv_pending h)"
      "evict_oldest (hv_pending h) = take d (hv_pending h) @ drop (d + 1) (hv_pending h)"
      "trimPendingLocked order h = trimPendingLocked order (h\<lparr>hv_pendingKeys := hv_pendingKeys h - {k},
        hv_pending := evict_oldest (hv_pending h)\<rparr>)"
      by (rule trim_step [OF assms(1) less.prems True]) blast
    define h' where "h' = h\<lparr>hv_pendingKeys := hv_pendingKeys h - {k}, hv_pending := evict_oldest (hv_pending h)\<rparr>"
    have t: "trimPendingLocked order h = trimPendingLocked order h'" using d(3) by (simp add: h'_def)
    have len: "Suc (length (hv_pending h')) = length (hv_pending h)" using d(1,2) by (simp add: h'_def)
    have "set (hv_pending h') \<subseteq> set (hv_pending h)" using d(2) by (auto simp: h'_def dest: in_set_takeD in_set_dropD)
    then have us: "\<forall>r\<in>set (hv_pending h'). Usable r = Inr ()" using less.prems by blast
    have b: "pendingBudget h' = pendingBudget h" by (simp add: h'_def pendingBudget_def)
    have n: "length (hv_pending h) - pendingBudget h = Suc (length (hv_pending h') - pendingBudget h')" using len True b by simp
    have p: "hv_pending h' = evict_oldest (hv_pending h)" by (simp add: h'_def)
    have ih: "hv_pending (trimPendingLocked order h') = (evict_oldest ^^ (length (hv_pending h') - pendingBudget h')) (hv_pending h')"
      "length (hv_pending (trimPendingLocked order h')) = min (length (hv_pending h')) (pendingBudget h')"
      using less.hyps [OF _ us] len by auto
    have "(evict_oldest ^^ (length (hv_pending h) - pendingBudget h)) (hv_pending h)
        = (evict_oldest ^^ (length (hv_pending h') - pendingBudget h')) (hv_pending h')"
      unfolding n funpow_Suc_right comp_def p ..
    moreover have "length (hv_pending (trimPendingLocked order h')) = min (length (hv_pending h)) (pendingBudget h)"
      unfolding ih(2) b using len True by simp
    ultimately show ?thesis unfolding t using ih(1) by simp
  qed (simp add: trimPendingLocked.simps)
qed

lemma trim_kept:
  assumes "visits order" and "keyed (hv_pending h) (hv_pendingKeys h)"
  shows "keyed (hv_pending (trimPendingLocked order h)) (hv_pendingKeys (trimPendingLocked order h))
     \<and> hv_hellos (trimPendingLocked order h) = hv_hellos h \<and> hv_keys (trimPendingLocked order h) = hv_keys h
     \<and> hv_max (trimPendingLocked order h) = hv_max h \<and> hv_path (trimPendingLocked order h) = hv_path h"
  using assms(2)
proof (induction "length (hv_pending h)" arbitrary: h rule: less_induct)
  case less
  show ?case
  proof (cases "pendingBudget h < length (hv_pending h)")
    case True
    have us: "\<forall>r\<in>set (hv_pending h). Usable r = Inr ()" using less.prems by (simp add: keyed_def)
    obtain d k where d: "d < length (hv_pending h)" "contributionKey (hv_pending h ! d) = Some k"
      "evict_oldest (hv_pending h) = take d (hv_pending h) @ drop (d + 1) (hv_pending h)"
      "trimPendingLocked order h = trimPendingLocked order (h\<lparr>hv_pendingKeys := hv_pendingKeys h - {k},
        hv_pending := evict_oldest (hv_pending h)\<rparr>)"
      by (rule trim_step [OF assms(1) us True]) blast
    define h' where "h' = h\<lparr>hv_pendingKeys := hv_pendingKeys h - {k}, hv_pending := evict_oldest (hv_pending h)\<rparr>"
    have t: "trimPendingLocked order h = trimPendingLocked order h'" using d(4) by (simp add: h'_def)
    have "length (hv_pending h') < length (hv_pending h)" using d(1,3) by (simp add: h'_def)
    moreover have "keyed (hv_pending h') (hv_pendingKeys h')"
      using keyed_remove [OF less.prems d(1,2)] d(3) by (simp add: h'_def)
    ultimately show ?thesis using less.hyps [of h'] unfolding t by (simp add: h'_def)
  qed (use less.prems in \<open>simp add: trimPendingLocked.simps\<close>)
qed

section \<open>Samples of one build\<close>

abbreviation samples :: "bytes \<Rightarrow> bytes list \<Rightarrow> bytes list" where
  "samples fp rs \<equiv> filter (\<lambda>r. recordBuild r = fp) rs"

lemma length_places: "length (places fp rs) = length (samples fp rs)"
proof (induction rs rule: rev_induct)
  case (snoc r rs)
  have "places fp (rs @ [r]) = places fp rs @ (if recordBuild r = fp then [length rs] else [])"
    by (auto simp: nth_append intro!: filter_cong)
  then show ?case using snoc by simp
qed simp

lemma of_build_samples: "\<forall>r\<in>set rs. Usable r = Inr () \<Longrightarrow> of_build fp rs = samples fp rs"
  by (auto simp: usable_build intro!: filter_cong)

text \<open>A build with the most samples keeps them all.\<close>

lemma evict_keeps: "fp \<noteq> smallest_group rs \<Longrightarrow> samples fp (evict_oldest rs) = samples fp rs"
proof -
  have *: "\<not> P r \<Longrightarrow> filter P (remove1 r rs) = filter P rs" for P and r :: bytes by (induction rs) auto
  assume "fp \<noteq> smallest_group rs"
  then show ?thesis by (auto simp: evict_oldest_def find_Some_iff split: option.split intro!: *)
qed

lemma evict_shrinks: "length (samples fp (evict_oldest rs)) \<le> length (samples fp rs)"
proof -
  have "length (filter P (remove1 r rs)) \<le> length (filter P rs)" for P and r :: bytes by (induction rs) auto
  then show ?thesis by (simp add: evict_oldest_def split: option.split)
qed

definition leader :: "bytes list \<Rightarrow> bytes \<Rightarrow> bool" where
  "leader rs fp \<longleftrightarrow> (\<forall>r\<in>set rs. recordBuild r \<noteq> fp \<longrightarrow> length (samples (recordBuild r) rs) < length (samples fp rs))"

lemma leader_kept_aux:
  assumes "visits order" and "\<forall>r\<in>set (hv_pending h). Usable r = Inr ()" and "leader (hv_pending h) fp"
    and "length (samples fp (hv_pending h)) \<le> pendingBudget h"
  shows "samples fp (hv_pending (trimPendingLocked order h)) = samples fp (hv_pending h)"
  using assms(2-)
proof (induction "length (hv_pending h)" arbitrary: h rule: less_induct)
  case less
  show ?case
  proof (cases "pendingBudget h < length (hv_pending h)")
    case True
    let ?rs = "hv_pending h"
    obtain d k where d: "d < length ?rs" "least_group ?rs (smallest_group ?rs)"
      "evict_oldest ?rs = take d ?rs @ drop (d + 1) ?rs"
      "trimPendingLocked order h = trimPendingLocked order (h\<lparr>hv_pendingKeys := hv_pendingKeys h - {k}, hv_pending := evict_oldest ?rs\<rparr>)"
      by (rule trim_step [OF assms(1) less.prems(1) True]) blast
    define h' where "h' = h\<lparr>hv_pendingKeys := hv_pendingKeys h - {k}, hv_pending := evict_oldest ?rs\<rparr>"
    have t: "trimPendingLocked order h = trimPendingLocked order h'" using d(4) by (simp add: h'_def)
    have len: "length (hv_pending h') < length ?rs" using d(1,3) by (simp add: h'_def)
    have sub: "set (hv_pending h') \<subseteq> set ?rs" using d(3) by (auto simp: h'_def dest: in_set_takeD in_set_dropD)
    have "\<not> (\<forall>r\<in>set ?rs. recordBuild r = fp)"
    proof
      assume "\<forall>r\<in>set ?rs. recordBuild r = fp"
      then have "samples fp ?rs = ?rs" by (rule filter_True)
      then show False using True less.prems(3) by simp
    qed
    then obtain r where r: "r \<in> set ?rs" "recordBuild r \<noteq> fp" by blast
    have ne: "fp \<noteq> smallest_group ?rs"
    proof
      assume "fp = smallest_group ?rs"
      then have "rank ?rs fp \<le> rank ?rs (recordBuild r)" using d(2) r(1) by (auto simp: least_group_def simp del: less_eq_prod_simp)
      moreover have "length (samples (recordBuild r) ?rs) < length (samples fp ?rs)" using less.prems(2) r by (simp add: leader_def)
      ultimately show False by (auto simp: length_places)
    qed
    have keep: "samples fp (hv_pending h') = samples fp ?rs" using evict_keeps [OF ne] by (simp add: h'_def)
    have "leader (hv_pending h') fp"
      unfolding leader_def keep
    proof (intro ballI impI)
      fix r
      assume "r \<in> set (hv_pending h')" "recordBuild r \<noteq> fp"
      then have "length (samples (recordBuild r) ?rs) < length (samples fp ?rs)" using less.prems(2) sub unfolding leader_def by blast
      then show "length (samples (recordBuild r) (hv_pending h')) < length (samples fp ?rs)"
        using evict_shrinks [of "recordBuild r" ?rs] by (simp add: h'_def)
    qed
    moreover have "\<forall>r\<in>set (hv_pending h'). Usable r = Inr ()" using less.prems(1) sub by blast
    moreover have "length (samples fp (hv_pending h')) \<le> pendingBudget h'" using less.prems(3) keep by (simp add: h'_def pendingBudget_def)
    ultimately show ?thesis using less.hyps [OF len] keep unfolding t by simp
  qed (simp add: trimPendingLocked.simps)
qed

section \<open>The invariant\<close>

definition harv_ok :: "Harvester \<Rightarrow> bool" where
  "harv_ok h \<longleftrightarrow> 1 \<le> hv_max h
     \<and> keyed (hv_hellos h) (hv_keys h) \<and> length (hv_hellos h) \<le> hv_max h
     \<and> keyed (hv_pending h) (hv_pendingKeys h) \<and> length (hv_pending h) \<le> pendingBudget h
     \<and> (\<forall>fp. length (samples fp (hv_pending h)) \<le> length (hv_hellos h))"

lemma harv_okD:
  assumes "harv_ok h"
  shows "1 \<le> hv_max h" "keyed (hv_hellos h) (hv_keys h)" "length (hv_hellos h) \<le> hv_max h"
    "keyed (hv_pending h) (hv_pendingKeys h)" "length (hv_pending h) \<le> pendingBudget h"
    "length (samples fp (hv_pending h)) \<le> length (hv_hellos h)"
  using assms by (simp_all add: harv_ok_def)

lemma keyed_Nil [simp]: "keyed [] {}"
  by (simp add: keyed_def)

lemma take_existing_ok:
  "harv_ok h \<Longrightarrow> hv_max h = maxi \<Longrightarrow> \<forall>r\<in>set recs. Usable r = Inr () \<Longrightarrow> hv_pending h = [] \<Longrightarrow>
    harv_ok (take_existing maxi recs h)"
proof (induction maxi recs h rule: take_existing.induct)
  case (2 maxi rec recs h)
  obtain k where k: "contributionKey rec = Some k" using 2(4) usable_key by fastforce
  show ?case
  proof (cases "maxi \<le> length (hv_hellos h) \<or> k \<in> hv_keys h")
    case False
    define h' where "h' = h\<lparr>hv_keys := insert k (hv_keys h), hv_hellos := hv_hellos h @ [rec]\<rparr>"
    have "harv_ok h'"
      using 2(2,3,4,5) False k keyed_snoc [of "hv_hellos h" "hv_keys h" rec k] by (auto simp: harv_ok_def h'_def pendingBudget_def)
    then have "harv_ok (take_existing maxi recs h')" using 2(1) 2(3,4,5) False k by (auto simp: h'_def)
    then show ?thesis using False k by (simp add: h'_def)
  qed (use 2 k in auto)
qed simp

lemma NewHarvester_ok: "harv_ok (NewHarvester readFile path maxi)"
proof -
  obtain ex e where ex: "readPoolFile readFile path = (ex, e)" by (cases "readPoolFile readFile path")
  have us: "\<forall>r\<in>set ex. Usable r = Inr ()" using readPoolFile_usable [of readFile path] ex by simp
  let ?m = "if maxi \<le> 0 then DefaultHarvestMax else nat maxi"
  let ?h = "\<lparr>hv_path = path, hv_max = ?m, hv_hellos = [], hv_keys = {}, hv_pending = [], hv_pendingKeys = {}\<rparr>"
  have "harv_ok ?h" by (simp add: harv_ok_def Suc_le_eq)
  from take_existing_ok [OF this _ us] show ?thesis by (simp add: NewHarvester_def ex Let_def)
qed

lemma keep_newest_eq:
  assumes "keyed (hv_hellos h) (hv_keys h)"
  shows "keep_newest h = h\<lparr>hv_hellos := drop (length (hv_hellos h) - hv_max h) (hv_hellos h),
      hv_keys := keys_of (drop (length (hv_hellos h) - hv_max h) (hv_hellos h))\<rparr>"
  using assms by (simp add: keep_newest_def Let_def keyed_def)

text \<open>The four answers of \<open>Offer\<close> to a record of which something can be kept.\<close>

lemma Offer_cases:
  assumes "offer_clean rec = Some (clean, key)"
  obtains (dup) "key \<in> hv_keys h" "Offer order vorder rec h = (False, None, h)"
  | (same) "key \<notin> hv_keys h" "hv_hellos h = [] \<or> recordBuild clean = recordBuild (hv_hellos h ! 0)"
      "Offer order vorder rec h = (let h' = keep_newest (h\<lparr>hv_hellos := hv_hellos h @ [clean], hv_keys := insert key (hv_keys h)\<rparr>)
         in (True, Some (hv_hellos h'), h'))"
  | (held) "key \<notin> hv_keys h" "hv_hellos h \<noteq> []" "recordBuild clean \<noteq> recordBuild (hv_hellos h ! 0)" "key \<in> hv_pendingKeys h"
      "Offer order vorder rec h = (False, None, h)"
  | (other) "key \<notin> hv_keys h" "hv_hellos h \<noteq> []" "recordBuild clean \<noteq> recordBuild (hv_hellos h ! 0)" "key \<notin> hv_pendingKeys h"
      "length (fst (largestBuild order (hv_pending h @ [clean]))) \<le> length (hv_hellos h)"
      "Offer order vorder rec h = (False, None,
         trimPendingLocked vorder (h\<lparr>hv_pending := hv_pending h @ [clean], hv_pendingKeys := insert key (hv_pendingKeys h)\<rparr>))"
  | (promoted) "key \<notin> hv_keys h" "hv_hellos h \<noteq> []" "recordBuild clean \<noteq> recordBuild (hv_hellos h ! 0)" "key \<notin> hv_pendingKeys h"
      "length (hv_hellos h) < length (fst (largestBuild order (hv_pending h @ [clean])))"
      "Offer order vorder rec h = (let best = fst (largestBuild order (hv_pending h @ [clean]));
         h' = keep_newest (h\<lparr>hv_hellos := best, hv_keys := keys_of best, hv_pending := [], hv_pendingKeys := {}\<rparr>)
         in (True, Some (hv_hellos h'), h'))"
proof -
  note O = Offer_def [of order vorder rec h] assms
  consider "key \<in> hv_keys h" | "key \<notin> hv_keys h" "hv_hellos h = [] \<or> recordBuild clean = recordBuild (hv_hellos h ! 0)"
    | "key \<notin> hv_keys h" "hv_hellos h \<noteq> []" "recordBuild clean \<noteq> recordBuild (hv_hellos h ! 0)" "key \<in> hv_pendingKeys h"
    | "key \<notin> hv_keys h" "hv_hellos h \<noteq> []" "recordBuild clean \<noteq> recordBuild (hv_hellos h ! 0)" "key \<notin> hv_pendingKeys h"
      "length (fst (largestBuild order (hv_pending h @ [clean]))) \<le> length (hv_hellos h)"
    | "key \<notin> hv_keys h" "hv_hellos h \<noteq> []" "recordBuild clean \<noteq> recordBuild (hv_hellos h ! 0)" "key \<notin> hv_pendingKeys h"
      "length (hv_hellos h) < length (fst (largestBuild order (hv_pending h @ [clean])))"
    by fastforce
  then show thesis
  proof cases
    case 1
    then show ?thesis by (intro dup) (simp_all add: O)
  next
    case 2
    then show ?thesis by (intro same) (auto simp: O Let_def)
  next
    case 3
    then show ?thesis by (intro held) (simp_all add: O)
  next
    case 4
    then show ?thesis by (intro other) (simp_all add: O Let_def split_beta)
  next
    case 5
    then show ?thesis by (intro promoted) (simp_all add: O Let_def split_beta)
  qed
qed

lemma Offer_unclean: "offer_clean rec = None \<Longrightarrow> Offer order vorder rec h = (False, None, h)"
  by (simp add: Offer_def)

lemma largest_samples:
  assumes "visits order" and "\<forall>r\<in>set rs. Usable r = Inr ()" and "rs \<noteq> []"
  obtains fp where "fst (largestBuild order rs) = samples fp rs" "\<forall>fp'. length (samples fp' rs) \<le> length (samples fp rs)"
proof -
  obtain r where r: "r \<in> set rs" using assms(3) by (cases rs) auto
  have "build_of r \<noteq> None" using usable_build assms(2) r by fastforce
  then obtain fp where fp: "chosen rs fp" "fst (largestBuild order rs) = of_build fp rs"
    using largestBuild_cases [of order rs] assms(1) r by auto
  then have "\<forall>fp'. length (of_build fp' rs) \<le> length (of_build fp rs)" unfolding chosen_def by (metis less_or_eq_imp_le)
  then show thesis using that fp(2) of_build_samples [OF assms(2)] by simp
qed

text \<open>The build that is promoted is the build of the record offered.\<close>

lemma promotes_offered:
  assumes "visits order" and "harv_ok h" and "Usable clean = Inr ()"
    and "length (hv_hellos h) < length (fst (largestBuild order (hv_pending h @ [clean])))"
  shows "fst (largestBuild order (hv_pending h @ [clean])) = samples (recordBuild clean) (hv_pending h) @ [clean]
     \<and> length (samples (recordBuild clean) (hv_pending h)) = length (hv_hellos h)"
proof -
  have us: "\<forall>r\<in>set (hv_pending h @ [clean]). Usable r = Inr ()" using harv_okD(4) [OF assms(2)] assms(3) by (auto simp: keyed_def)
  obtain fp where fp: "fst (largestBuild order (hv_pending h @ [clean])) = samples fp (hv_pending h @ [clean])"
    by (rule largest_samples [OF assms(1) us]) auto
  have before: "length (samples fp (hv_pending h)) \<le> length (hv_hellos h)" by (rule harv_okD(6) [OF assms(2)])
  then have "fp = recordBuild clean" using assms(4) unfolding fp by (auto split: if_splits)
  then show ?thesis using assms(4) before unfolding fp by simp
qed

lemma samples_trim:
  assumes "visits order" and "\<forall>r\<in>set (hv_pending h). Usable r = Inr ()"
  shows "length (samples fp (hv_pending (trimPendingLocked order h))) \<le> length (samples fp (hv_pending h))"
proof -
  have "length (samples fp ((evict_oldest ^^ n) rs)) \<le> length (samples fp rs)" for n rs
    by (induction n) (auto intro: order_trans [OF evict_shrinks])
  then show ?thesis by (simp add: trim_pending_aux [OF assms])
qed

lemma harv_ok_append:
  assumes "harv_ok h" and "Usable clean = Inr ()" and "contributionKey clean = Some key" and "key \<notin> hv_keys h"
  shows "harv_ok (keep_newest (h\<lparr>hv_hellos := hv_hellos h @ [clean], hv_keys := insert key (hv_keys h)\<rparr>))"
proof -
  note ok = harv_okD [OF assms(1)]
  let ?h = "h\<lparr>hv_hellos := hv_hellos h @ [clean], hv_keys := insert key (hv_keys h)\<rparr>"
  have k: "keyed (hv_hellos ?h) (hv_keys ?h)" using keyed_snoc [OF ok(2) assms(2,3,4)] by simp
  have "length (samples fp (hv_pending h)) \<le> min (Suc (length (hv_hellos h))) (hv_max h)" for fp
    using ok(6) [of fp] ok(3) by simp
  moreover have "length (drop (length (hv_hellos ?h) - hv_max h) (hv_hellos ?h)) = min (Suc (length (hv_hellos h))) (hv_max h)" by simp
  ultimately show ?thesis
    using ok keyed_drop [OF k, of "length (hv_hellos ?h) - hv_max h"]
    unfolding keep_newest_eq [OF k] harv_ok_def pendingBudget_def by simp
qed

lemma harv_ok_hold:
  assumes "harv_ok h" and "Usable clean = Inr ()" and "contributionKey clean = Some key" and "key \<notin> hv_pendingKeys h"
    and "visits order" and "visits vorder" and "length (fst (largestBuild order (hv_pending h @ [clean]))) \<le> length (hv_hellos h)"
  shows "harv_ok (trimPendingLocked vorder (h\<lparr>hv_pending := hv_pending h @ [clean], hv_pendingKeys := insert key (hv_pendingKeys h)\<rparr>))"
proof -
  note ok = harv_okD [OF assms(1)]
  let ?h = "h\<lparr>hv_pending := hv_pending h @ [clean], hv_pendingKeys := insert key (hv_pendingKeys h)\<rparr>"
  have k: "keyed (hv_pending ?h) (hv_pendingKeys ?h)" using keyed_snoc [OF ok(4) assms(2,3,4)] by simp
  then have us: "\<forall>r\<in>set (hv_pending ?h). Usable r = Inr ()" by (simp add: keyed_def)
  define rs where "rs = hv_pending h @ [clean]"
  have r: "hv_pending ?h = rs" by (simp add: rs_def)
  obtain fp where fp: "fst (largestBuild order rs) = samples fp rs" "\<forall>fp'. length (samples fp' rs) \<le> length (samples fp rs)"
    by (rule largest_samples [OF assms(5) us [unfolded r]]) (auto simp: rs_def)
  have "length (samples fp rs) \<le> length (hv_hellos h)" using assms(7) unfolding rs_def [symmetric] fp(1) .
  then have "\<forall>fp. length (samples fp (hv_pending ?h)) \<le> length (hv_hellos h)" using fp(2) unfolding r by (blast intro: le_trans)
  then have "\<forall>fp. length (samples fp (hv_pending (trimPendingLocked vorder ?h))) \<le> length (hv_hellos h)"
    using samples_trim [OF assms(6) us] le_trans by blast
  then show ?thesis using trim_kept [OF assms(6) k] conjunct2 [OF trim_pending_aux [OF assms(6) us]] ok by (simp add: harv_ok_def pendingBudget_def)
qed

lemma harv_ok_promote:
  assumes "harv_ok h" and "Usable clean = Inr ()" and "contributionKey clean = Some key" and "key \<notin> hv_pendingKeys h"
  shows "harv_ok (keep_newest (h\<lparr>hv_hellos := samples fp (hv_pending h @ [clean]), hv_keys := keys_of (samples fp (hv_pending h @ [clean])),
      hv_pending := [], hv_pendingKeys := {}\<rparr>))"
proof -
  note ok = harv_okD [OF assms(1)]
  define b where "b = samples fp (hv_pending h @ [clean])"
  let ?h = "h\<lparr>hv_hellos := b, hv_keys := keys_of b, hv_pending := [], hv_pendingKeys := {}\<rparr>"
  have "keyed b (keys_of b)" unfolding b_def by (rule keyed_filter [OF keyed_snoc [OF ok(4) assms(2,3,4)]])
  then have k: "keyed (hv_hellos ?h) (hv_keys ?h)" by simp
  show ?thesis
    using ok(1) keyed_drop [OF k, of "length (hv_hellos ?h) - hv_max h"]
    unfolding b_def [symmetric] keep_newest_eq [OF k] harv_ok_def by simp
qed

lemma Offer_ok:
  assumes "harv_ok h" and "visits order" and "visits vorder" and "Offer order vorder rec h = (accepted, snapshot, h')"
  shows "harv_ok h'"
proof (cases "offer_clean rec")
  case None
  then show ?thesis using assms(1,4) by (simp add: Offer_unclean)
next
  case (Some ck)
  then obtain clean key where c: "offer_clean rec = Some (clean, key)" by (cases ck) auto
  note u = conjunct1 [OF offer_clean_Some [OF c]] and k = conjunct2 [OF offer_clean_Some [OF c]]
  show ?thesis
    using c
  proof (cases rule: Offer_cases [where h = h and order = order and vorder = vorder])
    case same
    then show ?thesis using harv_ok_append [OF assms(1) u k] assms(4) by (auto simp: Let_def)
  next
    case other
    then show ?thesis using harv_ok_hold [OF assms(1) u k _ assms(2,3)] assms(4) by auto
  next
    case promoted
    have b: "fst (largestBuild order (hv_pending h @ [clean])) = samples (recordBuild clean) (hv_pending h @ [clean])"
      using promotes_offered [OF assms(2,1) u promoted(5)] by simp
    show ?thesis using promoted(6) assms(4) harv_ok_promote [OF assms(1) u k promoted(4), of "recordBuild clean"] unfolding b
      by (auto simp: Let_def simp del: filter_append)
  qed (use assms(1,4) in auto)
qed

text \<open>The harvesters a program gets: one opened on a path, after any offers.\<close>

inductive harvested :: "(bytes \<Rightarrow> file_read) \<Rightarrow> bytes \<Rightarrow> int \<Rightarrow> Harvester \<Rightarrow> bool" for readFile path maxi where
  opened: "harvested readFile path maxi (NewHarvester readFile path maxi)"
| offered: "harvested readFile path maxi h \<Longrightarrow> visits order \<Longrightarrow> visits vorder \<Longrightarrow>
    Offer order vorder rec h = (accepted, snapshot, h') \<Longrightarrow> harvested readFile path maxi h'"

lemma harvested_ok: "harvested readFile path maxi h \<Longrightarrow> harv_ok h"
  by (induction rule: harvested.induct) (auto intro: NewHarvester_ok Offer_ok)

text \<open>What an accepted record does: it is the newest hello, and its contribution is held.\<close>

lemma drop_snoc_last: "1 \<le> m \<Longrightarrow> drop (length (xs @ [x]) - m) (xs @ [x]) = drop (length (xs @ [x]) - m) xs @ [x]"
  by simp

lemma Offer_accepted:
  assumes "harv_ok h" and "visits order" and "Offer order vorder rec h = (True, snapshot, h')"
  obtains clean key xs ys where "offer_clean rec = Some (clean, key)" "key \<notin> hv_keys h" "key \<notin> hv_pendingKeys h \<or> hv_pending h' = hv_pending h"
    "hv_hellos h' = ys @ [clean]" "hv_keys h' = keys_of (hv_hellos h')" "snapshot = Some (hv_hellos h')"
    "length (hv_hellos h) \<le> length (hv_hellos h')" "set ys \<subseteq> set xs"
    "xs = hv_hellos h \<and> (hv_hellos h = [] \<or> recordBuild clean = recordBuild (hv_hellos h ! 0)) \<or> xs = samples (recordBuild clean) (hv_pending h)"
proof (cases "offer_clean rec")
  case None
  then show ?thesis using assms(3) by (simp add: Offer_unclean)
next
  case (Some ck)
  then obtain clean key where c: "offer_clean rec = Some (clean, key)" by (cases ck) auto
  note u = conjunct1 [OF offer_clean_Some [OF c]] and k = conjunct2 [OF offer_clean_Some [OF c]]
  note ok = harv_okD [OF assms(1)]
  show ?thesis
    using c
  proof (cases rule: Offer_cases [where h = h and order = order and vorder = vorder])
    case same
    let ?h = "h\<lparr>hv_hellos := hv_hellos h @ [clean], hv_keys := insert key (hv_keys h)\<rparr>"
    have kd: "keyed (hv_hellos ?h) (hv_keys ?h)" using keyed_snoc [OF ok(2) u k same(1)] by simp
    have r: "h' = keep_newest ?h" "snapshot = Some (hv_hellos (keep_newest ?h))" using same(3) assms(3) by (simp_all add: Let_def)
    show ?thesis
      by (rule that [of clean key "drop (Suc (length (hv_hellos h)) - hv_max h) (hv_hellos h)" "hv_hellos h"])
         (use c same(1,2) ok(1,3) r in \<open>auto simp: keep_newest_eq [OF kd] dest: in_set_dropD\<close>)
  next
    case promoted
    define xs where "xs = samples (recordBuild clean) (hv_pending h)"
    let ?h = "h\<lparr>hv_hellos := xs @ [clean], hv_keys := keys_of (xs @ [clean]), hv_pending := [], hv_pendingKeys := {}\<rparr>"
    have best: "fst (largestBuild order (hv_pending h @ [clean])) = xs @ [clean]" "length xs = length (hv_hellos h)"
      using promotes_offered [OF assms(2,1) u promoted(5)] by (simp_all add: xs_def)
    have "keyed (samples (recordBuild clean) (hv_pending h @ [clean])) (keys_of (samples (recordBuild clean) (hv_pending h @ [clean])))"
      by (rule keyed_filter [OF keyed_snoc [OF ok(4) u k promoted(4)]])
    then have kd: "keyed (hv_hellos ?h) (hv_keys ?h)" by (simp add: xs_def)
    have r: "h' = keep_newest ?h" "snapshot = Some (hv_hellos (keep_newest ?h))"
      using promoted(6) assms(3) unfolding best(1) by (simp_all add: Let_def)
    have r': "hv_hellos h' = drop (Suc (length xs) - hv_max h) xs @ [clean]" "hv_keys h' = keys_of (hv_hellos h')"
      "snapshot = Some (hv_hellos h')"
      using ok(1) by (simp_all add: r keep_newest_eq [OF kd])
    show ?thesis
      by (rule that [of clean key "drop (Suc (length xs) - hv_max h) xs" xs])
         (use c promoted(1,4) ok(1,3) r' best(2) xs_def in \<open>auto dest: in_set_dropD\<close>)
  qed (use assms(3) in auto)
qed

lemma Offer_refused:
  assumes "visits vorder" and "Offer order vorder rec h = (False, snapshot, h')" and "harv_ok h"
  shows "snapshot = None \<and> hv_hellos h' = hv_hellos h \<and> hv_keys h' = hv_keys h"
proof (cases "offer_clean rec")
  case None
  then show ?thesis using assms(2) by (simp add: Offer_unclean)
next
  case (Some ck)
  then obtain clean key where c: "offer_clean rec = Some (clean, key)" by (cases ck) auto
  note u = conjunct1 [OF offer_clean_Some [OF c]] and k = conjunct2 [OF offer_clean_Some [OF c]]
  show ?thesis
    using c
  proof (cases rule: Offer_cases [where h = h and order = order and vorder = vorder])
    case other
    have "keyed (hv_pending h @ [clean]) (insert key (hv_pendingKeys h))" by (rule keyed_snoc [OF harv_okD(4) [OF assms(3)] u k other(4)])
    then show ?thesis using other(6) assms(2)
        trim_kept [OF assms(1), of "h\<lparr>hv_pending := hv_pending h @ [clean], hv_pendingKeys := insert key (hv_pendingKeys h)\<rparr>"]
      by auto
  qed (use assms(2) in \<open>auto simp: Let_def\<close>)
qed

lemma Offer_known: "offer_clean rec = Some (clean, key) \<Longrightarrow> key \<in> hv_keys h \<Longrightarrow> Offer order vorder rec h = (False, None, h)"
  by (simp add: Offer_def)

definition one_build :: "Harvester \<Rightarrow> bool" where
  "one_build h \<longleftrightarrow> hv_hellos h = [] \<or> Coherent (hv_hellos h) = Inr ()"

lemma one_build_iff: "harv_ok h \<Longrightarrow> one_build h \<longleftrightarrow> (\<forall>r\<in>set (hv_hellos h). recordBuild r = recordBuild (hv_hellos h ! 0))"
proof -
  assume "harv_ok h"
  then have "build_of r = Some (recordBuild r)" if "r \<in> set (hv_hellos h)" for r
    using harv_okD(2) usable_build that by (simp add: keyed_def)
  moreover have "hv_hellos h ! 0 \<in> set (hv_hellos h)" if "hv_hellos h \<noteq> []" using that by simp
  ultimately show ?thesis by (auto simp: one_build_def Coherent_iff_aux)
qed

lemma Offer_builds:
  assumes "harv_ok h" and "visits order" and "visits vorder" and "one_build h" and "Offer order vorder rec h = (accepted, snapshot, h')"
  shows "one_build h'"
proof (cases accepted)
  case False
  then show ?thesis using Offer_refused [OF assms(3) _ assms(1)] assms(4,5) by (simp add: one_build_def)
next
  case True
  have ok': "harv_ok h'" by (rule Offer_ok [OF assms(1-3,5)])
  have acc: "Offer order vorder rec h = (True, snapshot, h')" using assms(5) True by simp
  obtain clean key xs ys where "offer_clean rec = Some (clean, key)" "key \<notin> hv_keys h" "key \<notin> hv_pendingKeys h \<or> hv_pending h' = hv_pending h"
    and r1: "hv_hellos h' = ys @ [clean]" and "hv_keys h' = keys_of (hv_hellos h')" "snapshot = Some (hv_hellos h')"
    "length (hv_hellos h) \<le> length (hv_hellos h')" and r2: "set ys \<subseteq> set xs" and
    r3: "xs = hv_hellos h \<and> (hv_hellos h = [] \<or> recordBuild clean = recordBuild (hv_hellos h ! 0)) \<or> xs = samples (recordBuild clean) (hv_pending h)"
    by (rule Offer_accepted [OF assms(1,2) acc])
  have one: "\<forall>r\<in>set (hv_hellos h). recordBuild r = recordBuild (hv_hellos h ! 0)" using assms(4) one_build_iff [OF assms(1)] by blast
  have "recordBuild x = recordBuild clean" if "x \<in> set xs" for x
    using r3
  proof
    assume "xs = hv_hellos h \<and> (hv_hellos h = [] \<or> recordBuild clean = recordBuild (hv_hellos h ! 0))"
    moreover from this have "hv_hellos h \<noteq> []" using that by auto
    ultimately show ?thesis using that one by metis
  qed (use that in simp)
  then have "recordBuild x = recordBuild clean" if "x \<in> set (hv_hellos h')" for x using that r1 r2 by auto
  moreover have "hv_hellos h' ! 0 \<in> set (hv_hellos h')" using r1 by (intro nth_mem) simp
  ultimately show ?thesis unfolding one_build_iff [OF ok'] by metis
qed

section \<open>Properties\<close>

text \<open>
  C17. What a harvester holds, whatever was in its file and whatever it was offered: never more hellos than its
  maximum, at least one place for them; every record usable; no two records of one contribution, among
  the hellos and among those held aside; the sets of keys exactly those of the records; and of no build
  more samples aside than there are hellos, one more than the maximum in all.
\<close>

theorem harvester_invariant:
  assumes "harvested readFile path maxi h"
  shows "1 \<le> hv_max h \<and> Len h \<le> hv_max h \<and> length (hv_pending h) \<le> hv_max h + 1
     \<and> list_all (\<lambda>r. Usable r = Inr ()) (hv_hellos h @ hv_pending h)
     \<and> distinct (map contributionKey (hv_hellos h)) \<and> distinct (map contributionKey (hv_pending h))
     \<and> hv_keys h = keys_of (hv_hellos h) \<and> hv_pendingKeys h = keys_of (hv_pending h)
     \<and> list_all (\<lambda>r. length (samples (recordBuild r) (hv_pending h)) \<le> Len h) (hv_pending h)"
  using harv_okD [OF harvested_ok [OF assms]] by (auto simp: keyed_def Len_def pendingBudget_def list_all_iff)

text \<open>A harvester on a fresh path that was offered one hello.\<close>

definition clean_hello :: ClientHello where
  "clean_hello = browser_hello\<lparr>Random := replicate 32 0, SessionID := replicate (length (SessionID browser_hello)) 0,
     Extensions := [Extension 0x0a0a [], Extension ExtServerName (sni_body [120, 120, 120]),
      Extension ExtKeyShare ([0, 36] @ exts_bytes [Extension GroupX25519 (replicate 32 0)]),
      Extension ExtECH (ech_body 1 1 9 (replicate 32 4) (replicate 144 6)), Extension 0x1a1a [0]]\<rparr>"

definition clean_key :: bytes where
  "clean_key = hex_EncodeToString (take 12 (sha256 (canonicalForm clean_hello)))"

lemma clean_hello_parses: "ParseClientHello (Marshal clean_hello) = Inr clean_hello"
  by (rule parse_Marshal_wf) (simp add: wf_hello_def clean_hello_def browser_hello_def small_hello_def body_len_def hello_prefix_def
    sni_body_def ech_body_def)

lemma offer_clean_demo: "offer_clean (Marshal browser_hello) = Some (Marshal clean_hello, clean_key)"
proof -
  have "Sanitize browser_hello = Inr clean_hello"
  proof -
    have "SNI browser_hello = [97, 46, 98]" using SNI_of_body [OF sole_Find [OF browser_hello_sole(2)]] by simp
    then show ?thesis
      by (simp add: Sanitize_eq SetSNI_eq sole_Find [OF browser_hello_sole(2)])
        (simp add: clean_hello_def SetExtData_def browser_hello_def carried_def emptied_def small_hello_def)
  qed
  moreover have "Usable (Marshal clean_hello) = Inr ()"
    by (simp add: Usable_def clean_hello_parses) (simp add: clean_hello_def Find_def IsGREASE_def)
  moreover have "contributionKey (Marshal clean_hello) = Some clean_key"
    by (simp add: contributionKey_def clean_hello_parses clean_key_def)
  ultimately show ?thesis by (simp add: offer_clean_def browser_hello_parses)
qed

definition fresh_harvester :: Harvester where
  "fresh_harvester = NewHarvester (\<lambda>_. Absent) [112] 2"

definition grown_harvester :: Harvester where
  "grown_harvester = fresh_harvester\<lparr>hv_hellos := [Marshal clean_hello], hv_keys := {clean_key}\<rparr>"

lemma fresh_harvester: "fresh_harvester = \<lparr>hv_path = [112], hv_max = 2, hv_hellos = [], hv_keys = {}, hv_pending = [], hv_pendingKeys = {}\<rparr>"
  by (simp add: fresh_harvester_def NewHarvester_def readPoolFile_def Let_def)

lemma grown_by_offer: "Offer id id (Marshal browser_hello) fresh_harvester = (True, Some [Marshal clean_hello], grown_harvester)"
  by (simp add: Offer_def offer_clean_demo fresh_harvester grown_harvester_def keep_newest_def Let_def)

lemma grown_harvested: "harvested (\<lambda>_. Absent) [112] 2 grown_harvester"
  using harvested.offered [OF harvested.opened _ _ grown_by_offer [unfolded fresh_harvester_def]] by simp

theorem harvester_invariant_witness:
  "Len grown_harvester = 1 \<and> list_all (\<lambda>r. Usable r = Inr ()) (hv_hellos grown_harvester) \<and> hv_keys grown_harvester = keys_of [Marshal clean_hello]"
  using harvester_invariant [OF grown_harvested] by (simp add: grown_harvester_def Len_def)

text \<open>
  C19. The answers of \<open>Offer\<close>. A record that is refused changes neither the hellos nor the file. One that is accepted
  is kept sanitised, as the newest hello, contributes what was not there, never leaves fewer hellos than before,
  and what is written is what is held; offered again, it is refused and nothing changes.
\<close>

theorem Offer_answers:
  assumes "harvested readFile path maxi h" and "visits order" and "visits vorder"
    and "Offer order vorder rec h = (accepted, snapshot, h')"
  shows "if accepted
     then snapshot = Some (hv_hellos h') \<and> Len h \<le> Len h' \<and> Offer order vorder rec h' = (False, None, h')
       \<and> (\<exists>key. offer_clean rec = Some (last (hv_hellos h'), key) \<and> key \<notin> hv_keys h \<and> key \<in> hv_keys h')
     else snapshot = None \<and> hv_hellos h' = hv_hellos h \<and> hv_keys h' = hv_keys h"
proof (cases accepted)
  case True
  have acc: "Offer order vorder rec h = (True, snapshot, h')" using assms(4) True by simp
  obtain clean key xs ys where r: "offer_clean rec = Some (clean, key)" "key \<notin> hv_keys h" "key \<notin> hv_pendingKeys h \<or> hv_pending h' = hv_pending h"
    "hv_hellos h' = ys @ [clean]" "hv_keys h' = keys_of (hv_hellos h')" "snapshot = Some (hv_hellos h')"
    "length (hv_hellos h) \<le> length (hv_hellos h')" "set ys \<subseteq> set xs"
    "xs = hv_hellos h \<and> (hv_hellos h = [] \<or> recordBuild clean = recordBuild (hv_hellos h ! 0)) \<or> xs = samples (recordBuild clean) (hv_pending h)"
    by (rule Offer_accepted [OF harvested_ok [OF assms(1)] assms(2) acc])
  have key: "key \<in> hv_keys h'" unfolding r(5) r(4) using offer_clean_Some [OF r(1)] by simp
  have "last (hv_hellos h') = clean" using r(4) by simp
  then show ?thesis using True r(1,2,6,7) key Offer_known [OF r(1) key] by (simp add: Len_def)
next
  case False
  then show ?thesis using Offer_refused [OF assms(3) _ harvested_ok [OF assms(1)]] assms(4) by simp
qed

theorem Offer_answers_witness:
  "Offer id id (Marshal browser_hello) grown_harvester = (False, None, grown_harvester)"
  using Offer_answers [OF harvested.opened _ _ grown_by_offer [unfolded fresh_harvester_def]] by simp

text \<open>
  A harvester that holds hellos of one build holds hellos of one build after any offer: a record of another
  build joins nothing, it waits, or takes the whole pool over with its own.
\<close>

theorem Offer_one_build:
  assumes "harvested readFile path maxi h" and "visits order" and "visits vorder"
    and "hv_hellos h = [] \<or> Coherent (hv_hellos h) = Inr ()" and "Offer order vorder rec h = (accepted, snapshot, h')"
  shows "hv_hellos h' = [] \<or> Coherent (hv_hellos h') = Inr ()"
  using Offer_builds [OF harvested_ok [OF assms(1)] assms(2,3) _ assms(5)] assms(4) by (simp add: one_build_def)

theorem Offer_one_build_witness: "Coherent (hv_hellos grown_harvester) = Inr ()"
proof -
  have "hv_hellos (NewHarvester (\<lambda>_. Absent) [112] 2) = []" using fresh_harvester unfolding fresh_harvester_def by simp
  then show ?thesis
    using Offer_one_build [OF harvested.opened _ _ _ grown_by_offer [unfolded fresh_harvester_def]] by (simp add: grown_harvester_def)
qed

text \<open>
  C18. Trimming ends within the bound, whatever order its map is visited in: it is the reference that takes out,
  once for each record over the budget, the oldest record of the least of the smallest builds. A build with
  more samples than any other, and no more than the budget, loses none.
\<close>

theorem trimPendingLocked_reference:
  assumes "visits order" and "\<forall>r\<in>set (hv_pending h). Usable r = Inr ()"
  shows "hv_pending (trimPendingLocked order h) = (evict_oldest ^^ (length (hv_pending h) - pendingBudget h)) (hv_pending h)
     \<and> length (hv_pending (trimPendingLocked order h)) = min (length (hv_pending h)) (pendingBudget h)
     \<and> (leader (hv_pending h) fp \<and> length (samples fp (hv_pending h)) \<le> pendingBudget h \<longrightarrow>
          samples fp (hv_pending (trimPendingLocked order h)) = samples fp (hv_pending h))"
  using trim_pending_aux [OF assms] leader_kept_aux [OF assms] by blast

theorem trimPendingLocked_reference_witness:
  "length (hv_pending (trimPendingLocked rev (fresh_harvester\<lparr>hv_pending := replicate 5 (Marshal browser_hello)\<rparr>))) = 3"
  using trimPendingLocked_reference [of rev "fresh_harvester\<lparr>hv_pending := replicate 5 (Marshal browser_hello)\<rparr>" "[]", THEN conjunct2, THEN conjunct1]
    browser_usable by (simp add: fresh_harvester pendingBudget_def del: replicate.simps)

section \<open>A build that starves\<close>

text \<open>
  A full pool, as many samples of a build \<open>C\<close> aside, which is one too few to take over, and one sample of a build
  \<open>B\<close>. The budget is spent, and the smallest group is always that of \<open>B\<close>: each sample of \<open>B\<close> pushes out the
  one before it, and \<open>B\<close> never comes in, however many of its samples are offered.
\<close>

definition starving :: "bytes \<Rightarrow> bytes \<Rightarrow> Harvester \<Rightarrow> bool" where
  "starving B C h \<longleftrightarrow> harv_ok h \<and> 3 \<le> hv_max h \<and> length (hv_hellos h) = hv_max h \<and> B \<noteq> C
     \<and> recordBuild (hv_hellos h ! 0) \<noteq> B
     \<and> (\<exists>cs b. hv_pending h = cs @ [b] \<and> length cs = hv_max h \<and> (\<forall>c\<in>set cs. recordBuild c = C) \<and> recordBuild b = B)"

lemma starving_evicts:
  assumes "\<forall>c\<in>set cs. recordBuild c = C" and "3 \<le> length cs" and "recordBuild b = B" and "recordBuild b' = B" and "B \<noteq> C"
  shows "evict_oldest (cs @ [b, b']) = cs @ [b']"
proof -
  let ?rs = "cs @ [b, b']"
  have sB: "samples B cs = []" using assms(1,5) by (auto simp: filter_empty_conv)
  have sC: "samples C cs = cs" using assms(1) by (intro filter_True) blast
  have l: "length (places B ?rs) = 2" "length (places C ?rs) = length cs"
    unfolding length_places using assms(3-5) sB sC by simp_all
  have "least_group ?rs B" unfolding least_group_def
  proof
    show "B \<in> recordBuild ` set ?rs" using assms(3) by auto
    have "recordBuild ` set ?rs \<subseteq> {B, C}" using assms(1,3,4) by auto
    moreover have "length (places B ?rs) < length (places C ?rs)" unfolding l using assms(2) by simp
    then have "rank ?rs B \<le> rank ?rs C" by (simp only: less_eq_prod_simp simp_thms)
    ultimately show "\<forall>fp\<in>recordBuild ` set ?rs. rank ?rs B \<le> rank ?rs fp" by blast
  qed
  from least_group_smallest [OF this] have "evict_oldest ?rs = (case find (\<lambda>r. recordBuild r = B) ?rs of None \<Rightarrow> ?rs | Some r \<Rightarrow> remove1 r ?rs)"
    by (simp add: evict_oldest_def)
  moreover have "find (\<lambda>r. recordBuild r = B) ?rs = Some b"
    using assms(3) sB by (induction cs) (auto split: if_splits)
  moreover have "b \<notin> set cs" using assms(1,3,5) by auto
  ultimately show ?thesis by (simp add: remove1_append)
qed

lemma starving_step:
  assumes "starving B C h" and "visits order" and "visits vorder" and "offer_clean rec = Some (clean, key)" and "recordBuild clean = B"
    and "Offer order vorder rec h = (accepted, snapshot, h')"
  shows "\<not> accepted \<and> starving B C h' \<and> hv_hellos h' = hv_hellos h"
proof -
  have ok: "harv_ok h" and m: "3 \<le> hv_max h" "length (hv_hellos h) = hv_max h" and B: "B \<noteq> C" "recordBuild (hv_hellos h ! 0) \<noteq> B"
    using assms(1) by (auto simp: starving_def)
  obtain cs b where p: "hv_pending h = cs @ [b]" "length cs = hv_max h" "\<forall>c\<in>set cs. recordBuild c = C" "recordBuild b = B"
    using assms(1) by (auto simp: starving_def)
  note u = conjunct1 [OF offer_clean_Some [OF assms(4)]] and k = conjunct2 [OF offer_clean_Some [OF assms(4)]]
  have ok': "harv_ok h'" by (rule Offer_ok [OF ok assms(2,3,6)])
  have no: "\<not> length (hv_hellos h) < length (fst (largestBuild order (hv_pending h @ [clean])))"
  proof
    assume "length (hv_hellos h) < length (fst (largestBuild order (hv_pending h @ [clean])))"
    then have "length (samples B (hv_pending h)) = hv_max h" using promotes_offered [OF assms(2) ok u] assms(5) m(2) by simp
    moreover have "samples B cs = []" using p(3) B(1) by (auto simp: filter_empty_conv)
    ultimately show False using p(1,4) m(1) by simp
  qed
  show ?thesis
    using assms(4)
  proof (cases rule: Offer_cases [where h = h and order = order and vorder = vorder])
    case other
    let ?h = "h\<lparr>hv_pending := hv_pending h @ [clean], hv_pendingKeys := insert key (hv_pendingKeys h)\<rparr>"
    have h': "\<not> accepted" "h' = trimPendingLocked vorder ?h" using other(6) assms(6) by auto
    have kd: "keyed (hv_pending ?h) (hv_pendingKeys ?h)" using keyed_snoc [OF harv_okD(4) [OF ok] u k other(4)] by simp
    then have us: "\<forall>r\<in>set (hv_pending ?h). Usable r = Inr ()" by (simp add: keyed_def)
    have "hv_pending h' = evict_oldest (cs @ [b, clean])"
      unfolding h'(2) using trim_pending_aux [OF assms(3) us] p(1,2) by (simp add: pendingBudget_def)
    also have "\<dots> = cs @ [clean]" by (rule starving_evicts [OF p(3) _ p(4) assms(5) B(1)]) (use m(1) p(2) in simp)
    finally have "hv_pending h' = cs @ [clean]" .
    then show ?thesis using h' trim_kept [OF assms(3) kd] ok' m B p assms(5) by (auto simp: starving_def)
  qed (use assms(1,5,6) no m B in auto)
qed

lemma build_starves:
  assumes "starving B C h" and "visits order" and "visits vorder"
    and "\<forall>rec\<in>set recs. \<exists>clean key. offer_clean rec = Some (clean, key) \<and> recordBuild clean = B"
  shows "hv_hellos (foldl (\<lambda>h rec. snd (snd (Offer order vorder rec h))) h recs) = hv_hellos h"
  using assms(1,4)
proof (induction recs arbitrary: h)
  case (Cons rec recs)
  obtain accepted snapshot h' where o: "Offer order vorder rec h = (accepted, snapshot, h')" by (metis prod_cases3)
  have "starving B C h' \<and> hv_hellos h' = hv_hellos h"
    using starving_step [OF Cons.prems(1) assms(2,3) _ _ o] Cons.prems(2) by auto
  then show ?case using Cons.IH [of h'] Cons.prems(2) o by simp
qed simp

end
