(* ===== verification/Pool_File.thy ===== *)
theory Pool_File
  imports Harvester
begin

text \<open>
  The writing half of \<^verbatim>\<open>src/harvester.go\<close>: \<^verbatim>\<open>writePoolFile\<close> over a disk of names, inodes and contents, as one
  call and as a machine that another writer or a crash may interrupt between any two system calls. The facts:
  one writer replaces the file atomically, what \<open>Offer\<close> has written is what the next process starts from, and two
  writers, which the code allows, share the temporary name and can leave the pool file torn.
\<close>

section \<open>Paths\<close>

text \<open>\<^verbatim>\<open>filepath.Clean\<close>, by the components of the path, and \<^verbatim>\<open>filepath.Dir\<close>.\<close>

fun clean_parts :: "bool \<Rightarrow> bytes list \<Rightarrow> bytes list \<Rightarrow> bytes list" where
  "clean_parts rooted out [] = out"
| "clean_parts rooted out (p # ps) =
     (if p = [] \<or> p = str ''.'' then clean_parts rooted out ps
      else if p = str ''..'' then
        (if out \<noteq> [] \<and> last out \<noteq> str ''..'' then clean_parts rooted (butlast out) ps
         else if rooted then clean_parts rooted out ps
         else clean_parts rooted (out @ [p]) ps)
      else clean_parts rooted (out @ [p]) ps)"

definition filepath_Clean :: "bytes \<Rightarrow> bytes" where
  "filepath_Clean path =
     (let rooted = (take 1 path = str ''/'');
          parts = clean_parts rooted [] (Split path 47);
          joined = concat (map (\<lambda>(i, p). (if i = 0 then p else str ''/'' @ p)) (enumerate 0 parts))
      in if rooted then str ''/'' @ joined else if joined = [] then str ''.'' else joined)"

definition filepath_Dir :: "bytes \<Rightarrow> bytes" where
  "filepath_Dir path = filepath_Clean (rev (dropWhile (\<lambda>b. b \<noteq> 47) (rev path)))"

section \<open>The disk\<close>

record Disk =
  inode_of :: "bytes \<Rightarrow> nat option"
  content_of :: "nat \<Rightarrow> bytes"
  next_inode :: nat

text \<open>Open for writing, created or truncated; write at the handle's own offset; rename; remove; read.\<close>

definition os_create :: "bytes \<Rightarrow> Disk \<Rightarrow> nat \<times> Disk" where
  "os_create path d =
     (case inode_of d path of
        Some n \<Rightarrow> (n, d\<lparr>content_of := (content_of d)(n := [])\<rparr>)
      | None \<Rightarrow> (next_inode d, d\<lparr>inode_of := (inode_of d)(path := Some (next_inode d)),
                   content_of := (content_of d)(next_inode d := []), next_inode := next_inode d + 1\<rparr>))"

definition os_write :: "nat \<Rightarrow> nat \<Rightarrow> bytes \<Rightarrow> Disk \<Rightarrow> Disk" where
  "os_write n off bs d =
     (let c = content_of d n
      in d\<lparr>content_of := (content_of d)(n := take off c @ replicate (off - length c) 0 @ bs @ drop (off + length bs) c)\<rparr>)"

definition os_rename :: "bytes \<Rightarrow> bytes \<Rightarrow> Disk \<Rightarrow> err option \<times> Disk" where
  "os_rename from to d =
     (case inode_of d from of
        None \<Rightarrow> (Some (Err ''no such file or directory''), d)
      | Some n \<Rightarrow> if to = [] then (Some (Err ''no such file or directory''), d)
                  else if inode_of d to = Some n then (None, d)
                  else (None, d\<lparr>inode_of := (inode_of d)(from := None, to := Some n)\<rparr>))"

definition os_remove :: "bytes \<Rightarrow> Disk \<Rightarrow> Disk" where
  "os_remove path d = d\<lparr>inode_of := (inode_of d)(path := None)\<rparr>"

definition os_ReadFile :: "Disk \<Rightarrow> bytes \<Rightarrow> file_read" where
  "os_ReadFile d path = (case inode_of d path of None \<Rightarrow> Absent | Some n \<Rightarrow> Contents (content_of d n))"

section \<open>One call\<close>

text \<open>What the system may refuse: each call its error, a write after some of its bytes.\<close>

record Faults =
  fault_mkdir :: "err option"
  fault_create :: "err option"
  fault_write :: "(nat \<times> err) option"
  fault_rename :: "err option"

definition no_faults :: Faults where
  "no_faults = \<lparr>fault_mkdir = None, fault_create = None, fault_write = None, fault_rename = None\<rparr>"

abbreviation tmp_of :: "bytes \<Rightarrow> bytes" where
  "tmp_of path \<equiv> path @ str ''.tmp''"

definition os_WriteFile :: "Faults \<Rightarrow> bytes \<Rightarrow> bytes \<Rightarrow> Disk \<Rightarrow> err option \<times> Disk" where
  "os_WriteFile fl path bs d =
     (case fault_create fl of
        Some e \<Rightarrow> (Some e, d)
      | None \<Rightarrow> let (n, d) = os_create path d
                in case fault_write fl of
                     Some (k, e) \<Rightarrow> (Some e, os_write n 0 (take k bs) d)
                   | None \<Rightarrow> (None, os_write n 0 bs d))"

definition writePoolFile :: "Faults \<Rightarrow> bytes \<Rightarrow> bytes list \<Rightarrow> Disk \<Rightarrow> err option \<times> Disk" where
  "writePoolFile fl path hellos d =
     (let dir = filepath_Dir path
      in case (if dir \<noteq> [] \<and> dir \<noteq> str ''.'' then fault_mkdir fl else None) of
           Some e \<Rightarrow> (Some e, d)
         | None \<Rightarrow>
             let tmp = tmp_of path
             in case os_WriteFile fl tmp (FormatPool hellos) d of
                  (Some e, d) \<Rightarrow> (Some e, d)
                | (None, d) \<Rightarrow>
                    (case (case fault_rename fl of Some e \<Rightarrow> (Some e, d) | None \<Rightarrow> os_rename tmp path d) of
                       (Some e, d) \<Rightarrow> (Some e, os_remove tmp d)
                     | (None, d) \<Rightarrow> (None, d)))"

text \<open>\<^verbatim>\<open>Offer\<close> with its write, which runs after the lock is released.\<close>

definition Offer_written :: "(bytes list \<Rightarrow> bytes list) \<Rightarrow> (bytes list \<Rightarrow> bytes list) \<Rightarrow> Faults \<Rightarrow> bytes \<Rightarrow> Harvester \<Rightarrow> Disk
    \<Rightarrow> (bool \<times> err option) \<times> Harvester \<times> Disk" where
  "Offer_written order vorder fl rec h d =
     (case Offer order vorder rec h of
        (accepted, None, h') \<Rightarrow> ((accepted, None), h', d)
      | (accepted, Some snapshot, h') \<Rightarrow>
          let (e, d) = writePoolFile fl (hv_path h') snapshot d in ((accepted, e), h', d))"

section \<open>Writers that interleave\<close>

text \<open>
  Where a writer is: before the temporary file is created, writing to an inode at its offset, ready to rename,
  about to remove after a failed rename, or done, with or without success.
\<close>

datatype writer_pc = Begin | Writing nat nat | Ready | Removing | Finished bool

type_synonym writer = "writer_pc \<times> bytes"

text \<open>One system call of a writer of \<open>path\<close>. It may fail wherever the system may refuse it.\<close>

inductive write_call :: "bytes \<Rightarrow> Disk \<Rightarrow> writer \<Rightarrow> Disk \<Rightarrow> writer \<Rightarrow> bool" for path where
  sys_create: "os_create (tmp_of path) d = (n, d') \<Longrightarrow> write_call path d (Begin, bs) d' (Writing n 0, bs)"
| sys_write: "take off bs @ part @ rest = bs \<Longrightarrow> off \<le> length bs \<Longrightarrow>
    write_call path d (Writing n off, bs) (os_write n off part d) (Writing n (off + length part), bs)"
| sys_close: "write_call path d (Writing n (length bs), bs) d (Ready, bs)"
| sys_rename: "os_rename (tmp_of path) path d = (None, d') \<Longrightarrow> write_call path d (Ready, bs) d' (Finished True, bs)"
| sys_rename_fails: "write_call path d (Ready, bs) d (Removing, bs)"
| sys_remove: "write_call path d (Removing, bs) (os_remove (tmp_of path) d) (Finished False, bs)"
| sys_create_fails: "write_call path d (Begin, bs) d (Finished False, bs)"
| sys_write_fails: "write_call path d (Writing n off, bs) d (Finished False, bs)"

inductive_simps write_call_Finished: "write_call path d (Finished ok, bs) d' w"

text \<open>
  A writer ends: whatever fails, only a write of no bytes leaves it where it is, every other call brings it closer to its
  end, and before that there is a call it can make.
\<close>

definition calls_left :: "writer \<Rightarrow> nat" where
  "calls_left w =
     (case fst w of
        Begin \<Rightarrow> length (snd w) + 4
      | Writing n off \<Rightarrow> length (snd w) - off + 3
      | Ready \<Rightarrow> 2
      | Removing \<Rightarrow> 1
      | Finished ok \<Rightarrow> 0)"

lemma write_call_closer: "write_call path d w d' w' \<Longrightarrow> w' = w \<or> calls_left w' < calls_left w"
proof (induction rule: write_call.induct)
  case (sys_write off bs part rest d n)
  have "length (take off bs @ part @ rest) = length bs" unfolding sys_write(1) ..
  then have "length bs = off + length part + length rest" using sys_write(2) by simp
  then show ?case by (auto simp: calls_left_def)
qed (simp_all add: calls_left_def)

lemma writer_ends: "wf {(w', w). w' \<noteq> w \<and> (\<exists>d d'. write_call path d w d' w')}"
  by (rule wf_subset [OF wf_measure [of calls_left]]) (auto dest: write_call_closer)

lemma writer_not_stuck: "(\<exists>d' w'. write_call path d (pc, bs) d' w' \<and> w' \<noteq> (pc, bs)) \<longleftrightarrow> (\<forall>ok. pc \<noteq> Finished ok)"
proof (cases pc)
  case (Finished ok)
  then show ?thesis by (simp add: write_call_Finished)
qed (blast intro: write_call.intros)+

text \<open>Any number of writers on one disk, a call at a time.\<close>

inductive writing :: "bytes \<Rightarrow> Disk \<Rightarrow> writer list \<Rightarrow> Disk \<Rightarrow> writer list \<Rightarrow> bool" for path d ws where
  start: "writing path d ws d ws"
| call: "writing path d ws d' ws' \<Longrightarrow> i < length ws' \<Longrightarrow> write_call path d' (ws' ! i) d'' w \<Longrightarrow> writing path d ws d'' (ws'[i := w])"

section \<open>The disk's laws\<close>

text \<open>Inodes in use are below the next; the pool file and its temporary are not one file.\<close>

definition sound :: "bytes \<Rightarrow> Disk \<Rightarrow> bool" where
  "sound path d \<longleftrightarrow> (\<forall>p n. inode_of d p = Some n \<longrightarrow> n < next_inode d)
     \<and> (\<forall>n. inode_of d (tmp_of path) = Some n \<longrightarrow> inode_of d path \<noteq> Some n)"

lemma tmp_neq [simp]: "str ''.tmp'' \<noteq> []" "tmp_of path \<noteq> path" "path \<noteq> tmp_of path"
  by (simp_all add: str_def)

lemma os_create_tmp:
  assumes "sound path d" and "os_create (tmp_of path) d = (n, d')"
  shows "sound path d' \<and> inode_of d' (tmp_of path) = Some n \<and> content_of d' n = [] \<and> os_ReadFile d' path = os_ReadFile d path"
proof (cases "inode_of d (tmp_of path)")
  case None
  have "inode_of d p \<noteq> Some (next_inode d)" for p using assms(1) unfolding sound_def by blast
  then show ?thesis using assms None
    by (auto simp: os_create_def sound_def os_ReadFile_def less_Suc_eq split: option.splits if_splits)
next
  case (Some m)
  then show ?thesis using assms by (auto simp: os_create_def sound_def os_ReadFile_def split: option.splits)
qed

lemma os_write_tmp:
  assumes "sound path d" and "inode_of d (tmp_of path) = Some n"
  shows "sound path (os_write n off bs d) \<and> inode_of (os_write n off bs d) (tmp_of path) = Some n
     \<and> os_ReadFile (os_write n off bs d) path = os_ReadFile d path"
  using assms by (auto simp: os_write_def sound_def os_ReadFile_def Let_def split: option.splits)

lemma os_write_next: "content_of d n = take off bs \<Longrightarrow> off \<le> length bs \<Longrightarrow> take off bs @ part @ rest = bs \<Longrightarrow>
    content_of (os_write n off part d) n = take (off + length part) bs"
proof -
  assume c: "content_of d n = take off bs" "off \<le> length bs" "take off bs @ part @ rest = bs"
  have "take (off + length part) bs = take off bs @ part"
    by (subst c(3) [symmetric], subst take_append) (use c(2) in simp)
  then show ?thesis using c(1,2) by (simp add: os_write_def Let_def)
qed

lemma os_rename_tmp:
  assumes "sound path d" and "inode_of d (tmp_of path) = Some n" and "path \<noteq> []"
  obtains d' where "os_rename (tmp_of path) path d = (None, d')" "sound path d'" "os_ReadFile d' path = Contents (content_of d n)"
proof -
  have "inode_of d path \<noteq> Some n" using assms(1,2) by (simp add: sound_def)
  then show thesis using assms that by (auto simp: os_rename_def sound_def os_ReadFile_def)
qed

lemma os_remove_tmp: "sound path d \<Longrightarrow> sound path (os_remove (tmp_of path) d) \<and> os_ReadFile (os_remove (tmp_of path) d) path = os_ReadFile d path"
  by (auto simp: os_remove_def sound_def os_ReadFile_def split: option.splits)

section \<open>One writer\<close>

definition write_ok :: "bytes \<Rightarrow> file_read \<Rightarrow> Disk \<Rightarrow> writer \<Rightarrow> bool" where
  "write_ok path old d w \<longleftrightarrow> sound path d \<and> (case w of
       (Writing n off, bs) \<Rightarrow> inode_of d (tmp_of path) = Some n \<and> content_of d n = take off bs \<and> off \<le> length bs \<and> os_ReadFile d path = old
     | (Ready, bs) \<Rightarrow> (\<exists>n. inode_of d (tmp_of path) = Some n \<and> content_of d n = bs) \<and> os_ReadFile d path = old
     | (Finished True, bs) \<Rightarrow> os_ReadFile d path = Contents bs
     | _ \<Rightarrow> os_ReadFile d path = old)"

lemma write_call_ok: "write_call path d w d' w' \<Longrightarrow> write_ok path old d w \<Longrightarrow> write_ok path old d' w' \<and> snd w' = snd w"
proof (induction rule: write_call.induct)
  case (sys_create d n d' bs)
  then show ?case using os_create_tmp [of path d n d'] by (auto simp: write_ok_def)
next
  case (sys_write off bs part rest d n)
  have len: "off + length part \<le> length bs" by (subst sys_write(1) [symmetric]) (use sys_write(2) in simp)
  show ?case using sys_write os_write_tmp [of path d n off part] os_write_next [of d n off bs part rest] len by (auto simp: write_ok_def)
next
  case (sys_rename d d' bs)
  then obtain n where n: "sound path d" "inode_of d (tmp_of path) = Some n" "content_of d n = bs" by (auto simp: write_ok_def)
  have "path \<noteq> []" using sys_rename(1) n(2) by (auto simp: os_rename_def)
  from os_rename_tmp [OF n(1,2) this] show ?case using sys_rename(1) n(3) by (auto simp: write_ok_def)
qed (use os_remove_tmp in \<open>auto simp: write_ok_def\<close>)

lemma writing_ok: "writing path d [(Begin, bs)] d' ws \<Longrightarrow> sound path d \<Longrightarrow>
    \<exists>w. ws = [w] \<and> snd w = bs \<and> write_ok path (os_ReadFile d path) d' w"
proof (induction rule: writing.induct)
  case start
  then show ?case by (simp add: write_ok_def)
next
  case (call d' ws i d'' w)
  then obtain w' where w': "ws = [w']" "snd w' = bs" "write_ok path (os_ReadFile d path) d' w'" by blast
  then show ?case using call(2,3) write_call_ok [of path d' w' d'' w] by auto
qed

section \<open>One call\<close>

lemma writePoolFile_reads:
  assumes "sound path d" and "writePoolFile fl path hellos d = (e, d')"
  shows "sound path d' \<and> os_ReadFile d' path = (if e = None then Contents (FormatPool hellos) else os_ReadFile d path)"
proof (cases "(if filepath_Dir path \<noteq> [] \<and> filepath_Dir path \<noteq> str ''.'' then fault_mkdir fl else None) = None \<and> fault_create fl = None")
  case False
  then show ?thesis using assms by (auto simp: writePoolFile_def os_WriteFile_def Let_def split: option.splits if_splits)
next
  case True
  obtain n d1 where c: "os_create (tmp_of path) d = (n, d1)" by fastforce
  note t = os_create_tmp [OF assms(1) c]
  show ?thesis
  proof (cases "fault_write fl")
    case (Some ke)
    then show ?thesis using assms(2) True c t os_write_tmp [of path d1 n 0 "take (fst ke) (FormatPool hellos)"]
      by (cases ke) (auto simp: writePoolFile_def os_WriteFile_def Let_def split: option.splits if_splits)
  next
    case None
    define d2 where "d2 = os_write n 0 (FormatPool hellos) d1"
    have t2: "sound path d2" "inode_of d2 (tmp_of path) = Some n" "os_ReadFile d2 path = os_ReadFile d path"
      using t os_write_tmp [of path d1 n 0 "FormatPool hellos"] by (simp_all add: d2_def)
    have w: "content_of d2 n = FormatPool hellos" using os_write_next [of d1 n 0 "FormatPool hellos" "FormatPool hellos" "[]"] t
      by (simp add: d2_def)
    have W: "(e, d') = (case (case fault_rename fl of Some e \<Rightarrow> (Some e, d2) | None \<Rightarrow> os_rename (tmp_of path) path d2) of
        (Some e, d) \<Rightarrow> (Some e, os_remove (tmp_of path) d) | (None, d) \<Rightarrow> (None, d))"
      unfolding d2_def using assms(2) True None c by (simp add: writePoolFile_def os_WriteFile_def Let_def)
    show ?thesis
    proof (cases "fault_rename fl = None \<and> path \<noteq> []")
      case True
      then obtain d3 where "os_rename (tmp_of path) path d2 = (None, d3)" "sound path d3" "os_ReadFile d3 path = Contents (content_of d2 n)"
        using os_rename_tmp [OF t2(1,2)] by blast
      then show ?thesis using W True w by simp
    next
      case False
      then obtain e' where "(case fault_rename fl of Some e \<Rightarrow> (Some e, d2) | None \<Rightarrow> os_rename (tmp_of path) path d2) = (Some e', d2)"
        using t2(2) by (cases "fault_rename fl") (auto simp: os_rename_def)
      then show ?thesis using W os_remove_tmp [OF t2(1)] t2(3) by simp
    qed
  qed
qed

lemma writePoolFile_succeeds:
  assumes "sound path d" and "path \<noteq> []"
  shows "\<exists>d'. writePoolFile no_faults path hellos d = (None, d')"
proof -
  obtain n d1 where c: "os_create (tmp_of path) d = (n, d1)" by fastforce
  let ?d2 = "os_write n 0 (FormatPool hellos) d1"
  have t: "sound path d1" "inode_of d1 (tmp_of path) = Some n" using os_create_tmp [OF assms(1) c] by auto
  then have t2: "sound path ?d2" "inode_of ?d2 (tmp_of path) = Some n" using os_write_tmp [OF t, of 0] by simp_all
  obtain d3 where "os_rename (tmp_of path) path ?d2 = (None, d3)" by (rule os_rename_tmp [OF t2 assms(2)])
  then show ?thesis using c by (simp add: writePoolFile_def os_WriteFile_def no_faults_def Let_def)
qed

text \<open>The call is a run of the machine.\<close>

lemma writing_one: "writing path d ws d' [w] \<Longrightarrow> write_call path d' w d'' w' \<Longrightarrow> writing path d ws d'' [w']"
  using writing.call [of path d ws d' "[w]" 0 d'' w'] by simp

lemma writePoolFile_runs:
  assumes "writePoolFile fl path hellos d = (e, d')"
  shows "writing path d [(Begin, FormatPool hellos)] d' [(Finished (e = None), FormatPool hellos)]"
proof -
  let ?bs = "FormatPool hellos"
  note initial = writing.start [of path d "[(Begin, ?bs)]"]
  show ?thesis
  proof (cases "(if filepath_Dir path \<noteq> [] \<and> filepath_Dir path \<noteq> str ''.'' then fault_mkdir fl else None) = None \<and> fault_create fl = None")
    case False
    then obtain x where "e = Some x \<and> d' = d"
      using assms by (fastforce simp: writePoolFile_def os_WriteFile_def Let_def split: option.splits if_splits)
    then show ?thesis using writing_one [OF initial write_call.sys_create_fails] by simp
  next
    case True
    obtain n d1 where c: "os_create (tmp_of path) d = (n, d1)" by fastforce
    note opened = writing_one [OF initial write_call.sys_create [OF c]]
    show ?thesis
    proof (cases "fault_write fl")
      case (Some ke)
      obtain k x where ke: "ke = (k, x)" by (cases ke)
      have r: "e = Some x" "d' = os_write n 0 (take k ?bs) d1"
        using assms True c Some ke by (auto simp: writePoolFile_def os_WriteFile_def Let_def split: option.splits if_splits)
      have "write_call path d1 (Writing n 0, ?bs) d' (Writing n (0 + length (take k ?bs)), ?bs)"
        unfolding r by (rule write_call.sys_write [where rest = "drop k ?bs"]) simp_all
      from writing_one [OF writing_one [OF opened this] write_call.sys_write_fails] show ?thesis by (simp add: r)
    next
      case None
      define d2 where "d2 = os_write n 0 ?bs d1"
      have "write_call path d1 (Writing n 0, ?bs) d2 (Writing n (0 + length ?bs), ?bs)"
        unfolding d2_def by (rule write_call.sys_write [where rest = "[]"]) simp_all
      from writing_one [OF writing_one [OF opened this [simplified]] write_call.sys_close]
      have ready: "writing path d [(Begin, ?bs)] d2 [(Ready, ?bs)]" .
      have W: "(e, d') = (case (case fault_rename fl of Some e \<Rightarrow> (Some e, d2) | None \<Rightarrow> os_rename (tmp_of path) path d2) of
          (Some e, d) \<Rightarrow> (Some e, os_remove (tmp_of path) d) | (None, d) \<Rightarrow> (None, d))"
        unfolding d2_def using assms True None c by (simp add: writePoolFile_def os_WriteFile_def Let_def)
      obtain e1 d3 where r: "(case fault_rename fl of Some e \<Rightarrow> (Some e, d2) | None \<Rightarrow> os_rename (tmp_of path) path d2) = (e1, d3)" by fastforce
      show ?thesis
      proof (cases e1)
        case None
        then have "os_rename (tmp_of path) path d2 = (None, d3)" using r by (auto split: option.splits)
        from writing_one [OF ready write_call.sys_rename [OF this]] show ?thesis using W unfolding r None by simp
      next
        case (Some x)
        then have "d3 = d2" using r by (auto simp: os_rename_def split: option.splits if_splits)
        then show ?thesis using W writing_one [OF writing_one [OF ready write_call.sys_rename_fails] write_call.sys_remove] unfolding r Some by simp
      qed
    qed
  qed
qed

section \<open>Two writers\<close>

text \<open>
  Two accepted offers write at once, for the lock is released before. The first has written its pool; the second
  truncates the same temporary file; the first renames it: the pool file is empty and the first call succeeds. The
  second then writes into the pool file in place, and its rename finds nothing and fails.
\<close>

lemma writers_tear:
  assumes "sound path d" and "path \<noteq> []"
  shows "\<exists>d' ws. writing path d [(Begin, a), (Begin, b)] d' ws \<and> fst (ws ! 0) = Finished True \<and> os_ReadFile d' path = Contents []"
proof -
  let ?tmp = "tmp_of path"
  obtain n d1 where d1: "os_create ?tmp d = (n, d1)" by fastforce
  have t1: "sound path d1" "inode_of d1 ?tmp = Some n" using os_create_tmp [OF assms(1) d1] by auto
  define d2 where "d2 = os_write n 0 a d1"
  have t2: "sound path d2" "inode_of d2 ?tmp = Some n" using os_write_tmp [OF t1, of 0 a] by (simp_all add: d2_def)
  obtain m d3 where d3: "os_create ?tmp d2 = (m, d3)" by fastforce
  have t3: "sound path d3" "inode_of d3 ?tmp = Some m" "content_of d3 m = []" using os_create_tmp [OF t2(1) d3] by auto
  obtain d4 where d4: "os_rename ?tmp path d3 = (None, d4)" "os_ReadFile d4 path = Contents []"
    by (rule os_rename_tmp [OF t3(1,2) assms(2)]) (use t3(3) in auto)
  have "writing path d [(Begin, a), (Begin, b)] d [(Begin, a), (Begin, b)]" by (rule writing.start)
  from writing.call [OF this, of 0 d1 "(Writing n 0, a)"] write_call.sys_create [OF d1, of a]
  have "writing path d [(Begin, a), (Begin, b)] d1 [(Writing n 0, a), (Begin, b)]" by simp
  from writing.call [OF this, of 0 d2 "(Writing n (length a), a)"] write_call.sys_write [of 0 a a "[]" path d1 n]
  have "writing path d [(Begin, a), (Begin, b)] d2 [(Writing n (length a), a), (Begin, b)]" by (simp add: d2_def)
  from writing.call [OF this, of 0 d2 "(Ready, a)"] write_call.sys_close [of path d2 n a]
  have "writing path d [(Begin, a), (Begin, b)] d2 [(Ready, a), (Begin, b)]" by simp
  from writing.call [OF this, of 1 d3 "(Writing m 0, b)"] write_call.sys_create [OF d3, of b]
  have "writing path d [(Begin, a), (Begin, b)] d3 [(Ready, a), (Writing m 0, b)]" by simp
  from writing.call [OF this, of 0 d4 "(Finished True, a)"] write_call.sys_rename [OF d4(1), of a]
  have "writing path d [(Begin, a), (Begin, b)] d4 [(Finished True, a), (Writing m 0, b)]" by simp
  then show ?thesis using d4(2) by (intro exI [of _ d4] exI [of _ "[(Finished True, a), (Writing m 0, b)]"]) simp
qed

section \<open>Opening what was written\<close>

lemma take_existing_all:
  "keyed (hv_hellos h @ recs) (keys_of (hv_hellos h @ recs)) \<Longrightarrow> hv_keys h = keys_of (hv_hellos h) \<Longrightarrow>
    length (hv_hellos h @ recs) \<le> maxi \<Longrightarrow>
    take_existing maxi recs h = h\<lparr>hv_hellos := hv_hellos h @ recs, hv_keys := keys_of (hv_hellos h @ recs)\<rparr>"
proof (induction recs arbitrary: h)
  case (Cons rec recs)
  obtain k where k: "contributionKey rec = Some k" using Cons.prems(1) usable_key [of rec] by (auto simp: keyed_def)
  have "k \<notin> hv_keys h"
  proof
    assume "k \<in> hv_keys h"
    then obtain r where "r \<in> set (hv_hellos h)" "contributionKey r = Some k" using Cons.prems(2) by (auto simp: keys_of_eq)
    then show False using Cons.prems(1) k by (force simp: keyed_def)
  qed
  then show ?case using Cons.IH [of "h\<lparr>hv_keys := insert k (hv_keys h), hv_hellos := hv_hellos h @ [rec]\<rparr>"] Cons.prems k by simp
qed simp

lemma NewHarvester_written:
  assumes "keyed hellos keys" and "length hellos \<le> maxi" and "1 \<le> maxi" and "path \<noteq> []" and "readFile path = Contents (FormatPool hellos)"
  shows "NewHarvester readFile path (int maxi) =
    \<lparr>hv_path = path, hv_max = maxi, hv_hellos = hellos, hv_keys = keys, hv_pending = [], hv_pendingKeys = {}\<rparr>"
proof -
  have r: "readPoolFile readFile path = (hellos, [])"
    using assms(1,4,5) parsePool_FormatPool_aux [of hellos path] by (simp add: readPoolFile_def keyed_def)
  let ?h = "\<lparr>hv_path = path, hv_max = maxi, hv_hellos = [], hv_keys = {}, hv_pending = [], hv_pendingKeys = {}\<rparr>"
  have "take_existing maxi hellos ?h = ?h\<lparr>hv_hellos := hellos, hv_keys := keys\<rparr>"
    using take_existing_all [of ?h hellos maxi] assms(1,2) by (simp add: keyed_def)
  then show ?thesis using assms(3) by (simp add: NewHarvester_def r Let_def)
qed

section \<open>Properties\<close>

text \<open>
  C20. One writer replaces the pool file atomically: whatever call it has reached, and whichever call failed, the
  file reads as before or as the whole new pool; once it has succeeded, as the new pool, once it has failed, as before.
\<close>

theorem pool_file_atomic:
  assumes "writing path d [(Begin, FormatPool hellos)] d' ws" and "sound path d"
  shows "\<exists>pc. ws = [(pc, FormatPool hellos)] \<and> os_ReadFile d' path \<in> {os_ReadFile d path, Contents (FormatPool hellos)}
     \<and> (pc = Finished True \<longrightarrow> os_ReadFile d' path = Contents (FormatPool hellos))
     \<and> (pc \<noteq> Finished True \<longrightarrow> os_ReadFile d' path = os_ReadFile d path) \<and> sound path d'"
  using writing_ok [OF assms] by (force simp: write_ok_def split: writer_pc.splits bool.splits)

definition empty_disk :: Disk where
  "empty_disk = \<lparr>inode_of = (\<lambda>_. None), content_of = (\<lambda>_. []), next_inode = 0\<rparr>"

theorem pool_file_atomic_witness:
  "\<exists>d'. writing [112] empty_disk [(Begin, FormatPool [])] d' [(Ready, FormatPool [])] \<and> os_ReadFile d' [112] = Absent"
proof -
  have e: "sound [112] empty_disk" by (simp add: sound_def empty_disk_def)
  obtain n d1 where d1: "os_create (tmp_of [112]) empty_disk = (n, d1)" by fastforce
  have w: "writing [112] empty_disk [(Begin, FormatPool [])] d1 [(Writing n 0, FormatPool [])]"
    using writing.call [OF writing.start, of 0 "[(Begin, FormatPool [])]" "[112]" empty_disk] write_call.sys_create [OF d1] by fastforce
  have "writing [112] empty_disk [(Begin, FormatPool [])] d1 [(Ready, FormatPool [])]"
    using writing.call [OF w, of 0] write_call.sys_close [of "[112]" d1 n "[]"] by (fastforce simp: FormatPool_def)
  moreover have "os_ReadFile empty_disk [112] = Absent" by (simp add: os_ReadFile_def empty_disk_def)
  ultimately show ?thesis using pool_file_atomic [OF _ e] by fastforce
qed

text \<open>
  C21. What an accepted offer has written is what the next process starts from: if the file system refused nothing, a
  harvester opened on the same path with the same maximum holds the hellos and the keys the first one held.
\<close>

theorem Offer_persists:
  assumes "harvested readFile path maxi h" and "visits order" and "visits vorder" and "sound (hv_path h') d"
    and "Offer_written order vorder fl rec h d = ((True, None), h', d')" and "hv_path h' \<noteq> []"
  shows "NewHarvester (os_ReadFile d') (hv_path h') (int (hv_max h')) = h'\<lparr>hv_pending := [], hv_pendingKeys := {}\<rparr>"
proof -
  note ok = harvested_ok [OF assms(1)]
  obtain accepted snapshot h1 where o: "Offer order vorder rec h = (accepted, snapshot, h1)" by (metis prod_cases3)
  have acc: "Offer order vorder rec h = (True, snapshot, h')"
    using o assms(5) by (auto simp: Offer_written_def Let_def split: option.splits prod.splits)
  note ok' = harv_okD [OF Offer_ok [OF ok assms(2,3) acc]]
  have snap: "snapshot = Some (hv_hellos h')" by (rule Offer_accepted [OF ok assms(2) acc])
  have "writePoolFile fl (hv_path h') (hv_hellos h') d = (None, d')"
    using assms(5) by (auto simp: Offer_written_def acc snap Let_def split: prod.splits)
  then have "os_ReadFile d' (hv_path h') = Contents (FormatPool (hv_hellos h'))" using writePoolFile_reads [OF assms(4)] by simp
  from NewHarvester_written [where readFile = "os_ReadFile d'" and path = "hv_path h'", OF ok'(2,3,1) assms(6) this] show ?thesis by simp
qed

theorem Offer_persists_witness:
  "hv_hellos (NewHarvester (os_ReadFile (snd (snd (Offer_written id id no_faults (Marshal browser_hello) fresh_harvester empty_disk)))) [112] 2)
     = [Marshal clean_hello]"
proof -
  have s: "sound [112] empty_disk" by (simp add: sound_def empty_disk_def)
  obtain d' where w: "writePoolFile no_faults [112] [Marshal clean_hello] empty_disk = (None, d')"
    using writePoolFile_succeeds [OF s] by auto
  then have o: "Offer_written id id no_faults (Marshal browser_hello) fresh_harvester empty_disk = ((True, None), grown_harvester, d')"
    using w by (simp add: Offer_written_def grown_by_offer) (simp add: grown_harvester_def fresh_harvester)
  have "hv_path grown_harvester = [112]" "hv_max grown_harvester = 2" by (simp_all add: grown_harvester_def fresh_harvester)
  then show ?thesis
    using Offer_persists [OF harvested.opened _ _ _ o [unfolded fresh_harvester_def]] s o by (simp add: grown_harvester_def)
qed

end
