(* ===== verification/Own_Traffic.thy ===== *)
theory Own_Traffic
  imports Harvester Completion
begin

text \<open>
  A device taps its own outbound traffic, and its own traffic is made from its pool. This theory closes the circle: a
  hello emitted from a pool entry, offered to the harvester that holds the entry, is refused and changes nothing, so a
  pool never fills with copies of itself.
\<close>

section \<open>Sanitising and canonical forms\<close>

lemma canonical_type: "ExtType (canonical_ext e) = (if IsGREASE (ExtType e) then greaseSentinel else ExtType e)"
  by (simp add: canonical_ext_def Let_def)

lemma canonical_carried: "carried (canonical_ext e) = carried e"
  by (auto simp: carried_def canonical_type IsGREASE_def)

lemma canonical_psk: "ExtType (canonical_ext e) = ExtPreSharedKey \<longleftrightarrow> ExtType e = ExtPreSharedKey"
  by (auto simp: canonical_type IsGREASE_def)

lemma canonical_emptied: "canonical_ext (emptied e) = emptied (canonical_ext e)"
proof (cases "ExtType e = ExtSessionTicket")
  case True
  then show ?thesis by (cases e) (simp add: emptied_def canonical_ext_def IsGREASE_def Let_def)
next
  case False
  then have "ExtType (canonical_ext e) \<noteq> ExtSessionTicket" by (auto simp: canonical_type IsGREASE_def)
  then show ?thesis using False by (simp add: emptied_def)
qed

lemma canonical_sanitized:
  "image_mset canonical_ext (mset (map emptied (filter carried es)))
     = image_mset emptied (filter_mset carried (image_mset canonical_ext (mset es)))"
  by (induction es) (simp_all add: canonical_emptied canonical_carried)

lemma canonical_without_psk:
  "image_mset canonical_ext (mset (filter (\<lambda>e. ExtType e \<noteq> ExtPreSharedKey) es))
     = filter_mset (\<lambda>e. ExtType e \<noteq> ExtPreSharedKey) (image_mset canonical_ext (mset es))"
  by (induction es) (simp_all add: canonical_psk)

text \<open>What is left of a hello that was sanitised before.\<close>

definition sanitized :: "ClientHello \<Rightarrow> bool" where
  "sanitized h \<longleftrightarrow> (\<forall>e\<in>set (Extensions h). carried e \<and> emptied e = e)"

lemma sanitized_views: "sanitized h \<Longrightarrow> map emptied (filter carried (Extensions h)) = Extensions h"
proof -
  assume s: "sanitized h"
  then have "filter carried (Extensions h) = Extensions h" by (intro filter_True) (simp add: sanitized_def)
  moreover have "map emptied (Extensions h) = Extensions h" using s by (intro map_idI) (simp add: sanitized_def)
  ultimately show ?thesis by simp
qed

lemma Sanitize_sanitizes: "Sanitize h = Inr c \<Longrightarrow> sanitized c"
  by (auto simp: Sanitize_eq sanitized_def carried_def emptied_def bindE_eq_Inr split: if_splits)

text \<open>Sanitising a hello that has the views of a sanitised one leads back to its canonical form.\<close>

lemma Sanitize_back:
  assumes "Sanitize h' = Inr c" and "sanitized h" and "same_fields h (fst (dropExtension ExtPreSharedKey h'))"
    and "image_mset canonical_ext (mset (Extensions (fst (dropExtension ExtPreSharedKey h')))) = image_mset canonical_ext (mset (Extensions h))"
  shows "canonicalForm c = canonicalForm h"
proof (rule canonicalForm_of_views)
  obtain g where g: "SetSNI (replicate (length (SNI h')) 120) h' = Inr g"
    and c: "c = g\<lparr>Extensions := map emptied (filter carried (Extensions g)), Random := replicate 32 0,
             SessionID := replicate (length (SessionID g)) 0\<rparr>"
    using assms(1) by (auto simp: Sanitize_eq bindE_eq_Inr split: if_splits)
  have "same_fields h' g" using g by (auto simp: SetSNI_eq same_fields_def hello_simps split: if_splits)
  then show "same_fields h c" using assms(3) by (simp add: c same_fields_def dropExtension_def Let_def split: if_splits)
  let ?M = "image_mset canonical_ext (mset (Extensions h'))"
  have drop: "filter_mset (\<lambda>e. ExtType e \<noteq> ExtPreSharedKey) ?M = image_mset canonical_ext (mset (Extensions h))"
    using assms(4) unfolding canonical_without_psk [symmetric] by (simp add: dropExtension_def Let_def)
  have "image_mset canonical_ext (mset (Extensions c)) = image_mset emptied (filter_mset carried ?M)"
    unfolding c using SetSNI_views(1) [OF g] by (simp add: canonical_sanitized del: mset_map)
  also have "filter_mset carried ?M = filter_mset carried (filter_mset (\<lambda>e. ExtType e \<noteq> ExtPreSharedKey) ?M)"
    by (intro multiset_eqI) (auto simp: carried_def)
  also have "image_mset emptied \<dots> = image_mset canonical_ext (mset (map emptied (filter carried (Extensions h))))"
    unfolding drop canonical_sanitized ..
  also have "\<dots> = image_mset canonical_ext (mset (Extensions h))" unfolding sanitized_views [OF assms(2)] ..
  finally show "image_mset canonical_ext (mset (Extensions c)) = image_mset canonical_ext (mset (Extensions h))" .
qed

lemma SNI_length: "Find ExtServerName h = Some e \<Longrightarrow> length (SNI h) + 5 \<le> length (ExtData e) + 5 \<and> (SNI h = [] \<or> length (SNI h) + 5 \<le> length (ExtData e))"
  by (auto simp: SNI_def Let_def)

lemma Sanitize_fits:
  assumes "Sanitize h = Inr c" and "fits h n"
  shows "fits c (n + 5)"
proof -
  obtain g where g: "SetSNI (replicate (length (SNI h)) 120) h = Inr g"
    and c: "c = g\<lparr>Extensions := map emptied (filter carried (Extensions g)), Random := replicate 32 0,
             SessionID := replicate (length (SessionID g)) 0\<rparr>"
    using assms(1) by (auto simp: Sanitize_eq bindE_eq_Inr split: if_splits)
  obtain e where e: "Find ExtServerName h = Some e" and g': "g = SetExtData ExtServerName (sni_body (replicate (length (SNI h)) 120)) h"
    using g by (auto simp: SetSNI_eq split: if_splits)
  have grown: "length (exts_bytes (Extensions g)) \<le> length (exts_bytes (Extensions h)) + 5"
    using set_first_grow [of ExtServerName "Extensions h" e "sni_body (replicate (length (SNI h)) 120)" 5] e SNI_length [OF e]
    by (simp add: g' SetExtData_sel Find_def sni_body_def)
  have shrunk: "length (exts_bytes (map emptied (filter carried es))) \<le> length (exts_bytes es)" for es
    by (induction es) (auto simp: emptied_def)
  have "length (exts_bytes (Extensions c)) \<le> length (exts_bytes (Extensions h)) + 5"
    using le_trans [OF shrunk grown] by (simp add: c)
  then show ?thesis by (rule fits_frame [OF assms(2), rotated 4]) (simp_all add: c g' SetExtData_sel)
qed

section \<open>Properties\<close>

text \<open>
  C35. A harvester never learns from itself. A hello emitted from a record it holds, over either carrier and under any
  cover name, is refused when it is offered back, and nothing changes.
\<close>

theorem own_traffic_refused:
  assumes "harvested readFile path maxi hv" and "rec \<in> set (hv_hellos hv)"
    and "Twiddle K rec opt t = Inr ((wire, eph), t')" and "kex_ok K" and "ParseClientHello rec = Inr h" and "sanitized h"
    and "sole ExtKeyShare d h" and "share_ok d" and "ech_sized h"
    and "length rec + length (opt_CoverSNI opt) + length (cr_Ticket (opt_Credential opt)) < 65000"
  shows "Offer order vorder wire hv = (False, None, hv)"
proof (cases "offer_clean wire")
  case None
  then show ?thesis by (rule Offer_unclean)
next
  case (Some ck)
  then obtain clean key where c: "offer_clean wire = Some (clean, key)" by (cases ck) auto
  have "Find ExtPreSharedKey h = None" using assms(6) by (auto simp: Find_None sanitized_def carried_def)
  then obtain h' where h': "ParseClientHello wire = Inr h'" "same_fields h (fst (dropExtension ExtPreSharedKey h'))"
    "image_mset canonical_ext (mset (Extensions (fst (dropExtension ExtPreSharedKey h')))) = image_mset canonical_ext (mset (Extensions h))"
    using emission_views [OF assms(3-5) _ assms(7-10)] by blast
  obtain s where s: "Sanitize h' = Inr s" "clean = Marshal s"
    using c h'(1) by (auto simp: offer_clean_def Let_def split: sum.splits option.splits)
  have "wf_hello s" by (rule fits_wf [OF Sanitize_fits [OF s(1) parsed_fits [OF h'(1)]]]) (use emitted_length [OF assms(3)] assms(10) in simp)
  then have "contributionKey clean = contributionKey rec"
    using Sanitize_back [OF s(1) assms(6) h'(2,3)] parse_Marshal_wf assms(5) by (simp add: contributionKey_def s(2))
  then have "contributionKey rec = Some key" using offer_clean_Some [OF c] by simp
  then have "key \<in> hv_keys hv" using harv_okD(2) [OF harvested_ok [OF assms(1)]] assms(2) by (auto simp: keyed_def keys_of_eq)
  then show ?thesis by (rule Offer_known [OF c])
qed

lemma clean_hello_sole:
  "sole ExtKeyShare ([0, 36] @ exts_bytes [Extension GroupX25519 (replicate 32 0)]) clean_hello"
  "sole ExtServerName (sni_body [120, 120, 120]) clean_hello"
  "sole ExtECH (ech_body 1 1 9 (replicate 32 4) (replicate 144 6)) clean_hello"
  by (simp_all add: sole_def clean_hello_def)

lemma clean_emittable: "emittable (demo_opt b) clean_hello"
proof -
  have "Find ExtServerName clean_hello \<noteq> None" using sole_Find [OF clean_hello_sole(2)] by simp
  moreover have "shuffle_types (map ExtType (Extensions clean_hello))"
    by (simp add: shuffle_types_def clean_hello_def IsGREASE_def)
  moreover have "ech_body 1 1 9 (replicate 32 4) (replicate 144 6) \<noteq> []"
    "ech_body 1 1 9 (replicate 32 4) (replicate 144 6) ! 0 = 0" by (simp_all add: ech_body_def)
  ultimately show ?thesis
    unfolding emittable_def using clean_hello_sole browser_share_ok demo_cred_opens(4) by (auto simp: demo_opt_def)
qed

theorem own_traffic_refused_witness:
  "\<exists>t wire eph. Twiddle kex_demo (Marshal clean_hello) (demo_opt False) t = Inr ((wire, eph), [])
     \<and> Offer id id wire grown_harvester = (False, None, grown_harvester)"
proof -
  obtain x t where "Twiddle kex_demo (Marshal clean_hello) (demo_opt False) t = Inr (x, [])"
    using canE [OF Twiddle_emits_aux [OF clean_hello_parses clean_emittable kex_demo_ok]] by blast
  moreover obtain wire eph where "x = (wire, eph)" by (cases x)
  ultimately have r: "Twiddle kex_demo (Marshal clean_hello) (demo_opt False) t = Inr ((wire, eph), [])" by simp
  have held: "Marshal clean_hello \<in> set (hv_hellos grown_harvester)" by (simp add: grown_harvester_def)
  have san: "sanitized clean_hello" by (simp add: sanitized_def clean_hello_def carried_def emptied_def)
  have sized: "ech_sized clean_hello" using sole_Find [OF clean_hello_sole(3)] by (simp add: ech_sized_def ech_body_def)
  have "length (Marshal clean_hello) < 500"
    by (simp add: Marshal_eq_wire hello_wire_def clean_hello_def browser_hello_def small_hello_def hello_prefix_def sni_body_def ech_body_def)
  then have len: "length (Marshal clean_hello) + length (opt_CoverSNI (demo_opt False)) + length (cr_Ticket (opt_Credential (demo_opt False))) < 65000"
    using demo_cred_opens(3) by (simp add: demo_opt_def)
  show ?thesis
    using own_traffic_refused [OF grown_harvested held r kex_demo_ok clean_hello_parses san clean_hello_sole(1) browser_share_ok sized len] r
    by blast
qed

end
