(* ===== verification/Streams.thy ===== *)
theory Streams
  imports Prelude "HOL-Library.Sublist"
begin

text \<open>
  Byte streams that arrive in pieces. Several programs of the repository watch a connection through its reads: they
  keep what is incomplete in a buffer and note what is complete. The interfaces here say when that works, whatever the
  cuts: \<open>splitter\<close> for a loop that takes items off the front of a buffer, \<open>stream_tap\<close> for a state fed by several streams
  in turn, \<open>loop_tap\<close> for the states that keep a buffer per stream and one list, \<open>first_record\<close> for a watcher that waits for
  one item and is done.
\<close>

section \<open>Streams\<close>

text \<open>A read is the stream it is from and its bytes; a stream is all that was read of it.\<close>

definition stream :: "'d \<Rightarrow> ('d \<times> 'a list) list \<Rightarrow> 'a list" where
  "stream d rds = concat (map snd (filter (\<lambda>rd. fst rd = d) rds))"

lemma stream_Nil [simp]: "stream d [] = []"
  by (simp add: stream_def)

lemma stream_snoc: "stream d (rds @ [(d', b)]) = (if d = d' then stream d rds @ b else stream d rds)"
  by (simp add: stream_def)

lemma stream_append: "stream d (xs @ ys) = stream d xs @ stream d ys"
  by (simp add: stream_def)

lemma stream_pairs [simp]: "stream d (map (Pair d') bs) = (if d = d' then concat bs else [])"
  by (induction bs) (auto simp: stream_def comp_def)

section \<open>Taking items off a buffer\<close>

locale splitter =
  fixes split :: "'a list \<Rightarrow> 'r list \<times> 'a list"
  assumes split_append: "split (a @ b) = (fst (split a) @ fst (split (snd (split a) @ b)), snd (split (snd (split a) @ b)))"
    and split_Nil: "split [] = ([], [])"
begin

lemma split_rest: "split (snd (split a)) = ([], snd (split a))"
  using split_append [of a "[]"] by (simp add: prod_eq_iff)

lemma items_append: "fst (split (a @ b)) = fst (split a) @ fst (split (snd (split a) @ b))"
  using split_append [of a b] by simp

lemma rest_append: "snd (split (a @ b)) = snd (split (snd (split a) @ b))"
  using split_append [of a b] by simp

end

text \<open>
  A state that several streams feed. \<open>holds s all\<close> says that what was noted is \<open>all\<close>, or what the state keeps of it, and
  \<open>part d\<close> picks from it what stream \<open>d\<close> gave. A state may give up on a stream that is not \<open>ok\<close>. Its contract is about one
  read; what follows is about any number.
\<close>

locale stream_tap = splitter split
  for split :: "'a list \<Rightarrow> 'r list \<times> 'a list" +
  fixes ok :: "'a list \<Rightarrow> bool"
    and step :: "'s \<Rightarrow> 'd \<times> 'a list \<Rightarrow> 's"
    and bufs :: "'s \<Rightarrow> 'd \<Rightarrow> 'a list"
    and holds :: "'s \<Rightarrow> 'n list \<Rightarrow> bool"
    and part :: "'d \<Rightarrow> 'n list \<Rightarrow> 'v list"
    and view :: "'r \<Rightarrow> 'v"
  assumes ok_prefix: "ok (a @ b) \<Longrightarrow> ok a"
    and ok_rest: "ok (a @ b) \<Longrightarrow> ok (snd (split a) @ b)"
    and part_append: "part d (xs @ ys) = part d xs @ part d ys"
    and step_notes: "split (bufs s d) = ([], bufs s d) \<Longrightarrow> ok (bufs s d @ b) \<Longrightarrow> holds s all \<Longrightarrow>
      \<exists>new. holds (step s (d, b)) (all @ new) \<and> bufs (step s (d, b)) = (bufs s)(d := snd (split (bufs s d @ b)))
        \<and> part d new = map view (fst (split (bufs s d @ b))) \<and> (\<forall>d'. d' \<noteq> d \<longrightarrow> part d' new = [])"
begin

lemma part_Nil: "part d [] = []"
  using part_append [of d "[]" "[]"] by simp

text \<open>From empty buffers: the buffers hold what is incomplete, and each stream gave its items, in order and no other.\<close>

lemma any_cuts:
  assumes "\<And>d. ok (stream d rds)" and "bufs s = (\<lambda>_. [])" and "holds s all"
  shows "\<exists>new. holds (foldl step s rds) (all @ new) \<and> bufs (foldl step s rds) = (\<lambda>d. snd (split (stream d rds)))
    \<and> (\<forall>d. part d new = map view (fst (split (stream d rds))))"
  using assms(1)
proof (induction rds rule: rev_induct)
  case Nil
  then show ?case using assms(2,3) by (intro exI [of _ "[]"]) (simp add: split_Nil part_Nil)
next
  case (snoc rd rds)
  obtain d b where rd: "rd = (d, b)" by force
  let ?s = "foldl step s rds" and ?rest = "snd (split (stream d rds))"
  have "ok (stream d' rds)" for d' using snoc.prems [of d'] ok_prefix by (auto simp: rd stream_snoc split: if_splits)
  then obtain new where new: "holds ?s (all @ new)" "bufs ?s = (\<lambda>d. snd (split (stream d rds)))"
      "\<And>d. part d new = map view (fst (split (stream d rds)))"
    using snoc.IH by blast
  have "ok (stream d rds @ b)" using snoc.prems [of d] by (simp add: rd stream_snoc)
  then have "ok (?rest @ b)" by (rule ok_rest)
  then obtain more where more: "holds (step ?s rd) ((all @ new) @ more)" "bufs (step ?s rd) = (bufs ?s)(d := snd (split (?rest @ b)))"
      "part d more = map view (fst (split (?rest @ b)))" "\<And>d'. d' \<noteq> d \<Longrightarrow> part d' more = []"
    using step_notes [of ?s d b "all @ new"] split_rest new(1) by (auto simp: new(2) rd)
  have "bufs (step ?s rd) = (\<lambda>d'. snd (split (stream d' (rds @ [rd]))))"
    unfolding more(2) new(2) using rest_append [of "stream d rds" b] by (auto simp: rd stream_snoc fun_eq_iff)
  moreover have "part d' (new @ more) = map view (fst (split (stream d' (rds @ [rd]))))" for d'
    using new(3) more(3,4) items_append [of "stream d rds" b] by (cases "d' = d") (simp_all add: rd stream_snoc part_append)
  ultimately show ?case using more(1) by (intro exI [of _ "new @ more"]) simp
qed

end

text \<open>
  The taps that keep one buffer per stream and append to one list, of which they may \<open>keep\<close> only some. Their contract is
  about the loop over one buffer.
\<close>

locale loop_tap = splitter split
  for split :: "'a list \<Rightarrow> 'r list \<times> 'a list" +
  fixes ok :: "'a list \<Rightarrow> bool"
    and loop :: "'d \<Rightarrow> 'a list \<Rightarrow> 'n list \<Rightarrow> 'a list \<times> 'n list"
    and feed :: "('d \<Rightarrow> 'a list) \<times> 'n list \<Rightarrow> 'd \<times> 'a list \<Rightarrow> ('d \<Rightarrow> 'a list) \<times> 'n list"
    and keep :: "'n list \<Rightarrow> 'n list"
    and part :: "'d \<Rightarrow> 'n list \<Rightarrow> 'v list"
    and view :: "'r \<Rightarrow> 'v"
  assumes tap_prefix: "ok (a @ b) \<Longrightarrow> ok a"
    and tap_rest: "ok (a @ b) \<Longrightarrow> ok (snd (split a) @ b)"
    and tap_part: "part d (xs @ ys) = part d xs @ part d ys"
    and feed_loop: "feed (bs, recs) (d, b) = (bs(d := fst (loop d (bs d @ b) recs)), snd (loop d (bs d @ b) recs))"
    and loop_notes: "ok b \<Longrightarrow> \<exists>new. loop d b (keep all) = (snd (split b), keep (all @ new))
      \<and> part d new = map view (fst (split b)) \<and> (\<forall>d'. d' \<noteq> d \<longrightarrow> part d' new = [])"

sublocale loop_tap \<subseteq> stream_tap split ok feed fst "\<lambda>s all. snd s = keep all" part view
proof
  fix s :: "('d \<Rightarrow> 'a list) \<times> 'n list" and d b all
  assume ok: "ok (fst s d @ b)" and all: "snd s = keep all"
  obtain new where "loop d (fst s d @ b) (keep all) = (snd (split (fst s d @ b)), keep (all @ new))"
      "part d new = map view (fst (split (fst s d @ b)))" "\<forall>d'. d' \<noteq> d \<longrightarrow> part d' new = []"
    using loop_notes [OF ok] by blast
  moreover have "s = (fst s, keep all)" using all by (simp add: prod_eq_iff)
  moreover from this have "feed s (d, b) = ((fst s)(d := fst (loop d (fst s d @ b) (keep all))), snd (loop d (fst s d @ b) (keep all)))"
    using feed_loop [of "fst s" "keep all" d b] by simp
  ultimately show "\<exists>new. snd (feed s (d, b)) = keep (all @ new) \<and> fst (feed s (d, b)) = (fst s)(d := snd (split (fst s d @ b)))
      \<and> part d new = map view (fst (split (fst s d @ b))) \<and> (\<forall>d'. d' \<noteq> d \<longrightarrow> part d' new = [])"
    by (intro exI [of _ new]) simp
next
  show "ok a" if "ok (a @ b)" for a b using that by (rule tap_prefix)
  show "ok (snd (split a) @ b)" if "ok (a @ b)" for a b using that by (rule tap_rest)
  show "part d (xs @ ys) = part d xs @ part d ys" for d xs ys by (rule tap_part)
qed

lemma foldl_const [simp]: "foldl (\<lambda>s _. s) s xs = s"
  by (induction xs) simp_all

section \<open>Waiting for one item\<close>

text \<open>
  A watcher that buffers its reads until the buffer is \<open>ready\<close>, then acts on it once. \<open>rest\<close> is its state but for the
  buffer; a read is its bytes with what else came with it, and may be one that ends the wait early unless it is \<open>live\<close>.
\<close>

locale first_record =
  fixes bytes_of :: "'c \<Rightarrow> 'a list" and live :: "'c \<Rightarrow> bool"
    and step :: "'c \<Rightarrow> 's \<Rightarrow> 's" and pending :: "'s \<Rightarrow> bool" and buf :: "'s \<Rightarrow> 'a list" and rest :: "'s \<Rightarrow> 'r"
    and ready :: "'a list \<Rightarrow> bool" and wait :: "'c \<Rightarrow> 'r \<Rightarrow> 'r" and finish :: "'a list \<Rightarrow> 'r \<Rightarrow> 'r"
  assumes waits: "pending s \<Longrightarrow> live c \<Longrightarrow> \<not> ready (buf s @ bytes_of c) \<Longrightarrow>
      pending (step c s) \<and> buf (step c s) = buf s @ bytes_of c \<and> rest (step c s) = wait c (rest s)"
    and acts: "pending s \<Longrightarrow> \<not> ready (buf s) \<Longrightarrow> ready (buf s @ bytes_of c) \<Longrightarrow>
      \<not> pending (step c s) \<and> rest (step c s) = finish (buf s @ bytes_of c) (wait c (rest s))"
    and done_is_done: "\<not> pending s \<Longrightarrow> \<not> pending (step c s) \<and> rest (step c s) = rest s"
begin

lemma stays_done: "\<not> pending s \<Longrightarrow> \<not> pending (foldl (\<lambda>s c. step c s) s cs) \<and> rest (foldl (\<lambda>s c. step c s) s cs) = rest s"
  by (induction cs arbitrary: s) (simp_all add: done_is_done)

lemma still_waits:
  assumes "pending s" and "\<And>us. prefix us cs \<Longrightarrow> \<not> ready (buf s @ concat (map bytes_of us))" and "\<forall>c\<in>set cs. live c"
  shows "pending (foldl (\<lambda>s c. step c s) s cs) \<and> buf (foldl (\<lambda>s c. step c s) s cs) = buf s @ concat (map bytes_of cs)
    \<and> rest (foldl (\<lambda>s c. step c s) s cs) = foldl (\<lambda>r c. wait c r) (rest s) cs"
  using assms
proof (induction cs arbitrary: s)
  case (Cons c cs)
  have "prefix [c] (c # cs)" by simp
  then have "\<not> ready (buf s @ bytes_of c)" using Cons.prems(2) by fastforce
  then have c: "pending (step c s)" "buf (step c s) = buf s @ bytes_of c" "rest (step c s) = wait c (rest s)"
    using waits Cons.prems by auto
  have "\<not> ready (buf (step c s) @ concat (map bytes_of us))" if "prefix us cs" for us
    using Cons.prems(2) [of "c # us"] that c(2) by simp
  from Cons.IH [OF c(1) this] show ?case using c Cons.prems(3) by simp
qed simp

text \<open>
  On a stream of which the first \<open>n\<close> bytes make the buffer ready, and no fewer, the watcher acts once, on the buffer as it
  is after the read that completes them.
\<close>

lemma acts_once:
  assumes "pending s" and "buf s = []" and "concat (map bytes_of cs) = rec @ more" and "rec \<noteq> []" and "\<forall>c\<in>set cs. live c"
    and "\<And>x. prefix x (rec @ more) \<Longrightarrow> ready x \<longleftrightarrow> length rec \<le> length x"
  shows "\<exists>us c vs tail. cs = us @ c # vs \<and> length (concat (map bytes_of us)) < length rec
    \<and> concat (map bytes_of (us @ [c])) = rec @ tail \<and> prefix tail more
    \<and> \<not> pending (foldl (\<lambda>s c. step c s) s cs)
    \<and> rest (foldl (\<lambda>s c. step c s) s cs) = finish (rec @ tail) (foldl (\<lambda>r c. wait c r) (rest s) (us @ [c]))"
proof -
  let ?cat = "\<lambda>cs. concat (map bytes_of cs)"
  have "\<exists>us c vs. xs = us @ c # vs \<and> length (?cat us) < n \<and> n \<le> length (?cat (us @ [c]))" if "n \<le> length (?cat xs)" "0 < n" for xs n
    using that
  proof (induction xs rule: rev_induct)
    case (snoc x xs)
    show ?case
    proof (cases "n \<le> length (?cat xs)")
      case True
      then show ?thesis using snoc by fastforce
    next
      case False
      then show ?thesis using snoc.prems by (intro exI [of _ xs] exI [of _ x] exI [of _ "[]"]) simp
    qed
  qed simp
  then obtain us c vs where cs: "cs = us @ c # vs" and short: "length (?cat us) < length rec" and long: "length rec \<le> length (?cat (us @ [c]))"
    using assms(3,4) by (metis le_add1 length_append length_greater_0_conv)
  have pre: "prefix (?cat (us @ [c])) (rec @ more)" unfolding assms(3) [symmetric] cs by simp
  then obtain z where "?cat (us @ [c]) @ z = rec @ more" by (auto simp: prefix_def)
  then obtain tail where tail: "?cat (us @ [c]) = rec @ tail" "prefix tail more"
    using long unfolding append_eq_append_conv2 by (auto simp: prefix_def)
  have us: "\<not> ready (?cat vs)" if vs: "prefix vs us" for vs
  proof -
    from vs obtain ws where ws: "us = vs @ ws" by (auto elim: prefixE)
    then have "length (?cat vs) < length rec" "prefix (?cat vs) (rec @ more)"
      using short pre by (simp_all add: prefix_def) (metis append_assoc)
    then show ?thesis using assms(6) by force
  qed
  let ?s = "foldl (\<lambda>s c. step c s) s us"
  have at: "pending ?s" "buf ?s = ?cat us" "rest ?s = foldl (\<lambda>r c. wait c r) (rest s) us"
    using still_waits [OF assms(1), of us] us assms(2,5) by (simp_all add: cs)
  have "\<not> ready (buf ?s)" "ready (buf ?s @ bytes_of c)" using us [of us] assms(6) [OF pre] long by (simp_all add: at(2))
  from acts [OF at(1) this] have "\<not> pending (step c ?s)" "rest (step c ?s) = finish (rec @ tail) (foldl (\<lambda>r c. wait c r) (rest s) (us @ [c]))"
    using tail(1) by (simp_all add: at(2,3))
  then show ?thesis using stays_done [of "step c ?s" vs] tail short cs by (intro exI [of _ us] exI [of _ c] exI [of _ vs] exI [of _ tail]) simp
qed

text \<open>A watcher that notes nothing while it waits.\<close>

lemma acts_at_once:
  assumes "pending s" and "buf s = []" and "concat (map bytes_of cs) = rec @ more" and "rec \<noteq> []" and "\<forall>c\<in>set cs. live c"
    and "\<And>x. prefix x (rec @ more) \<Longrightarrow> ready x \<longleftrightarrow> length rec \<le> length x" and "\<And>c r. wait c r = r"
  shows "\<exists>tail. prefix tail more \<and> \<not> pending (foldl (\<lambda>s c. step c s) s cs)
    \<and> rest (foldl (\<lambda>s c. step c s) s cs) = finish (rec @ tail) (rest s)"
  using acts_once [OF assms(1-6)] by (auto simp: assms(7))

end

end
