(* ===== verification/Probe.thy ===== *)
theory Probe
  imports Cover Streams
begin

text \<open>
  \<^verbatim>\<open>src/harvest/coverprobe/coverprobe.go\<close>: measuring a cover's opening. The recorder that splits a byte stream into
  records, the reading of one opening, the pair of connections, and the sampling that feeds \<open>Adopt\<close>. The TLS
  client is a parameter: what it read from the server, when, and how its handshake ended. The facts: records do
  not depend on how the stream was cut into reads, nothing after the freeze is measured, and every flight seen is
  in the range that is adopted.
\<close>

section \<open>The recorder\<close>

abbreviation contentCCS :: byte where "contentCCS \<equiv> 0x14"
abbreviation contentAlert :: byte where "contentAlert \<equiv> 0x15"
abbreviation contentHandshake :: byte where "contentHandshake \<equiv> 0x16"
abbreviation contentAppData :: byte where "contentAppData \<equiv> 0x17"

record seen_record =
  seen_typ :: byte
  seen_wire :: nat

record recorder =
  tap_elapsed :: int
  tap_resumed :: bool
  tap_buf :: bytes
  tap_recs :: "seen_record list"
  tap_frozen :: "seen_record list option"

definition new_recorder :: recorder where
  "new_recorder = \<lparr>tap_elapsed = 0, tap_resumed = False, tap_buf = [], tap_recs = [], tap_frozen = None\<rparr>"

text \<open>The loop of \<^verbatim>\<open>Read\<close>: the records complete in the buffer, and what is left of it.\<close>

function split_records :: "bytes \<Rightarrow> seen_record list \<times> bytes" where
  "split_records buf =
     (if recordHeaderLen \<le> length buf
      then let sz = recordHeaderLen + unat (Uint16 (slice buf 3 5))
           in if length buf < sz then ([], buf)
              else let (recs, buf') = split_records (drop sz buf)
                   in (\<lparr>seen_typ = buf ! 0, seen_wire = sz\<rparr> # recs, buf')
      else ([], buf))"
  by pat_completeness auto
termination by (relation "measure length") auto

declare split_records.simps [simp del]

text \<open>\<^verbatim>\<open>Read\<close> when the connection below returned the bytes \<open>b\<close>.\<close>

definition recorder_Read :: "bytes \<Rightarrow> recorder \<Rightarrow> recorder" where
  "recorder_Read b r =
     (if 0 < length b
      then let (recs, buf) = split_records (tap_buf r @ b) in r\<lparr>tap_recs := tap_recs r @ recs, tap_buf := buf\<rparr>
      else r)"

definition freeze :: "recorder \<Rightarrow> recorder" where
  "freeze r = r\<lparr>tap_frozen := Some (tap_recs r)\<rparr>"

definition serverRecords :: "recorder \<Rightarrow> seen_record list" where
  "serverRecords r = (case tap_frozen r of None \<Rightarrow> tap_recs r | Some recs \<Rightarrow> recs)"

section \<open>One connection\<close>

text \<open>
  What dialling, the TLS client and the server did: the reads of the handshake, its error or its outcome and
  duration, the reads of the banking request, the error of the close.
\<close>

record tls_run =
  run_dial :: "err option"
  run_reads :: "bytes list"
  run_error :: "err option"
  run_resumed :: bool
  run_time :: int
  run_bank_reads :: "bytes list"
  run_close :: "err option"

definition session :: "tls_run \<Rightarrow> bool \<Rightarrow> recorder \<Rightarrow> err option \<times> recorder" where
  "session run bank tap =
     (case run_dial run of
        Some e \<Rightarrow> (Some e, tap)
      | None \<Rightarrow>
          let tap = foldl (\<lambda>tap b. recorder_Read b tap) tap (run_reads run)
          in case run_error run of
               Some e \<Rightarrow> (Some e, tap)
             | None \<Rightarrow>
                 let tap = freeze (tap\<lparr>tap_resumed := run_resumed run, tap_elapsed := run_time run\<rparr>);
                     tap = (if bank then foldl (\<lambda>tap b. recorder_Read b tap) tap (run_bank_reads run) else tap)
                 in (run_close run, tap))"

text \<open>The loop over the records after the ChangeCipherSpec: the error, and the lengths collected until then.\<close>

fun collect_remainder :: "seen_record list \<Rightarrow> int list \<Rightarrow> err option \<times> int list" where
  "collect_remainder [] rem = (None, rem)"
| "collect_remainder (r # rs) rem =
     (if seen_typ r = contentAlert then (Some (Err ''coverprobe: upstream sent an alert during the opening''), rem)
      else if seen_typ r \<noteq> contentAppData then (None, rem)
      else collect_remainder rs (rem @ [int (seen_wire r)]))"

definition readOpening :: "ProbeResult \<Rightarrow> recorder \<Rightarrow> int \<Rightarrow> err option \<times> ProbeResult" where
  "readOpening res tap wantServerHello =
     (let recs = serverRecords tap
      in if length recs < 3 then (Some (Err ''coverprobe: server sent too few records''), res)
         else if seen_typ (recs ! 0) \<noteq> contentHandshake then (Some (Err ''coverprobe: first record is not a handshake''), res)
         else let res = res\<lparr>pr_ServerHello := int (seen_wire (recs ! 0))\<rparr>
              in if pr_ServerHello res \<noteq> wantServerHello then (Some (Err ''coverprobe: ServerHello has another length''), res)
                 else if seen_typ (recs ! 1) \<noteq> contentCCS then (Some (Err ''coverprobe: second record is not a ChangeCipherSpec''), res)
                 else let ccs = int (seen_wire (recs ! 1))
                      in case collect_remainder (drop 2 recs) (pr_Remainder res) of
                           (Some e, rem) \<Rightarrow> (Some e, res\<lparr>pr_Remainder := rem\<rparr>)
                         | (None, rem) \<Rightarrow>
                             let res = res\<lparr>pr_Remainder := rem\<rparr>
                             in if length rem = 0 then (Some (Err ''coverprobe: no encrypted remainder''), res)
                                else (None, res\<lparr>pr_OpeningBurst := foldl (+) (pr_ServerHello res + ccs) rem,
                                        pr_Elapsed := tap_elapsed tap\<rparr>))"

section \<open>A pair of connections\<close>

definition new_result :: "bytes \<Rightarrow> bool \<Rightarrow> ProbeResult" where
  "new_result host full = \<lparr>pr_Host = host, pr_Full = full, pr_ServerHello = 0, pr_Remainder = [], pr_OpeningBurst = 0,
     pr_RemainderJitter = [], pr_Elapsed = 0\<rparr>"

definition ProbeBoth :: "bytes \<Rightarrow> tls_run \<times> tls_run \<Rightarrow> ProbeResult \<times> ProbeResult \<times> err option" where
  "ProbeBoth host runs =
     (let full = new_result host True; resumed = new_result host False
      in case session (fst runs) True new_recorder of
           (Some e, _) \<Rightarrow> (full, resumed, Some e)
         | (None, fullTap) \<Rightarrow>
             if tap_resumed fullTap then (full, resumed, Some (Err ''coverprobe: first connection resumed''))
             else (case readOpening full fullTap (int ServerHelloFullLen) of
               (Some e, full) \<Rightarrow> (full, resumed, Some e)
             | (None, full) \<Rightarrow>
                 (case session (snd runs) False new_recorder of
                    (Some e, _) \<Rightarrow> (full, resumed, Some e)
                  | (None, tap) \<Rightarrow>
                      if \<not> tap_resumed tap then (full, resumed, Some ErrNoResume)
                      else (case readOpening resumed tap (int ServerHelloResumedLen) of
                        (Some e, resumed) \<Rightarrow> (full, resumed, Some e)
                      | (None, resumed) \<Rightarrow> (full, resumed, None)))))"

definition Probe :: "bytes \<Rightarrow> tls_run \<times> tls_run \<Rightarrow> ProbeResult \<times> err option" where
  "Probe host runs = (let (_, resumed, e) = ProbeBoth host runs in (resumed, e))"

section \<open>Sampling\<close>

text \<open>The loop, \<open>k\<close> samples still to take; \<open>runs i\<close> is the pair of connections of sample \<open>i\<close>.\<close>

fun sample_loop :: "bytes \<Rightarrow> (nat \<Rightarrow> tls_run \<times> tls_run) \<Rightarrow> nat \<Rightarrow> nat \<Rightarrow> ProbeResult \<Rightarrow> int list \<Rightarrow> int list
    \<Rightarrow> (ProbeResult \<times> err) + (ProbeResult \<times> int list \<times> int list)" where
  "sample_loop host runs i 0 base lo hi = Inr (base, lo, hi)"
| "sample_loop host runs i (Suc k) base lo hi =
     (let (full, _, e) = ProbeBoth host (runs i)
      in if e \<noteq> None \<and> e \<noteq> Some ErrNoResume then Inl (base, the e)
         else if i = 0 then sample_loop host runs (i + 1) k full (pr_Remainder full) (pr_Remainder full)
         else if length (pr_Remainder full) \<noteq> length lo then Inl (base, Err ''coverprobe: not the same server'')
         else sample_loop host runs (i + 1) k base
           (map2 (\<lambda>l v. if v < l then v else l) lo (pr_Remainder full))
           (map2 (\<lambda>h v. if h < v then v else h) hi (pr_Remainder full)))"

definition SampleFull :: "bytes \<Rightarrow> (nat \<Rightarrow> tls_run \<times> tls_run) \<Rightarrow> int \<Rightarrow> ProbeResult \<times> int list \<times> err option" where
  "SampleFull host runs n =
     (if n < 2 then (new_result [] False, [], Some (Err ''coverprobe: SampleFull needs at least 2 samples to see a range''))
      else case sample_loop host runs 0 (nat n) (new_result [] False) [] [] of
             Inl (base, e) \<Rightarrow> (base, [], Some e)
           | Inr (base, lo, hi) \<Rightarrow>
               let jitter = map2 (\<lambda>l h. h - l) lo hi;
                   base = base\<lparr>pr_Remainder := lo, pr_RemainderJitter := jitter\<rparr>;
                   base = base\<lparr>pr_OpeningBurst := foldl (+) (int ServerHelloFullLen + int (length ChangeCipherSpec)) lo\<rparr>
               in (base, jitter, None))"

section \<open>Records do not depend on the reads\<close>

lemma split_records_append:
  "split_records (a @ b) = (let (recs, rest) = split_records a; (recs', rest') = split_records (rest @ b) in (recs @ recs', rest'))"
proof (induction a rule: split_records.induct)
  case (1 a)
  define sz where "sz = recordHeaderLen + unat (Uint16 (slice a 3 5))"
  show ?case
  proof (cases "recordHeaderLen \<le> length a \<and> sz \<le> length a")
    case True
    have s: "slice (a @ b) 3 5 = slice a 3 5" using True by (simp add: slice_prefix)
    have a0: "(a @ b) ! 0 = a ! 0" using True by (auto simp: nth_append)
    have "split_records (a @ b) = (let (recs, buf') = split_records (drop sz a @ b) in (\<lparr>seen_typ = a ! 0, seen_wire = sz\<rparr> # recs, buf'))"
      using True by (subst split_records.simps) (simp add: s a0 sz_def Let_def)
    moreover have "split_records a = (let (recs, buf') = split_records (drop sz a) in (\<lparr>seen_typ = a ! 0, seen_wire = sz\<rparr> # recs, buf'))"
      using True by (subst split_records.simps) (simp add: sz_def Let_def)
    moreover have "split_records (drop sz a @ b) = (let (recs, rest) = split_records (drop sz a); (recs', rest') = split_records (rest @ b) in (recs @ recs', rest'))"
      using 1 [OF _ sz_def] True by simp
    ultimately show ?thesis by (simp add: Let_def split_beta)
  next
    case False
    then have "split_records a = ([], a)" by (subst split_records.simps) (auto simp: sz_def Let_def)
    then show ?thesis by simp
  qed
qed

interpretation records: splitter split_records
  by unfold_locales (subst split_records_append, simp add: Let_def split_beta, simp add: split_records.simps [of "[]"])

text \<open>A recorder is fed by one stream; \<open>start\<close> is the state it started from.\<close>

interpretation reader: stream_tap split_records "\<lambda>_. True" "\<lambda>r (_ :: unit, b). recorder_Read b r" "\<lambda>r _. tap_buf r"
    "\<lambda>r all. r = start\<lparr>tap_recs := all, tap_buf := tap_buf r\<rparr>" "\<lambda>_ new. new" "\<lambda>r. r" for start :: recorder
proof
  fix r :: recorder and d :: unit and b :: bytes and all :: "seen_record list"
  assume r: "split_records (tap_buf r) = ([], tap_buf r)" "r = start\<lparr>tap_recs := all, tap_buf := tap_buf r\<rparr>"
  let ?b = "tap_buf r @ b"
  have "recorder_Read b r = start\<lparr>tap_recs := all @ fst (split_records ?b), tap_buf := snd (split_records ?b)\<rparr>"
    using r by (cases r, cases start) (auto simp: recorder_Read_def Let_def split_beta)
  then show "\<exists>new. (case (d, b) of (_, b) \<Rightarrow> recorder_Read b r) = start\<lparr>tap_recs := all @ new, tap_buf := tap_buf (case (d, b) of (_, b) \<Rightarrow> recorder_Read b r)\<rparr>
      \<and> (\<lambda>_. tap_buf (case (d, b) of (_, b) \<Rightarrow> recorder_Read b r)) = (\<lambda>_. tap_buf r)(d := snd (split_records ?b))
      \<and> new = map (\<lambda>r. r) (fst (split_records ?b)) \<and> (\<forall>d'. d' \<noteq> d \<longrightarrow> new = [])"
    by (simp add: fun_eq_iff)
qed simp_all

lemma reads_split:
  "foldl (\<lambda>r b. recorder_Read b r) new_recorder bs = new_recorder\<lparr>tap_recs := fst (split_records (concat bs)), tap_buf := snd (split_records (concat bs))\<rparr>"
proof -
  have "foldl (\<lambda>r b. recorder_Read b r) r bs = foldl (\<lambda>r (_ :: unit, b). recorder_Read b r) r (map (Pair ()) bs)" for r
    by (simp add: foldl_map)
  moreover have "tap_buf new_recorder = []" "new_recorder = new_recorder\<lparr>tap_recs := [], tap_buf := tap_buf new_recorder\<rparr>"
    by (simp_all add: new_recorder_def)
  ultimately show ?thesis
    using reader.any_cuts [where rds = "map (Pair ()) bs" and s = new_recorder and all = "[]" and start = new_recorder]
    by (simp add: fun_eq_iff) metis
qed

text \<open>A record on the wire, and what the recorder notes of it.\<close>

definition tls_record :: "byte \<times> u16 \<times> bytes \<Rightarrow> bytes" where
  "tls_record = (\<lambda>(t, v, body). [t] @ PutUint16 v @ PutUint16 (of_nat (length body)) @ body)"

definition seen :: "byte \<times> u16 \<times> bytes \<Rightarrow> seen_record" where
  "seen = (\<lambda>(t, v, body). \<lparr>seen_typ = t, seen_wire = recordHeaderLen + length body\<rparr>)"

lemma split_record: "length body < 65536 \<Longrightarrow>
    split_records (tls_record (t, v, body) @ rest) = (seen (t, v, body) # fst (split_records rest), snd (split_records rest))"
proof -
  assume l: "length body < 65536"
  let ?b = "tls_record (t, v, body) @ rest"
  have "slice ?b 3 5 = PutUint16 (of_nat (length body))"
    using slice_middle [of 3 "[t] @ PutUint16 v" 5 "PutUint16 (of_nat (length body))" "body @ rest"] by (simp add: tls_record_def)
  then have "unat (Uint16 (slice ?b 3 5)) = length body" using l by simp
  moreover have "length (tls_record (t, v, body)) = recordHeaderLen + length body" by (simp add: tls_record_def)
  then have "drop (recordHeaderLen + length body) ?b = rest" "recordHeaderLen + length body \<le> length ?b" by simp_all
  moreover have "?b ! 0 = t" by (simp add: tls_record_def)
  ultimately show ?thesis by (subst split_records.simps) (simp add: Let_def split_beta seen_def)
qed

lemma split_wire: "\<forall>(t, v, body)\<in>set rs. length body < 65536 \<Longrightarrow> split_records part = ([], part) \<Longrightarrow>
    split_records (concat (map tls_record rs) @ part) = (map seen rs, part)"
  by (induction rs) (auto simp: split_record)

lemma session_sees_aux:
  assumes "run_dial run = None" and "run_error run = None" and "\<forall>(t, v, body)\<in>set rs. length body < 65536"
    and "concat (run_reads run) = concat (map tls_record rs) @ part" and "split_records part = ([], part)"
  shows "\<exists>tap. session run bank new_recorder = (run_close run, tap) \<and> serverRecords tap = map seen rs
     \<and> tap_resumed tap = run_resumed run \<and> tap_elapsed tap = run_time run"
proof -
  have kept: "serverRecords (foldl (\<lambda>r b. recorder_Read b r) (freeze r) bs) = tap_recs r
      \<and> tap_resumed (foldl (\<lambda>r b. recorder_Read b r) (freeze r) bs) = tap_resumed r
      \<and> tap_elapsed (foldl (\<lambda>r b. recorder_Read b r) (freeze r) bs) = tap_elapsed r" for r bs
  proof -
    have "tap_frozen (foldl (\<lambda>r b. recorder_Read b r) x bs) = tap_frozen x
        \<and> tap_resumed (foldl (\<lambda>r b. recorder_Read b r) x bs) = tap_resumed x
        \<and> tap_elapsed (foldl (\<lambda>r b. recorder_Read b r) x bs) = tap_elapsed x" for x
      by (induction bs arbitrary: x) (auto simp: recorder_Read_def Let_def split_beta)
    then show ?thesis by (simp add: serverRecords_def freeze_def)
  qed
  have "foldl (\<lambda>r b. recorder_Read b r) new_recorder (run_reads run)
      = new_recorder\<lparr>tap_recs := map seen rs, tap_buf := part\<rparr>"
    using split_wire [OF assms(3,5)] assms(4)
    by (simp add: reads_split)
  then show ?thesis
    using assms(1,2) kept [of "(new_recorder\<lparr>tap_recs := map seen rs, tap_buf := part\<rparr>)\<lparr>tap_resumed := run_resumed run, tap_elapsed := run_time run\<rparr>" "run_bank_reads run"]
      kept [of "(new_recorder\<lparr>tap_recs := map seen rs, tap_buf := part\<rparr>)\<lparr>tap_resumed := run_resumed run, tap_elapsed := run_time run\<rparr>" "[]"]
    by (simp add: session_def Let_def)
qed

section \<open>Reading an opening\<close>

lemma collect_remainder_None: "collect_remainder rs acc = (None, rem) \<longleftrightarrow>
    (\<exists>ns rest. rs = map (\<lambda>n. \<lparr>seen_typ = contentAppData, seen_wire = n\<rparr>) ns @ rest \<and> rem = acc @ map int ns
       \<and> (rest = [] \<or> seen_typ (hd rest) \<noteq> contentAppData \<and> seen_typ (hd rest) \<noteq> contentAlert))"
proof (induction rs arbitrary: acc)
  case (Cons r rs)
  show ?case
  proof (cases "seen_typ r = contentAppData")
    case True
    let ?app = "\<lambda>n. \<lparr>seen_typ = contentAppData, seen_wire = n\<rparr>"
    have r: "r = ?app (seen_wire r)" using True by (cases r) simp
    show ?thesis
    proof
      assume "collect_remainder (r # rs) acc = (None, rem)"
      then obtain ns rest where "rs = map ?app ns @ rest" "rem = (acc @ [int (seen_wire r)]) @ map int ns"
        "rest = [] \<or> seen_typ (hd rest) \<noteq> contentAppData \<and> seen_typ (hd rest) \<noteq> contentAlert"
        using True Cons.IH by auto
      then show "\<exists>ns rest. r # rs = map ?app ns @ rest \<and> rem = acc @ map int ns
          \<and> (rest = [] \<or> seen_typ (hd rest) \<noteq> contentAppData \<and> seen_typ (hd rest) \<noteq> contentAlert)"
        using r by (intro exI [of _ "seen_wire r # ns"] exI [of _ rest]) simp
    next
      assume "\<exists>ns rest. r # rs = map ?app ns @ rest \<and> rem = acc @ map int ns
          \<and> (rest = [] \<or> seen_typ (hd rest) \<noteq> contentAppData \<and> seen_typ (hd rest) \<noteq> contentAlert)"
      then obtain ns rest where a: "r # rs = map ?app ns @ rest" "rem = acc @ map int ns"
        "rest = [] \<or> seen_typ (hd rest) \<noteq> contentAppData \<and> seen_typ (hd rest) \<noteq> contentAlert" by blast
      then obtain n ms where "ns = n # ms" using True by (cases ns) auto
      then show "collect_remainder (r # rs) acc = (None, rem)" using a True Cons.IH [of "acc @ [int n]"] by auto
    qed
  next
    case False
    have "r # rs = map (\<lambda>n. \<lparr>seen_typ = contentAppData, seen_wire = n\<rparr>) ns @ rest \<longleftrightarrow> ns = [] \<and> rest = r # rs" for ns rest
      using False by (cases ns) auto
    then show ?thesis using False by auto
  qed
qed auto

section \<open>Samples\<close>

definition sample :: "bytes \<Rightarrow> (nat \<Rightarrow> tls_run \<times> tls_run) \<Rightarrow> nat \<Rightarrow> int list" where
  "sample host runs i = pr_Remainder (fst (ProbeBoth host (runs i)))"

text \<open>\<open>lo\<close> and \<open>hi\<close> are, position by position, the least and the greatest of a set of flights of length \<open>n\<close>.\<close>

definition spans :: "nat \<Rightarrow> int list set \<Rightarrow> int list \<Rightarrow> int list \<Rightarrow> bool" where
  "spans n S lo hi \<longleftrightarrow> length lo = n \<and> length hi = n \<and> (\<forall>xs\<in>S. length xs = n)
     \<and> (\<forall>j<n. (\<forall>xs\<in>S. lo ! j \<le> xs ! j \<and> xs ! j \<le> hi ! j) \<and> (\<exists>xs\<in>S. lo ! j = xs ! j) \<and> (\<exists>xs\<in>S. hi ! j = xs ! j))"

lemma spans_insert:
  assumes "spans n S lo hi" and "length v = length lo"
  shows "spans n (insert v S) (map2 (\<lambda>l v. if v < l then v else l) lo v) (map2 (\<lambda>h v. if h < v then v else h) hi v)"
proof -
  have len: "length lo = n" "length hi = n" "\<forall>xs\<in>S. length xs = n" "length v = n" using assms by (simp_all add: spans_def)
  have "(\<forall>xs\<in>insert v S. (if v ! j < lo ! j then v ! j else lo ! j) \<le> xs ! j \<and> xs ! j \<le> (if hi ! j < v ! j then v ! j else hi ! j))
      \<and> (\<exists>xs\<in>insert v S. (if v ! j < lo ! j then v ! j else lo ! j) = xs ! j)
      \<and> (\<exists>xs\<in>insert v S. (if hi ! j < v ! j then v ! j else hi ! j) = xs ! j)" if "j < n" for j
  proof -
    have a: "\<forall>xs\<in>S. lo ! j \<le> xs ! j \<and> xs ! j \<le> hi ! j" "\<exists>xs\<in>S. lo ! j = xs ! j" "\<exists>xs\<in>S. hi ! j = xs ! j"
      using assms(1) that by (simp_all add: spans_def)
    then show ?thesis by fastforce
  qed
  then show ?thesis using len by (simp add: spans_def)
qed

lemma sample_loop_spans:
  assumes "sample_loop host runs i k base lo hi = Inr (base', lo', hi')" and "0 < i" and "spans n (sample host runs ` {..<i}) lo hi"
  shows "base' = base \<and> spans n (sample host runs ` {..<i + k}) lo' hi'"
  using assms
proof (induction k arbitrary: i lo hi)
  case (Suc k)
  let ?v = "sample host runs i"
  obtain full resumed e where b: "ProbeBoth host (runs i) = (full, resumed, e)" by (metis prod_cases3)
  have v: "pr_Remainder full = ?v" by (simp add: sample_def b)
  have len: "length ?v = length lo" and
    later: "sample_loop host runs (i + 1) k base (map2 (\<lambda>l v. if v < l then v else l) lo ?v) (map2 (\<lambda>h v. if h < v then v else h) hi ?v)
      = Inr (base', lo', hi')"
    using Suc.prems(1,2) by (auto simp: b v split: if_splits)
  have "sample host runs ` {..<i + 1} = insert ?v (sample host runs ` {..<i})" by (simp add: lessThan_Suc)
  then have "spans n (sample host runs ` {..<i + 1}) (map2 (\<lambda>l v. if v < l then v else l) lo ?v) (map2 (\<lambda>h v. if h < v then v else h) hi ?v)"
    using spans_insert [OF Suc.prems(3) len] by simp
  from Suc.IH [OF later _ this] show ?case by simp
qed simp

lemma readOpening_keeps: "pr_Full (snd (readOpening res tap w)) = pr_Full res \<and> pr_Host (snd (readOpening res tap w)) = pr_Host res"
  by (simp add: readOpening_def Let_def split: option.split prod.split)

lemma ProbeBoth_full: "pr_Full (fst (ProbeBoth host runs)) \<and> pr_Host (fst (ProbeBoth host runs)) = host"
proof -
  obtain e1 tap1 where s1: "session (fst runs) True new_recorder = (e1, tap1)" by fastforce
  obtain e2 tap2 where s2: "session (snd runs) False new_recorder = (e2, tap2)" by fastforce
  obtain e full where r: "readOpening (new_result host True) tap1 (int ServerHelloFullLen) = (e, full)" by fastforce
  obtain e' resumed where r': "readOpening (new_result host False) tap2 (int ServerHelloResumedLen) = (e', resumed)" by fastforce
  have "fst (ProbeBoth host runs) = new_result host True \<or> fst (ProbeBoth host runs) = full"
    by (cases e1; cases e2; cases e; cases e') (simp_all add: ProbeBoth_def Let_def s1 s2 r r' del: of_nat_numeral)
  moreover have "pr_Full full \<and> pr_Host full = host" using readOpening_keeps [of "new_result host True" tap1 "int ServerHelloFullLen"] r
    by (simp add: new_result_def)
  ultimately show ?thesis by (auto simp: new_result_def)
qed

lemma SampleFull_spans:
  assumes "SampleFull host runs n = (base, jitter, None)"
  shows "2 \<le> n \<and> pr_Full base \<and> pr_RemainderJitter base = jitter \<and> length jitter = length (pr_Remainder base)
     \<and> spans (length jitter) (sample host runs ` {..<nat n}) (pr_Remainder base) (map2 (+) (pr_Remainder base) jitter)"
proof -
  have n: "2 \<le> n" using assms by (auto simp: SampleFull_def split: if_splits)
  then obtain k where k: "nat n = Suc k" by (cases "nat n") auto
  obtain full resumed e where b: "ProbeBoth host (runs 0) = (full, resumed, e)" by (metis prod_cases3)
  obtain b0 lo hi where l: "sample_loop host runs 0 (nat n) (new_result [] False) [] [] = Inr (b0, lo, hi)"
  proof (cases "sample_loop host runs 0 (nat n) (new_result [] False) [] []")
    case (Inl x)
    then show thesis using assms n by (cases x) (simp add: SampleFull_def)
  next
    case (Inr x)
    then show thesis using that by (cases x) auto
  qed
  have jitter: "jitter = map2 (\<lambda>l h. h - l) lo hi" and
    base: "base = b0\<lparr>pr_Remainder := lo, pr_RemainderJitter := jitter,
        pr_OpeningBurst := foldl (+) (int ServerHelloFullLen + int (length ChangeCipherSpec)) lo\<rparr>"
    using assms n by (auto simp: SampleFull_def l Let_def)
  have l1: "sample_loop host runs 1 k full (pr_Remainder full) (pr_Remainder full) = Inr (b0, lo, hi)"
    using l unfolding k by (auto simp: b split: if_splits)
  have "spans (length (pr_Remainder full)) (sample host runs ` {..<1}) (pr_Remainder full) (pr_Remainder full)"
    by (simp add: spans_def sample_def b)
  from sample_loop_spans [OF l1 _ this]
  have b0: "b0 = full" and sp: "spans (length (pr_Remainder full)) (sample host runs ` {..<nat n}) lo hi" unfolding k by simp_all
  have "pr_Full full" using ProbeBoth_full [of host "runs 0"] b by simp
  moreover have "map2 (+) lo jitter = hi" using sp unfolding jitter spans_def by (intro nth_equalityI) auto
  ultimately show ?thesis using sp n by (simp add: base jitter b0 spans_def)
qed

section \<open>Properties\<close>

text \<open>
  C25. What a probe measures does not depend on how the network cut the stream, nor on anything after the
  handshake: for a server that sent whole records and part of one more, in any reads, the connection reports
  exactly these records' types and lengths, and the answer to the banking request leaves no trace.
\<close>

theorem session_sees:
  assumes "run_dial run = None" and "run_error run = None" and "\<forall>(t, v, body)\<in>set rs. length body < 65536"
    and "concat (run_reads run) = concat (map tls_record rs) @ part" and "split_records part = ([], part)"
  shows "fst (session run bank new_recorder) = run_close run \<and> serverRecords (snd (session run bank new_recorder)) = map seen rs"
  using session_sees_aux [OF assms, of bank] by auto

text \<open>A full handshake whose certificate flight is of \<open>n\<close> bytes, and a second one that declined to resume.\<close>

definition demo_opening :: "nat \<Rightarrow> (byte \<times> u16 \<times> bytes) list" where
  "demo_opening n = [(contentHandshake, 0x0303, replicate 1210 0), (contentCCS, 0x0303, [1]), (contentAppData, 0x0303, replicate n 0)]"

definition demo_run :: "nat \<Rightarrow> tls_run" where
  "demo_run n = \<lparr>run_dial = None, run_reads = map tls_record (demo_opening n), run_error = None, run_resumed = False, run_time = 0,
     run_bank_reads = [[0x17, 3, 3, 0, 0]], run_close = None\<rparr>"

lemma split_nothing: "split_records [] = ([], [])"
  by (simp add: split_records.simps [of "[]"])

theorem session_sees_witness:
  "serverRecords (snd (session (demo_run 2000) True new_recorder)) = map seen (demo_opening 2000)"
  using session_sees [of "demo_run 2000" "demo_opening 2000" "[]" True] by (simp add: demo_run_def split_nothing) (simp add: demo_opening_def)

text \<open>
  The one shape an opening is read from: a handshake record of the wanted length, a ChangeCipherSpec, and at
  least one record of application data, up to the end or a record that is neither application data nor an alert. Of
  these the result is the lengths, in order, and their sum; anything else is an error.
\<close>

theorem readOpening_iff:
  "readOpening (new_result host full) tap want = (None, res) \<longleftrightarrow>
     (\<exists>sh ccs ns rest. serverRecords tap = \<lparr>seen_typ = contentHandshake, seen_wire = sh\<rparr> # \<lparr>seen_typ = contentCCS, seen_wire = ccs\<rparr>
          # map (\<lambda>n. \<lparr>seen_typ = contentAppData, seen_wire = n\<rparr>) ns @ rest
        \<and> int sh = want \<and> ns \<noteq> [] \<and> (rest = [] \<or> seen_typ (hd rest) \<noteq> contentAppData \<and> seen_typ (hd rest) \<noteq> contentAlert)
        \<and> res = (new_result host full)\<lparr>pr_ServerHello := want, pr_Remainder := map int ns,
             pr_OpeningBurst := want + int ccs + sum_list (map int ns), pr_Elapsed := tap_elapsed tap\<rparr>)"
    (is "?l \<longleftrightarrow> ?r")
proof -
  let ?app = "\<lambda>n. \<lparr>seen_typ = contentAppData, seen_wire = n\<rparr>"
  have sum: "foldl (+) a xs = a + sum_list xs" for a :: int and xs by (induction xs arbitrary: a) simp_all
  have empty: "pr_Remainder (new_result host full) = []" by (simp add: new_result_def)
  show ?thesis
  proof
    assume l: ?l
    then have len: "3 \<le> length (serverRecords tap)" by (auto simp: readOpening_def Let_def split: if_splits)
    then obtain start r1 rs where recs: "serverRecords tap = start # r1 # rs" by (cases "serverRecords tap"; cases "tl (serverRecords tap)") auto
    obtain sh where sh: "start = \<lparr>seen_typ = contentHandshake, seen_wire = sh\<rparr>" "int sh = want"
      using l len recs by (cases start) (auto simp: readOpening_def Let_def split: if_splits)
    obtain ccs where ccs: "r1 = \<lparr>seen_typ = contentCCS, seen_wire = ccs\<rparr>"
      using l len recs by (cases r1) (auto simp: readOpening_def Let_def split: if_splits)
    obtain rem where rem: "collect_remainder rs [] = (None, rem)" "rem \<noteq> []"
      "res = (new_result host full)\<lparr>pr_ServerHello := want, pr_Remainder := rem, pr_OpeningBurst := want + int ccs + sum_list rem, pr_Elapsed := tap_elapsed tap\<rparr>"
      using l len recs sh ccs by (auto simp: readOpening_def Let_def sum empty split: if_splits option.splits prod.splits)
    obtain ns rest where "rs = map ?app ns @ rest" "rem = map int ns"
      "rest = [] \<or> seen_typ (hd rest) \<noteq> contentAppData \<and> seen_typ (hd rest) \<noteq> contentAlert"
      using rem(1) unfolding collect_remainder_None by auto
    then show ?r using recs sh ccs rem(2,3) by auto
  next
    assume ?r
    then obtain sh ccs ns rest where recs: "serverRecords tap = \<lparr>seen_typ = contentHandshake, seen_wire = sh\<rparr> # \<lparr>seen_typ = contentCCS, seen_wire = ccs\<rparr> # map ?app ns @ rest"
      and w: "int sh = want" "ns \<noteq> []" "rest = [] \<or> seen_typ (hd rest) \<noteq> contentAppData \<and> seen_typ (hd rest) \<noteq> contentAlert"
      and res: "res = (new_result host full)\<lparr>pr_ServerHello := want, pr_Remainder := map int ns,
             pr_OpeningBurst := want + int ccs + sum_list (map int ns), pr_Elapsed := tap_elapsed tap\<rparr>" by blast
    have "collect_remainder (map ?app ns @ rest) [] = (None, map int ns)" using w(3) by (simp add: collect_remainder_None)
    moreover have "3 \<le> length (serverRecords tap)" using recs w(2) by (cases ns) auto
    ultimately show ?l using recs w(1,2) by (simp add: readOpening_def Let_def sum empty res)
  qed
qed

text \<open>
  C24. From the samples to what is emitted. A profile that adopted a sampling draws every flight that was seen, and no
  record of any flight it draws is shorter than the shortest seen at its place or longer than the longest.
\<close>

theorem SampleFull_adopted:
  assumes "SampleFull host runs n = (base, jitter, None)" and "Adopt p base = Inr p'"
  shows "list_all (\<lambda>i. \<exists>r. \<forall>t. DrawFullRemainder p' (r @ t) = Inr (sample host runs i, t)) [0..<nat n]
     \<and> (\<forall>t xs t'. DrawFullRemainder p' t = Inr (xs, t') \<longrightarrow> list_all (\<lambda>j.
          list_ex (\<lambda>i. sample host runs i ! j \<le> xs ! j) [0..<nat n] \<and> list_ex (\<lambda>i. xs ! j \<le> sample host runs i ! j) [0..<nat n]) [0..<length xs])"
proof -
  note s = SampleFull_spans [OF assms(1)]
  have p': "p' = p\<lparr>cp_FullRemainder := pr_Remainder base, cp_FullRemainderJitter := jitter\<rparr>" "flight_ok p'"
    using Adopt_full [OF assms(2)] s by auto
  define m where "m = length jitter"
  have len: "length (pr_Remainder base) = m" "length jitter = m" using s by (simp_all add: m_def)
  have ne: "jitter \<noteq> []" using p'(2) len by (auto simp: flight_ok_def p'(1))
  have sp: "spans m (sample host runs ` {..<nat n}) (pr_Remainder base) (map2 (+) (pr_Remainder base) jitter)" using s unfolding m_def by blast
  have hi: "map2 (+) (pr_Remainder base) jitter ! j = pr_Remainder base ! j + jitter ! j" if "j < m" for j using that len by simp
  have nonneg: "0 \<le> jitter ! j" if "j < m" for j
  proof -
    have "sample host runs 0 \<in> sample host runs ` {..<nat n}" using s by auto
    then have "pr_Remainder base ! j \<le> sample host runs 0 ! j \<and> sample host runs 0 ! j \<le> pr_Remainder base ! j + jitter ! j"
      using sp that hi unfolding spans_def by metis
    then show ?thesis by simp
  qed
  have slack: "slack (cp_FullRemainderJitter p') j = jitter ! j" if "j < m" for j using nonneg [OF that] ne by (simp add: p'(1) slack_def)
  have "in_range p' (sample host runs i)" if "i < nat n" for i
    using sp that slack hi len unfolding spans_def in_range_def p'(1) by auto
  then have "\<forall>i<nat n. \<exists>r. \<forall>t. DrawFullRemainder p' (r @ t) = Inr (sample host runs i, t)"
    using Draw_yields [OF p'(2)] by (simp add: yields_def)
  moreover have "list_ex (\<lambda>i. sample host runs i ! j \<le> xs ! j) [0..<nat n] \<and> list_ex (\<lambda>i. xs ! j \<le> sample host runs i ! j) [0..<nat n]"
    if d: "DrawFullRemainder p' t = Inr (xs, t')" and j: "j < length xs" for t xs t' j
  proof -
    have r: "in_range p' xs" using Draw_result [OF d] by simp
    then have "j < m" using j len by (simp add: in_range_def p'(1))
    then have b: "pr_Remainder base ! j \<le> xs ! j" "xs ! j \<le> pr_Remainder base ! j + jitter ! j"
      using r j slack by (auto simp: in_range_def p'(1))
    obtain i i' where "i < nat n" "pr_Remainder base ! j = sample host runs i ! j" "i' < nat n" "pr_Remainder base ! j + jitter ! j = sample host runs i' ! j"
      using sp hi \<open>j < m\<close> unfolding spans_def by force
    then show ?thesis using b unfolding list_ex_iff by (metis atLeastLessThan_iff set_upt zero_le)
  qed
  ultimately show ?thesis unfolding list_all_iff by simp
qed

lemma demo_ProbeBoth:
  assumes "n < 65536" and "0 < n"
  shows "\<exists>resumed. ProbeBoth host (demo_run n, demo_run m) = ((new_result host True)\<lparr>pr_ServerHello := 1215, pr_Remainder := [int n + 5],
     pr_OpeningBurst := int n + 1226, pr_Elapsed := 0\<rparr>, resumed, Some ErrNoResume)"
proof -
  have sees: "\<exists>tap. session (demo_run k) bank new_recorder = (None, tap) \<and> serverRecords tap = map seen (demo_opening k)
      \<and> \<not> tap_resumed tap \<and> tap_elapsed tap = 0" if "k < 65536" for k bank
    using session_sees_aux [of "demo_run k" "demo_opening k" "[]" bank] that
    by (simp add: demo_run_def split_nothing) (simp add: demo_opening_def split_nothing)
  have second: "\<exists>tap. session (demo_run m) False new_recorder = (None, tap) \<and> \<not> tap_resumed tap"
  proof -
    have "tap_resumed (foldl (\<lambda>r b. recorder_Read b r) x bs) = tap_resumed x" for x bs
      by (induction bs arbitrary: x) (auto simp: recorder_Read_def Let_def split_beta)
    then show ?thesis by (simp add: session_def demo_run_def freeze_def Let_def)
  qed
  obtain tap where tap: "session (demo_run n) True new_recorder = (None, tap)" "serverRecords tap = map seen (demo_opening n)"
    "\<not> tap_resumed tap" "tap_elapsed tap = 0" using sees [OF assms(1)] by blast
  obtain tap' where tap': "session (demo_run m) False new_recorder = (None, tap')" "\<not> tap_resumed tap'" using second by blast
  have "readOpening (new_result host True) tap 1215 = (None, (new_result host True)\<lparr>pr_ServerHello := 1215, pr_Remainder := [int n + 5],
     pr_OpeningBurst := int n + 1226, pr_Elapsed := 0\<rparr>)"
    using tap(2,4) by (simp add: readOpening_def Let_def demo_opening_def seen_def new_result_def)
  then show ?thesis using tap tap' by (simp add: ProbeBoth_def Let_def)
qed

theorem SampleFull_adopted_witness:
  "\<exists>r. \<forall>t. DrawFullRemainder (demo_profile\<lparr>cp_FullRemainder := [2005], cp_FullRemainderJitter := [1]\<rparr>) (r @ t) = Inr ([2006], t)"
proof -
  let ?runs = "\<lambda>i. (demo_run (2000 + i), demo_run 0)"
  obtain start where p0: "ProbeBoth demo_host (?runs 0) = ((new_result demo_host True)\<lparr>pr_ServerHello := 1215, pr_Remainder := [2005],
     pr_OpeningBurst := 3226, pr_Elapsed := 0\<rparr>, start, Some ErrNoResume)" using demo_ProbeBoth [of 2000 demo_host 0] by auto
  obtain r1 where p1: "ProbeBoth demo_host (?runs 1) = ((new_result demo_host True)\<lparr>pr_ServerHello := 1215, pr_Remainder := [2006],
     pr_OpeningBurst := 3227, pr_Elapsed := 0\<rparr>, r1, Some ErrNoResume)" using demo_ProbeBoth [of 2001 demo_host 0] by auto
  define base where "base = \<lparr>pr_Host = demo_host, pr_Full = True, pr_ServerHello = 1215, pr_Remainder = [2005], pr_OpeningBurst = 3226,
     pr_RemainderJitter = [1], pr_Elapsed = 0\<rparr>"
  have s: "SampleFull demo_host ?runs 2 = (base, [1], None)"
    using p0 p1 by (simp add: SampleFull_def numeral_2_eq_2 Let_def new_result_def base_def ChangeCipherSpec_def)
  have "CoverFor (pr_Host base) = Inr demo_profile" "CoverFor (cp_Host demo_profile) = Inr demo_profile"
    using demo_CoverFor by (simp_all add: base_def demo_profile_def demo_host_def)
  then have a: "Adopt demo_profile base = Inr (demo_profile\<lparr>cp_FullRemainder := [2005], cp_FullRemainderJitter := [1]\<rparr>)"
    by (simp add: Adopt_def base_def)
  have "sample demo_host ?runs 1 = [2006]" using p1 by (simp add: sample_def)
  then show ?thesis using SampleFull_adopted [OF s a] by (simp add: numeral_2_eq_2)
qed

end
