(* ===== verification/Measure.thy ===== *)
theory Measure
  imports Probe Emission
begin

text \<open>
  Scanners of the tools under \<^verbatim>\<open>src/harvest/cmd\<close>: three that walk a ClientHello without the library's parser
  (\<^verbatim>\<open>resumeratio\<close>, \<^verbatim>\<open>resume\<close>), one that uses it (\<^verbatim>\<open>sweep\<close>), and what a splitter of records is on streams that are TLS.
  The facts: the scanners agree with the parser on every record \<open>Marshal\<close> prints, and a sweep reports what the hellos say.
\<close>

section \<open>Scanners\<close>

text \<open>
  \<^verbatim>\<open>hasPSK\<close> of \<^verbatim>\<open>resumeratio\<close>, \<^verbatim>\<open>extSizes\<close> and \<^verbatim>\<open>extData\<close> of \<^verbatim>\<open>resume\<close> begin with the same walk to the extensions:
  their first offset and their declared end, unless the body is too short.
\<close>

definition walk_header :: "bytes \<Rightarrow> (nat \<times> nat) option" where
  "walk_header b =
     (let p = 4 + 2 + 32
      in if length b \<le> p then None
         else let p = p + 1 + unat (b ! p)
              in if length b < p + 2 then None
                 else let p = p + 2 + unat (Uint16 (slice b p (p + 2)))
                      in if length b \<le> p then None
                         else let p = p + 1 + unat (b ! p)
                              in if length b < p + 2 then None
                                 else Some (p + 2, p + 2 + unat (Uint16 (slice b p (p + 2)))))"

function psk_loop :: "bytes \<Rightarrow> nat \<Rightarrow> nat \<Rightarrow> bool" where
  "psk_loop b ende p =
     (if p + 4 \<le> ende \<and> p + 4 \<le> length b
      then let id = Uint16 (slice b p (p + 2)); ln = unat (Uint16 (slice b (p + 2) (p + 4)))
           in if id = 41 then True else psk_loop b ende (p + 4 + ln)
      else False)"
  by pat_completeness auto
termination by (relation "measure (\<lambda>(b, ende, p). ende - p)") auto

definition hasPSK :: "bytes \<Rightarrow> bool \<times> bool" where
  "hasPSK rec =
     (if length rec < 6 \<or> rec ! 0 \<noteq> 0x16 then (False, False)
      else let b = drop 5 rec
           in if length b < 4 \<or> b ! 0 \<noteq> 0x01 then (False, False)
              else case walk_header b of
                     None \<Rightarrow> (True, False)
                   | Some (p, ende) \<Rightarrow> (True, psk_loop b ende p))"

text \<open>The loop of \<open>extSizes\<close> appends to the order and writes to the map; the map is read off the pairs.\<close>

function sizes_loop :: "bytes \<Rightarrow> nat \<Rightarrow> nat \<Rightarrow> (u16 \<times> nat) list" where
  "sizes_loop b ende p =
     (if p + 4 \<le> ende \<and> p + 4 \<le> length b
      then let id = Uint16 (slice b p (p + 2)); ln = unat (Uint16 (slice b (p + 2) (p + 4)))
           in (id, ln) # sizes_loop b ende (p + 4 + ln)
      else [])"
  by pat_completeness auto
termination by (relation "measure (\<lambda>(b, ende, p). ende - p)") auto

definition extSizes :: "bytes \<Rightarrow> nat \<times> (u16 \<Rightarrow> nat option) \<times> u16 list" where
  "extSizes rec =
     (if length rec < 6 then (0, (\<lambda>_. None), [])
      else let b = drop 5 rec
           in case walk_header b of
                None \<Rightarrow> (length rec, (\<lambda>_. None), [])
              | Some (p, ende) \<Rightarrow> let xs = sizes_loop b ende p
                  in (length rec, foldl (\<lambda>m (id, ln). m(id \<mapsto> ln)) (\<lambda>_. None) xs, map fst xs))"

function data_loop :: "bytes \<Rightarrow> u16 \<Rightarrow> nat \<Rightarrow> nat \<Rightarrow> bytes option" where
  "data_loop b want ende p =
     (if p + 4 \<le> ende \<and> p + 4 \<le> length b
      then let id = Uint16 (slice b p (p + 2)); ln = unat (Uint16 (slice b (p + 2) (p + 4)))
           in if id = want \<and> p + 4 + ln \<le> length b then Some (slice b (p + 4) (p + 4 + ln))
              else data_loop b want ende (p + 4 + ln)
      else None)"
  by pat_completeness auto
termination by (relation "measure (\<lambda>(b, want, ende, p). ende - p)") auto

definition extData :: "bytes \<Rightarrow> u16 \<Rightarrow> bytes option" where
  "extData rec want =
     (if length rec < 6 then None
      else case walk_header (drop 5 rec) of
             None \<Rightarrow> None
           | Some (p, ende) \<Rightarrow> data_loop (drop 5 rec) want ende p)"

text \<open>\<^verbatim>\<open>dumpPSK\<close> of \<^verbatim>\<open>resume\<close> prints what it finds: each identity, each binder and the framing overhead.\<close>

function identity_loop :: "bytes \<Rightarrow> nat \<Rightarrow> nat \<Rightarrow> (nat \<times> bytes) list" where
  "identity_loop d idsEnd p =
     (if p + 2 \<le> idsEnd \<and> p + 2 \<le> length d
      then let tl = unat (Uint16 (slice d p (p + 2))); p = p + 2
           in if length d < p + tl + 4 then []
              else (tl, slice d (p + tl) (p + tl + 4)) # identity_loop d idsEnd (p + tl + 4)
      else [])"
  by pat_completeness auto
termination by (relation "measure (\<lambda>(d, idsEnd, p). idsEnd - p)") auto

function binder_loop :: "bytes \<Rightarrow> nat \<Rightarrow> nat \<Rightarrow> nat list" where
  "binder_loop d bEnd p =
     (if p < bEnd \<and> p < length d then let bl = unat (d ! p) in bl # binder_loop d bEnd (p + 1 + bl) else [])"
  by pat_completeness auto
termination by (relation "measure (\<lambda>(d, bEnd, p). bEnd - p)") auto

definition dumpPSK :: "bytes \<Rightarrow> (nat \<times> bytes) list \<times> nat list \<times> int option" where
  "dumpPSK d =
     (if length d < 2 then ([], [], None)
      else let idsEnd = 2 + unat (Uint16 (slice d 0 2));
               ids = identity_loop d idsEnd 2
           in if length d < idsEnd + 2 then (ids, [], None)
              else let bEnd = idsEnd + 2 + unat (Uint16 (slice d idsEnd (idsEnd + 2)))
                   in (ids, binder_loop d bEnd (idsEnd + 2),
                       Some (int (length d) - (int idsEnd - 2) - (int bEnd - int idsEnd - 2))))"

declare identity_loop.simps [simp del] binder_loop.simps [simp del] psk_loop.simps [simp del] sizes_loop.simps [simp del] data_loop.simps [simp del]

section \<open>Sweeps\<close>

text \<open>
  \<^verbatim>\<open>sweep\<close> takes the first record of each connection, given as the bytes that arrive on it or \<open>None\<close> where it was not
  accepted, and reports name, length and the length of the ECH extension of eight hellos.
\<close>

definition sweep_conn :: "bytes \<Rightarrow> (bytes \<times> nat \<times> int) option" where
  "sweep_conn s =
     (if length s < 5 then None
      else let n = unat (Uint16 (slice s 3 5))
           in if length s < 5 + n then None
              else if s ! 0 \<noteq> 0x16 then None
              else case ParseClientHello (take (5 + n) s) of
                     Inl _ \<Rightarrow> None
                   | Inr hello \<Rightarrow>
                       let sni = SNI hello; total = 5 + n;
                           ech = (case Find ExtECH hello of None \<Rightarrow> -1 | Some e \<Rightarrow> int (length (ExtData e)))
                       in if sni = [] then None else Some (sni, total, ech))"

fun sweep :: "nat \<Rightarrow> bytes option list \<Rightarrow> (bytes \<times> nat \<times> int) list" where
  "sweep k [] = []"
| "sweep k (c # conns) =
     (if k < 8
      then (case c of
              None \<Rightarrow> sweep k conns
            | Some s \<Rightarrow> (case sweep_conn s of None \<Rightarrow> sweep k conns | Some r \<Rightarrow> r # sweep (k + 1) conns))
      else [])"

section \<open>Scanners and the parser\<close>

lemma slice_word: "slice (pre @ PutUint16 w @ rest) (length pre) (length pre + 2) = PutUint16 w"
  by (rule slice_middle) simp_all

lemma slice_word': "n = length pre \<Longrightarrow> slice (pre @ PutUint16 w @ rest) n (n + 2) = PutUint16 w"
  using slice_word by simp

lemma walk_wire:
  assumes "wf_hello h" and "t < 65536"
  shows "walk_header (drop 5 (hello_wire v1 v2 t h) @ rest) = Some (length (hello_prefix h) + 6, length (hello_prefix h) + 6 + t)"
proof -
  let ?sid = "SessionID h" and ?cs = "suites_bytes (CipherSuites h)" and ?cm = "Compression h"
  let ?x = "PutUint16 (of_nat t) @ exts_bytes (Extensions h) @ rest"
  let ?b = "drop 5 (hello_wire v1 v2 t h) @ rest"
  define a where "a = [0x01] @ nat_be 3 (body_len h) @ PutUint16 (LegacyVersion h) @ Random h"
  have la: "length a = 38" using assms(1) by (simp add: a_def wf_hello_def)
  have lens: "unat (of_nat (length ?sid) :: byte) = length ?sid" "unat (of_nat (length (CipherSuites h) * 2) :: u16) = length ?cs"
    "unat (of_nat (length ?cm) :: byte) = length ?cm" "unat (of_nat t :: u16) = t"
    using assms unat_u16_small [of "length (CipherSuites h) * 2"] by (simp_all add: wf_hello_def del: of_nat_mult)
  have b: "?b = a @ [of_nat (length ?sid)] @ ?sid @ PutUint16 (of_nat (length (CipherSuites h) * 2)) @ ?cs @ [of_nat (length ?cm)] @ ?cm @ ?x"
    by (simp add: hello_wire_def hello_prefix_def a_def)
  define p1 where "p1 = 39 + length ?sid"
  define p2 where "p2 = p1 + 2 + length ?cs"
  define p3 where "p3 = p2 + 1 + length ?cm"
  have len: "length ?b = p3 + 2 + length (exts_bytes (Extensions h) @ rest)" unfolding b by (simp add: la p1_def p2_def p3_def)
  have b1: "?b ! 38 = of_nat (length ?sid)" unfolding b using la by (simp add: nth_append)
  have "?b = (a @ [of_nat (length ?sid)] @ ?sid) @ PutUint16 (of_nat (length (CipherSuites h) * 2)) @ ?cs @ [of_nat (length ?cm)] @ ?cm @ ?x"
    unfolding b by (simp only: append_assoc)
  then have s2: "slice ?b p1 (p1 + 2) = PutUint16 (of_nat (length (CipherSuites h) * 2))"
    using slice_word' [of p1 "a @ [of_nat (length ?sid)] @ ?sid"] by (simp add: la p1_def)
  let ?front = "a @ [of_nat (length ?sid)] @ ?sid @ PutUint16 (of_nat (length (CipherSuites h) * 2)) @ ?cs"
  have "?b = ?front @ of_nat (length ?cm) # ?cm @ ?x" "length ?front = p2" unfolding b by (simp_all add: la p1_def p2_def)
  then have b3: "?b ! p2 = of_nat (length ?cm)" using nth_append_length by metis
  have "?b = (a @ [of_nat (length ?sid)] @ ?sid @ PutUint16 (of_nat (length (CipherSuites h) * 2)) @ ?cs @ [of_nat (length ?cm)] @ ?cm) @ ?x"
    unfolding b by (simp only: append_assoc)
  then have s4: "slice ?b p3 (p3 + 2) = PutUint16 (of_nat t)"
    using slice_word' [of p3 "a @ [of_nat (length ?sid)] @ ?sid @ PutUint16 (of_nat (length (CipherSuites h) * 2)) @ ?cs @ [of_nat (length ?cm)] @ ?cm"]
    by (simp add: la p1_def p2_def p3_def)
  have p1: "4 + 2 + 32 + 1 + unat (?b ! 38) = p1" unfolding b1 lens by (simp add: p1_def)
  have p2: "p1 + 2 + unat (Uint16 (slice ?b p1 (p1 + 2))) = p2" unfolding s2 Uint16_PutUint16_exact lens by (simp add: p2_def)
  have p3: "p2 + 1 + unat (?b ! p2) = p3" unfolding b3 lens by (simp add: p3_def)
  have e: "p3 + 2 + unat (Uint16 (slice ?b p3 (p3 + 2))) = p3 + 2 + t" unfolding s4 Uint16_PutUint16_exact lens ..
  have "length (hello_prefix h) + 6 = p3 + 2" using assms(1) by (simp add: hello_prefix_def p1_def p2_def p3_def wf_hello_def)
  moreover have "\<not> length ?b \<le> 38" "\<not> length ?b < p1 + 2" "\<not> length ?b \<le> p2" "\<not> length ?b < p3 + 2"
    unfolding len by (simp_all add: p1_def p2_def p3_def)
  ultimately show ?thesis using p1 p2 p3 e unfolding walk_header_def Let_def by simp
qed

lemma body_wire: "drop 5 (hello_wire v1 v2 t h) = ([0x01] @ nat_be 3 (body_len h) @ hello_prefix h @ PutUint16 (of_nat t)) @ exts_bytes (Extensions h)"
  by (simp add: hello_wire_def)

text \<open>What each loop does at an extension.\<close>

lemma at_extension:
  assumes "b = pre @ ext_bytes e @ rest" and "length (ExtData e) < 65536" and "p = length pre"
  shows "Uint16 (slice b p (p + 2)) = ExtType e" "unat (Uint16 (slice b (p + 2) (p + 4))) = length (ExtData e)"
    "p + 4 + length (ExtData e) \<le> length b" "slice b (p + 4) (p + 4 + length (ExtData e)) = ExtData e"
proof -
  have "slice b p (p + 2) = PutUint16 (ExtType e)"
    unfolding assms(1) ext_bytes_def using slice_word' [OF assms(3)] by simp
  then show "Uint16 (slice b p (p + 2)) = ExtType e" by simp
  have "slice b (p + 2) (p + 4) = PutUint16 (of_nat (length (ExtData e)))"
    unfolding assms(1) ext_bytes_def using slice_middle [of "p + 2" "pre @ PutUint16 (ExtType e)" "p + 4"] assms(3) by simp
  then show "unat (Uint16 (slice b (p + 2) (p + 4))) = length (ExtData e)" using assms(2) by simp
  show "p + 4 + length (ExtData e) \<le> length b" by (simp add: assms)
  show "slice b (p + 4) (p + 4 + length (ExtData e)) = ExtData e"
    unfolding assms(1) ext_bytes_def
    using slice_middle [of "p + 4" "pre @ PutUint16 (ExtType e) @ PutUint16 (of_nat (length (ExtData e)))" "p + 4 + length (ExtData e)"] assms(3) by simp
qed

lemma loop_steps:
  assumes "b = pre @ ext_bytes e @ rest" and "length (ExtData e) < 65536" and "p = length pre" and "p + 4 + length (ExtData e) \<le> ende"
  shows "psk_loop b ende p \<longleftrightarrow> ExtType e = ExtPreSharedKey \<or> psk_loop b ende (p + 4 + length (ExtData e))"
    "sizes_loop b ende p = (ExtType e, length (ExtData e)) # sizes_loop b ende (p + 4 + length (ExtData e))"
    "data_loop b want ende p = (if ExtType e = want then Some (ExtData e) else data_loop b want ende (p + 4 + length (ExtData e)))"
proof -
  note at = at_extension [OF assms(1-3)]
  have in_range: "p + 4 \<le> length b" "p + 4 \<le> ende" using at(3) assms(4) by simp_all
  show "psk_loop b ende p \<longleftrightarrow> ExtType e = ExtPreSharedKey \<or> psk_loop b ende (p + 4 + length (ExtData e))"
    using in_range by (subst psk_loop.simps) (simp add: Let_def at del: add_2_eq_Suc add_2_eq_Suc')
  show "sizes_loop b ende p = (ExtType e, length (ExtData e)) # sizes_loop b ende (p + 4 + length (ExtData e))"
    using in_range by (subst sizes_loop.simps) (simp add: Let_def at del: add_2_eq_Suc add_2_eq_Suc')
  show "data_loop b want ende p = (if ExtType e = want then Some (ExtData e) else data_loop b want ende (p + 4 + length (ExtData e)))"
    using in_range at(3) by (subst data_loop.simps) (simp add: Let_def at(1,2,4) del: add_2_eq_Suc add_2_eq_Suc')
qed

lemma loop_ends:
  "psk_loop b ende ende \<longleftrightarrow> False" "sizes_loop b ende ende = []" "data_loop b want ende ende = None"
  by (subst psk_loop.simps, simp) (subst sizes_loop.simps, simp, subst data_loop.simps, simp)

lemma loops_exts:
  "\<forall>e\<in>set es. length (ExtData e) < 65536 \<Longrightarrow> b = pre @ exts_bytes es @ rest \<Longrightarrow> ende = length pre + length (exts_bytes es) \<Longrightarrow>
     (psk_loop b ende (length pre) \<longleftrightarrow> find (\<lambda>e. ExtType e = ExtPreSharedKey) es \<noteq> None)
     \<and> sizes_loop b ende (length pre) = map (\<lambda>e. (ExtType e, length (ExtData e))) es
     \<and> data_loop b want ende (length pre) = map_option ExtData (find (\<lambda>e. ExtType e = want) es)"
proof (induction es arbitrary: pre)
  case Nil
  then show ?case using loop_ends [of b] by simp
next
  case (Cons e es)
  have b: "b = pre @ ext_bytes e @ exts_bytes es @ rest" "b = (pre @ ext_bytes e) @ exts_bytes es @ rest" using Cons.prems(2) by simp_all
  have l: "length (ExtData e) < 65536" using Cons.prems(1) by simp
  have n: "length pre + 4 + length (ExtData e) = length (pre @ ext_bytes e)" by simp
  have in_block: "length pre + 4 + length (ExtData e) \<le> ende" and ende: "ende = length (pre @ ext_bytes e) + length (exts_bytes es)"
    using Cons.prems(3) by simp_all
  have "\<forall>e\<in>set es. length (ExtData e) < 65536" using Cons.prems(1) by simp
  from Cons.IH [OF this b(2) ende] show ?case unfolding loop_steps [OF b(1) l refl in_block] n by auto
qed

lemma foldl_sizes: "foldl (\<lambda>m (id, ln). m(id \<mapsto> ln)) m xs = m ++ map_of (rev xs)"
  by (induction xs arbitrary: m) auto

text \<open>What the scanners read of a stream that begins with a record \<open>Marshal\<close> prints.\<close>

lemma scanners_wire:
  assumes "wf_hello h"
  shows "hasPSK (Marshal h @ rest) = (True, Find ExtPreSharedKey h \<noteq> None)"
    and "extSizes (Marshal h @ rest) =
      (length (Marshal h @ rest), map_of (rev (map (\<lambda>e. (ExtType e, length (ExtData e))) (Extensions h))), map ExtType (Extensions h))"
    and "extData (Marshal h @ rest) want = map_option ExtData (Find want h)"
proof -
  let ?t = "length (exts_bytes (Extensions h))" and ?rec = "Marshal h @ rest"
  define b where "b = drop 5 ?rec"
  define pre where "pre = [0x01] @ nat_be 3 (body_len h) @ hello_prefix h @ PutUint16 (of_nat ?t)"
  have t: "?t < 65536" using assms by (rule wf_exts_len)
  have wire: "b = drop 5 (hello_wire 0x03 0x01 ?t h) @ rest" unfolding b_def Marshal_eq_wire by (simp add: hello_wire_def)
  have b: "b = pre @ exts_bytes (Extensions h) @ rest" unfolding wire body_wire pre_def by simp
  have "length pre = length (hello_prefix h) + 6" by (simp add: pre_def)
  then have w: "walk_header b = Some (length pre, length pre + ?t)" unfolding wire by (simp only: walk_wire [OF assms t])
  have small: "\<forall>e\<in>set (Extensions h). length (ExtData e) < 65536" using assms by (simp add: wf_hello_def)
  note L = loops_exts [OF small b refl, of want, folded Find_def]
  have len: "6 \<le> length ?rec" "4 \<le> length b" and hd: "?rec ! 0 = 0x16" "b ! 0 = 0x01"
    by (simp_all add: Marshal_eq_wire hello_wire_def b pre_def)
  show "hasPSK ?rec = (True, Find ExtPreSharedKey h \<noteq> None)"
    using L w len hd unfolding hasPSK_def b_def [symmetric] Let_def by simp
  show "extSizes ?rec = (length ?rec, map_of (rev (map (\<lambda>e. (ExtType e, length (ExtData e))) (Extensions h))), map ExtType (Extensions h))"
    using len w L unfolding extSizes_def b_def [symmetric] Let_def foldl_sizes by (simp add: comp_def)
  show "extData ?rec want = map_option ExtData (Find want h)"
    using len w L unfolding extData_def b_def [symmetric] by simp
qed

text \<open>The tool's reading of the extension the library appends.\<close>

lemma dumpPSK_body:
  assumes "length ticket + 6 < 65536" and "length age = 4" and "length binder < 256"
  shows "dumpPSK (psk_body ticket age binder) = ([(length ticket, age)], [length binder], Some 4)"
proof -
  let ?d = "psk_body ticket age binder" and ?T = "length ticket" and ?B = "length binder"
  have d: "?d = PutUint16 (of_nat (?T + 6)) @ PutUint16 (of_nat ?T) @ ticket @ age @ PutUint16 (of_nat (?B + 1)) @ of_nat ?B # binder"
    by (simp add: psk_body_def)
  have len: "length ?d = ?T + ?B + 11" using assms(2) by (simp add: d)
  have words: "unat (of_nat (?T + 6) :: u16) = ?T + 6" "unat (of_nat ?T :: u16) = ?T" "unat (of_nat (?B + 1) :: u16) = ?B + 1"
    "unat (of_nat ?B :: byte) = ?B"
    using assms unat_u16_small [of "?T + 6"] unat_u16_small [of "?B + 1"] by (simp_all del: of_nat_add)
  have s0: "slice ?d 0 2 = PutUint16 (of_nat (?T + 6))" unfolding d slice_def by simp
  have s2: "slice ?d 2 4 = PutUint16 (of_nat ?T)" unfolding d using slice_word' [of 2 "PutUint16 (of_nat (?T + 6))"] by simp
  have s4: "slice ?d (4 + ?T) (8 + ?T) = age" unfolding d
    using slice_middle [of "4 + ?T" "PutUint16 (of_nat (?T + 6)) @ PutUint16 (of_nat ?T) @ ticket" "8 + ?T" age] assms(2) by simp
  have s8: "slice ?d (?T + 8) (?T + 10) = PutUint16 (of_nat (?B + 1))" unfolding d
    using slice_word' [of "?T + 8" "PutUint16 (of_nat (?T + 6)) @ PutUint16 (of_nat ?T) @ ticket @ age"] assms(2)
    by (simp add: add.commute)
  let ?front = "PutUint16 (of_nat (?T + 6)) @ PutUint16 (of_nat ?T) @ ticket @ age @ PutUint16 (of_nat (?B + 1))"
  have "?d = ?front @ of_nat ?B # binder" "length ?front = ?T + 10" using assms(2) by (simp_all add: d)
  then have b: "unat (?d ! (?T + 10)) = ?B" using words(4) nth_append_length by metis
  have ids_end: "identity_loop ?d (?T + 8) (?T + 8) = []" by (subst identity_loop.simps) simp
  have ids: "identity_loop ?d (?T + 8) 2 = [(?T, age)]"
    using s2 s4 words(2) ids_end
    by (subst identity_loop.simps) (simp add: Let_def len add.commute del: add_2_eq_Suc add_2_eq_Suc')
  have binders_end: "binder_loop ?d (?T + ?B + 11) (?T + ?B + 11) = []" by (subst binder_loop.simps) simp
  have binders: "binder_loop ?d (?T + ?B + 11) (?T + 10) = [?B]"
    using b binders_end by (subst binder_loop.simps) (simp add: Let_def len add_ac)
  show ?thesis unfolding dumpPSK_def Let_def s0 Uint16_PutUint16_exact words(1)
    using s8 ids binders words(3) len by (simp add: add_ac del: add_2_eq_Suc add_2_eq_Suc')
qed

text \<open>
  Three scanners that walk a ClientHello by hand agree with the library's parser on every record the library
  emits, whatever follows the record in the stream.
\<close>

theorem scanners_agree:
  assumes "ParseClientHello rec = Inr h" and "Marshal h = rec"
  shows "hasPSK (rec @ rest) = (True, Find ExtPreSharedKey h \<noteq> None) \<and> extSizes (rec @ rest) =
      (length (rec @ rest), map_of (rev (map (\<lambda>e. (ExtType e, length (ExtData e))) (Extensions h))), map ExtType (Extensions h))
    \<and> extData (rec @ rest) want = map_option ExtData (Find want h)"
  using scanners_wire [OF parse_wf [OF assms(1)], of rest] unfolding assms(2) by blast

theorem scanners_agree_witness:
  "hasPSK (Marshal small_hello @ [1, 2]) = (True, False)"
  using scanners_agree [OF parse_Marshal_wf [OF small_hello_wf] refl, of "[1, 2]"] by (simp add: Find_def small_hello_def)

section \<open>Declared lengths\<close>

text \<open>The length a stream declares once it holds a header.\<close>

definition declared :: "bytes \<Rightarrow> nat" where
  "declared b = unat (Uint16 (slice b 3 5))"

lemma declared_prefix: "5 \<le> length a \<Longrightarrow> declared (a @ b) = declared a"
  by (simp add: declared_def slice_prefix)

lemma declared_of_prefix: "prefix x w \<Longrightarrow> 5 \<le> length x \<Longrightarrow> declared x = declared w"
  by (auto simp: prefix_def declared_prefix)

lemma declared_Marshal: "wf_hello h \<Longrightarrow> declared (Marshal h @ rest) = length (Marshal h) - 5"
proof -
  assume wf: "wf_hello h"
  let ?B = "body_len h"
  have m: "Marshal h @ rest = [0x16, 0x03, 0x01] @ PutUint16 (of_nat (?B + 4)) @ drop 5 (Marshal h) @ rest"
    by (simp add: Marshal_eq_wire hello_wire_def)
  have "slice (Marshal h @ rest) 3 5 = PutUint16 (of_nat (?B + 4))"
    by (subst m) (rule slice_middle, simp_all)
  moreover have "length (Marshal h) = ?B + 9" by (simp add: Marshal_eq_wire hello_wire_def body_len_def)
  ultimately show ?thesis using wf unat_u16_small [of "?B + 4"] by (simp add: declared_def wf_hello_def del: of_nat_add)
qed

lemma split_step:
  "split_records b = (if 5 \<le> length b \<and> 5 + declared b \<le> length b
     then (\<lparr>seen_typ = b ! 0, seen_wire = 5 + declared b\<rparr> # fst (split_records (drop (5 + declared b) b)),
           snd (split_records (drop (5 + declared b) b)))
     else ([], b))"
  by (subst split_records.simps) (simp add: declared_def Let_def split_beta)

definition seen_entry :: "seen_record \<Rightarrow> byte \<times> nat" where
  "seen_entry r = (seen_typ r, seen_wire r - 5)"

lemma length_Marshal_pos: "9 \<le> length (Marshal h)"
  by (simp add: Marshal_eq_wire hello_wire_def)

section \<open>What a sweep reports\<close>

text \<open>What a sweep reports of a connection that opens with a hello for a named host, and that it reports eight at most.\<close>

lemma sweep_conn_hello:
  assumes "wf_hello h" and "SNI h \<noteq> []"
  shows "sweep_conn (Marshal h @ rest) =
    Some (SNI h, length (Marshal h), case Find ExtECH h of None \<Rightarrow> -1 | Some e \<Rightarrow> int (length (ExtData e)))"
proof -
  have l: "9 \<le> length (Marshal h)" and z: "(Marshal h @ rest) ! 0 = 0x16" by (simp_all add: Marshal_eq_wire hello_wire_def)
  have d: "5 + unat (Uint16 (slice (Marshal h @ rest) 3 5)) = length (Marshal h)"
    using declared_Marshal [OF assms(1), of rest] l unfolding declared_def by simp
  have t: "take (5 + unat (Uint16 (slice (Marshal h @ rest) 3 5))) (Marshal h @ rest) = Marshal h" unfolding d by simp
  show ?thesis unfolding sweep_conn_def Let_def t z parse_Marshal_wf [OF assms(1)] using d l assms(2) by simp
qed

lemma sweep_reports: "sweep k conns = take (8 - k) (List.map_filter (\<lambda>c. Option.bind c sweep_conn) conns)"
proof (induction conns arbitrary: k)
  case Nil
  then show ?case by (simp add: List.map_filter_def)
next
  case (Cons c conns)
  have "take (8 - k) (r # rs) = (if k < 8 then r # take (8 - (k + 1)) rs else [])" for r and rs :: "(bytes \<times> nat \<times> int) list"
    by (simp add: take_Cons')
  then show ?case using Cons.IH by (cases c) (auto simp: List.map_filter_def split: option.splits)
qed

end
