(* ===== verification/Relays.thy ===== *)
theory Relays
  imports Measure Pools "HOL-Library.AList"
begin

text \<open>
  The tools under \<^verbatim>\<open>src/harvest/cmd\<close> that stand between a browser and a server and watch: the handler of a tunnel of
  \<^verbatim>\<open>resumeratio\<close>, which counts resumptions, and \<^verbatim>\<open>records\<close>, which notes the records of both directions. Sockets are what their
  reads returned and how their writes ended. The facts: a relay passes on what it reads, and nothing it notes depends on
  how the network cut the streams.
\<close>

section \<open>Relaying\<close>

text \<open>
  What a read returned: its bytes, whether it came with an error, and how the write that passes them on ends: \<open>Some n\<close> for
  an error after \<open>n\<close> bytes.
\<close>

record arrived =
  ar_bytes :: bytes
  ar_err :: bool
  ar_werr :: "nat option"

text \<open>
  \<^verbatim>\<open>pipe\<close> of \<^verbatim>\<open>records\<close>, which is also the loop of \<^verbatim>\<open>handle\<close> in \<^verbatim>\<open>resumeratio\<close> and \<^verbatim>\<open>tapproxy\<close>: inspect, pass on, until a
  read or a write fails; the result says whether it returned.
\<close>

fun pipe :: "(bytes \<Rightarrow> 's \<Rightarrow> 's) \<Rightarrow> arrived list \<Rightarrow> 's \<Rightarrow> bytes \<Rightarrow> 's \<times> bytes \<times> bool" where
  "pipe inspect [] s sent = (s, sent, False)"
| "pipe inspect (r # rs) s sent =
     (if 0 < length (ar_bytes r)
      then let s = inspect (ar_bytes r) s
           in case ar_werr r of
                Some n \<Rightarrow> (s, sent @ take n (ar_bytes r), True)
              | None \<Rightarrow> if ar_err r then (s, sent @ ar_bytes r, True) else pipe inspect rs s (sent @ ar_bytes r)
      else if ar_err r then (s, sent, True) else pipe inspect rs s sent)"

definition established :: bytes where
  "established = str ''HTTP/1.1 200 Connection Established'' @ [13, 10, 13, 10]"

text \<open>What a relay inspects, what it passes on, and whether it stopped: its loop in one equation.\<close>

fun inspected :: "arrived list \<Rightarrow> bytes list" where
  "inspected [] = []"
| "inspected (r # rs) =
     (if 0 < length (ar_bytes r) then ar_bytes r # (if ar_err r \<or> ar_werr r \<noteq> None then [] else inspected rs)
      else if ar_err r then [] else inspected rs)"

fun passed :: "arrived list \<Rightarrow> bytes" where
  "passed [] = []"
| "passed (r # rs) =
     (case ar_werr r of
        Some n \<Rightarrow> if 0 < length (ar_bytes r) then take n (ar_bytes r) else if ar_err r then [] else passed rs
      | None \<Rightarrow> ar_bytes r @ (if ar_err r then [] else passed rs))"

fun stops :: "arrived list \<Rightarrow> bool" where
  "stops [] = False"
| "stops (r # rs) = (ar_err r \<or> 0 < length (ar_bytes r) \<and> ar_werr r \<noteq> None \<or> stops rs)"

lemma pipe_eq: "pipe inspect rs s sent = (foldl (\<lambda>s b. inspect b s) s (inspected rs), sent @ passed rs, stops rs)"
  by (induction rs arbitrary: s sent) (auto simp: Let_def split: option.split)

lemma inspected_append: "inspected (rs @ rs') = inspected rs @ (if stops rs then [] else inspected rs')"
  by (induction rs) auto

lemma passed_append: "passed (rs @ rs') = passed rs @ (if stops rs then [] else passed rs')"
  by (induction rs) (auto split: option.split)

lemma stops_append: "stops (rs @ rs') \<longleftrightarrow> stops rs \<or> stops rs'"
  by (induction rs) auto

lemma inspected_pos: "b \<in> set (inspected rs) \<Longrightarrow> b \<noteq> []"
  by (induction rs) (auto split: if_splits)

text \<open>A relay passes on a prefix of what it inspected, and all of it unless a write failed.\<close>

lemma passed_prefix: "prefix (passed rs) (concat (inspected rs))"
  by (induction rs) (auto simp: take_is_prefix split: option.split)

lemma passed_all: "\<forall>r\<in>set rs. ar_werr r = None \<Longrightarrow> passed rs = concat (inspected rs)"
  by (induction rs) auto

section \<open>Counting resumptions\<close>

text \<open>
  \<^verbatim>\<open>stats\<close> of \<^verbatim>\<open>resumeratio\<close>; the map of hosts is an association list. A host has a count of full handshakes and one of
  resumptions.
\<close>

record stats =
  st_full :: nat
  st_resumed :: nat
  st_notTLS :: nat
  st_perHost :: "(bytes \<times> nat \<times> nat) list"

definition no_stats :: stats where
  "no_stats = \<lparr>st_full = 0, st_resumed = 0, st_notTLS = 0, st_perHost = []\<rparr>"

definition stats_record :: "bytes \<Rightarrow> bool \<Rightarrow> bool \<Rightarrow> stats \<Rightarrow> stats" where
  "stats_record host isTLS psk s =
     (if \<not> isTLS then s\<lparr>st_notTLS := st_notTLS s + 1\<rparr>
      else let v = (case map_of (st_perHost s) host of None \<Rightarrow> (0, 0) | Some v \<Rightarrow> v);
               (s, v) = (if psk then (s\<lparr>st_resumed := st_resumed s + 1\<rparr>, (fst v, snd v + 1))
                         else (s\<lparr>st_full := st_full s + 1\<rparr>, (fst v + 1, snd v)))
           in s\<lparr>st_perHost := AList.update host v (st_perHost s)\<rparr>)"

text \<open>One tunnel of \<^verbatim>\<open>handle\<close>: what has been read so far, and whether it was counted.\<close>

record tunnel =
  tn_buf :: bytes
  tn_seen :: bool

definition tunnel_read :: "bytes \<Rightarrow> bytes \<Rightarrow> tunnel \<times> stats \<Rightarrow> tunnel \<times> stats" where
  "tunnel_read host b ts =
     (let (tn, s) = ts
      in if \<not> tn_seen tn
         then let tn = tn\<lparr>tn_buf := tn_buf tn @ b\<rparr>
              in if 5 \<le> length (tn_buf tn)
                 then let rl = unat (Uint16 (slice (tn_buf tn) 3 5))
                      in if 5 + rl \<le> length (tn_buf tn) \<or> 4096 < length (tn_buf tn)
                         then let (isTLS, psk) = hasPSK (tn_buf tn)
                              in (tn\<lparr>tn_seen := True\<rparr>, stats_record (hd (Split host 58)) isTLS psk s)
                         else (tn, s)
                 else (tn, s)
         else (tn, s))"

text \<open>
  \<^verbatim>\<open>handle\<close>: whether dialling failed, and the reads from the client. The results are the counts, what was written to the
  client by the handler itself, and what was sent on.
\<close>

definition tunnel_handle :: "bytes \<Rightarrow> bool \<Rightarrow> arrived list \<Rightarrow> stats \<Rightarrow> stats \<times> bytes \<times> bytes" where
  "tunnel_handle host dial_err rds s =
     (if dial_err then (s, [], [])
      else let ((_, s), up, _) = pipe (tunnel_read host) rds (\<lparr>tn_buf = [], tn_seen = False\<rparr>, s) [] in (s, established, up))"

section \<open>A tunnel is counted once\<close>

definition count_ready :: "bytes \<Rightarrow> bool" where
  "count_ready x \<longleftrightarrow> 5 \<le> length x \<and> (5 + declared x \<le> length x \<or> 4096 < length x)"

interpretation tunnel: first_record "\<lambda>b. b" "\<lambda>_. True" "tunnel_read host" "\<lambda>(tn, s). \<not> tn_seen tn" "\<lambda>(tn, s). tn_buf tn" snd count_ready
    "\<lambda>_ s. s" "\<lambda>x s. stats_record (hd (Split host 58)) (fst (hasPSK x)) (snd (hasPSK x)) s" for host
  by unfold_locales (auto simp: tunnel_read_def count_ready_def declared_def Let_def split_beta split: if_splits)

lemma ready_Marshal:
  assumes "wf_hello h" and "length (Marshal h) \<le> 4096" and "prefix x (Marshal h @ rest)"
  shows "count_ready x \<longleftrightarrow> length (Marshal h) \<le> length x"
  using declared_of_prefix [OF assms(3)] declared_Marshal [OF assms(1), of rest] length_Marshal_pos [of h] assms(2)
  by (auto simp: count_ready_def)

text \<open>
  A tunnel that opens with a hello of the library is counted exactly once, under its host and for the right kind
  of handshake, however the network cuts the stream and whatever follows the hello.
\<close>

theorem tunnel_counted:
  assumes "wf_hello h" and "length (Marshal h) \<le> 4096" and "concat (inspected rds) = Marshal h @ rest"
  shows "fst (tunnel_handle host False rds s) = stats_record (hd (Split host 58)) True (Find ExtPreSharedKey h \<noteq> None) s"
proof -
  let ?run = "foldl (\<lambda>s b. tunnel_read host b s) (\<lparr>tn_buf = [], tn_seen = False\<rparr>, s) (inspected rds)"
  have "Marshal h \<noteq> []" using length_Marshal_pos [of h] by auto
  then obtain tail where "snd ?run = stats_record (hd (Split host 58)) (fst (hasPSK (Marshal h @ tail))) (snd (hasPSK (Marshal h @ tail))) s"
    using tunnel.acts_at_once [where host = host and s = "(\<lparr>tn_buf = [], tn_seen = False\<rparr>, s)" and cs = "inspected rds" and rec = "Marshal h" and more = rest]
      assms(3) ready_Marshal [OF assms(1,2)] by auto
  then show ?thesis
    using scanners_wire(1) [OF assms(1)] by (simp add: tunnel_handle_def pipe_eq split_beta)
qed

theorem tunnel_counted_witness:
  "st_full (fst (tunnel_handle (str ''h:443'') False
      (map (\<lambda>b. \<lparr>ar_bytes = b, ar_err = False, ar_werr = None\<rparr>) [take 4 (Marshal small_hello), [], drop 4 (Marshal small_hello), [9]]) no_stats)) = 1"
proof -
  let ?rds = "map (\<lambda>b. \<lparr>ar_bytes = b, ar_err = False, ar_werr = None\<rparr>) [take 4 (Marshal small_hello), [], drop 4 (Marshal small_hello), [9]]"
  have "concat (inspected ?rds) = Marshal small_hello @ [9]"
    by (simp add: Marshal_eq_wire hello_wire_def)
  moreover have "length (Marshal small_hello) \<le> 4096"
    by (simp add: Marshal_eq_wire hello_wire_def hello_prefix_def exts_bytes_def ext_bytes_def small_hello_def)
  ultimately show ?thesis using tunnel_counted [OF small_hello_wf, of ?rds "[9]" "str ''h:443''" no_stats]
    by (simp add: stats_record_def Find_def small_hello_def no_stats_def)
qed

section \<open>Flows\<close>

text \<open>\<^verbatim>\<open>feed\<close> of \<^verbatim>\<open>records\<close>: one direction's buffer, the flow's records, and the clock for each record.\<close>

record flow_rec =
  fl_dir :: bytes
  fl_type :: byte
  fl_len :: nat
  fl_us :: int

function feed_loop :: "bytes \<Rightarrow> (nat \<Rightarrow> int) \<Rightarrow> bytes \<Rightarrow> flow_rec list \<Rightarrow> bytes \<times> flow_rec list" where
  "feed_loop dir clock buf recs =
     (if 5 \<le> length buf
      then let n = unat (Uint16 (slice buf 3 5))
           in if 2 ^ 14 + 2048 < n then ([], recs)
              else if length buf < 5 + n then (buf, recs)
              else feed_loop dir clock (drop (5 + n) buf)
                (if length recs < 400
                 then recs @ [\<lparr>fl_dir = dir, fl_type = buf ! 0, fl_len = n, fl_us = clock (length recs)\<rparr>] else recs)
      else (buf, recs))"
  by pat_completeness auto
termination by (relation "measure (\<lambda>(dir, clock, buf, recs). length buf)") auto

declare feed_loop.simps [simp del]

text \<open>
  Two splitters feed one flow: a read is the direction it came from, \<open>True\<close> for the client, and its bytes; each direction
  keeps its own buffer.
\<close>

definition direction :: "bool \<Rightarrow> bytes" where
  "direction client = (if client then str ''c'' else str ''s'')"

definition feed :: "(nat \<Rightarrow> int) \<Rightarrow> (bool \<Rightarrow> bytes) \<times> flow_rec list \<Rightarrow> bool \<times> bytes \<Rightarrow> (bool \<Rightarrow> bytes) \<times> flow_rec list" where
  "feed clock st rd =
     (let (bufs, recs) = st; (d, b) = rd;
          (buf, recs) = feed_loop (direction d) clock (bufs d @ b) recs
      in (bufs(d := buf), recs))"

text \<open>\<^verbatim>\<open>flow\<close>, and \<^verbatim>\<open>emit\<close>, which appends a flow that holds anything to the output.\<close>

record flow =
  flow_Host :: bytes
  flow_Records :: "flow_rec list"

definition emit :: "flow \<Rightarrow> flow list \<Rightarrow> flow list" where
  "emit f out = (if length (flow_Records f) = 0 then out else out @ [f])"

text \<open>
  The two goroutines of \<^verbatim>\<open>handle\<close>: what their splitters hold, what each has written on, and which are still running. An
  event is a turn of the loop of one of them, all the records of its read at once where the code takes the lock for each.
  \<^verbatim>\<open>handle\<close> emits the flow when both have returned.
\<close>

record flow_run =
  fr_tap :: "(bool \<Rightarrow> bytes) \<times> flow_rec list"
  fr_sent :: "bool \<Rightarrow> bytes"
  fr_live :: "bool \<Rightarrow> bool"

definition pipe_turn :: "(nat \<Rightarrow> int) \<Rightarrow> flow_run \<Rightarrow> bool \<times> arrived \<Rightarrow> flow_run" where
  "pipe_turn clock fr ev =
     (let (d, r) = ev
      in if \<not> fr_live fr d then fr
         else let (tap, sent, returned) = pipe (\<lambda>b tap. feed clock tap (d, b)) [r] (fr_tap fr) (fr_sent fr d)
              in fr\<lparr>fr_tap := tap, fr_sent := (fr_sent fr)(d := sent), fr_live := (fr_live fr)(d := \<not> returned)\<rparr>)"

definition records_handle :: "(nat \<Rightarrow> int) \<Rightarrow> bytes \<Rightarrow> bool \<Rightarrow> (bool \<times> arrived) list \<Rightarrow> flow list \<Rightarrow> flow_run \<times> flow list" where
  "records_handle clock host dial_err evs out =
     (let fr = \<lparr>fr_tap = (\<lambda>_. [], []), fr_sent = (\<lambda>_. []), fr_live = (\<lambda>_. False)\<rparr>
      in if dial_err then (fr, out)
         else let fr = fr\<lparr>fr_sent := (fr_sent fr)(False := established), fr_live := (\<lambda>_. True)\<rparr>;
                  fr = foldl (pipe_turn clock) fr evs
              in (fr, if \<not> fr_live fr True \<and> \<not> fr_live fr False
                      then emit \<lparr>flow_Host = hd (Split host 58), flow_Records = snd (fr_tap fr)\<rparr> out else out))"

section \<open>What the splitters hold\<close>

text \<open>
  A stream a splitter never gives up on: no header it reaches declares more than a record may hold. On such streams it
  is \<open>split_records\<close> of the probe, but for what it notes of a record and its bound of four hundred.
\<close>

definition framed :: "bytes \<Rightarrow> bool" where
  "framed b \<longleftrightarrow> (\<forall>r\<in>set (fst (split_records b)). seen_wire r \<le> 5 + (2 ^ 14 + 2048))
     \<and> (5 \<le> length (snd (split_records b)) \<longrightarrow> declared (snd (split_records b)) \<le> 2 ^ 14 + 2048)"

lemma feed_step:
  "feed_loop dir clock b recs = (if 5 \<le> length b
     then if 2 ^ 14 + 2048 < declared b then ([], recs)
          else if length b < 5 + declared b then (b, recs)
          else feed_loop dir clock (drop (5 + declared b) b)
            (if length recs < 400
             then recs @ [\<lparr>fl_dir = dir, fl_type = b ! 0, fl_len = declared b, fl_us = clock (length recs)\<rparr>] else recs)
     else (b, recs))"
  by (subst feed_loop.simps) (simp add: declared_def Let_def)

lemma framed_prefix: "framed (a @ b) \<Longrightarrow> framed a"
proof -
  assume f: "framed (a @ b)"
  let ?rest = "snd (split_records a)"
  have "declared ?rest \<le> 2 ^ 14 + 2048" if l: "5 \<le> length ?rest"
    using f l split_step [of "?rest @ b"] declared_prefix [OF l, of b] unfolding framed_def records.split_append [of a b]
    by (auto split: if_splits)
  then show ?thesis using f unfolding framed_def records.split_append [of a b] by auto
qed

lemma framed_rest: "framed (a @ b) \<Longrightarrow> framed (snd (split_records a) @ b)"
  unfolding framed_def records.split_append [of a b] by simp

definition entry :: "flow_rec \<Rightarrow> byte \<times> nat" where
  "entry r = (fl_type r, fl_len r)"

definition of_dir :: "bool \<Rightarrow> flow_rec list \<Rightarrow> (byte \<times> nat) list" where
  "of_dir d recs = map entry (filter (\<lambda>r. fl_dir r = direction d) recs)"

lemma direction_inj [simp]: "direction d = direction d' \<longleftrightarrow> d = d'"
  by (simp add: direction_def str_def)

lemma feed_notes:
  "framed b \<Longrightarrow> \<exists>new. feed_loop (direction d) clock b (take 400 all) = (snd (split_records b), take 400 (all @ new))
     \<and> of_dir d new = map seen_entry (fst (split_records b)) \<and> (\<forall>d'. d' \<noteq> d \<longrightarrow> of_dir d' new = [])"
proof (induction "length b" arbitrary: b all rule: less_induct)
  case less
  show ?case
  proof (cases "5 \<le> length b \<and> 5 + declared b \<le> length b")
    case True
    let ?b = "drop (5 + declared b) b"
    let ?x = "\<lparr>fl_dir = direction d, fl_type = b ! 0, fl_len = declared b, fl_us = clock (length (take 400 all))\<rparr>"
    have s: "split_records b = (\<lparr>seen_typ = b ! 0, seen_wire = 5 + declared b\<rparr> # fst (split_records ?b), snd (split_records ?b))"
      using True by (subst split_step) simp
    then have "framed ?b" and small: "declared b \<le> 2 ^ 14 + 2048" using less.prems by (simp_all add: framed_def)
    moreover have "length ?b < length b" unfolding length_drop using True by linarith
    ultimately obtain new where new: "feed_loop (direction d) clock ?b (take 400 (all @ [?x])) = (snd (split_records ?b), take 400 ((all @ [?x]) @ new))"
        "of_dir d new = map seen_entry (fst (split_records ?b))" "\<forall>d'. d' \<noteq> d \<longrightarrow> of_dir d' new = []"
      using less.hyps [of ?b "all @ [?x]"] by blast
    have "feed_loop (direction d) clock b (take 400 all) = feed_loop (direction d) clock ?b (take 400 (all @ [?x]))"
      using True small by (subst feed_step) simp
    then show ?thesis using new
      by (intro exI [of _ "?x # new"]) (auto simp: s of_dir_def entry_def seen_entry_def)
  next
    case False
    then have s: "split_records b = ([], b)" by (subst split_step) auto
    then have "5 \<le> length b \<longrightarrow> declared b \<le> 2 ^ 14 + 2048" using less.prems by (simp add: framed_def)
    then have "feed_loop (direction d) clock b (take 400 all) = (b, take 400 all)" using False by (subst feed_step) auto
    then show ?thesis by (intro exI [of _ "[]"]) (simp add: s of_dir_def)
  qed
qed

interpretation flow: loop_tap split_records framed "\<lambda>d. feed_loop (direction d) clock" "feed clock" "take 400" of_dir seen_entry
    for clock
proof
  show "of_dir d (xs @ ys) = of_dir d xs @ of_dir d ys" for d xs ys by (simp add: of_dir_def)
  show "framed a" if "framed (a @ b)" for a b using that by (rule framed_prefix)
  show "framed (snd (split_records a) @ b)" if "framed (a @ b)" for a b using that by (rule framed_rest)
  show "feed clock (bs, recs) (d, b) = (bs(d := fst (feed_loop (direction d) clock (bs d @ b) recs)), snd (feed_loop (direction d) clock (bs d @ b) recs))"
    for bs recs d b by (simp add: feed_def split_beta)
  show "\<exists>new. feed_loop (direction d) clock b (take 400 all) = (snd (split_records b), take 400 (all @ new))
      \<and> of_dir d new = map seen_entry (fst (split_records b)) \<and> (\<forall>d'. d' \<noteq> d \<longrightarrow> of_dir d' new = [])"
    if "framed b" for d b and all :: "flow_rec list"
    using that by (rule feed_notes)
qed

section \<open>A relay, turn by turn\<close>

definition reads_of :: "bool \<Rightarrow> (bool \<times> arrived) list \<Rightarrow> arrived list" where
  "reads_of d evs = map snd (filter (\<lambda>ev. fst ev = d) evs)"

lemma reads_of_snoc: "reads_of d (evs @ [(d', r)]) = reads_of d evs @ (if d = d' then [r] else [])"
  by (simp add: reads_of_def)

lemma pipe_turn_eq:
  "pipe_turn clock fr (d, r) = (if fr_live fr d
     then fr\<lparr>fr_tap := foldl (feed clock) (fr_tap fr) (map (Pair d) (inspected [r])),
       fr_sent := (fr_sent fr)(d := fr_sent fr d @ passed [r]), fr_live := (fr_live fr)(d := \<not> stops [r])\<rparr>
     else fr)"
  unfolding pipe_turn_def pipe_eq foldl_map by simp

lemma turns:
  assumes "fr_tap fr = (\<lambda>_. [], [])" and "fr_live fr = (\<lambda>_. True)"
  shows "\<exists>rds. fr_tap (foldl (pipe_turn clock) fr evs) = foldl (feed clock) (\<lambda>_. [], []) rds
    \<and> (\<forall>d. stream d rds = concat (inspected (reads_of d evs))
         \<and> fr_sent (foldl (pipe_turn clock) fr evs) d = fr_sent fr d @ passed (reads_of d evs)
         \<and> fr_live (foldl (pipe_turn clock) fr evs) d = (\<not> stops (reads_of d evs)))"
proof (induction evs rule: rev_induct)
  case Nil
  then show ?case using assms by (intro exI [of _ "[]"]) (simp add: reads_of_def)
next
  case (snoc ev evs)
  obtain d r where ev: "ev = (d, r)" by force
  let ?fr = "foldl (pipe_turn clock) fr evs"
  obtain rds where IH: "fr_tap ?fr = foldl (feed clock) (\<lambda>_. [], []) rds" "\<And>d. stream d rds = concat (inspected (reads_of d evs))"
      "\<And>d. fr_sent ?fr d = fr_sent fr d @ passed (reads_of d evs)" "\<And>d. fr_live ?fr d = (\<not> stops (reads_of d evs))"
    using snoc.IH by blast
  let ?new = "if fr_live ?fr d then map (Pair d) (inspected [r]) else []"
  have "fr_tap (pipe_turn clock ?fr ev) = foldl (feed clock) (\<lambda>_. [], []) (rds @ ?new)"
    unfolding ev pipe_turn_eq by (simp add: IH(1) del: inspected.simps)
  moreover have "stream d' ?new = (if d' = d \<and> fr_live ?fr d then concat (inspected [r]) else [])" for d'
    by (simp del: inspected.simps)
  then have "stream d' (rds @ ?new) = concat (inspected (reads_of d' (evs @ [ev])))" for d'
    unfolding stream_append IH(2) ev reads_of_snoc by (simp add: IH(4) inspected_append del: inspected.simps(2))
  moreover have "fr_sent (pipe_turn clock ?fr ev) d' = fr_sent fr d' @ passed (reads_of d' (evs @ [ev]))"
    "fr_live (pipe_turn clock ?fr ev) d' = (\<not> stops (reads_of d' (evs @ [ev])))" for d'
    unfolding ev pipe_turn_eq reads_of_snoc using IH(3,4)
    by (simp_all add: passed_append stops_append del: passed.simps(2) stops.simps(2))
  ultimately show ?case by (intro exI [of _ "rds @ ?new"]) simp
qed

text \<open>
  C36. A relay between a browser and a server changes nothing and misses nothing: each side receives a prefix of what the
  other sent, all of it unless a write failed, and the flow that is emitted at the end holds the first four hundred
  records of an interleaving of the two streams, each stream's whole and in order, however the network cut either stream
  and however the two were read in turn, as long as neither declares more than a record can hold.
\<close>

theorem relay_faithful:
  assumes "\<And>d. framed (concat (inspected (reads_of d evs)))" and "\<And>d. stops (reads_of d evs)"
    and "records_handle clock host False evs out = (fr, out')"
  shows "(\<exists>recs. out' = emit \<lparr>flow_Host = hd (Split host 58), flow_Records = take 400 recs\<rparr> out
      \<and> (\<forall>d. of_dir d recs = map seen_entry (fst (split_records (concat (inspected (reads_of d evs)))))))
    \<and> (\<exists>up down. fr_sent fr True = up \<and> fr_sent fr False = established @ down
      \<and> prefix up (concat (inspected (reads_of True evs))) \<and> prefix down (concat (inspected (reads_of False evs)))
      \<and> ((\<forall>(d, r)\<in>set evs. ar_werr r = None) \<longrightarrow>
           up = concat (inspected (reads_of True evs)) \<and> down = concat (inspected (reads_of False evs))))"
proof -
  let ?fr0 = "\<lparr>fr_tap = (\<lambda>_. [], []), fr_sent = (\<lambda>_. [])(False := established), fr_live = (\<lambda>_. True)\<rparr>"
  have fr: "fr = foldl (pipe_turn clock) ?fr0 evs"
    using assms(3) by (simp add: records_handle_def Let_def)
  obtain rds where rds: "fr_tap fr = foldl (feed clock) (\<lambda>_. [], []) rds" "\<And>d. stream d rds = concat (inspected (reads_of d evs))"
      "\<And>d. fr_sent fr d = fr_sent ?fr0 d @ passed (reads_of d evs)" "\<And>d. fr_live fr d = (\<not> stops (reads_of d evs))"
    using turns [of ?fr0 clock evs] unfolding fr by auto
  obtain recs where recs: "snd (fr_tap fr) = take 400 recs" "\<And>d. of_dir d recs = map seen_entry (fst (split_records (stream d rds)))"
    using flow.any_cuts [of rds "(\<lambda>_. [], [])" "[]" clock] assms(1) by (auto simp: rds(1,2))
  have "out' = emit \<lparr>flow_Host = hd (Split host 58), flow_Records = take 400 recs\<rparr> out"
    using assms(3) rds(4) assms(2) recs(1) fr by (auto simp: records_handle_def Let_def)
  moreover have "passed (reads_of d evs) = concat (inspected (reads_of d evs))" if "\<forall>(d, r)\<in>set evs. ar_werr r = None" for d
    using that by (intro passed_all) (auto simp: reads_of_def)
  ultimately show ?thesis using recs(2) rds(2,3) passed_prefix by fastforce
qed

definition two_ways :: "(bool \<times> arrived) list" where
  "two_ways = [(True, \<lparr>ar_bytes = [0x16, 3, 1], ar_err = False, ar_werr = None\<rparr>),
     (False, \<lparr>ar_bytes = [0x17, 3, 3, 0, 1, 8], ar_err = True, ar_werr = None\<rparr>),
     (True, \<lparr>ar_bytes = [0, 2, 1, 1, 0x17], ar_err = True, ar_werr = None\<rparr>)]"

lemma two_ways_flows:
  "framed (concat (inspected (reads_of d two_ways)))" "stops (reads_of d two_ways)"
  "fst (split_records (concat (inspected (reads_of True two_ways)))) = [\<lparr>seen_typ = 0x16, seen_wire = 7\<rparr>]"
proof -
  have w: "concat (inspected (reads_of d two_ways)) = (if d then [0x16, 3, 1, 0, 2, 1, 1, 0x17] else [0x17, 3, 3, 0, 1, 8])" for d
    by (simp add: reads_of_def two_ways_def)
  have "declared [0x16, 3, 1, 0, 2, 1, 1, 0x17] = 2" "declared [0x17, 3, 3, 0, 1, 8] = 1"
    by (simp_all add: declared_def slice_def Uint16_def be_nat_def)
  then have r: "split_records [0x16, 3, 1, 0, 2, 1, 1, 0x17] = ([\<lparr>seen_typ = 0x16, seen_wire = 7\<rparr>], [0x17])"
      "split_records [0x17, 3, 3, 0, 1, 8] = ([\<lparr>seen_typ = 0x17, seen_wire = 6\<rparr>], [])"
    by (subst split_step, simp add: split_step [of "[_]"] split_step [of "[]"])+
  show "framed (concat (inspected (reads_of d two_ways)))" unfolding w by (simp add: r framed_def)
  show "stops (reads_of d two_ways)" by (simp add: reads_of_def two_ways_def)
  show "fst (split_records (concat (inspected (reads_of True two_ways)))) = [\<lparr>seen_typ = 0x16, seen_wire = 7\<rparr>]" by (simp add: w r)
qed

theorem relay_faithful_witness:
  "\<exists>recs. snd (records_handle int (str ''h:443'') False two_ways []) = emit \<lparr>flow_Host = str ''h'', flow_Records = take 400 recs\<rparr> []
     \<and> of_dir True recs = [(0x16, 2)]"
proof -
  obtain fr out where r: "records_handle int (str ''h:443'') False two_ways [] = (fr, out)" by force
  have "hd (Split (str ''h:443'') 58) = str ''h''" by (simp add: str_def)
  then show ?thesis using relay_faithful [OF two_ways_flows(1,2) r] by (auto simp: r two_ways_flows(3) seen_entry_def)
qed

text \<open>
  On a stream that is not framed the splitter does not stop tracking the direction, as its comment says: it starts over
  at the next read, wherever in the stream that is.
\<close>

lemma feed_starts_over:
  "snd (foldl (feed int) (\<lambda>_. [], []) [(True, [1, 2, 3, 255, 255]), (True, [0x16, 3, 1, 0, 0])]) \<noteq> []"
  "snd (foldl (feed int) (\<lambda>_. [], []) [(True, [1, 2, 3, 255, 255, 0x16, 3, 1, 0, 0])]) = []"
proof -
  have "declared [1, 2, 3, 255, 255] = 65535" "declared [0x16, 3, 1, 0, 0] = 0" "declared [1, 2, 3, 255, 255, 0x16, 3, 1, 0, 0] = 65535"
    by (simp_all add: declared_def slice_def Uint16_def be_nat_def)
  then show "snd (foldl (feed int) (\<lambda>_. [], []) [(True, [1, 2, 3, 255, 255]), (True, [0x16, 3, 1, 0, 0])]) \<noteq> []"
    "snd (foldl (feed int) (\<lambda>_. [], []) [(True, [1, 2, 3, 255, 255, 0x16, 3, 1, 0, 0])]) = []"
    by (simp_all add: feed_def feed_step)
qed

end
