(* ===== verification/Capture.thy ===== *)
theory Capture
  imports Relays
begin

text \<open>
  The tools under \<^verbatim>\<open>src/harvest/cmd\<close> that keep a browser's first record: \<^verbatim>\<open>tapproxy\<close>, a relay, and \<^verbatim>\<open>capture\<close>, a server. Both
  number their connections and write a file of labelled lines; \<^verbatim>\<open>capture\<close> also writes a comment for each request. The facts:
  what is kept of a connection is its first record, whole, once, whatever else happens; the pool reader reads the file as
  those records, unless a request injected a line.
\<close>

section \<open>Lines\<close>

text \<open>Decimal numbers as \<^verbatim>\<open>fmt\<close> prints them.\<close>

function digits :: "nat \<Rightarrow> bytes" where
  "digits n = (if n < 10 then [48 + of_nat n] else digits (n div 10) @ [48 + of_nat (n mod 10)])"
  by pat_completeness auto
termination by (relation "measure (\<lambda>n. n)") auto

declare digits.simps [simp del]

definition show_int :: "int \<Rightarrow> bytes" where
  "show_int z = (if z < 0 then 45 # digits (nat (- z)) else digits (nat z))"

text \<open>A captured hello, and \<^verbatim>\<open>capture\<close>'s comment on a request.\<close>

datatype line = Saved int bytes | Noted int bool bytes

fun line_text :: "line \<Rightarrow> bytes" where
  "line_text (Saved i rec) = show_int i @ [32] @ hex_EncodeToString rec @ [10]"
| "line_text (Noted i resumed path) =
     str ''# conn '' @ show_int i @ str '' resumed='' @ (if resumed then str ''true'' else str ''false'') @ str '' path='' @ path @ [10]"

section \<open>The recording relay\<close>

text \<open>\<^verbatim>\<open>tapproxy\<close>: the counter of connections, the file, and what is printed of a hello: its number, its length, and how many bytes came with it.\<close>

record proxy =
  px_n :: "32 word"
  px_out :: bytes
  px_shown :: "(int \<times> nat \<times> nat) list"

record proxied =
  pc_buf :: bytes
  pc_captured :: bool

definition proxy_read :: "int \<Rightarrow> bytes \<Rightarrow> proxied \<times> proxy \<Rightarrow> proxied \<times> proxy" where
  "proxy_read i b cp =
     (let (c, px) = cp
      in if \<not> pc_captured c
         then let c = c\<lparr>pc_buf := pc_buf c @ b\<rparr>
              in if 5 \<le> length (pc_buf c) \<and> pc_buf c ! 0 = 0x16
                 then let rl = unat (Uint16 (slice (pc_buf c) 3 5))
                      in if 5 + rl \<le> length (pc_buf c)
                         then let rec = take (5 + rl) (pc_buf c); extra = length (pc_buf c) - length rec
                              in (c\<lparr>pc_captured := True\<rparr>, px\<lparr>px_out := px_out px @ line_text (Saved i rec),
                                    px_shown := px_shown px @ [(i, length rec, extra)]\<rparr>)
                         else (c, px)
                 else (c, px)
         else (c, px))"

definition proxy_handle :: "bool \<Rightarrow> arrived list \<Rightarrow> proxy \<Rightarrow> proxy \<times> bytes" where
  "proxy_handle dial_err rds px =
     (if dial_err then (px, [])
      else let px = px\<lparr>px_n := px_n px + 1\<rparr>; i = sint (px_n px);
               ((_, px), up, _) = pipe (proxy_read i) rds (\<lparr>pc_buf = [], pc_captured = False\<rparr>, px) []
           in (px, up))"

section \<open>The capturing server\<close>

text \<open>
  \<^verbatim>\<open>capture\<close>: \<^verbatim>\<open>tapListener\<close> numbers what it accepts, \<^verbatim>\<open>tapConn.Read\<close> keeps the first record, the handler comments on each
  request. Connections are served concurrently: an event is one call, \<open>k\<close> the connection it is about.
\<close>

record tap_conn =
  tc_id :: int
  tc_buf :: bytes
  tc_captured :: bool

record capture =
  ca_n :: "32 word"
  ca_conns :: "tap_conn list"
  ca_out :: bytes
  ca_served :: "(nat \<times> bytes) list"

definition new_capture :: capture where
  "new_capture = \<lparr>ca_n = 0, ca_conns = [], ca_out = [], ca_served = []\<rparr>"

text \<open>What the handler answers: the page, which makes the browser open eight more connections, or a word.\<close>

definition page :: bytes where
  "page = str ''<!doctype html><meta charset=utf-8><title>hello capture</title>'' @ [10]
     @ str ''<style>body{font:14px ui-monospace,monospace;padding:2rem;background:#111;color:#ddd}</style>'' @ [10]
     @ str ''<h3>capturing</h3>'' @ [10]
     @ str ''<img src=/p1><img src=/p2><img src=/p3><img src=/p4>'' @ [10]
     @ str ''<img src=/p5><img src=/p6><img src=/p7><img src=/p8>'' @ [10]
     @ str ''<p>done - return to the terminal</p>'' @ [10]"

definition serve_page :: "nat \<Rightarrow> bool \<Rightarrow> bytes \<Rightarrow> capture \<Rightarrow> capture" where
  "serve_page k resumed path s =
     (let s = s\<lparr>ca_out := ca_out s @ line_text (Noted (tc_id (ca_conns s ! k)) resumed path)\<rparr>
      in s\<lparr>ca_served := ca_served s @ [(k, if path = str ''/'' then page else str ''ok'')]\<rparr>)"

definition save :: "int \<Rightarrow> bytes \<Rightarrow> capture \<Rightarrow> capture" where
  "save i rec s = s\<lparr>ca_out := ca_out s @ line_text (Saved i rec)\<rparr>"

definition tap_accept :: "bool \<Rightarrow> capture \<Rightarrow> capture" where
  "tap_accept err s =
     (if err then s
      else let n = ca_n s + 1
           in s\<lparr>ca_n := n, ca_conns := ca_conns s @ [\<lparr>tc_id = sint n, tc_buf = [], tc_captured = False\<rparr>]\<rparr>)"

text \<open>The read of one connection: the connection after it, and the record to save.\<close>

definition tap_read :: "bytes \<Rightarrow> tap_conn \<Rightarrow> tap_conn \<times> bytes option" where
  "tap_read b c =
     (if \<not> tc_captured c \<and> 0 < length b
      then let c = c\<lparr>tc_buf := tc_buf c @ b\<rparr>
           in if 5 \<le> length (tc_buf c) \<and> tc_buf c ! 0 = 0x16
              then let rl = unat (Uint16 (slice (tc_buf c) 3 5))
                   in if 5 + rl \<le> length (tc_buf c) then (c\<lparr>tc_captured := True\<rparr>, Some (take (5 + rl) (tc_buf c))) else (c, None)
              else (c, None)
      else (c, None))"

datatype capture_event = Accept bool | Arrive nat bytes | Request nat bool bytes

definition capture_step :: "capture \<Rightarrow> capture_event \<Rightarrow> capture" where
  "capture_step s ev =
     (case ev of
        Accept err \<Rightarrow> tap_accept err s
      | Arrive k b \<Rightarrow>
          if k < length (ca_conns s)
          then let (c, saved) = tap_read b (ca_conns s ! k);
                   s = s\<lparr>ca_conns := (ca_conns s)[k := c]\<rparr>
               in (case saved of None \<Rightarrow> s | Some rec \<Rightarrow> save (tc_id c) rec s)
          else s
      | Request k resumed path \<Rightarrow>
          if k < length (ca_conns s) then serve_page k resumed path s else s)"

section \<open>Text\<close>

lemma digits_visible: "visible (digits n) \<and> digits n \<noteq> []"
proof (induction n rule: digits.induct)
  case (1 n)
  have "33 \<le> (48 + of_nat m :: byte) \<and> (48 + of_nat m :: byte) \<le> 126" if "m < 10" for m
    using that by (simp add: word_le_nat_alt unat_word_ariths)
  moreover have "n mod 10 < 10" by simp
  ultimately show ?case using 1 by (subst (1 2) digits.simps) (auto simp: visible_def simp del: of_nat_add)
qed

lemma digits_first: "digits n = c # s \<Longrightarrow> c \<noteq> 35"
proof (induction n arbitrary: c s rule: digits.induct)
  case (1 n)
  have d: "(48 + of_nat m :: byte) \<noteq> 35" if "m < 10" for m
    using that by (simp add: word_unat_eq_iff unat_word_ariths del: of_nat_add)
  show ?case
  proof (cases "n < 10")
    case True
    then show ?thesis using 1(2) d by (subst (asm) digits.simps) auto
  next
    case False
    then obtain c' s' where "digits (n div 10) = c' # s'" using digits_visible by (cases "digits (n div 10)") auto
    then show ?thesis using 1(1) [OF False] 1(2) False by (subst (asm) (2) digits.simps) auto
  qed
qed

lemma show_int_visible: "visible (show_int z)" "show_int z \<noteq> []"
  using digits_visible by (auto simp: show_int_def visible_def)

lemma cut_keeps:
  "c \<notin> set (concat ps) \<Longrightarrow> \<exists>u. cut_spaces ps (t @ c # v) = u @ c # v"
proof (induction "length t" arbitrary: t rule: less_induct)
  case less
  let ?n = "space_len ps (t @ c # v)"
  show ?case
  proof (cases "?n = 0")
    case True
    then show ?thesis by (subst cut_spaces.simps) auto
  next
    case False
    then obtain p where p: "find (\<lambda>p. take (length p) (t @ c # v) = p) ps = Some p" "?n = length p"
      by (auto simp: space_len_def split: option.splits)
    then have "p \<in> set ps" "take (length p) (t @ c # v) = p" by (auto simp: find_Some_iff)
    then have "c \<notin> set (take ?n (t @ c # v))" using less.prems p(2) by auto
    then have le: "?n \<le> length t" by (auto simp: take_Cons' not_le split: if_splits)
    moreover have "length (drop ?n t) < length t" using False le by simp
    ultimately obtain u where "cut_spaces ps (drop ?n t @ c # v) = u @ c # v" using less.hyps less.prems by blast
    then show ?thesis using False le by (subst cut_spaces.simps) auto
  qed
qed

lemma visible_not_space: "33 \<le> c \<Longrightarrow> c \<le> 126 \<Longrightarrow> c \<notin> set (concat spaces) \<and> c \<notin> set (concat (map rev spaces))"
proof -
  have "list_all (\<lambda>c. c < 33 \<or> 126 < c) (concat spaces)" by code_simp
  then show "33 \<le> c \<Longrightarrow> c \<le> 126 \<Longrightarrow> ?thesis" by (force simp: list_all_iff)
qed

lemma TrimSpace_ends:
  assumes "33 \<le> c \<and> c \<le> 126" and "33 \<le> d \<and> d \<le> 126"
  shows "TrimSpace (c # s @ [d]) = c # s @ [d]"
proof -
  have "space_len ps (c # t) = 0" if "c \<notin> set (concat ps)" "[] \<notin> set ps" for ps c and t :: bytes
  proof -
    have "take (length p) (c # t) \<noteq> p" if "p \<in> set ps" for p
      using \<open>c \<notin> set (concat ps)\<close> \<open>[] \<notin> set ps\<close> that by (cases p) auto
    then have "find (\<lambda>p. take (length p) (c # t) = p) ps = None" by (auto simp: find_None_iff)
    then show ?thesis by (simp add: space_len_def)
  qed
  moreover have "[] \<notin> set spaces" "[] \<notin> set (map rev spaces)" using spaces_invisible by (auto simp: list_all_iff)
  ultimately have "space_len spaces (c # s @ [d]) = 0" "space_len (map rev spaces) (d # rev s @ [c]) = 0"
    using visible_not_space assms by blast+
  then have "cut_spaces spaces (c # s @ [d]) = c # s @ [d]" "cut_spaces (map rev spaces) (d # rev s @ [c]) = d # rev s @ [c]"
    by (subst cut_spaces.simps, simp)+
  then show ?thesis by (simp add: TrimSpace_def)
qed

lemma TrimSpace_comment: "take 1 (TrimSpace (35 # s)) = [35]"
proof -
  have c: "35 \<notin> set (concat spaces)" "35 \<notin> set (concat (map rev spaces))" using visible_not_space [of 35] by simp_all
  obtain u where "cut_spaces spaces ([] @ 35 # s) = u @ 35 # s" using cut_keeps [OF c(1)] by blast
  moreover have "length (cut_spaces spaces (35 # s)) \<le> length (35 # s)" by (rule length_cut_spaces)
  ultimately have a: "cut_spaces spaces (35 # s) = 35 # s" by simp
  obtain v where v: "cut_spaces (map rev spaces) (rev s @ 35 # []) = v @ 35 # []" using cut_keeps [OF c(2)] by blast
  then show ?thesis by (simp add: TrimSpace_def a)
qed

text \<open>A label, a space and a hex string are two fields, of which the pool reader takes the last.\<close>

lemma Fields_labelled:
  assumes "visible a" and "a \<noteq> []" and "visible b" and "b \<noteq> []"
  shows "Fields (a @ [32] @ b) = [a, b]"
proof -
  obtain c a' where a: "a = c # a'" using assms(2) by (cases a) auto
  obtain b' d where b: "b = b' @ [d]" using assms(4) by (cases b rule: rev_cases) auto
  have vis: "33 \<le> c \<and> c \<le> 126" "33 \<le> d \<and> d \<le> 126" using assms(1,3) by (auto simp: a b visible_def)
  have head: "space_len spaces (x # t) = 0" if "33 \<le> x" "x \<le> 126" for x and t :: bytes
  proof -
    have "take (length p) (x # t) \<noteq> p" if "p \<in> set spaces" for p
      using spaces_invisible that visible_not_space [OF \<open>33 \<le> x\<close> \<open>x \<le> 126\<close>] by (cases p) (auto simp: list_all_iff)
    then have "find (\<lambda>p. take (length p) (x # t) = p) spaces = None" by (auto simp: find_None_iff)
    then show ?thesis by (simp add: space_len_def)
  qed
  have space: "space_len spaces (32 # t) = 1" for t :: bytes by (simp add: space_len_def spaces_def)
  have len: "field_len (x @ 32 # t) = length x" if "visible x" for x t
    using that by (induction x) (auto simp: visible_def space head)
  have "cut_spaces spaces (a @ [32] @ b) = c # a' @ 32 # b" using vis(1) by (subst cut_spaces.simps) (simp add: a head)
  then have "Fields (a @ [32] @ b) = (c # take (length a') (a' @ 32 # b)) # Fields (drop (length a') (a' @ 32 # b))"
    using assms(1) by (subst Fields.simps) (simp add: a len visible_def)
  also have "cut_spaces spaces (32 # b) = b" using cut_visible [OF assms(3)] by (subst cut_spaces.simps) (simp add: space)
  then have "Fields (32 # b) = Fields b"
    using cut_visible [OF assms(3)] by (subst (1 2) Fields.simps) simp
  then have "Fields (drop (length a') (a' @ 32 # b)) = [b]" using Fields_visible [OF assms(3,4)] by simp
  finally show ?thesis by (simp add: a)
qed

lemma hex_no_newline: "10 \<notin> set (hex_EncodeToString rec)" and show_no_newline: "10 \<notin> set (show_int z)"
  using hex_visible [of rec] show_int_visible(1) [of z] by (auto simp: visible_def)

section \<open>What is kept of a connection\<close>

text \<open>The lines a run appends to the file.\<close>

definition step_log :: "capture \<Rightarrow> capture_event \<Rightarrow> line list" where
  "step_log s ev =
     (case ev of
        Accept err \<Rightarrow> []
      | Arrive k b \<Rightarrow> (if k < length (ca_conns s)
          then case snd (tap_read b (ca_conns s ! k)) of None \<Rightarrow> [] | Some rec \<Rightarrow> [Saved (tc_id (ca_conns s ! k)) rec]
          else [])
      | Request k resumed path \<Rightarrow> (if k < length (ca_conns s) then [Noted (tc_id (ca_conns s ! k)) resumed path] else []))"

fun capture_log :: "capture \<Rightarrow> capture_event list \<Rightarrow> line list" where
  "capture_log s [] = []"
| "capture_log s (ev # evs) = step_log s ev @ capture_log (capture_step s ev) evs"

lemma tap_read_id [simp]: "tc_id (fst (tap_read b c)) = tc_id c"
  by (simp add: tap_read_def Let_def)

lemma step_out: "ca_out (capture_step s ev) = ca_out s @ concat (map line_text (step_log s ev))"
  by (auto simp: capture_step_def step_log_def tap_accept_def save_def serve_page_def Let_def split_beta split: capture_event.split option.split)

lemma capture_out: "ca_out (foldl capture_step s evs) = ca_out s @ concat (map line_text (capture_log s evs))"
  by (induction evs arbitrary: s) (simp_all add: step_out)

text \<open>The reads of connection \<open>k\<close>, from its acceptance on, when \<open>n\<close> were accepted before; how many are accepted.\<close>

fun arrivals :: "nat \<Rightarrow> nat \<Rightarrow> capture_event list \<Rightarrow> bytes list" where
  "arrivals k n [] = []"
| "arrivals k n (Accept err # evs) = arrivals k (if err then n else n + 1) evs"
| "arrivals k n (Arrive j b # evs) = (if j = k \<and> k < n then b # arrivals k n evs else arrivals k n evs)"
| "arrivals k n (Request j resumed path # evs) = arrivals k n evs"

definition accepts :: "capture_event list \<Rightarrow> nat" where
  "accepts evs = length (filter (\<lambda>ev. ev = Accept False) evs)"

text \<open>One connection by itself, with the records saved of it.\<close>

definition tap_step :: "bytes \<Rightarrow> tap_conn \<times> bytes list \<Rightarrow> tap_conn \<times> bytes list" where
  "tap_step b cr = (fst (tap_read b (fst cr)), snd cr @ (case snd (tap_read b (fst cr)) of None \<Rightarrow> [] | Some rec \<Rightarrow> [rec]))"

definition hello_ready :: "bytes \<Rightarrow> bool" where
  "hello_ready x \<longleftrightarrow> 5 \<le> length x \<and> x ! 0 = 0x16 \<and> 5 + declared x \<le> length x"

interpretation tap: first_record "\<lambda>b. b" "\<lambda>_. True" tap_step "\<lambda>(c, recs). \<not> tc_captured c" "\<lambda>(c, recs). tc_buf c" snd hello_ready
    "\<lambda>_ recs. recs" "\<lambda>x recs. recs @ [take (5 + declared x) x]"
  by unfold_locales (auto simp: tap_step_def tap_read_def hello_ready_def declared_def Let_def split_beta split: if_splits)

interpretation proxy: first_record "\<lambda>b. b" "\<lambda>_. True" "proxy_read i" "\<lambda>(c, px). \<not> pc_captured c" "\<lambda>(c, px). pc_buf c" snd hello_ready
    "\<lambda>_ px. px" "\<lambda>x px. let rec = take (5 + declared x) x in
       px\<lparr>px_out := px_out px @ line_text (Saved i rec), px_shown := px_shown px @ [(i, length rec, length x - length rec)]\<rparr>" for i
  by unfold_locales (auto simp: proxy_read_def hello_ready_def declared_def Let_def split_beta split: if_splits)

lemma declared_record:
  assumes "length body < 65536"
  shows "take (5 + declared (tls_record (t, v, body) @ rest)) (tls_record (t, v, body) @ rest) = tls_record (t, v, body)"
    and "declared (tls_record (t, v, body) @ rest) = length body"
proof -
  let ?w = "tls_record (t, v, body) @ rest"
  have "slice ?w 3 5 = PutUint16 (of_nat (length body))"
    using slice_middle [of 3 "[t] @ PutUint16 v" 5 "PutUint16 (of_nat (length body))" "body @ rest"] by (simp add: tls_record_def)
  then show "declared ?w = length body" using assms by (simp add: declared_def)
  moreover have "length (tls_record (t, v, body)) = 5 + length body" by (simp add: tls_record_def)
  ultimately show "take (5 + declared ?w) ?w = tls_record (t, v, body)" by simp
qed

lemma hello_ready_record:
  assumes "length body < 65536" and "prefix x (tls_record (0x16, v, body) @ rest)"
  shows "hello_ready x \<longleftrightarrow> length (tls_record (0x16, v, body)) \<le> length x"
proof -
  let ?w = "tls_record (0x16, v, body) @ rest"
  have "declared ?w = length body" by (rule declared_record(2) [OF assms(1)])
  moreover have "x ! 0 = 0x16" if "5 \<le> length x"
    using assms(2) that by (auto simp: prefix_def tls_record_def nth_append dest!: arg_cong [where f = hd] simp: hd_append hd_conv_nth split: if_splits)
  moreover have "length (tls_record (0x16, v, body)) = 5 + length body" by (simp add: tls_record_def)
  ultimately show ?thesis using declared_of_prefix [OF assms(2)] by (auto simp: hello_ready_def)
qed

definition saved :: "int \<Rightarrow> line list \<Rightarrow> bytes list" where
  "saved i ls = List.map_filter (\<lambda>l. case l of Saved j rec \<Rightarrow> if j = i then Some rec else None | Noted _ _ _ \<Rightarrow> None) ls"

definition saved_all :: "line list \<Rightarrow> bytes list" where
  "saved_all ls = List.map_filter (\<lambda>l. case l of Saved j rec \<Rightarrow> Some rec | Noted _ _ _ \<Rightarrow> None) ls"

definition numbered :: "capture \<Rightarrow> bool" where
  "numbered s \<longleftrightarrow> ca_n s = of_nat (length (ca_conns s)) \<and> (\<forall>j<length (ca_conns s). tc_id (ca_conns s ! j) = int j + 1)"

definition conn_at :: "capture \<Rightarrow> nat \<Rightarrow> tap_conn" where
  "conn_at s k = (if k < length (ca_conns s) then ca_conns s ! k else \<lparr>tc_id = int k + 1, tc_buf = [], tc_captured = False\<rparr>)"

lemma sint_count: "m < 2 ^ 31 - 1 \<Longrightarrow> sint (of_nat m + 1 :: 32 word) = int m + 1"
proof -
  assume "m < 2 ^ 31 - 1"
  then have "signed_take_bit 31 (int m + 1) = int m + 1" by (intro signed_take_bit_int_eq_self) simp_all
  then show ?thesis using sint_sbintrunc' [where bin = "int m + 1" and 'a = 32] by simp
qed

lemma numbered_step:
  assumes "numbered s" and "length (ca_conns s) + accepts (ev # evs) < 2 ^ 31"
  shows "numbered (capture_step s ev)" and "length (ca_conns (capture_step s ev)) + accepts evs < 2 ^ 31"
    and "length (ca_conns (capture_step s ev)) = length (ca_conns s) + accepts [ev]"
proof -
  show len: "length (ca_conns (capture_step s ev)) = length (ca_conns s) + accepts [ev]"
    by (auto simp: capture_step_def tap_accept_def save_def serve_page_def accepts_def Let_def split_beta split: capture_event.split option.split)
  show "length (ca_conns (capture_step s ev)) + accepts evs < 2 ^ 31" using assms(2) unfolding len by (auto simp: accepts_def)
  show "numbered (capture_step s ev)"
  proof (cases ev)
    case (Accept err)
    then show ?thesis using assms sint_count [of "length (ca_conns s)"]
      by (auto simp: numbered_def capture_step_def tap_accept_def accepts_def Let_def nth_append less_Suc_eq)
  qed (use assms(1) in \<open>auto simp: numbered_def capture_step_def save_def serve_page_def Let_def split_beta nth_list_update split: option.split\<close>)
qed

lemma tap_steps_acc: "foldl (\<lambda>cr b. tap_step b cr) (c, acc) bs =
    (fst (foldl (\<lambda>cr b. tap_step b cr) (c, []) bs), acc @ snd (foldl (\<lambda>cr b. tap_step b cr) (c, []) bs))"
proof (induction bs arbitrary: c acc)
  case (Cons b bs)
  show ?case
    using Cons.IH [of "fst (tap_read b c)" "acc @ (case snd (tap_read b c) of None \<Rightarrow> [] | Some rec \<Rightarrow> [rec])"]
      Cons.IH [of "fst (tap_read b c)" "case snd (tap_read b c) of None \<Rightarrow> [] | Some rec \<Rightarrow> [rec]"]
    by (simp add: tap_step_def)
qed simp

lemma log_of_connection:
  "numbered s \<Longrightarrow> length (ca_conns s) + accepts evs < 2 ^ 31 \<Longrightarrow>
    saved (int k + 1) (capture_log s evs) = snd (foldl (\<lambda>cr b. tap_step b cr) (conn_at s k, []) (arrivals k (length (ca_conns s)) evs))"
proof (induction evs arbitrary: s)
  case Nil
  then show ?case by (simp add: saved_def List.map_filter_def)
next
  case (Cons ev evs)
  let ?n = "length (ca_conns s)"
  note step = numbered_step [OF Cons.prems]
  have app: "saved i (xs @ ys) = saved i xs @ saved i ys" for i xs ys by (simp add: saved_def List.map_filter_def)
  have IH: "saved (int k + 1) (capture_log s (ev # evs)) = saved (int k + 1) (step_log s ev)
      @ snd (foldl (\<lambda>cr b. tap_step b cr) (conn_at (capture_step s ev) k, []) (arrivals k (?n + accepts [ev]) evs))"
    using Cons.IH [OF step(1,2)] step(3) by (simp add: app)
  show ?case
  proof (cases ev)
    case (Accept err)
    then have "conn_at (capture_step s ev) k = conn_at s k"
      using step(1) Cons.prems by (auto simp: conn_at_def capture_step_def tap_accept_def Let_def nth_append numbered_def less_Suc_eq accepts_def sint_count)
    then show ?thesis unfolding IH using Accept by (simp add: step_log_def saved_def List.map_filter_def accepts_def)
  next
    case (Arrive j b)
    show ?thesis
    proof (cases "j = k \<and> k < ?n")
      case True
      let ?c = "ca_conns s ! k"
      have "tc_id ?c = int k + 1" using Cons.prems(1) True by (simp add: numbered_def)
      then have l: "saved (int k + 1) (step_log s ev) = (case snd (tap_read b ?c) of None \<Rightarrow> [] | Some rec \<Rightarrow> [rec])"
        using True Arrive by (auto simp: step_log_def saved_def List.map_filter_def split: option.split)
      have c: "conn_at (capture_step s ev) k = fst (tap_read b ?c)"
        using True Arrive by (auto simp: conn_at_def capture_step_def save_def Let_def split_beta split: option.split)
      show ?thesis unfolding IH l c using True Arrive tap_steps_acc [of "fst (tap_read b ?c)" "case snd (tap_read b ?c) of None \<Rightarrow> [] | Some rec \<Rightarrow> [rec]"]
        by (simp add: conn_at_def tap_step_def accepts_def)
    next
      case False
      have "conn_at (capture_step s ev) k = conn_at s k"
        using False Arrive by (cases "j < ?n") (auto simp: conn_at_def capture_step_def save_def Let_def split_beta split: option.split)
      moreover have "saved (int k + 1) (step_log s ev) = []"
      proof (cases "j < ?n")
        case True
        then have "tc_id (ca_conns s ! j) \<noteq> int k + 1" using False Cons.prems(1) by (simp add: numbered_def)
        then show ?thesis using True Arrive by (simp add: step_log_def saved_def List.map_filter_def split: option.split)
      next
        case False
        then show ?thesis using Arrive by (simp add: step_log_def saved_def List.map_filter_def)
      qed
      ultimately show ?thesis unfolding IH using False Arrive by (auto simp: accepts_def)
    qed
  next
    case (Request j resumed path)
    then have "conn_at (capture_step s ev) k = conn_at s k" "saved (int k + 1) (step_log s ev) = []"
      by (auto simp: conn_at_def capture_step_def serve_page_def Let_def step_log_def saved_def List.map_filter_def)
    then show ?thesis unfolding IH using Request by (simp add: accepts_def)
  qed
qed

text \<open>
  The capturing server keeps of every connection its first record, whole and once, under the number of the
  connection: however the network cuts the stream, however the calls of its connections interleave, and whatever follows
  the record.
\<close>

theorem capture_keeps_first:
  assumes "accepts evs < 2 ^ 31" and "concat (arrivals k 0 evs) = tls_record (0x16, v, body) @ rest" and "length body < 65536"
  shows "ca_out (foldl capture_step new_capture evs) = concat (map line_text (capture_log new_capture evs))
    \<and> saved (int k + 1) (capture_log new_capture evs) = [tls_record (0x16, v, body)]"
proof -
  let ?rec = "tls_record (0x16, v, body)" and ?c = "\<lparr>tc_id = int k + 1, tc_buf = [], tc_captured = False\<rparr>"
  have "numbered new_capture" by (simp add: numbered_def new_capture_def)
  from log_of_connection [OF this, of evs k] have "saved (int k + 1) (capture_log new_capture evs) =
      snd (foldl (\<lambda>cr b. tap_step b cr) (?c, []) (arrivals k 0 evs))"
    using assms(1) by (simp add: new_capture_def conn_at_def)
  also have "?rec \<noteq> []" by (simp add: tls_record_def)
  then have "snd (foldl (\<lambda>cr b. tap_step b cr) (?c, []) (arrivals k 0 evs)) = [?rec]"
    using tap.acts_at_once [where s = "(?c, [])" and cs = "arrivals k 0 evs" and rec = ?rec and more = rest] assms(2)
      hello_ready_record [OF assms(3)] declared_record [OF assms(3)] by force
  finally show ?thesis using capture_out [of new_capture evs] by (auto simp: new_capture_def)
qed

theorem capture_keeps_first_witness:
  "saved 1 (capture_log new_capture [Accept False, Arrive 0 [0x16, 3], Accept False, Arrive 1 [7], Arrive 0 [1, 0, 1, 9, 9], Arrive 0 [9]]) = [[0x16, 3, 1, 0, 1, 9]]"
  using capture_keeps_first [where evs = "[Accept False, Arrive 0 [0x16, 3], Accept False, Arrive 1 [7], Arrive 0 [1, 0, 1, 9, 9], Arrive 0 [9]]"
      and k = 0 and v = "0x0301" and body = "[9]" and rest = "[9, 9]"]
  by (simp add: accepts_def tls_record_def PutUint16_def)

section \<open>The file as a pool\<close>

text \<open>A line without the newline that ends it, and the lines that hold no other newline and no empty record.\<close>

definition line_body :: "line \<Rightarrow> bytes" where
  "line_body l = butlast (line_text l)"

fun one_line :: "line \<Rightarrow> bool" where
  "one_line (Saved i rec) = (rec \<noteq> [])"
| "one_line (Noted i resumed path) = (10 \<notin> set path)"

lemma line_text_body: "line_text l = line_body l @ [10]"
  by (cases l) (simp_all add: line_body_def butlast_append)

lemma line_body_no_newline: "one_line l \<Longrightarrow> 10 \<notin> set (line_body l)"
  using hex_no_newline show_no_newline by (cases l) (auto simp: line_body_def butlast_append str_def)

lemma Split_lines: "\<forall>l\<in>set ls. one_line l \<Longrightarrow> Split (concat (map line_text ls)) 10 = map line_body ls @ [[]]"
proof (induction ls)
  case (Cons l ls)
  then show ?case using Split_append [OF line_body_no_newline, of l "concat (map line_text ls)"] by (simp add: line_text_body [abs_def])
qed simp

lemma pool_line_saved:
  assumes "rec \<noteq> []"
  shows "pool_line what n (line_body (Saved i rec)) = Some (case Usable rec of Inl e \<Rightarrow> Inl (AtLine what (n + 1) e) | Inr _ \<Rightarrow> Inr rec)"
proof -
  let ?a = "show_int i" and ?b = "hex_EncodeToString rec"
  have body: "line_body (Saved i rec) = ?a @ [32] @ ?b" by (simp add: line_body_def butlast_append)
  obtain c a' where a: "?a = c # a'" using show_int_visible(2) by (cases ?a) auto
  obtain b' d where b: "?b = b' @ [d]" using assms by (cases ?b rule: rev_cases) auto
  have vis: "33 \<le> c \<and> c \<le> 126" "33 \<le> d \<and> d \<le> 126"
    using show_int_visible(1) [of i] hex_visible [of rec] by (auto simp: a b visible_def)
  have trim: "TrimSpace (?a @ [32] @ ?b) = ?a @ [32] @ ?b" using TrimSpace_ends [OF vis, of "a' @ [32] @ b'"] by (simp add: a b)
  have c: "c \<noteq> 35" using a by (auto simp: show_int_def digits_first split: if_splits)
  have "Fields (?a @ [32] @ ?b) = [?a, ?b]"
    using Fields_labelled [OF show_int_visible hex_visible] assms by simp
  then show ?thesis using c unfolding pool_line_def Let_def body trim by (simp add: a hex_roundtrip)
qed

lemma pool_line_noted: "pool_line what n (line_body (Noted i resumed path)) = None"
proof -
  obtain s where "line_body (Noted i resumed path) = 35 # s" by (auto simp: line_body_def str_def butlast_append)
  then show ?thesis using TrimSpace_comment [of s] by (simp add: pool_line_def Let_def)
qed

lemma pool_of_lines:
  assumes "\<forall>l\<in>set ls. one_line l"
  shows "fst (parsePool (concat (map line_text ls)) what) = filter (\<lambda>rec. Usable rec = Inr ()) (saved_all ls)"
proof -
  have "map projr (filter (\<lambda>r. \<not> isl r) (List.map_filter (\<lambda>(i, line). pool_line what i line) (enumerate n (map line_body ls))))
      = filter (\<lambda>rec. Usable rec = Inr ()) (saved_all ls)" for n
    using assms
  proof (induction ls arbitrary: n)
    case (Cons l ls)
    then show ?case
      by (cases l) (auto simp: List.map_filter_def saved_all_def pool_line_saved pool_line_noted split: sum.split)
  qed (simp add: List.map_filter_def saved_all_def)
  then show ?thesis
    by (simp add: parsePool_results line_results_def Split_lines [OF assms] enumerate_append_eq List.map_filter_def pool_line_empty)
qed

lemma tap_read_not_empty: "snd (tap_read b c) = Some rec \<Longrightarrow> rec \<noteq> []"
  using length_take [of "5 + declared (tc_buf c @ b)" "tc_buf c @ b"]
  by (cases rec) (auto simp: tap_read_def declared_def [symmetric] Let_def split: if_splits)

lemma step_log_one_line:
  assumes "case ev of Request k resumed path \<Rightarrow> 10 \<notin> set path | _ \<Rightarrow> True" and "l \<in> set (step_log s ev)"
  shows "one_line l"
proof (cases ev)
  case (Accept err)
  then show ?thesis using assms(2) by (simp add: step_log_def)
next
  case (Arrive k b)
  then have "step_log s ev = [] \<or> (\<exists>rec. snd (tap_read b (ca_conns s ! k)) = Some rec \<and> step_log s ev = [Saved (tc_id (ca_conns s ! k)) rec])"
    by (auto simp: step_log_def split: option.split)
  then show ?thesis using assms(2) tap_read_not_empty by auto
next
  case (Request k resumed path)
  then have "set (step_log s ev) \<subseteq> {Noted (tc_id (ca_conns s ! k)) resumed path}" by (auto simp: step_log_def)
  then show ?thesis using assms Request by auto
qed

lemma log_one_line:
  "\<forall>ev\<in>set evs. case ev of Request k resumed path \<Rightarrow> 10 \<notin> set path | _ \<Rightarrow> True \<Longrightarrow> \<forall>l\<in>set (capture_log s evs). one_line l"
  by (induction evs arbitrary: s) (auto intro: step_log_one_line)

text \<open>
  C32. The file \<open>capture\<close> writes is a pool file: the tolerant reader returns of it the usable records among those that were
  saved, in the order they were saved, past the comments and the labels, provided no request path holds a newline.
\<close>

theorem capture_feeds_pool:
  assumes "\<forall>ev\<in>set evs. case ev of Request k resumed path \<Rightarrow> 10 \<notin> set path | _ \<Rightarrow> True"
  shows "fst (parsePool (ca_out (foldl capture_step new_capture evs)) what)
    = filter (\<lambda>rec. Usable rec = Inr ()) (saved_all (capture_log new_capture evs))"
  using pool_of_lines [OF log_one_line [OF assms, of new_capture]] capture_out [of new_capture evs] by (simp add: new_capture_def)

theorem capture_feeds_pool_witness:
  "fst (parsePool (ca_out (foldl capture_step new_capture [Accept False, Arrive 0 (Marshal browser_hello), Request 0 False (str ''/'')])) (str ''f''))
    = [Marshal browser_hello]"
proof -
  let ?M = "Marshal browser_hello"
  have wf: "wf_hello browser_hello" using browser_hello_parses parse_wf by blast
  have l: "9 \<le> length ?M" "?M ! 0 = 0x16" "declared ?M = length ?M - 5"
    using length_Marshal_pos declared_Marshal [OF wf, of "[]"] by (simp_all add: Marshal_eq_wire hello_wire_def)
  then have "tap_read ?M \<lparr>tc_id = 1, tc_buf = [], tc_captured = False\<rparr> = (\<lparr>tc_id = 1, tc_buf = ?M, tc_captured = True\<rparr>, Some ?M)"
    by (auto simp: tap_read_def declared_def [symmetric] Let_def)
  then have "capture_log new_capture [Accept False, Arrive 0 ?M, Request 0 False (str ''/'')] = [Saved 1 ?M, Noted 1 False (str ''/'')]"
    by (simp add: step_log_def capture_step_def tap_accept_def new_capture_def save_def)
  moreover have "10 \<notin> set (str ''/'')" by (simp add: str_def)
  ultimately show ?thesis
    using capture_feeds_pool [of "[Accept False, Arrive 0 ?M, Request 0 False (str ''/'')]" "str ''f''"] browser_usable
    by (simp add: saved_all_def List.map_filter_def)
qed

text \<open>
  The provision is needed: the path is decoded, so it can hold a newline, and what follows it is a line of the file, which
  the pool reader takes for a record.
\<close>

lemma path_injects_record:
  assumes "Usable rec = Inr ()" and "10 \<notin> set p"
  shows "fst (parsePool (line_text (Noted i resumed (p @ [10] @ hex_EncodeToString rec))) what) = [rec]"
proof -
  let ?l = "line_body (Noted i resumed p)"
  have t: "line_text (Noted i resumed (p @ [10] @ hex_EncodeToString rec)) = ?l @ 10 # hex_EncodeToString rec @ 10 # []"
    by (simp add: line_body_def butlast_append)
  have "10 \<notin> set ?l" using line_body_no_newline [of "Noted i resumed p"] assms(2) by simp
  then have "Split (line_text (Noted i resumed (p @ [10] @ hex_EncodeToString rec))) 10 = [?l, hex_EncodeToString rec, []]"
    unfolding t by (simp add: Split_append hex_no_newline)
  then show ?thesis using pool_line_hex [OF assms(1)]
    by (simp add: parsePool_results line_results_def List.map_filter_def pool_line_noted pool_line_empty)
qed

section \<open>The recording relay\<close>

text \<open>What \<open>tapproxy\<close> records of a connection: its first record, once, under its number, while it passes everything on.\<close>

lemma proxy_records:
  assumes "concat (inspected rds) = tls_record (0x16, v, body) @ rest" and "length body < 65536"
  shows "\<exists>tail. prefix tail rest \<and> proxy_handle False rds px =
    (px\<lparr>px_n := px_n px + 1, px_out := px_out px @ line_text (Saved (sint (px_n px + 1)) (tls_record (0x16, v, body))),
      px_shown := px_shown px @ [(sint (px_n px + 1), 5 + length body, length tail)]\<rparr>, passed rds)"
proof -
  let ?i = "sint (px_n px + 1)" and ?px = "px\<lparr>px_n := px_n px + 1\<rparr>" and ?rec = "tls_record (0x16, v, body)"
  let ?s = "(\<lparr>pc_buf = [], pc_captured = False\<rparr>, ?px)"
  have "?rec \<noteq> []" by (simp add: tls_record_def)
  then obtain tail where "prefix tail rest"
      "snd (foldl (\<lambda>s b. proxy_read ?i b s) ?s (inspected rds)) = (let rec = take (5 + declared (?rec @ tail)) (?rec @ tail) in
         ?px\<lparr>px_out := px_out ?px @ line_text (Saved ?i rec), px_shown := px_shown ?px @ [(?i, length rec, length (?rec @ tail) - length rec)]\<rparr>)"
    using proxy.acts_at_once [where i = ?i and s = ?s and cs = "inspected rds" and rec = ?rec and more = rest] assms(1)
      hello_ready_record [OF assms(2)] by auto
  moreover have "length ?rec = 5 + length body" by (simp add: tls_record_def)
  ultimately show ?thesis
    unfolding declared_record(1) [OF assms(2)] Let_def
    by (intro exI [of _ tail]) (simp add: proxy_handle_def pipe_eq split_beta Let_def)
qed

end
