(* ===== verification/Ratio.thy ===== *)
theory Ratio
  imports Relays
begin

text \<open>
  \<^verbatim>\<open>src/harvest/cmd/resumeratio\<close> as a whole: a proxy that runs many tunnels at once, all counting into one \<^verbatim>\<open>stats\<close>, and
  reports when it is told to. The facts: however the tunnels take turns, each counts as what its browser opened with, and
  the report adds up.
\<close>

section \<open>The proxy\<close>

text \<open>A tunnel that is up: what its handler has read so far, what it has sent on, and whether its loop is still running.\<close>

record running =
  rn_host :: bytes
  rn_tunnel :: tunnel
  rn_sent :: bytes
  rn_live :: bool

record ratio =
  ra_running :: "running list"
  ra_stats :: stats
  ra_refused :: nat

definition new_ratio :: ratio where
  "new_ratio = \<lparr>ra_running = [], ra_stats = no_stats, ra_refused = 0\<rparr>"

text \<open>
  An event is a request (its method and host, whether the connection could be taken over, and whether dialling the host
  failed), or a turn of the loop of tunnel \<open>k\<close>. A request that is not a \<open>CONNECT\<close> is answered with an error.
\<close>

datatype ratio_event = Requested bytes bytes bool bool | Turn nat arrived

definition ratio_request :: "bytes \<Rightarrow> bytes \<Rightarrow> bool \<Rightarrow> bool \<Rightarrow> ratio \<Rightarrow> ratio" where
  "ratio_request meth host hijacked dial_err s =
     (if meth \<noteq> str ''CONNECT'' then s\<lparr>ra_refused := ra_refused s + 1\<rparr>
      else if \<not> hijacked then s
      else if dial_err then s
      else s\<lparr>ra_running := ra_running s @ [\<lparr>rn_host = host, rn_tunnel = \<lparr>tn_buf = [], tn_seen = False\<rparr>, rn_sent = [], rn_live = True\<rparr>]\<rparr>)"

definition ratio_turn :: "nat \<Rightarrow> arrived \<Rightarrow> ratio \<Rightarrow> ratio" where
  "ratio_turn k r s =
     (if k < length (ra_running s) \<and> rn_live (ra_running s ! k)
      then let rn = ra_running s ! k;
               ((tn, st), sent, returned) = pipe (tunnel_read (rn_host rn)) [r] (rn_tunnel rn, ra_stats s) (rn_sent rn)
           in s\<lparr>ra_running := (ra_running s)[k := rn\<lparr>rn_tunnel := tn, rn_sent := sent, rn_live := \<not> returned\<rparr>], ra_stats := st\<rparr>
      else s)"

fun ratio_step :: "ratio \<Rightarrow> ratio_event \<Rightarrow> ratio" where
  "ratio_step s (Requested meth host hijacked dial_err) = ratio_request meth host hijacked dial_err s"
| "ratio_step s (Turn k r) = ratio_turn k r s"

section \<open>The report\<close>

text \<open>
  \<^verbatim>\<open>report\<close>. The operands of the percentage are given, not its decimals. The rows are sorted by their totals; the sort is
  not stable and starts from the order of a map, so its outcome is a stable sort of some \<open>order\<close>.
\<close>

record report =
  rp_total :: nat
  rp_full :: nat
  rp_resumed :: nat
  rp_notTLS :: nat
  rp_share :: "(nat \<times> nat) option"
  rp_top :: "(bytes \<times> nat \<times> nat) list"
  rp_more :: "int option"
  rp_distinct :: nat

definition row_total :: "bytes \<times> nat \<times> nat \<Rightarrow> nat" where
  "row_total row = (case row of (h, f, r) \<Rightarrow> f + r)"

definition report_of :: "((bytes \<times> nat \<times> nat) list \<Rightarrow> (bytes \<times> nat \<times> nat) list) \<Rightarrow> stats \<Rightarrow> report" where
  "report_of order s =
     (let tot = st_full s + st_resumed s;
          rows = sort_key (\<lambda>row. - int (row_total row)) (order (st_perHost s))
      in \<lparr>rp_total = tot, rp_full = st_full s, rp_resumed = st_resumed s, rp_notTLS = st_notTLS s,
          rp_share = (if 0 < tot then Some (100 * st_resumed s, tot) else None),
          rp_top = take 15 rows, rp_more = (if 15 < length rows then Some (int (length rows) - 15) else None),
          rp_distinct = length rows\<rparr>)"

section \<open>Which tunnels are counted\<close>

text \<open>The reads that reach tunnel \<open>k\<close>, with \<open>n\<close> tunnels up: the turns after it was opened.\<close>

definition opens :: "ratio_event \<Rightarrow> bool" where
  "opens ev = (case ev of Requested meth host hijacked dial_err \<Rightarrow> meth = str ''CONNECT'' \<and> hijacked \<and> \<not> dial_err | Turn k r \<Rightarrow> False)"

fun turns_of :: "nat \<Rightarrow> nat \<Rightarrow> ratio_event list \<Rightarrow> arrived list" where
  "turns_of k n [] = []"
| "turns_of k n (ev # evs) = (case ev of Turn j r \<Rightarrow> if j = k \<and> k < n then [r] else [] | _ \<Rightarrow> []) @ turns_of k (if opens ev then n + 1 else n) evs"

text \<open>A tunnel of its own, without the counts.\<close>

definition tunnel_next :: "bytes \<Rightarrow> tunnel \<Rightarrow> tunnel" where
  "tunnel_next b tn =
     (if tn_seen tn then tn
      else let buf = tn_buf tn @ b in \<lparr>tn_buf = buf, tn_seen = count_ready buf\<rparr>)"

definition entry_of :: "bytes \<Rightarrow> tunnel \<Rightarrow> bytes \<times> bool \<times> bool" where
  "entry_of host tn = (hd (Split host 58), hasPSK (tn_buf tn))"

definition count :: "stats \<Rightarrow> bytes \<times> bool \<times> bool \<Rightarrow> stats" where
  "count st e = stats_record (fst e) (fst (snd e)) (snd (snd e)) st"

lemma tunnel_read_next:
  "tunnel_read host b (tn, st) =
     (tunnel_next b tn, if \<not> tn_seen tn \<and> tn_seen (tunnel_next b tn) then count st (entry_of host (tunnel_next b tn)) else st)"
  by (cases tn) (auto simp: tunnel_read_def tunnel_next_def entry_of_def count_def count_ready_def declared_def Let_def split_beta)

interpretation watch: first_record "\<lambda>b. b" "\<lambda>_. True" tunnel_next "\<lambda>tn. \<not> tn_seen tn" tn_buf
    "\<lambda>tn. if tn_seen tn then Some (tn_buf tn) else None" count_ready "\<lambda>_ r. r" "\<lambda>x _. Some x"
  by unfold_locales (auto simp: tunnel_next_def Let_def)

text \<open>What a turn does: of the tunnel, what its reads do; of the counts, one more when the tunnel is first seen.\<close>

lemma ratio_turn_eq:
  fixes r :: arrived and s :: ratio
  assumes "k < length (ra_running s)" and "rn_live (ra_running s ! k)"
  defines "rn \<equiv> ra_running s ! k"
  defines "tn \<equiv> foldl (\<lambda>tn b. tunnel_next b tn) (rn_tunnel rn) (inspected [r])"
  shows "ratio_turn k r s = s\<lparr>ra_running := (ra_running s)[k := rn\<lparr>rn_tunnel := tn, rn_sent := rn_sent rn @ passed [r], rn_live := \<not> stops [r]\<rparr>],
    ra_stats := if \<not> tn_seen (rn_tunnel rn) \<and> tn_seen tn then count (ra_stats s) (entry_of (rn_host rn) tn) else ra_stats s\<rparr>"
proof -
  have one: "inspected [r] = (if ar_bytes r = [] then [] else [ar_bytes r])" by simp
  show ?thesis
    using assms(1,2) unfolding ratio_turn_def pipe_eq tn_def rn_def one
    by (simp add: tunnel_read_next Let_def del: stops.simps(2) passed.simps(2))
qed

lemma length_step: "length (ra_running (ratio_step s ev)) = (if opens ev then length (ra_running s) + 1 else length (ra_running s))"
  by (cases ev) (auto simp: opens_def ratio_request_def ratio_turn_def Let_def split_beta)

lemma opened: "length (ra_running (foldl ratio_step s evs)) = length (ra_running s) + length (filter opens evs)"
proof (induction evs arbitrary: s)
  case (Cons ev evs)
  then show ?case by (simp add: length_step)
qed simp

text \<open>The tunnel \<open>k\<close>, or the one that will be opened in its place.\<close>

definition at_place :: "nat \<Rightarrow> ratio \<Rightarrow> tunnel \<times> bool" where
  "at_place k s =
     (if k < length (ra_running s) then (rn_tunnel (ra_running s ! k), rn_live (ra_running s ! k)) else (\<lparr>tn_buf = [], tn_seen = False\<rparr>, True))"

lemma at_place_step:
  "at_place k (ratio_step s ev) =
     (let rs = turns_of k (length (ra_running s)) [ev]
      in if snd (at_place k s) then (foldl (\<lambda>tn b. tunnel_next b tn) (fst (at_place k s)) (inspected rs), \<not> stops rs) else at_place k s)"
proof (cases ev)
  case (Requested meth host hijacked dial_err)
  then show ?thesis by (auto simp: at_place_def ratio_request_def nth_append)
next
  case (Turn j r)
  show ?thesis
  proof (cases "j < length (ra_running s) \<and> rn_live (ra_running s ! j)")
    case True
    then show ?thesis by (auto simp: Turn ratio_turn_eq at_place_def Let_def simp del: inspected.simps(2) stops.simps(2))
  next
    case False
    then have "ratio_turn j r s = s" unfolding ratio_turn_def by (rule if_not_P)
    then show ?thesis using False by (auto simp: Turn at_place_def)
  qed
qed

lemma at_place_run:
  "at_place k (foldl ratio_step s evs) =
     (let rs = turns_of k (length (ra_running s)) evs
      in if snd (at_place k s) then (foldl (\<lambda>tn b. tunnel_next b tn) (fst (at_place k s)) (inspected rs), \<not> stops rs) else at_place k s)"
proof (induction evs arbitrary: s)
  case Nil
  show ?case by (simp add: at_place_def)
next
  case (Cons ev evs)
  let ?n = "length (ra_running s)"
  have rs: "turns_of k ?n (ev # evs) = turns_of k ?n [ev] @ turns_of k (length (ra_running (ratio_step s ev))) evs"
    by (simp add: length_step)
  show ?case unfolding foldl_Cons Cons.IH rs at_place_step Let_def inspected_append stops_append by auto
qed

text \<open>What is counted: the entries of the tunnels that were seen, in some order.\<close>

definition entries :: "ratio \<Rightarrow> (bytes \<times> bool \<times> bool) list" where
  "entries s = map (\<lambda>rn. entry_of (rn_host rn) (rn_tunnel rn)) (filter (\<lambda>rn. tn_seen (rn_tunnel rn)) (ra_running s))"

definition counts_entries :: "ratio \<Rightarrow> bool" where
  "counts_entries s \<longleftrightarrow> (\<exists>es. mset es = mset (entries s) \<and> ra_stats s = foldl count no_stats es)"

lemma mset_filter_update:
  "k < length xs \<Longrightarrow> \<not> P (xs ! k) \<Longrightarrow> mset (map f (filter P (xs[k := x]))) = mset (map f (filter P xs)) + (if P x then {#f x#} else {#})"
  by (subst (1 2) id_take_nth_drop [of k xs], simp_all add: upd_conv_take_nth_drop nth_append)

lemma filter_update_same:
  "k < length xs \<Longrightarrow> P (xs ! k) \<Longrightarrow> P x \<Longrightarrow> f x = f (xs ! k) \<Longrightarrow> map f (filter P (xs[k := x])) = map f (filter P xs)"
  by (subst (1 2) id_take_nth_drop [of k xs], simp_all add: upd_conv_take_nth_drop nth_append)

lemma seen_stays: "tn_seen tn \<Longrightarrow> foldl (\<lambda>tn b. tunnel_next b tn) tn bs = tn"
  by (induction bs) (simp_all add: tunnel_next_def)

lemma counts_entries_step: "counts_entries s \<Longrightarrow> counts_entries (ratio_step s ev)"
proof (cases ev)
  case (Requested meth host hijacked dial_err)
  then show "counts_entries s \<Longrightarrow> ?thesis" by (auto simp: counts_entries_def entries_def ratio_request_def)
next
  case (Turn k r)
  assume "counts_entries s"
  then obtain es where es: "mset es = mset (entries s)" "ra_stats s = foldl count no_stats es" by (auto simp: counts_entries_def)
  show ?thesis
  proof (cases "k < length (ra_running s) \<and> rn_live (ra_running s ! k)")
    case False
    then have "ratio_turn k r s = s" unfolding ratio_turn_def by (rule if_not_P)
    then show ?thesis using \<open>counts_entries s\<close> by (simp add: Turn)
  next
    case True
    let ?rn = "ra_running s ! k"
    define tn where "tn = foldl (\<lambda>tn b. tunnel_next b tn) (rn_tunnel ?rn) (inspected [r])"
    let ?new = "?rn\<lparr>rn_tunnel := tn, rn_sent := rn_sent ?rn @ passed [r], rn_live := \<not> stops [r]\<rparr>"
    have eq: "ratio_step s ev = s\<lparr>ra_running := (ra_running s)[k := ?new],
        ra_stats := if \<not> tn_seen (rn_tunnel ?rn) \<and> tn_seen tn then count (ra_stats s) (entry_of (rn_host ?rn) tn) else ra_stats s\<rparr>"
      using ratio_turn_eq [of k s r] True by (simp only: Turn ratio_step.simps tn_def)
    show ?thesis
    proof (cases "tn_seen (rn_tunnel ?rn)")
      case seen: True
      then have "tn = rn_tunnel ?rn" unfolding tn_def by (rule seen_stays)
      then have "entries (ratio_step s ev) = entries s"
        unfolding eq entries_def using True seen by (simp add: filter_update_same)
      then show ?thesis using es seen by (auto simp: counts_entries_def eq)
    next
      case unseen: False
      have "mset (entries (ratio_step s ev)) = mset (entries s) + (if tn_seen tn then {#entry_of (rn_host ?rn) tn#} else {#})"
        using True unseen
          mset_filter_update [of k "ra_running s" "\<lambda>rn. tn_seen (rn_tunnel rn)" "\<lambda>rn. entry_of (rn_host rn) (rn_tunnel rn)" ?new]
        unfolding eq entries_def by (simp del: mset_map mset_filter stops.simps passed.simps)
      then have "mset (if tn_seen tn then es @ [entry_of (rn_host ?rn) tn] else es) = mset (entries (ratio_step s ev))"
        using es(1) by simp
      moreover have "ra_stats (ratio_step s ev) = foldl count no_stats (if tn_seen tn then es @ [entry_of (rn_host ?rn) tn] else es)"
        using es(2) unseen by (simp add: eq)
      ultimately show ?thesis unfolding counts_entries_def by blast
    qed
  qed
qed

lemma counts_entries_run: "counts_entries (foldl ratio_step new_ratio evs)"
proof -
  have "counts_entries s \<Longrightarrow> counts_entries (foldl ratio_step s evs)" for s
    by (induction evs arbitrary: s) (simp_all add: counts_entries_step)
  then show ?thesis by (simp add: counts_entries_def entries_def new_ratio_def)
qed

section \<open>What the counts are\<close>

text \<open>A count of entries does not depend on their order.\<close>

definition of_host :: "stats \<Rightarrow> bytes \<Rightarrow> nat \<times> nat" where
  "of_host st host = (case map_of (st_perHost st) host of None \<Rightarrow> (0, 0) | Some v \<Rightarrow> v)"

lemma of_host_count:
  "of_host (count st (h, isTLS, psk)) host =
     (if isTLS \<and> h = host then (if psk then (fst (of_host st h), snd (of_host st h) + 1) else (fst (of_host st h) + 1, snd (of_host st h)))
      else of_host st host)"
  by (auto simp: of_host_def count_def stats_record_def Let_def update_conv split: option.split)

lemma counted:
  "st_full (foldl count no_stats es) = size {#e \<in># mset es. snd e = (True, False)#}"
  "st_resumed (foldl count no_stats es) = size {#e \<in># mset es. snd e = (True, True)#}"
  "st_notTLS (foldl count no_stats es) = size {#e \<in># mset es. \<not> fst (snd e)#}"
  "of_host (foldl count no_stats es) host = (size {#e \<in># mset es. e = (host, True, False)#}, size {#e \<in># mset es. e = (host, True, True)#})"
proof (induction es rule: rev_induct)
  case (snoc e es)
  obtain h isTLS psk where e: "e = (h, isTLS, psk)" by (cases e) auto
  { case 1 show ?case using snoc by (auto simp: e count_def stats_record_def Let_def) }
  { case 2 show ?case using snoc by (auto simp: e count_def stats_record_def Let_def) }
  { case 3 show ?case using snoc by (auto simp: e count_def stats_record_def Let_def) }
  { case 4 show ?case using snoc by (auto simp: e of_host_count) }
qed (simp_all add: no_stats_def of_host_def)

text \<open>The counts are the totals of the rows of the report.\<close>

definition stats_ok :: "stats \<Rightarrow> bool" where
  "stats_ok s \<longleftrightarrow> distinct (map fst (st_perHost s))
     \<and> st_full s = sum_list (map (fst \<circ> snd) (st_perHost s)) \<and> st_resumed s = sum_list (map (snd \<circ> snd) (st_perHost s))"

lemma sum_update:
  fixes f :: "'v \<Rightarrow> nat"
  assumes "distinct (map fst m)" and "f v = (case map_of m k of None \<Rightarrow> 0 | Some w \<Rightarrow> f w) + d"
  shows "sum_list (map (f \<circ> snd) (AList.update k v m)) = sum_list (map (f \<circ> snd) m) + d"
  using assms
proof (induction m)
  case (Cons x m)
  show ?case
  proof (cases "fst x = k")
    case True
    then show ?thesis using Cons.prems by (cases x) simp
  next
    case False
    then show ?thesis using Cons by (cases x) simp
  qed
qed simp

lemma stats_ok_record: "stats_ok s \<Longrightarrow> stats_ok (stats_record host isTLS psk s)"
  using sum_update [of "st_perHost s" fst _ host 0] sum_update [of "st_perHost s" fst _ host 1]
    sum_update [of "st_perHost s" snd _ host 0] sum_update [of "st_perHost s" snd _ host 1]
  by (cases "map_of (st_perHost s) host") (auto simp: stats_ok_def stats_record_def Let_def distinct_update)

lemma stats_ok_entries: "stats_ok (foldl count no_stats es)"
  by (induction es rule: rev_induct) (simp_all add: no_stats_def stats_ok_def [of "\<lparr>st_full = _, st_resumed = _, st_notTLS = _, st_perHost = []\<rparr>"] count_def stats_ok_record)

text \<open>
  What \<open>resumeratio\<close> reports adds up, whatever tunnels there were and whatever they carried: the share is of the sum of the
  rows, the rows shown are fifteen of the greatest or all, and no row left out is greater than one shown.
\<close>

theorem report_adds_up:
  fixes evs :: "ratio_event list"
  defines "st \<equiv> ra_stats (foldl ratio_step new_ratio evs)"
  assumes "mset (order (st_perHost st)) = mset (st_perHost st)"
  shows "rp_total (report_of order st) = sum_list (map row_total (st_perHost st))
    \<and> rp_distinct (report_of order st) = card (fst ` set (st_perHost st))
    \<and> (\<exists>rows. mset rows = mset (st_perHost st) \<and> rp_top (report_of order st) = take 15 rows
      \<and> (\<forall>shown\<in>set (take 15 rows). \<forall>hidden\<in>set (drop 15 rows). row_total hidden \<le> row_total shown))"
proof -
  have ok: "stats_ok st" using counts_entries_run [of evs] stats_ok_entries by (auto simp: st_def counts_entries_def)
  let ?rows = "sort_key (\<lambda>row. - int (row_total row)) (order (st_perHost st))"
  have "sum_list (map row_total rows) = sum_list (map (fst \<circ> snd) rows) + sum_list (map (snd \<circ> snd) rows)" for rows :: "(bytes \<times> nat \<times> nat) list"
    by (induction rows) (auto simp: row_total_def)
  moreover have rows: "mset ?rows = mset (st_perHost st)" using assms by simp
  moreover have "length ?rows = card (fst ` set (st_perHost st))"
    using mset_eq_length [OF rows] ok distinct_card [of "map fst (st_perHost st)"] by (simp add: stats_ok_def)
  moreover have "sorted (map (\<lambda>row. - int (row_total row)) (take 15 ?rows @ drop 15 ?rows))"
    unfolding append_take_drop_id by (rule sorted_sort_key)
  then have "\<forall>shown\<in>set (take 15 ?rows). \<forall>hidden\<in>set (drop 15 ?rows). row_total hidden \<le> row_total shown"
    unfolding map_append sorted_append by auto
  ultimately have "mset ?rows = mset (st_perHost st) \<and> rp_top (report_of order st) = take 15 ?rows
      \<and> (\<forall>shown\<in>set (take 15 ?rows). \<forall>hidden\<in>set (drop 15 ?rows). row_total hidden \<le> row_total shown)
      \<and> rp_total (report_of order st) = sum_list (map row_total (st_perHost st))
      \<and> rp_distinct (report_of order st) = card (fst ` set (st_perHost st))"
    using ok unfolding report_of_def Let_def stats_ok_def by simp
  then show ?thesis by blast
qed

theorem report_adds_up_witness:
  "\<exists>rows. rp_top (report_of (\<lambda>rows. rows) (ra_stats (foldl ratio_step new_ratio
     [Requested (str ''CONNECT'') (str ''h:443'') True False, Turn 0 \<lparr>ar_bytes = [1, 2, 3, 0, 0], ar_err = True, ar_werr = None\<rparr>]))) = take 15 rows"
  using report_adds_up [of "\<lambda>rows. rows" "[Requested (str ''CONNECT'') (str ''h:443'') True False, Turn 0 \<lparr>ar_bytes = [1, 2, 3, 0, 0], ar_err = True, ar_werr = None\<rparr>]"]
  by auto

definition asks_resumption :: "ClientHello \<Rightarrow> bool" where
  "asks_resumption h \<longleftrightarrow> Find ExtPreSharedKey h \<noteq> None"

text \<open>
  C30. However many tunnels run at once and however their reads interleave, \<open>resumeratio\<close> counts each tunnel that opened
  with a hello of the library exactly once, for the kind of handshake the hello asks for and under the tunnel's host;
  the share it reports is the share of the tunnels that asked to resume.
\<close>

theorem ratio_share:
  fixes evs :: "ratio_event list" and order :: "(bytes \<times> nat \<times> nat) list \<Rightarrow> (bytes \<times> nat \<times> nat) list"
  defines "R \<equiv> ra_running (foldl ratio_step new_ratio evs)" and "st \<equiv> ra_stats (foldl ratio_step new_ratio evs)"
  assumes "\<forall>k<length R. wf_hello (h k) \<and> length (Marshal (h k)) \<le> 4096 \<and> concat (inspected (turns_of k 0 evs)) = Marshal (h k) @ rest k"
  shows "rp_total (report_of order st) = length R \<and> rp_notTLS (report_of order st) = 0
    \<and> rp_share (report_of order st) = (if R = [] then None else Some (100 * card {k. k < length R \<and> asks_resumption (h k)}, length R))
    \<and> (\<forall>host. of_host st host = (card {k. k < length R \<and> hd (Split (rn_host (R ! k)) 58) = host \<and> \<not> asks_resumption (h k)},
         card {k. k < length R \<and> hd (Split (rn_host (R ! k)) 58) = host \<and> asks_resumption (h k)}))"
proof -
  let ?s = "foldl ratio_step new_ratio evs"
  have one: "tn_seen (rn_tunnel (R ! k)) \<and> entry_of (rn_host (R ! k)) (rn_tunnel (R ! k)) = (hd (Split (rn_host (R ! k)) 58), True, asks_resumption (h k))"
    if k: "k < length R" for k
  proof -
    from assms(3) k have h: "wf_hello (h k)" "length (Marshal (h k)) \<le> 4096" "concat (inspected (turns_of k 0 evs)) = Marshal (h k) @ rest k" by auto
    have "rn_tunnel (R ! k) = foldl (\<lambda>tn b. tunnel_next b tn) \<lparr>tn_buf = [], tn_seen = False\<rparr> (inspected (turns_of k 0 evs))"
      using at_place_run [of k new_ratio evs] k by (simp add: at_place_def R_def new_ratio_def Let_def)
    moreover have "Marshal (h k) \<noteq> []" using length_Marshal_pos [of "h k"] by auto
    ultimately obtain tail where "tn_seen (rn_tunnel (R ! k))" "tn_buf (rn_tunnel (R ! k)) = Marshal (h k) @ tail"
      using watch.acts_at_once [where s = "\<lparr>tn_buf = [], tn_seen = False\<rparr>" and cs = "inspected (turns_of k 0 evs)" and rec = "Marshal (h k)" and more = "rest k"]
        h(3) ready_Marshal [OF h(1,2)] by (auto split: if_splits)
    then show ?thesis using scanners_wire(1) [OF h(1), of tail] by (simp add: entry_of_def asks_resumption_def)
  qed
  then have "filter (\<lambda>rn. tn_seen (rn_tunnel rn)) R = R" by (auto simp: filter_id_conv in_set_conv_nth)
  then have "entries ?s = map (\<lambda>k. (hd (Split (rn_host (R ! k)) 58), True, asks_resumption (h k))) [0..<length R]"
    using one by (auto simp: entries_def R_def [symmetric] intro: nth_equalityI)
  moreover obtain es where "mset es = mset (entries ?s)" "st = foldl count no_stats es"
    using counts_entries_run [of evs] by (auto simp: counts_entries_def st_def)
  ultimately have st: "st = foldl count no_stats es"
      and es: "mset es = image_mset (\<lambda>k. (hd (Split (rn_host (R ! k)) 58), True, asks_resumption (h k))) (mset_set {0..<length R})"
    by (simp_all add: mset_upt)
  have size: "size {#e \<in># mset es. P e#} = card {k. k < length R \<and> P (hd (Split (rn_host (R ! k)) 58), True, asks_resumption (h k))}" for P
    by (simp add: es filter_mset_image_mset filter_mset_mset_set)
  have "{k. k < length R \<and> \<not> asks_resumption (h k)} \<union> {k. k < length R \<and> asks_resumption (h k)} = {..<length R}" by auto
  then have "card {k. k < length R \<and> \<not> asks_resumption (h k)} + card {k. k < length R \<and> asks_resumption (h k)} = length R"
    by (subst card_Un_disjoint [symmetric]) auto
  then have total: "st_full st + st_resumed st = length R" unfolding st counted size by simp
  have none: "st_notTLS st = 0" unfolding st counted size by simp
  have resumed: "st_resumed st = card {k. k < length R \<and> asks_resumption (h k)}" unfolding st counted size by simp
  have "rp_share (report_of order st) = (if R = [] then None else Some (100 * st_resumed st, length R))"
    unfolding report_of_def Let_def total by simp
  moreover have "of_host st host = (card {k. k < length R \<and> hd (Split (rn_host (R ! k)) 58) = host \<and> \<not> asks_resumption (h k)},
       card {k. k < length R \<and> hd (Split (rn_host (R ! k)) 58) = host \<and> asks_resumption (h k)})" for host
    unfolding st counted size by simp
  moreover have "rp_total (report_of order st) = length R" "rp_notTLS (report_of order st) = 0"
    using total none by (simp_all add: report_of_def Let_def)
  ultimately show ?thesis unfolding resumed by simp
qed

definition psk_hello :: ClientHello where
  "psk_hello = small_hello\<lparr>ClientHello.Extensions := ClientHello.Extensions small_hello @ [Extension ExtPreSharedKey (psk_body [1, 2] [0, 0, 0, 7] (replicate 32 5))]\<rparr>"

lemma psk_hello_wf: "wf_hello psk_hello"
  using small_hello_wf by (simp add: psk_hello_def wf_hello_def body_len_def hello_prefix_def psk_body_def small_hello_def)

definition two_tunnels :: "ratio_event list" where
  "two_tunnels = [Requested (str ''CONNECT'') (str ''a:443'') True False, Requested (str ''GET'') (str ''a'') True False,
     Turn 0 \<lparr>ar_bytes = take 4 (Marshal small_hello), ar_err = False, ar_werr = None\<rparr>,
     Requested (str ''CONNECT'') (str ''b:443'') True False,
     Turn 1 \<lparr>ar_bytes = Marshal psk_hello, ar_err = True, ar_werr = None\<rparr>,
     Turn 0 \<lparr>ar_bytes = drop 4 (Marshal small_hello) @ [9], ar_err = False, ar_werr = Some 3\<rparr>]"

lemma two_tunnels_turns:
  "concat (inspected (turns_of 0 0 two_tunnels)) = Marshal small_hello @ [9]" "concat (inspected (turns_of 1 0 two_tunnels)) = Marshal psk_hello @ []"
  by (simp_all add: two_tunnels_def opens_def Marshal_eq_wire hello_wire_def str_def)

theorem ratio_share_witness:
  "rp_share (report_of (\<lambda>rows. rows) (ra_stats (foldl ratio_step new_ratio two_tunnels))) = Some (100, 2)"
proof -
  let ?R = "ra_running (foldl ratio_step new_ratio two_tunnels)" and ?h = "\<lambda>k. if k = 0 then small_hello else psk_hello"
  have n: "length ?R = 2" unfolding opened by (simp add: two_tunnels_def opens_def new_ratio_def str_def)
  have "length (Marshal small_hello) \<le> 4096" "length (Marshal psk_hello) \<le> 4096"
    by (simp_all add: Marshal_eq_wire hello_wire_def hello_prefix_def exts_bytes_def ext_bytes_def small_hello_def psk_hello_def psk_body_def)
  then have "\<forall>k<length ?R. wf_hello (?h k) \<and> length (Marshal (?h k)) \<le> 4096
      \<and> concat (inspected (turns_of k 0 two_tunnels)) = Marshal (?h k) @ (if k = 0 then [9] else [])"
    using two_tunnels_turns small_hello_wf psk_hello_wf by (auto simp: n less_2_cases_iff)
  from ratio_share [OF this, of "\<lambda>rows. rows"]
  have "rp_share (report_of (\<lambda>rows. rows) (ra_stats (foldl ratio_step new_ratio two_tunnels)))
      = (if ?R = [] then None else Some (100 * card {k. k < length ?R \<and> asks_resumption (?h k)}, length ?R))" by (rule conjunct2 [THEN conjunct2, THEN conjunct1])
  moreover have "?R \<noteq> []" using n by (metis list.size(3) zero_neq_numeral)
  moreover have "{k. k < length ?R \<and> asks_resumption (?h k)} = {1}"
    by (auto simp: n asks_resumption_def Find_def small_hello_def psk_hello_def less_2_cases_iff)
  ultimately show ?thesis by (simp only: n if_False card.insert card.empty) simp
qed

end
