(* ===== verification/Dialers.thy ===== *)
theory Dialers
  imports Capture Ratio "HOL-Library.List_Lexorder"
begin

text \<open>
  The tools under \<^verbatim>\<open>src/harvest/cmd\<close> that open two connections with a TLS client of their own and watch what it does:
  \<^verbatim>\<open>burst\<close>, the sizes and directions of what crosses the socket, and \<^verbatim>\<open>resume\<close>, the hellos it writes. The TLS client and the
  server are what crossed the socket and how each call ended. The facts: what is recorded ends where the tool says, the
  figures are those of the first bursts and of the hellos written.
\<close>

section \<open>Bursts\<close>

record ev =
  ev_out :: bool
  ev_n :: int
  ev_t :: int

text \<open>The tap: a call of \<^verbatim>\<open>Read\<close> that returned \<open>n\<close> bytes, or of \<^verbatim>\<open>Write\<close> with \<open>n\<close> bytes, at a time.\<close>

datatype tap_call = Did_Read nat int | Did_Write nat int

record burst_tap =
  bt_events :: "ev list"
  bt_done :: bool

fun burst_call :: "burst_tap \<Rightarrow> tap_call \<Rightarrow> burst_tap" where
  "burst_call c (Did_Read n t) =
     (if 0 < n \<and> \<not> bt_done c then c\<lparr>bt_events := bt_events c @ [\<lparr>ev_out = False, ev_n = int n, ev_t = t\<rparr>]\<rparr> else c)"
| "burst_call c (Did_Write n t) =
     (if \<not> bt_done c then c\<lparr>bt_events := bt_events c @ [\<lparr>ev_out = True, ev_n = int n, ev_t = t\<rparr>]\<rparr> else c)"

text \<open>\<^verbatim>\<open>bursts\<close> adds up neighbours of one sign.\<close>

definition signed_size :: "ev \<Rightarrow> int" where
  "signed_size e = (if \<not> ev_out e then - ev_n e else ev_n e)"

definition add_event :: "int list \<Rightarrow> ev \<Rightarrow> int list" where
  "add_event out e =
     (let v = signed_size e
      in if 0 < length out \<and> (0 < out ! (length out - 1)) = (0 < v) then out[length out - 1 := out ! (length out - 1) + v] else out @ [v])"

definition bursts :: "ev list \<Rightarrow> int list" where
  "bursts evs = foldl add_event [] evs"

fun firstServerBurst :: "int list \<Rightarrow> int" where
  "firstServerBurst [] = 0"
| "firstServerBurst (v # b) = (if v < 0 then v else firstServerBurst b)"

text \<open>\<^verbatim>\<open>seqStr\<close>: at most eight events, and dots for the others.\<close>

fun seq_loop :: "nat \<Rightarrow> ev list \<Rightarrow> bytes \<Rightarrow> bytes" where
  "seq_loop i [] s = s"
| "seq_loop i (e # evs) s =
     (if 8 \<le> i then s @ str '' ...''
      else seq_loop (i + 1) evs (s @ (if \<not> ev_out e then str ''-'' else str ''+'') @ show_int (ev_n e) @ str '' ''))"

definition seqStr :: "ev list \<Rightarrow> bytes" where
  "seqStr evs = seq_loop 0 evs []"

text \<open>\<^verbatim>\<open>emit\<close>: a record for analysis, when there is a file for it. Times are in microseconds.\<close>

record burst_record =
  br_Host :: bytes
  br_Kind :: bytes
  br_Resumed :: bool
  br_Sizes :: "int list"
  br_Times :: "int list"

definition burst_emit :: "bool \<Rightarrow> bytes \<Rightarrow> bytes \<Rightarrow> bool \<Rightarrow> ev list \<Rightarrow> burst_record list" where
  "burst_emit json host kind resumed evs =
     (if \<not> json then []
      else [\<lparr>br_Host = host, br_Kind = kind, br_Resumed = resumed, br_Sizes = map signed_size evs,
             br_Times = map (\<lambda>e. ev_t e div 1000) evs\<rparr>])"

text \<open>
  \<^verbatim>\<open>run\<close>: of each of two connections, how dialling ended, what crossed the tap during the handshake and how it ended, what
  crossed during the one exchange, and whether it resumed. The operands of the percentage are given, not its decimals.
\<close>

record burst_conn =
  bc_dial :: "err option"
  bc_opening :: "tap_call list"
  bc_handshake :: "err option"
  bc_exchange :: "tap_call list"
  bc_resumed :: bool
  bc_after :: "tap_call list"

record burst_report =
  bp_full :: bytes
  bp_full_bursts :: "int list"
  bp_res :: bytes
  bp_resumed :: bool
  bp_res_bursts :: "int list"
  bp_first :: "(int \<times> int) option"
  bp_json :: "burst_record list"

datatype burst_out = Burst_Dial err | Burst_Handshake err | Burst_Incomplete | Burst_Report burst_report

text \<open>One connection: its events when recording stops; the calls after that are still made through the tap.\<close>

definition burst_conn_events :: "burst_conn \<Rightarrow> burst_out + ev list" where
  "burst_conn_events c =
     (case bc_dial c of
        Some e \<Rightarrow> Inl (Burst_Dial e)
      | None \<Rightarrow>
          let tp = foldl burst_call \<lparr>bt_events = [], bt_done = False\<rparr> (bc_opening c)
          in case bc_handshake c of
               Some e \<Rightarrow> Inl (Burst_Handshake e)
             | None \<Rightarrow>
                 let tp = foldl burst_call tp (bc_exchange c);
                     tp = tp\<lparr>bt_done := True\<rparr>;
                     tp = foldl burst_call tp (bc_after c)
                 in Inr (bt_events tp))"

definition burst_run :: "bool \<Rightarrow> bytes \<Rightarrow> burst_conn \<Rightarrow> burst_conn \<Rightarrow> burst_out" where
  "burst_run json host c0 c1 =
     (case burst_conn_events c0 of
        Inl out \<Rightarrow> out
      | Inr full \<Rightarrow> (case burst_conn_events c1 of
          Inl out \<Rightarrow> out
        | Inr res \<Rightarrow>
            if full = [] \<or> res = [] then Burst_Incomplete
            else let bf = bursts full; br = bursts res; sf = firstServerBurst bf; sr = firstServerBurst br
                 in Burst_Report \<lparr>bp_full = seqStr full, bp_full_bursts = bf, bp_res = seqStr res, bp_resumed = bc_resumed c1,
                      bp_res_bursts = br, bp_first = (if sf \<noteq> 0 \<and> sr \<noteq> 0 then Some (- sf, - sr) else None),
                      bp_json = burst_emit json host (str ''full'') False full @ burst_emit json host (str ''resumed'') (bc_resumed c1) res\<rparr>))"

text \<open>
  \<^verbatim>\<open>main\<close>: the hosts, sorted, and whether records are written; \<open>None\<close> is the panic of \<^verbatim>\<open>-json\<close> without a path, or with one that
  cannot be created.
\<close>

definition burst_hosts :: "(bytes \<Rightarrow> bool) \<Rightarrow> bytes list \<Rightarrow> (bool \<times> bytes list) option" where
  "burst_hosts creatable args =
     (let json = 0 < length args \<and> args ! 0 = str ''-json''
      in if json \<and> (length args < 2 \<or> \<not> creatable (args ! 1)) then None
         else let args = (if json then drop 2 args else args);
                  hosts = (if length args = 0 then map str [''www.google.com'', ''www.cloudflare.com'', ''www.microsoft.com'',
                    ''github.com'', ''www.wikipedia.org'', ''www.amazon.com''] else args)
              in Some (json, sort hosts))"

definition burst_main :: "(bytes \<Rightarrow> bool) \<Rightarrow> (bytes \<Rightarrow> burst_conn \<times> burst_conn) \<Rightarrow> bytes list \<Rightarrow> (bytes \<times> burst_out) list option" where
  "burst_main creatable runs args =
     map_option (\<lambda>(json, hosts). map (\<lambda>h. (h, burst_run json h (fst (runs h)) (snd (runs h)))) hosts) (burst_hosts creatable args)"

section \<open>What bursts measure\<close>

text \<open>A run of events of one direction is one burst, and what follows it in the other direction starts anew.\<close>

lemma add_event_snoc:
  "add_event (out @ [v]) e = (if (0 < v) = (0 < signed_size e) then out @ [v + signed_size e] else out @ [v, signed_size e])"
  by (simp add: add_event_def Let_def list_update_append)

lemma add_event_tail: "out \<noteq> [] \<Longrightarrow> add_event (pre @ out) e = pre @ add_event out e"
proof (cases out rule: rev_cases)
  case (snoc ys y)
  then show ?thesis using add_event_snoc [of ys y e] add_event_snoc [of "pre @ ys" y e] by simp
qed simp

lemma add_event_not_empty: "add_event out e \<noteq> []"
  by (auto simp: add_event_def Let_def)

lemma add_events_tail: "out \<noteq> [] \<Longrightarrow> foldl add_event (pre @ out) es = pre @ foldl add_event out es"
  by (induction es arbitrary: out) (simp_all add: add_event_tail add_event_not_empty)

lemma add_same: "(0 < v) = (0 < signed_size e) \<Longrightarrow> add_event [v] e = [v + signed_size e]"
  by (simp add: add_event_def Let_def)

lemma signed_sign [simp]: "0 < ev_n e \<Longrightarrow> 0 < signed_size e \<longleftrightarrow> ev_out e"
  by (auto simp: signed_size_def)

lemma add_run:
  "(\<forall>e\<in>set run. ev_out e = d \<and> 0 < ev_n e) \<Longrightarrow> (0 < v) = d \<Longrightarrow> v \<noteq> 0 \<Longrightarrow>
     foldl add_event [v] run = [v + sum_list (map signed_size run)]"
proof (induction run arbitrary: v)
  case Nil
  then show ?case by simp
next
  case (Cons e run)
  have sign: "(0 < v + signed_size e) = d" "v + signed_size e \<noteq> 0"
    using Cons.prems by (auto simp: signed_size_def)
  have "add_event [v] e = [v + signed_size e]" using Cons.prems by (intro add_same) simp
  then show ?case using Cons.IH [OF _ sign] Cons.prems(1) by (simp add: add.assoc)
qed

lemma bursts_run:
  assumes "run \<noteq> []" and "\<forall>e\<in>set run. ev_out e = d \<and> 0 < ev_n e" and "\<forall>e\<in>set evs. 0 < ev_n e" and "evs \<noteq> [] \<Longrightarrow> ev_out (hd evs) \<noteq> d"
  shows "bursts (run @ evs) = sum_list (map signed_size run) # bursts evs"
proof -
  obtain e run' where run: "run = e # run'" using assms(1) by (cases run) auto
  let ?s = "sum_list (map signed_size run)"
  have e: "(0 < signed_size e) = d" "signed_size e \<noteq> 0" using assms(2) by (auto simp: run signed_size_def)
  have one: "foldl add_event [] run = [?s]"
    using add_run [OF _ e, of run'] assms(2) by (simp add: run add_event_def [of "[]"])
  have sign: "(0 < ?s) = d"
  proof -
    have "0 < sum_list (map signed_size xs) \<or> xs = []" if "d" "\<forall>e\<in>set xs. ev_out e = d \<and> 0 < ev_n e" for xs
      using that by (induction xs) (auto simp: signed_size_def)
    moreover have "sum_list (map signed_size xs) \<le> 0" if "\<not> d" "\<forall>e\<in>set xs. ev_out e = d \<and> 0 < ev_n e" for xs
      using that by (induction xs) (auto simp: signed_size_def)
    ultimately show ?thesis using assms(1,2) by (meson not_less)
  qed
  show ?thesis
  proof (cases evs)
    case Nil
    then show ?thesis using one by (simp add: bursts_def)
  next
    case (Cons f fs)
    have "add_event [?s] f = [?s] @ [signed_size f]" using assms(3,4) sign Cons by (simp add: add_event_def Let_def)
    then have "foldl add_event [?s] evs = [?s] @ foldl add_event [signed_size f] fs"
      using add_events_tail [of "[signed_size f]" "[?s]" fs] by (simp add: Cons)
    then show ?thesis using one by (simp add: bursts_def Cons add_event_def [of "[]"])
  qed
qed

text \<open>Maximal runs exist, so \<open>bursts_run\<close> computes the bursts of every sequence.\<close>

lemma first_run:
  assumes "\<forall>e\<in>set evs. 0 < ev_n e" and "evs \<noteq> []" and "ev_out (hd evs) = d"
  shows "bursts evs = sum_list (map signed_size (takeWhile (\<lambda>e. ev_out e = d) evs)) # bursts (dropWhile (\<lambda>e. ev_out e = d) evs)"
proof -
  let ?run = "takeWhile (\<lambda>e. ev_out e = d) evs" and ?rest = "dropWhile (\<lambda>e. ev_out e = d) evs"
  have "?run \<noteq> []" using assms(2,3) by (cases evs) auto
  moreover have "\<forall>e\<in>set ?run. ev_out e = d \<and> 0 < ev_n e" using assms(1) by (auto dest: set_takeWhileD)
  moreover have "\<forall>e\<in>set ?rest. 0 < ev_n e" using assms(1) by (auto dest: set_dropWhileD)
  moreover have "?rest \<noteq> [] \<Longrightarrow> ev_out (hd ?rest) \<noteq> d" using hd_dropWhile [of "\<lambda>e. ev_out e = d" evs] by simp
  ultimately have "bursts (?run @ ?rest) = sum_list (map signed_size ?run) # bursts ?rest" by (rule bursts_run)
  then show ?thesis by simp
qed

text \<open>The tool's figure: the bytes of the first unbroken run of incoming packets, however they were cut.\<close>

lemma firstServerBurst_bursts:
  assumes "\<forall>e\<in>set evs. 0 < ev_n e"
  shows "- firstServerBurst (bursts evs) = sum_list (map ev_n (takeWhile (\<lambda>e. \<not> ev_out e) (dropWhile ev_out evs)))"
proof -
  have incoming: "- firstServerBurst (bursts xs) = sum_list (map ev_n (takeWhile (\<lambda>e. \<not> ev_out e) xs))"
    if xs: "\<forall>e\<in>set xs. 0 < ev_n e" "xs \<noteq> [] \<Longrightarrow> \<not> ev_out (hd xs)" for xs
  proof (cases "xs = []")
    case True
    then show ?thesis by (simp add: bursts_def)
  next
    case False
    let ?run = "takeWhile (\<lambda>e. \<not> ev_out e) xs"
    have s: "sum_list (map signed_size ys) = - sum_list (map ev_n ys)" if "\<forall>e\<in>set ys. \<not> ev_out e" for ys
      using that by (induction ys) (simp_all add: signed_size_def)
    have "0 < sum_list (map ev_n ys)" if "ys \<noteq> []" "\<forall>e\<in>set ys. 0 < ev_n e" for ys
      using that by (induction ys rule: list_nonempty_induct) simp_all
    moreover have "?run \<noteq> []" using False xs(2) by (cases xs) auto
    moreover have "\<forall>e\<in>set ?run. 0 < ev_n e" using xs(1) by (auto dest: set_takeWhileD)
    ultimately have "0 < sum_list (map ev_n ?run)" by blast
    moreover have "bursts xs = sum_list (map signed_size ?run) # bursts (dropWhile (\<lambda>e. \<not> ev_out e) xs)"
      using first_run [of xs False] xs False by simp
    moreover have "sum_list (map signed_size ?run) = - sum_list (map ev_n ?run)"
      by (rule s) (auto dest: set_takeWhileD)
    ultimately show ?thesis by simp
  qed
  let ?rest = "dropWhile ev_out evs"
  have rest: "\<forall>e\<in>set ?rest. 0 < ev_n e" "?rest \<noteq> [] \<Longrightarrow> \<not> ev_out (hd ?rest)"
    using assms hd_dropWhile [of ev_out evs] by (auto dest: set_dropWhileD)
  have "firstServerBurst (bursts evs) = firstServerBurst (bursts ?rest)"
  proof (cases "evs \<noteq> [] \<and> ev_out (hd evs)")
    case True
    have "sum_list (map signed_size ys) \<ge> 0" if "\<forall>e\<in>set ys. ev_out e \<and> 0 < ev_n e" for ys
      using that by (induction ys) (simp_all add: signed_size_def)
    then have "sum_list (map signed_size (takeWhile ev_out evs)) \<ge> 0" using assms by (auto dest: set_takeWhileD)
    then show ?thesis using first_run [of evs True] assms True by simp
  next
    case False
    then have "?rest = evs" by (cases evs) auto
    then show ?thesis by simp
  qed
  then show ?thesis using incoming [OF rest] by simp
qed


text \<open>What the tap records, and that it records nothing once recording is off.\<close>

fun call_events :: "tap_call list \<Rightarrow> ev list" where
  "call_events [] = []"
| "call_events (Did_Read n t # cs) = (if 0 < n then [\<lparr>ev_out = False, ev_n = int n, ev_t = t\<rparr>] else []) @ call_events cs"
| "call_events (Did_Write n t # cs) = \<lparr>ev_out = True, ev_n = int n, ev_t = t\<rparr> # call_events cs"

lemma burst_calls: "foldl burst_call c cs = (if bt_done c then c else c\<lparr>bt_events := bt_events c @ call_events cs\<rparr>)"
proof (induction cs arbitrary: c)
  case (Cons call cs)
  then show ?case by (cases call) auto
qed simp

lemma call_events_append: "call_events (xs @ ys) = call_events xs @ call_events ys"
  by (induction xs rule: call_events.induct) simp_all

lemma burst_conn_recorded:
  "burst_conn_events c = Inr evs \<longleftrightarrow> bc_dial c = None \<and> bc_handshake c = None \<and> evs = call_events (bc_opening c @ bc_exchange c)"
  by (auto simp: burst_conn_events_def burst_calls call_events_append Let_def split: option.split)

lemma burst_conn_fails: "burst_conn_events c \<noteq> Inl (Burst_Report r)"
  by (auto simp: burst_conn_events_def Let_def split: option.split)

text \<open>
  The figure \<open>burst\<close> reports for a handshake is the number of bytes in the first unbroken run of reads, from the
  dialling to the end of the one exchange: the bytes before it, those after it, and how it was cut into reads do not
  count.
\<close>

theorem burst_figure:
  assumes "burst_run json host c0 c1 = Burst_Report r" and "bp_first r = Some (f, res)"
    and "\<forall>c\<in>{c0, c1}. \<forall>e\<in>set (call_events (bc_opening c @ bc_exchange c)). 0 < ev_n e"
  shows "f = sum_list (map ev_n (takeWhile (\<lambda>e. \<not> ev_out e) (dropWhile ev_out (call_events (bc_opening c0 @ bc_exchange c0)))))
    \<and> res = sum_list (map ev_n (takeWhile (\<lambda>e. \<not> ev_out e) (dropWhile ev_out (call_events (bc_opening c1 @ bc_exchange c1)))))"
proof -
  obtain full rsm where e: "burst_conn_events c0 = Inr full" "burst_conn_events c1 = Inr rsm"
    using assms(1) by (auto simp: burst_run_def burst_conn_fails split: sum.splits)
  then have "full = call_events (bc_opening c0 @ bc_exchange c0)" "rsm = call_events (bc_opening c1 @ bc_exchange c1)"
    by (simp_all add: burst_conn_recorded)
  moreover have "f = - firstServerBurst (bursts full)" "res = - firstServerBurst (bursts rsm)"
    using assms(1,2) by (auto simp: burst_run_def e Let_def split: if_splits)
  ultimately show ?thesis using firstServerBurst_bursts assms(3) by simp
qed

definition demo_conn :: "nat list \<Rightarrow> burst_conn" where
  "demo_conn ns = \<lparr>bc_dial = None, bc_opening = Did_Write 500 0 # map (\<lambda>n. Did_Read n 1) ns, bc_handshake = None,
     bc_exchange = [Did_Write 80 2, Did_Read 900 3], bc_resumed = False, bc_after = [Did_Read 4000 4]\<rparr>"

theorem burst_figure_witness:
  "\<exists>r. burst_run False (str ''h'') (demo_conn [1400, 1400, 200]) (demo_conn [250]) = Burst_Report r \<and> bp_first r = Some (3000, 250)"
proof -
  have ev: "burst_conn_events (demo_conn ns) = Inr (call_events (bc_opening (demo_conn ns) @ bc_exchange (demo_conn ns)))" for ns
    by (simp add: burst_conn_recorded) (simp add: demo_conn_def)
  obtain r where r: "burst_run False (str ''h'') (demo_conn [1400, 1400, 200]) (demo_conn [250]) = Burst_Report r" "bp_first r \<noteq> None"
    unfolding burst_run_def ev by (simp add: demo_conn_def Let_def bursts_def add_event_def signed_size_def)
  then obtain f res where "bp_first r = Some (f, res)" by auto
  with burst_figure [OF r(1) this] r(1) show ?thesis by (auto simp: demo_conn_def)
qed

section \<open>Resumption hellos\<close>

text \<open>\<^verbatim>\<open>tap\<close> of \<^verbatim>\<open>resume\<close> keeps the first write that is a handshake record.\<close>

record hello_tap =
  ht_first :: "bytes option"
  ht_done :: bool

definition hello_write :: "bytes \<Rightarrow> hello_tap \<Rightarrow> hello_tap" where
  "hello_write b t = (if \<not> ht_done t \<and> 5 < length b \<and> b ! 0 = 0x16 then \<lparr>ht_first = Some b, ht_done = True\<rparr> else t)"

text \<open>
  \<^verbatim>\<open>run\<close>: of each of two connections, how dialling ended, what the client wrote during the handshake, how it ended and
  whether it resumed. The lengths of \<^verbatim>\<open>psk_key_exchange_modes\<close> and \<^verbatim>\<open>early_data\<close> are reported last.
\<close>

record resume_conn =
  rc_dial :: "err option"
  rc_writes :: "bytes list"
  rc_handshake :: "err option"
  rc_resumed :: bool

record resume_report =
  rr_full :: "nat \<times> nat"
  rr_res :: "nat \<times> nat"
  rr_resumed :: bool
  rr_delta :: int
  rr_psk :: "(nat \<times> bool \<times> ((nat \<times> bytes) list \<times> nat list \<times> int option) option) option"
  rr_others :: "(u16 \<times> nat) list"

datatype resume_out = Resume_Dial err | Resume_Handshake err | Resume_Incomplete | Resume_Report resume_report

definition resume_conn_first :: "resume_conn \<Rightarrow> resume_out + bytes option" where
  "resume_conn_first c =
     (case rc_dial c of
        Some e \<Rightarrow> Inl (Resume_Dial e)
      | None \<Rightarrow>
          let tp = foldl (\<lambda>t b. hello_write b t) \<lparr>ht_first = None, ht_done = False\<rparr> (rc_writes c)
          in case rc_handshake c of Some e \<Rightarrow> Inl (Resume_Handshake e) | None \<Rightarrow> Inr (ht_first tp))"

definition resume_run :: "resume_conn \<Rightarrow> resume_conn \<Rightarrow> resume_out" where
  "resume_run c0 c1 =
     (case resume_conn_first c0 of
        Inl out \<Rightarrow> out
      | Inr full \<Rightarrow> (case resume_conn_first c1 of
          Inl out \<Rightarrow> out
        | Inr resumed \<Rightarrow> (case (full, resumed) of
            (Some full, Some resumed) \<Rightarrow>
              let (ft, fe, fo) = extSizes full; (rt, re, ro) = extSizes resumed
              in Resume_Report \<lparr>rr_full = (ft, length (remdups fo)), rr_res = (rt, length (remdups ro)), rr_resumed = rc_resumed c1,
                   rr_delta = int rt - int ft,
                   rr_psk = (case re 0x0029 of
                       None \<Rightarrow> None
                     | Some psk \<Rightarrow> Some (psk, 0 < length ro \<and> ro ! (length ro - 1) = 0x0029, map_option dumpPSK (extData resumed 0x0029))),
                   rr_others = List.map_filter (\<lambda>i. map_option (Pair i) (re i)) [0x002d, 0x002a]\<rparr>
          | _ \<Rightarrow> Resume_Incomplete)))"

definition resume_main :: "(bytes \<Rightarrow> resume_conn \<times> resume_conn) \<Rightarrow> bytes list \<Rightarrow> (bytes \<times> resume_out) list" where
  "resume_main runs args =
     (let hosts = (if length args = 0 then map str [''www.google.com'', ''www.cloudflare.com'', ''www.microsoft.com'', ''github.com''] else args)
      in map (\<lambda>h. (h, resume_run (fst (runs h)) (snd (runs h)))) hosts)"

lemma find_snoc: "find P xs = None \<Longrightarrow> find P (xs @ [x]) = (if P x then Some x else None)"
  by (induction xs) (auto split: if_splits)

lemma hello_writes_done: "ht_done t \<Longrightarrow> foldl (\<lambda>t b. hello_write b t) t bs = t"
  by (induction bs) (simp_all add: hello_write_def)

lemma resume_keeps_hello:
  assumes "rc_dial c = None" and "rc_handshake c = None" and "rc_writes c = Marshal h # ws"
  shows "resume_conn_first c = Inr (Some (Marshal h))"
proof -
  have "hello_write (Marshal h) \<lparr>ht_first = None, ht_done = False\<rparr> = \<lparr>ht_first = Some (Marshal h), ht_done = True\<rparr>"
    using length_Marshal_pos [of h] by (simp add: hello_write_def Marshal_eq_wire hello_wire_def)
  then show ?thesis using assms by (simp add: resume_conn_first_def hello_writes_done)
qed

text \<open>
  Of a client that resumes as this library does, \<open>resume\<close> reports the growth of the hello and the pre_shared_key that
  caused it: its length, that it is last, the length of its ticket, its age and the length of its binder, with four bytes of
  framing.
\<close>

theorem resume_reports:
  assumes "rc_dial c0 = None" "rc_handshake c0 = None" "rc_writes c0 = Marshal h0 # ws0"
    and "rc_dial c1 = None" "rc_handshake c1 = None" "rc_writes c1 = Marshal h1 # ws1" and "wf_hello h0" and "wf_hello h1"
    and "Extensions h1 = es @ [Extension ExtPreSharedKey (psk_body ticket age binder)]" and "ExtPreSharedKey \<notin> ExtType ` set es"
    and "length ticket + 6 < 65536" and "length age = 4" and "length binder < 256"
  shows "\<exists>r. resume_run c0 c1 = Resume_Report r \<and> rr_delta r = int (length (Marshal h1)) - int (length (Marshal h0))
    \<and> rr_psk r = Some (length (psk_body ticket age binder), True, Some ([(length ticket, age)], [length binder], Some 4))"
proof -
  note s0 = scanners_wire [OF assms(7), of "[]", simplified] and s1 = scanners_wire [OF assms(8), of "[]", simplified]
  have "find (\<lambda>e. ExtType e = ExtPreSharedKey) es = None" using assms(10) by (auto simp: find_None_iff)
  then have "Find ExtPreSharedKey h1 = Some (Extension ExtPreSharedKey (psk_body ticket age binder))"
    by (simp add: Find_def assms(9) find_snoc)
  then show ?thesis
    using resume_keeps_hello [OF assms(1-3)] resume_keeps_hello [OF assms(4-6)] s0(2) s1(2) s1(3) [where want = "0x0029"]
      dumpPSK_body [OF assms(11-13)]
    by (simp add: resume_run_def Let_def assms(9) nth_append)
qed

theorem resume_reports_witness:
  "\<exists>r. resume_run \<lparr>rc_dial = None, rc_writes = [Marshal small_hello], rc_handshake = None, rc_resumed = False\<rparr>
        \<lparr>rc_dial = None, rc_writes = [Marshal psk_hello, [9]], rc_handshake = None, rc_resumed = True\<rparr> = Resume_Report r
      \<and> rr_psk r = Some (length (psk_body [1, 2] [0, 0, 0, 7] (replicate 32 5)), True, Some ([(2, [0, 0, 0, 7])], [32], Some 4))"
proof -
  have es: "ClientHello.Extensions psk_hello = ClientHello.Extensions small_hello @ [Extension ExtPreSharedKey (psk_body [1, 2] [0, 0, 0, 7] (replicate 32 5))]"
    by (simp add: psk_hello_def)
  have other: "ExtPreSharedKey \<notin> ExtType ` set (ClientHello.Extensions small_hello)" by (simp add: small_hello_def)
  show ?thesis
    using resume_reports [of "\<lparr>rc_dial = None, rc_writes = [Marshal small_hello], rc_handshake = None, rc_resumed = False\<rparr>" small_hello "[]"
        "\<lparr>rc_dial = None, rc_writes = [Marshal psk_hello, [9]], rc_handshake = None, rc_resumed = True\<rparr>" psk_hello "[[9]]",
        OF _ _ _ _ _ _ small_hello_wf psk_hello_wf es other]
    by auto
qed

end
