(* ===== verification/Arrivals.thy ===== *)
theory Arrivals
  imports Capture
begin

text \<open>
  \<^verbatim>\<open>src/harvest/cmd/arrival\<close>: in how many pieces a browser's opening arrives, over TCP and over UDP. The facts: a hello is
  reported whole with exactly the reads that brought it, and the file of hellos is a pool file.
\<close>

section \<open>TCP\<close>

text \<open>
  One connection of \<^verbatim>\<open>serveTCP\<close>: the bytes so far, the sizes of the reads that brought any, and whether the loop was left. A
  turn of the loop is a read: its bytes, and whether it came with an error.
\<close>

record arriving =
  av_rec :: bytes
  av_reads :: "nat list"
  av_left :: bool

definition arrival_turn :: "bytes \<times> bool \<Rightarrow> arriving \<Rightarrow> arriving" where
  "arrival_turn rd a =
     (let (b, err) = rd
      in if av_left a then a
         else let a = (if 0 < length b then a\<lparr>av_reads := av_reads a @ [length b], av_rec := av_rec a @ b\<rparr> else a);
                  want = recordHeaderLen + unat (Uint16 (slice (av_rec a) 3 5))
              in if recordHeaderLen \<le> length (av_rec a) \<and> want \<le> length (av_rec a)
                 then a\<lparr>av_rec := take want (av_rec a), av_left := True\<rparr>
                 else if err then a\<lparr>av_left := True\<rparr> else a)"

definition arrival :: "(bytes \<times> bool) list \<Rightarrow> (bytes \<times> nat list) option" where
  "arrival rds =
     (let a = foldl (\<lambda>a rd. arrival_turn rd a) \<lparr>av_rec = [], av_reads = [], av_left = False\<rparr> rds
      in if length (av_rec a) < recordHeaderLen then None else Some (av_rec a, av_reads a))"

text \<open>The loop over the connections, numbered from 1: what was accepted, or \<open>None\<close> for an error, which ends it.\<close>

fun serveTCP :: "int \<Rightarrow> int \<Rightarrow> (bytes \<times> bool) list option list \<Rightarrow> (int \<times> (bytes \<times> nat list) option) list" where
  "serveTCP conns i [] = []"
| "serveTCP conns i (c # cs) =
     (if i \<le> conns
      then case c of None \<Rightarrow> [] | Some rds \<Rightarrow> (i, arrival rds) # serveTCP conns (i + 1) cs
      else [])"

text \<open>\<^verbatim>\<open>appendHex\<close> on the contents of a file, \<open>None\<close> for no file, with whether it can be opened.\<close>

definition appendHex :: "bool \<Rightarrow> bytes \<Rightarrow> bytes option \<Rightarrow> bytes option" where
  "appendHex openable rec f =
     (if \<not> openable then f else Some ((case f of None \<Rightarrow> [] | Some old \<Rightarrow> old) @ hex_EncodeToString rec @ [10]))"

section \<open>UDP\<close>

text \<open>The packet type, by the long header of QUIC.\<close>

definition packetType :: "bytes \<Rightarrow> bytes" where
  "packetType b =
     (if length b = 0 then str ''empty''
      else if b ! 0 AND 0x80 = 0 then str ''1-RTT''
      else let k = drop_bit 4 (b ! 0 AND 0x30)
           in if k = 0 then str ''Initial'' else if k = 1 then str ''0-RTT'' else if k = 2 then str ''Handshake'' else str ''Retry'')"

text \<open>The loop of \<^verbatim>\<open>serveUDP\<close>: each datagram with the port it is from and its time, or \<open>None\<close> for an error, which ends it.\<close>

fun serveUDP :: "nat \<Rightarrow> int \<Rightarrow> (bytes \<times> nat \<times> int) option list \<Rightarrow> (nat \<times> nat \<times> bytes \<times> nat \<times> int) list" where
  "serveUDP n t0 [] = []"
| "serveUDP n t0 (d # ds) =
     (case d of
        None \<Rightarrow> []
      | Some (b, port, t) \<Rightarrow>
          let t0 = (if n = 0 then t else t0); n = n + 1
          in (n, length b, packetType b, port, t - t0) # serveUDP n t0 ds)"

section \<open>What is reported\<close>

definition whole_record :: "bytes \<Rightarrow> bool" where
  "whole_record x \<longleftrightarrow> recordHeaderLen \<le> length x \<and> recordHeaderLen + declared x \<le> length x"

definition read_size :: "bytes \<times> bool \<Rightarrow> bytes option \<times> nat list \<Rightarrow> bytes option \<times> nat list" where
  "read_size rd r = (fst r, snd r @ (if fst rd = [] then [] else [length (fst rd)]))"

interpretation arrive: first_record fst "\<lambda>rd. \<not> snd rd" arrival_turn "\<lambda>a. \<not> av_left a" av_rec
    "\<lambda>a. (if av_left a then Some (av_rec a) else None, av_reads a)" whole_record read_size
    "\<lambda>x r. (Some (take (recordHeaderLen + declared x) x), snd r)"
  by unfold_locales (auto simp: arrival_turn_def whole_record_def read_size_def declared_def Let_def split_beta split: if_splits)

lemma read_sizes: "foldl (\<lambda>r rd. read_size rd r) r rds = (fst r, snd r @ map length (filter (\<lambda>b. b \<noteq> []) (map fst rds)))"
  by (induction rds arbitrary: r) (auto simp: read_size_def)

lemma whole_Marshal: "wf_hello h \<Longrightarrow> prefix x (Marshal h @ rest) \<Longrightarrow> whole_record x \<longleftrightarrow> length (Marshal h) \<le> length x"
  using declared_of_prefix [of x "Marshal h @ rest"] declared_Marshal [of h rest] length_Marshal_pos [of h]
  by (auto simp: whole_record_def)

text \<open>
  A hello that arrives is reported whole, with the sizes of exactly the reads that brought it: as many as were needed,
  and together long enough.
\<close>

theorem arrival_reads:
  assumes "wf_hello h" and "concat (map fst rds) = Marshal h @ rest" and "\<forall>rd\<in>set rds. \<not> snd rd"
  shows "\<exists>us b vs. rds = us @ b # vs
    \<and> arrival rds = Some (Marshal h, map length (filter (\<lambda>b. b \<noteq> []) (map fst (us @ [b]))))
    \<and> length (concat (map fst us)) < length (Marshal h) \<and> length (Marshal h) \<le> length (concat (map fst (us @ [b])))"
proof -
  let ?a = "\<lparr>av_rec = [], av_reads = [], av_left = False\<rparr>" and ?M = "Marshal h"
  have "?M \<noteq> []" using length_Marshal_pos [of h] by auto
  then obtain us b vs tail where cut: "rds = us @ b # vs" "length (concat (map fst us)) < length ?M" "concat (map fst (us @ [b])) = ?M @ tail"
      and left: "av_left (foldl (\<lambda>a rd. arrival_turn rd a) ?a rds)"
      and rest: "(if av_left (foldl (\<lambda>a rd. arrival_turn rd a) ?a rds) then Some (av_rec (foldl (\<lambda>a rd. arrival_turn rd a) ?a rds)) else None,
          av_reads (foldl (\<lambda>a rd. arrival_turn rd a) ?a rds))
        = (Some (take (recordHeaderLen + declared (?M @ tail)) (?M @ tail)), snd (foldl (\<lambda>r rd. read_size rd r) (None, []) (us @ [b])))"
    using arrive.acts_once [where s = ?a and cs = rds and rec = ?M and more = rest] assms whole_Marshal [OF assms(1), of _ rest] by auto
  moreover have "take (recordHeaderLen + declared (?M @ tail)) (?M @ tail) = ?M"
    using declared_Marshal [OF assms(1), of tail] length_Marshal_pos [of h] by simp
  ultimately have "arrival rds = Some (?M, map length (filter (\<lambda>b. b \<noteq> []) (map fst (us @ [b]))))"
    using length_Marshal_pos [of h] unfolding arrival_def Let_def read_sizes by simp
  moreover have "length ?M \<le> length (concat (map fst (us @ [b])))" unfolding cut(3) by simp
  ultimately show ?thesis using cut(1,2) by blast
qed

text \<open>The file of hellos is what \<open>FormatPool\<close> writes of them.\<close>

lemma appendHex_FormatPool: "recs \<noteq> [] \<Longrightarrow> foldl (\<lambda>f rec. appendHex True rec f) None recs = Some (FormatPool recs)"
proof -
  have "foldl (\<lambda>f rec. appendHex True rec f) (Some old) recs = Some (old @ FormatPool recs)" for old recs
    by (induction recs arbitrary: old) (simp_all add: appendHex_def FormatPool_concat)
  then show "recs \<noteq> [] \<Longrightarrow> ?thesis" by (cases recs) (simp_all add: appendHex_def FormatPool_concat)
qed

text \<open>As many connections are reported as were asked for, were accepted, or came before the first error.\<close>

lemma serveTCP_reports:
  "serveTCP conns i cs = map (\<lambda>(j, c). (i + int j, arrival (the c)))
     (enumerate 0 (take (nat (conns - i + 1)) (takeWhile (\<lambda>c. c \<noteq> None) cs)))"
proof (induction cs arbitrary: i)
  case (Cons c cs)
  have n: "nat (conns - i + 1) = (if i \<le> conns then Suc (nat (conns - (i + 1) + 1)) else 0)" by auto
  have "enumerate (Suc 0) xs = map (\<lambda>(j, c). (Suc j, c)) (enumerate 0 xs)" for xs :: "(bytes \<times> bool) list option list"
    by (simp add: enumerate_eq_zip zip_map1 [symmetric] map_Suc_upt)
  then show ?case using Cons.IH [of "i + 1"] unfolding n by (auto simp: add.assoc split: option.split)
qed simp

end
