(* ===== verification/Measure_Server.thy ===== *)
theory Measure_Server
  imports Capture
begin

text \<open>
  The tools under \<^verbatim>\<open>src/harvest/cmd\<close> that look at a server: two scanners of a ServerHello (\<^verbatim>\<open>shresume\<close>, \<^verbatim>\<open>shdump\<close>), the
  hellos \<^verbatim>\<open>flight\<close> and \<^verbatim>\<open>shdump\<close> send, and the record taps of \<^verbatim>\<open>postflight\<close> and \<^verbatim>\<open>flight\<close>. The scanners index without
  looking, so a panic is a result: they agree with the library's parser on all it accepts, and panic on hellos it
  refuses. A tap sees whole records whatever the cuts and the turns, and each section of a measurement holds its own.
\<close>

section \<open>Indexing that can panic\<close>

text \<open>
  \<^verbatim>\<open>b[p]\<close> is bounded by the length of a slice, \<^verbatim>\<open>b[i:j]\<close> by its capacity: the bytes of the slice and the spare bytes of
  its array behind them. \<open>None\<close> is the panic.
\<close>

definition index_byte :: "bytes \<Rightarrow> nat \<Rightarrow> byte option" where
  "index_byte b p = (if p < length b then Some (b ! p) else None)"

definition reslice :: "bytes \<Rightarrow> bytes \<Rightarrow> nat \<Rightarrow> nat \<Rightarrow> bytes option" where
  "reslice b spare i j = (if i \<le> j \<and> j \<le> length (b @ spare) then Some (slice (b @ spare) i j) else None)"

section \<open>Scanners of a ServerHello\<close>

text \<open>
  \<^verbatim>\<open>exts\<close> of \<^verbatim>\<open>shresume\<close>: the declared length, each extension with the bytes it takes, and whether one is pre_shared_key;
  \<open>spare\<close> is the unused capacity of the buffer. The loop is the one of \<^verbatim>\<open>extSizes\<close>.
\<close>

definition exts :: "bytes \<Rightarrow> bytes \<Rightarrow> (nat \<times> (u16 \<times> nat) list \<times> bool) option" where
  "exts rec spare =
     (if length rec < 9 \<or> rec ! 5 \<noteq> 0x02 then Some (0, [], False)
      else let total = 5 + unat (Uint16 (slice rec 3 5)); b = drop 9 rec; p = 2 + 32
           in Option.bind (index_byte b p) (\<lambda>sl.
              let p = p + (1 + unat sl) + 3
              in Option.bind (reslice b spare p (p + 2)) (\<lambda>w.
                 let found = sizes_loop b (p + 2 + unat (Uint16 w)) (p + 2)
                 in Some (total, map (\<lambda>(t, n). (t, 4 + n)) found, 0x0029 \<in> set (map fst found)))))"

text \<open>
  \<^verbatim>\<open>dump\<close> of \<^verbatim>\<open>shdump\<close>, from the first header and the body it declares: \<^verbatim>\<open>make\<close> gives the body no spare capacity. The
  fields are what is printed; of a key_share also its group and the length of its key.
\<close>

record sh_dump =
  sd_record :: nat
  sd_version :: u16
  sd_session :: nat
  sd_suite :: u16
  sd_block :: nat
  sd_rows :: "(u16 \<times> nat \<times> (u16 \<times> nat) option) list"

datatype shown = Not_ServerHello byte | Shown sh_dump

function dump_loop :: "bytes \<Rightarrow> nat \<Rightarrow> nat \<Rightarrow> (u16 \<times> nat \<times> (u16 \<times> nat) option) list option" where
  "dump_loop b ende p =
     (if p + 4 \<le> ende \<and> p + 4 \<le> length b
      then let t = Uint16 (slice b p (p + 2)); n = unat (Uint16 (slice b (p + 2) (p + 4)))
           in if t = 0x0033 \<and> 4 \<le> n
              then (case (reslice b [] (p + 4) (p + 6), reslice b [] (p + 6) (p + 8)) of
                      (Some g, Some k) \<Rightarrow> map_option ((#) (t, n, Some (Uint16 g, unat (Uint16 k)))) (dump_loop b ende (p + 4 + n))
                    | _ \<Rightarrow> None)
              else map_option ((#) (t, n, None)) (dump_loop b ende (p + 4 + n))
      else Some [])"
  by pat_completeness auto
termination by (relation "measure (\<lambda>(b, ende, p). ende - p)") auto

declare dump_loop.simps [simp del]

definition dump :: "bytes \<Rightarrow> bytes \<Rightarrow> shown option" where
  "dump hdr body =
     (if hdr ! 0 \<noteq> 0x16 \<or> length body < 4 \<or> body ! 0 \<noteq> 0x02 then Some (Not_ServerHello (hdr ! 0))
      else let b = drop 4 body; p = 0
           in Option.bind (reslice b [] p (p + 2)) (\<lambda>version.
              let p = p + 2 + 32
              in Option.bind (index_byte b p) (\<lambda>sl.
                 let p = p + (1 + unat sl)
                 in Option.bind (reslice b [] p (p + 2)) (\<lambda>suite.
                    let p = p + 2 + 1
                    in Option.bind (reslice b [] p (p + 2)) (\<lambda>el.
                       let p = p + 2; ende = p + unat (Uint16 el)
                       in map_option (\<lambda>rows. Shown \<lparr>sd_record = 5 + length body, sd_version = Uint16 version, sd_session = unat sl, sd_suite = Uint16 suite,
                            sd_block = unat (Uint16 el), sd_rows = rows\<rparr>) (dump_loop b ende p))))))"

section \<open>Agreement with the parser\<close>

lemma psh_sizes:
  "psh_loop b ende p out = Inr m \<Longrightarrow> dom m = dom out \<union> set (map fst (sizes_loop b ende p))"
proof (induction b ende p out rule: psh_loop.induct)
  case (1 b ende p out)
  show ?case
  proof (cases "p + 4 \<le> ende \<and> p + 4 \<le> length b")
    case True
    let ?t = "Uint16 (slice b p (p + 2))" and ?n = "unat (Uint16 (slice b (p + 2) (p + 4)))"
    have in_range: "\<not> length b < p + 4 + ?n" and rest: "psh_loop b ende (p + 4 + ?n) (out(?t \<mapsto> slice b (p + 4) (p + 4 + ?n))) = Inr m"
      using 1(2) True by (auto simp: psh_loop.simps [of b ende p] Let_def split: if_splits)
    have "dom m = dom (out(?t \<mapsto> slice b (p + 4) (p + 4 + ?n))) \<union> set (map fst (sizes_loop b ende (p + 4 + ?n)))"
      by (rule 1(1) [OF True refl refl in_range rest])
    then show ?thesis using True by (subst sizes_loop.simps) (simp add: Let_def)
  next
    case False
    then show ?thesis using 1(2) by (auto simp: psh_loop.simps [of b ende p] sizes_loop.simps [of b ende p])
  qed
qed

lemma psh_dump:
  "psh_loop b ende p out = Inr m \<Longrightarrow> \<exists>rows. dump_loop b ende p = Some rows
     \<and> map (\<lambda>(t, n, _). (t, n)) rows = sizes_loop b ende p"
proof (induction b ende p out rule: psh_loop.induct)
  case (1 b ende p out)
  show ?case
  proof (cases "p + 4 \<le> ende \<and> p + 4 \<le> length b")
    case True
    let ?t = "Uint16 (slice b p (p + 2))" and ?n = "unat (Uint16 (slice b (p + 2) (p + 4)))"
    have in_range: "\<not> length b < p + 4 + ?n" and rest: "psh_loop b ende (p + 4 + ?n) (out(?t \<mapsto> slice b (p + 4) (p + 4 + ?n))) = Inr m"
      using 1(2) True by (auto simp: psh_loop.simps [of b ende p] Let_def split: if_splits)
    obtain rows where "dump_loop b ende (p + 4 + ?n) = Some rows" "map (\<lambda>(t, n, _). (t, n)) rows = sizes_loop b ende (p + 4 + ?n)"
      using 1(1) [OF True refl refl in_range rest] by blast
    moreover have "p + 8 \<le> length b" if "4 \<le> ?n" using in_range that by simp
    ultimately show ?thesis using True
      by (subst dump_loop.simps, subst sizes_loop.simps) (auto simp: Let_def reslice_def)
  next
    case False
    then show ?thesis by (subst dump_loop.simps, subst sizes_loop.simps) auto
  qed
qed

lemma server_scanners_found:
  assumes "parseServerHelloExtensions (hdr @ body) = Inr m" and "length hdr = 5"
  shows "\<exists>found. exts (hdr @ body) spare =
        Some (5 + declared (hdr @ body), map (\<lambda>(t, n). (t, 4 + n)) found, m ExtPreSharedKey \<noteq> None)
      \<and> set (map fst found) = dom m
      \<and> (\<exists>d. dump hdr body = Some (Shown d) \<and> map (\<lambda>(t, n, _). (t, n)) (sd_rows d) = found)"
proof -
  let ?rec = "hdr @ body" and ?b = "drop 4 body"
  have b: "drop 9 ?rec = ?b" and h: "?rec ! 0 = hdr ! 0" "?rec ! 5 = body ! 0" using assms(2) by (simp_all add: nth_append)
  define sl where "sl = unat (?b ! 34)"
  define p where "p = 34 + 1 + sl + 2 + 1"
  define ende where "ende = p + 2 + unat (Uint16 (slice ?b p (p + 2)))"
  have kind: "\<not> length ?rec < 9" "hdr ! 0 = 0x16" "body ! 0 = 0x02" and len: "34 < length ?b" "p + 2 \<le> length ?b"
    and loop: "psh_loop ?b ende (p + 2) Map.empty = Inr m"
    using assms(1) unfolding parseServerHelloExtensions_def Let_def b h
    by (auto simp: p_def sl_def ende_def split: if_splits)
  define found where "found = sizes_loop ?b ende (p + 2)"
  have dom: "set (map fst found) = dom m" using psh_sizes [OF loop] by (simp add: found_def)
  then have "(ExtPreSharedKey \<in> set (map fst found)) = (m ExtPreSharedKey \<noteq> None)" by auto
  moreover have "slice (?b @ spare) p (p + 2) = slice ?b p (p + 2)" using len(2) by (rule slice_prefix)
  ultimately have "exts ?rec spare = Some (5 + declared ?rec, map (\<lambda>(t, n). (t, 4 + n)) found, m ExtPreSharedKey \<noteq> None)"
    using kind len unfolding exts_def Let_def b h index_byte_def reslice_def
    by (simp add: p_def sl_def ende_def found_def declared_def add_ac)
  moreover obtain rows where rows: "dump_loop ?b ende (p + 2) = Some rows" "map (\<lambda>(t, n, _). (t, n)) rows = found"
    using psh_dump [OF loop] by (auto simp: found_def)
  moreover have "p + 2 = 34 + (1 + sl) + 2 + 1 + 2" by (simp add: p_def)
  ultimately have "exts ?rec spare = Some (5 + declared ?rec, map (\<lambda>(t, n). (t, 4 + n)) found, m ExtPreSharedKey \<noteq> None)
      \<and> (\<exists>d. dump hdr body = Some (Shown d) \<and> map (\<lambda>(t, n, _). (t, n)) (sd_rows d) = found)"
    using kind len assms(2) unfolding dump_def Let_def index_byte_def reslice_def
    by (simp add: p_def sl_def ende_def add_ac)
  then show ?thesis using dom by blast
qed

text \<open>
  The scanners of a ServerHello do not check what they index, and still return on every record the library's
  parser accepts: with the declared length, the extensions the parser finds, and the right word on resumption.
\<close>

theorem server_scanners_agree:
  assumes "parseServerHelloExtensions (hdr @ body) = Inr m" and "length hdr = 5"
  shows "\<exists>found. exts (hdr @ body) spare =
        Some (5 + declared (hdr @ body), map (\<lambda>(t, n). (t, 4 + n)) found, m ExtPreSharedKey \<noteq> None)
      \<and> set (map fst found) = dom m
      \<and> (\<exists>d. dump hdr body = Some (Shown d) \<and> map (\<lambda>(t, n, _). (t, n)) (sd_rows d) = found)"
  by (rule server_scanners_found [OF assms])

theorem server_scanners_agree_witness:
  "\<exists>found. exts (server_wire demo_params (replicate 32 9) (replicate 1088 3) (replicate 32 3)) [] = Some (1221, found, True)"
proof -
  let ?w = "server_wire demo_params (replicate 32 9) (replicate 1088 3) (replicate 32 3)"
  have p: "parseServerHelloExtensions (take 5 ?w @ drop 5 ?w) = Inr (ext_map (server_exts demo_params (replicate 32 9) (replicate 1088 3)))"
    using parse_server_wire [of "replicate 1088 3" "replicate 32 9" "replicate 32 3" demo_params] by (simp add: demo_params_def)
  have l: "length ?w = 1221" by (subst length_server_wire) (simp_all add: demo_params_def)
  have "slice ?w 3 5 = PutUint16 (of_nat (length ?w - 5))"
    unfolding server_wire_def Let_def by (simp add: slice_def)
  then have "declared ?w = 1216" by (simp add: declared_def l)
  moreover have "ext_map (server_exts demo_params (replicate 32 9) (replicate 1088 3)) ExtPreSharedKey \<noteq> None"
    by (simp add: ext_map_server demo_params_def)
  ultimately show ?thesis using server_scanners_agree [OF p, of "[]"] l by auto
qed

text \<open>A hello cut short after its first bytes makes both tools panic, where the parser reports it malformed.\<close>

lemma short_hello_panics:
  assumes "length hdr = 5" and "hdr ! 0 = 0x16" and "4 \<le> length body" and "length body < 39" and "body ! 0 = 0x02"
  shows "exts (hdr @ body) spare = None" and "dump hdr body = None"
    and "parseServerHelloExtensions (hdr @ body) = Inl ErrMalformed"
proof -
  have b: "drop 9 (hdr @ body) = drop 4 body" and h: "(hdr @ body) ! 0 = hdr ! 0" "(hdr @ body) ! 5 = body ! 0"
    using assms(1) by (simp_all add: nth_append)
  have short: "\<not> 34 < length (drop 4 body)" using assms(3,4) by simp
  show "exts (hdr @ body) spare = None" using assms short unfolding exts_def Let_def b h by (simp add: index_byte_def)
  show "dump hdr body = None" using assms short unfolding dump_def Let_def by (simp add: index_byte_def Option.bind_eq_None_conv)
  show "parseServerHelloExtensions (hdr @ body) = Inl ErrMalformed"
    using assms short unfolding parseServerHelloExtensions_def Let_def b h by simp
qed

section \<open>The hellos the tools send\<close>

text \<open>
  \<^verbatim>\<open>run\<close> of \<^verbatim>\<open>flight\<close> and \<^verbatim>\<open>dump\<close> of \<^verbatim>\<open>shdump\<close> send a pool record to the host they measure; only the first shuffles it. An
  error is printed with the stage it occurred in.
\<close>

definition at_stage :: "string \<Rightarrow> 'a rnd \<Rightarrow> tape \<Rightarrow> (string \<times> err) + 'a \<times> tape" where
  "at_stage what m t = (case m t of Inl e \<Rightarrow> Inl (what, e) | Inr r \<Rightarrow> Inr r)"

definition flight_hello :: "kex \<Rightarrow> bytes \<Rightarrow> bytes \<Rightarrow> tape \<Rightarrow> (string \<times> err) + bytes \<times> tape" where
  "flight_hello K host rec t =
     bindE (at_stage ''pool'' (liftR (ParseClientHello rec)) t) (\<lambda>(h, t).
     bindE (at_stage ''sni'' (liftR (SetSNI host h)) t) (\<lambda>(h, t).
     bindE (at_stage ''rerandomize'' (Rerandomize K h) t) (\<lambda>(h, t).
     bindE (at_stage ''shuffle'' (Shuffle h) t) (\<lambda>(h, t).
     Inr (Marshal h, t)))))"

definition dump_hello :: "kex \<Rightarrow> bytes \<Rightarrow> bytes \<Rightarrow> tape \<Rightarrow> (string \<times> err) + bytes \<times> tape" where
  "dump_hello K host rec t =
     bindE (at_stage ''pool'' (liftR (ParseClientHello rec)) t) (\<lambda>(h, t).
     bindE (at_stage ''sni'' (liftR (SetSNI host h)) t) (\<lambda>(h, t).
     bindE (at_stage ''rerandomize'' (Rerandomize K h) t) (\<lambda>(h, t).
     Inr (Marshal h, t))))"

lemma at_stage_Inr [res_simps]: "at_stage what m t = Inr r \<longleftrightarrow> m t = Inr r"
  by (cases "m t") (simp_all add: at_stage_def)

lemma named_hello:
  assumes "ParseClientHello rec = Inr h0" and "SetSNI host h0 = Inr h1" and "Rerandomize K h1 t = Inr (h2, t1)"
    and "sole ExtServerName d h0" and "length rec + length host < 65000" and "h3 = h2 \<or> Shuffle h2 t1 = Inr (h3, t2)"
  shows "ParseClientHello (Marshal h3) = Inr h3 \<and> SNI h3 = host"
proof -
  have ng: "\<not> IsGREASE ExtServerName" by (simp add: IsGREASE_def)
  have "sole ExtServerName (sni_body host) h1" using sole_SetSNI [OF assms(2)] assms(4) by blast
  from sole_Rerandomize [OF assms(3) ng _ this] have "sole ExtServerName (sni_body host) h2" by simp
  then have n: "sole ExtServerName (sni_body host) h3" using assms(6) sole_Shuffle by blast
  have "fits h1 (length rec + (5 + length host))" using fits_SetSNI [OF assms(2) parsed_fits [OF assms(1)]] by (auto elim: fits_mono)
  from fits_Rerandomize [OF assms(3) this] have "fits h2 (length rec + length host + 287)" by (rule fits_mono) simp
  then have "fits h3 (length rec + length host + 287)" using assms(6) fits_Shuffle by blast
  then have "wf_hello h3" by (rule fits_wf) (use assms(5) in simp)
  then show ?thesis using parse_Marshal_wf SNI_of_body [of h3] sole_Find [OF n] assms(5) by fastforce
qed

text \<open>What is sent is a hello the parser accepts, for the host that is measured.\<close>

lemma tools_name_host:
  assumes "flight_hello K host rec t = Inr (wire, t') \<or> dump_hello K host rec t = Inr (wire, t')"
    and "ParseClientHello rec = Inr h0" and "sole ExtServerName d h0" and "length rec + length host < 65000"
  shows "\<exists>h. ParseClientHello wire = Inr h \<and> SNI h = host"
proof -
  from assms(1,2) obtain h1 h2 t1 h3 where "SetSNI host h0 = Inr h1" "Rerandomize K h1 t = Inr (h2, t1)"
    "wire = Marshal h3" "h3 = h2 \<or> Shuffle h2 t1 = Inr (h3, t')"
    by (auto simp: flight_hello_def dump_hello_def res_simps)
  then show ?thesis using named_hello [OF assms(2) _ _ assms(3,4)] by blast
qed

section \<open>Taps on a connection\<close>

text \<open>\<^verbatim>\<open>tapConn\<close> of \<^verbatim>\<open>postflight\<close>: the records of both directions in the order they completed; \<open>True\<close> is the client.\<close>

record tap_rec =
  tr_client :: bool
  tr_typ :: byte
  tr_size :: nat
  tr_at :: int

function tap_loop :: "bool \<Rightarrow> (nat \<Rightarrow> int) \<Rightarrow> bytes \<Rightarrow> tap_rec list \<Rightarrow> bytes \<times> tap_rec list" where
  "tap_loop dir clock buf recs =
     (if 5 \<le> length buf
      then let n = 5 + unat (Uint16 (slice buf 3 5))
           in if length buf < n then (buf, recs)
              else tap_loop dir clock (drop n buf)
                (recs @ [\<lparr>tr_client = dir, tr_typ = buf ! 0, tr_size = n, tr_at = clock (length recs)\<rparr>])
      else (buf, recs))"
  by pat_completeness auto
termination by (relation "measure (\<lambda>(dir, clock, buf, recs). length buf)") auto

declare tap_loop.simps [simp del]

definition tap_feed :: "(nat \<Rightarrow> int) \<Rightarrow> (bool \<Rightarrow> bytes) \<times> tap_rec list \<Rightarrow> bool \<times> bytes \<Rightarrow> (bool \<Rightarrow> bytes) \<times> tap_rec list" where
  "tap_feed clock st rd =
     (let (bufs, recs) = st; (d, b) = rd; (buf, recs) = tap_loop d clock (bufs d @ b) recs in (bufs(d := buf), recs))"

text \<open>
  One connection of \<^verbatim>\<open>once\<close>: how dialling and the handshake ended, and what crossed the tap during the handshake, in the
  quiet window, while a ticket was banked (on a full handshake only) and at the close. The version and the cipher that are
  printed with a section, and the text that wraps an error of the TLS client, are left out.
\<close>

record once_run =
  on_dial :: "err option"
  on_handshake :: "err option"
  on_resumed :: bool
  on_opening :: "(bool \<times> bytes) list"
  on_quiet :: "(bool \<times> bytes) list"
  on_bank :: "(bool \<times> bytes) list"
  on_close :: "(bool \<times> bytes) list"

record sections =
  se_opening :: "tap_rec list"
  se_quiet :: "tap_rec list"
  se_srvQuiet :: "nat list"
  se_tear :: "tap_rec list"
  se_cTear :: "nat list"
  se_sTear :: "nat list"

definition sizes_of :: "bool \<Rightarrow> tap_rec list \<Rightarrow> nat list" where
  "sizes_of d recs = map tr_size (filter (\<lambda>r. tr_client r = d) recs)"

definition once :: "(nat \<Rightarrow> int) \<Rightarrow> bool \<Rightarrow> once_run \<Rightarrow> sections res" where
  "once clock full run =
     (case on_dial run of Some e \<Rightarrow> Inl e
      | None \<Rightarrow>
          (case on_handshake run of Some e \<Rightarrow> Inl e
           | None \<Rightarrow>
               if \<not> full \<and> \<not> on_resumed run then Inl (Err ''did not resume'')
               else if full \<and> on_resumed run then Inl (Err ''resumed on the first connection; the full profile would be wrong'')
               else let tap = foldl (tap_feed clock) (\<lambda>_. [], []) (on_opening run);
                        handshakeDone = length (snd tap);
                        tap = foldl (tap_feed clock) tap (on_quiet run);
                        afterQuiet = snd tap;
                        tap = (if full then foldl (tap_feed clock) tap (on_bank run) else tap);
                        beforeClose = snd tap;
                        tap = foldl (tap_feed clock) tap (on_close run);
                        final = snd tap;
                        quietRecs = drop handshakeDone afterQuiet;
                        tearRecs = drop (length beforeClose) final
                    in Inr \<lparr>se_opening = take handshakeDone final, se_quiet = quietRecs, se_srvQuiet = sizes_of False quietRecs,
                         se_tear = tearRecs, se_cTear = sizes_of True tearRecs, se_sTear = sizes_of False tearRecs\<rparr>))"

text \<open>\<^verbatim>\<open>flight\<close> reads at most eight records of what the server sends before it stops or errs.\<close>

fun flight_records :: "nat \<Rightarrow> bytes \<Rightarrow> (byte \<times> nat) list" where
  "flight_records 0 s = []"
| "flight_records (Suc k) s =
     (if length s < 5 then []
      else let n = unat (Uint16 (slice s 3 5))
           in if length s < 5 + n then [] else (s ! 0, n) # flight_records k (drop (5 + n) s))"

lemma flight_is_split: "flight_records k s = take k (map seen_entry (fst (split_records s)))"
proof (induction k arbitrary: s)
  case (Suc k)
  then show ?case by (subst split_step) (auto simp: seen_entry_def [abs_def] declared_def [symmetric] Let_def)
qed simp

section \<open>What the sections hold\<close>

definition tapped :: "bool \<Rightarrow> tap_rec list \<Rightarrow> (byte \<times> nat) list" where
  "tapped d recs = map (\<lambda>r. (tr_typ r, tr_size r)) (filter (\<lambda>r. tr_client r = d) recs)"

lemma sizes_tapped: "sizes_of d recs = map snd (tapped d recs)"
  by (simp add: sizes_of_def tapped_def)

lemma tapped_append [simp]: "tapped d (xs @ ys) = tapped d xs @ tapped d ys"
  by (simp add: tapped_def)

lemma tap_notes:
  "\<exists>new. tap_loop d clock b recs = (snd (split_records b), recs @ new) \<and> tapped d new = map (\<lambda>r. (seen_typ r, seen_wire r)) (fst (split_records b))
     \<and> (\<forall>d'. d' \<noteq> d \<longrightarrow> tapped d' new = [])"
proof (induction d clock b recs rule: tap_loop.induct)
  case (1 d clock b recs)
  let ?r = "\<lparr>tr_client = d, tr_typ = b ! 0, tr_size = 5 + declared b, tr_at = clock (length recs)\<rparr>"
  show ?case
  proof (cases "5 \<le> length b \<and> 5 + declared b \<le> length b")
    case True
    let ?b = "drop (5 + declared b) b"
    obtain new where new: "tap_loop d clock ?b (recs @ [?r]) = (snd (split_records ?b), (recs @ [?r]) @ new)"
        "tapped d new = map (\<lambda>r. (seen_typ r, seen_wire r)) (fst (split_records ?b))" "\<forall>d'. d' \<noteq> d \<longrightarrow> tapped d' new = []"
      using 1 [OF _ refl] True unfolding declared_def by (meson not_le)
    have "tap_loop d clock b recs = tap_loop d clock ?b (recs @ [?r])"
      using True by (subst tap_loop.simps) (simp add: declared_def Let_def)
    moreover have "split_records b = (\<lparr>seen_typ = b ! 0, seen_wire = 5 + declared b\<rparr> # fst (split_records ?b), snd (split_records ?b))"
      using True by (subst split_step) simp
    ultimately show ?thesis using new
      by (intro exI [of _ "?r # new"]) (simp add: tapped_def)
  next
    case False
    then have "split_records b = ([], b)" by (subst split_step) auto
    moreover have "tap_loop d clock b recs = (b, recs)" using False by (subst tap_loop.simps) (auto simp: declared_def Let_def)
    ultimately show ?thesis by (intro exI [of _ "[]"]) (simp add: tapped_def)
  qed
qed

interpretation tap_conn: loop_tap split_records "\<lambda>_. True" "\<lambda>d. tap_loop d clock" "tap_feed clock" "\<lambda>recs. recs" tapped
    "\<lambda>r. (seen_typ r, seen_wire r)" for clock
proof
  show "\<exists>new. tap_loop d clock b all = (snd (split_records b), all @ new)
      \<and> tapped d new = map (\<lambda>r. (seen_typ r, seen_wire r)) (fst (split_records b)) \<and> (\<forall>d'. d' \<noteq> d \<longrightarrow> tapped d' new = [])"
    for d b and all :: "tap_rec list"
    by (rule tap_notes)
qed (simp_all add: tap_feed_def split_beta)

text \<open>A phase of a connection in which each side sent whole records, and what the tap adds in it.\<close>

type_synonym wire_record = "byte \<times> u16 \<times> bytes"

definition whole :: "(bool \<times> bytes) list \<Rightarrow> (bool \<Rightarrow> wire_record list) \<Rightarrow> bool" where
  "whole rds R \<longleftrightarrow> (\<forall>d. stream d rds = concat (map tls_record (R d)) \<and> (\<forall>(t, v, body)\<in>set (R d). length body < 65536))"

definition wire_pairs :: "wire_record list \<Rightarrow> (byte \<times> nat) list" where
  "wire_pairs = map (\<lambda>(t, v, body). (t, 5 + length body))"

lemma whole_phase:
  assumes "whole rds R"
  shows "\<exists>new. foldl (tap_feed clock) (\<lambda>_. [], recs) rds = (\<lambda>_. [], recs @ new) \<and> (\<forall>d. tapped d new = wire_pairs (R d))"
proof -
  have split: "split_records (stream d rds) = (map seen (R d), [])" for d
    using assms split_wire [of "R d" "[]"] split_step [of "[]"] by (simp add: whole_def)
  let ?st = "foldl (tap_feed clock) (\<lambda>_. [], recs) rds"
  obtain new where "snd ?st = recs @ new" "fst ?st = (\<lambda>_. [])" "\<And>d. tapped d new = map (\<lambda>r. (seen_typ r, seen_wire r)) (map seen (R d))"
    using tap_conn.any_cuts [where clock = clock and rds = rds and s = "(\<lambda>_. [], recs)" and all = recs] by (auto simp: split)
  then show ?thesis by (intro exI [of _ new]) (auto simp: prod_eq_iff wire_pairs_def seen_def)
qed

text \<open>
  The sections of a measurement hold exactly the records of their phase, whatever the cuts and the interleaving of the
  two directions: what a server sends unprompted is what it sent in the quiet window, and banking a ticket on a full
  handshake shows in no section.
\<close>

theorem once_sections:
  assumes "on_dial run = None" and "on_handshake run = None" and "on_resumed run = (\<not> full)"
    and "whole (on_opening run) opening" and "whole (on_quiet run) still" and "whole (on_bank run) bank" and "whole (on_close run) closing"
  shows "\<exists>s. once clock full run = Inr s
    \<and> (\<forall>d. tapped d (se_opening s) = wire_pairs (opening d) \<and> tapped d (se_quiet s) = wire_pairs (still d)
         \<and> tapped d (se_tear s) = wire_pairs (closing d))
    \<and> se_srvQuiet s = map snd (wire_pairs (still False))
    \<and> se_cTear s = map snd (wire_pairs (closing True)) \<and> se_sTear s = map snd (wire_pairs (closing False))"
proof -
  obtain o' where o': "foldl (tap_feed clock) (\<lambda>_. [], []) (on_opening run) = (\<lambda>_. [], o')" "\<And>d. tapped d o' = wire_pairs (opening d)"
    using whole_phase [OF assms(4), of clock "[]"] by auto
  obtain q where q: "foldl (tap_feed clock) (\<lambda>_. [], o') (on_quiet run) = (\<lambda>_. [], o' @ q)" "\<And>d. tapped d q = wire_pairs (still d)"
    using whole_phase [OF assms(5), of clock o'] by auto
  obtain k where k: "full \<Longrightarrow> foldl (tap_feed clock) (\<lambda>_. [], o' @ q) (on_bank run) = (\<lambda>_. [], o' @ q @ k)" "\<not> full \<Longrightarrow> k = []"
    using whole_phase [OF assms(6), of clock "o' @ q"] by (cases full) auto
  obtain c where c: "foldl (tap_feed clock) (\<lambda>_. [], o' @ q @ k) (on_close run) = (\<lambda>_. [], o' @ q @ k @ c)" "\<And>d. tapped d c = wire_pairs (closing d)"
    using whole_phase [OF assms(7), of clock "o' @ q @ k"] by auto
  have "once clock full run = Inr \<lparr>se_opening = o', se_quiet = q, se_srvQuiet = sizes_of False q, se_tear = c,
      se_cTear = sizes_of True c, se_sTear = sizes_of False c\<rparr>"
    using assms(1-3) o'(1) q(1) c(1) k by (cases full) (simp_all add: once_def Let_def)
  then show ?thesis using o'(2) q(2) c(2) by (simp add: sizes_tapped)
qed

definition demo_run :: once_run where
  "demo_run = \<lparr>on_dial = None, on_handshake = None, on_resumed = False, on_opening = [], on_quiet = [(False, [0x17, 3, 3]), (False, [0, 1, 8])],
     on_bank = [], on_close = [(True, [0x15, 3, 3, 0, 0])]\<rparr>"

theorem once_sections_witness:
  "\<exists>s. once int True demo_run = Inr s \<and> se_srvQuiet s = [6] \<and> se_cTear s = [5] \<and> se_sTear s = []"
proof -
  have "whole (on_opening demo_run) (\<lambda>_. [])" "whole (on_bank demo_run) (\<lambda>_. [])"
    "whole (on_quiet demo_run) (\<lambda>d. if d then [] else [(0x17, 0x0303, [8])])"
    "whole (on_close demo_run) (\<lambda>d. if d then [(0x15, 0x0303, [])] else [])"
    by (simp_all add: whole_def demo_run_def stream_def tls_record_def PutUint16_def)
  from once_sections [OF _ _ _ this(1,3,2,4), of True int] show ?thesis
    by (auto simp: demo_run_def wire_pairs_def)
qed

end
