(* ===== verification/Server_Runs.thy ===== *)
theory Server_Runs
  imports Measure_Server
begin

text \<open>
  The runs of the tools under \<^verbatim>\<open>src/harvest/cmd\<close> that measure a server: \<^verbatim>\<open>shresume\<close>, \<^verbatim>\<open>shdump\<close>, \<^verbatim>\<open>flight\<close>, \<^verbatim>\<open>postflight\<close>. What the
  network and the TLS client do is data: how dialling, writing and handshaking ended, what was read. What is printed are
  values; a panic is \<open>None\<close>. The fact: pointed at a server of this library, \<^verbatim>\<open>shresume\<close> finds the lengths it was built to have.
\<close>

section \<open>\<^verbatim>\<open>shresume\<close>\<close>

record sh_tap =
  sh_buf :: bytes
  sh_done :: bool

definition sh_read :: "bytes \<Rightarrow> sh_tap \<Rightarrow> sh_tap" where
  "sh_read b t =
     (if 0 < length b \<and> \<not> sh_done t
      then let t = t\<lparr>sh_buf := sh_buf t @ b\<rparr>
           in if 5 \<le> length (sh_buf t)
              then let rl = unat (Uint16 (slice (sh_buf t) 3 5))
                   in if 5 + rl \<le> length (sh_buf t) then t\<lparr>sh_done := True\<rparr> else t
              else t
      else t)"

text \<open>
  One connection of \<^verbatim>\<open>run\<close>: how dialling ended, the reads of the handshake and how it ended, the reads after it, and the
  spare capacity of the buffer then. The two are reported in turn, then the difference of their totals.
\<close>

record sh_conn =
  sc_dial :: "err option"
  sc_opening :: "bytes list"
  sc_handshake :: "err option"
  sc_more :: "bytes list"
  sc_spare :: bytes

datatype sh_end = Sh_Dial err | Sh_Handshake err | Sh_Panic | Sh_Delta "int option"

type_synonym sh_row = "nat \<times> (u16 \<times> nat) list \<times> bool"

definition sh_conn_row :: "sh_conn \<Rightarrow> sh_end + sh_row" where
  "sh_conn_row c =
     (case sc_dial c of
        Some e \<Rightarrow> Inl (Sh_Dial e)
      | None \<Rightarrow>
          let tp = foldl (\<lambda>t b. sh_read b t) \<lparr>sh_buf = [], sh_done = False\<rparr> (sc_opening c)
          in case sc_handshake c of
               Some e \<Rightarrow> Inl (Sh_Handshake e)
             | None \<Rightarrow>
                 let tp = foldl (\<lambda>t b. sh_read b t) tp (sc_more c)
                 in case exts (sh_buf tp) (sc_spare c) of None \<Rightarrow> Inl Sh_Panic | Some row \<Rightarrow> Inr row)"

definition shresume_run :: "sh_conn \<Rightarrow> sh_conn \<Rightarrow> sh_row list \<times> sh_end" where
  "shresume_run c0 c1 =
     (case sh_conn_row c0 of
        Inl stop \<Rightarrow> ([], stop)
      | Inr r0 \<Rightarrow> (case sh_conn_row c1 of
          Inl stop \<Rightarrow> ([r0], stop)
        | Inr r1 \<Rightarrow> ([r0, r1], Sh_Delta (if 0 < fst r0 \<and> 0 < fst r1 then Some (int (fst r1) - int (fst r0)) else None))))"

definition shresume_main :: "(bytes \<Rightarrow> sh_conn \<times> sh_conn) \<Rightarrow> bytes list \<Rightarrow> (bytes \<times> sh_row list \<times> sh_end) list" where
  "shresume_main runs args =
     (let hosts = (if length args = 0 then map str [''www.google.com'', ''www.cloudflare.com'', ''www.microsoft.com'', ''www.amazon.com'', ''www.wikipedia.org''] else args)
      in map (\<lambda>h. (h, shresume_run (fst (runs h)) (snd (runs h)))) hosts)"

section \<open>\<^verbatim>\<open>shdump\<close> and \<^verbatim>\<open>flight\<close>\<close>

text \<open>\<^verbatim>\<open>io.ReadFull\<close> on what a connection delivers before it ends.\<close>

definition read_full :: "nat \<Rightarrow> bytes \<Rightarrow> err + bytes \<times> bytes" where
  "read_full n s = (if length s < n then Inl (if s = [] then ErrEOF else ErrUnexpectedEOF) else Inr (take n s, drop n s))"

text \<open>A connection: how dialling and the one write ended, and the bytes it delivers.\<close>

record dialled =
  dl_dial :: "err option"
  dl_write :: "err option"
  dl_in :: bytes

definition labelled :: "string \<Rightarrow> err + 'a \<Rightarrow> (string \<times> err) + 'a" where
  "labelled what m = (case m of Inl e \<Rightarrow> Inl (what, e) | Inr x \<Rightarrow> Inr x)"

definition raised :: "string \<Rightarrow> err option \<Rightarrow> (string \<times> err) + unit" where
  "raised what e = (case e of Some e \<Rightarrow> Inl (what, e) | None \<Rightarrow> Inr ())"

definition shdump_read :: "kex \<Rightarrow> bytes \<Rightarrow> bytes \<Rightarrow> dialled \<Rightarrow> tape \<Rightarrow> (string \<times> err) + bytes \<times> bytes" where
  "shdump_read K host rec c t =
     bindE (dump_hello K host rec t) (\<lambda>(wire, t).
     bindE (raised ''dial'' (dl_dial c)) (\<lambda>_.
     bindE (raised ''write'' (dl_write c)) (\<lambda>_.
     bindE (labelled ''read'' (read_full 5 (dl_in c))) (\<lambda>(hdr, s).
     let n = unat (Uint16 (slice hdr 3 5))
     in bindE (labelled ''read'' (read_full n s)) (\<lambda>(body, s). Inr (hdr, body))))))"

definition shdump_run :: "kex \<Rightarrow> bytes \<Rightarrow> bytes list \<Rightarrow> dialled \<Rightarrow> tape \<Rightarrow> ((string \<times> err) + shown) option" where
  "shdump_run K host pool c t =
     (case pool of
        [] \<Rightarrow> None
      | rec # _ \<Rightarrow> (case shdump_read K host rec c t of
          Inl e \<Rightarrow> Some (Inl e)
        | Inr (hdr, body) \<Rightarrow> map_option Inr (dump hdr body)))"

definition recordName :: "byte \<Rightarrow> bytes" where
  "recordName t =
     (if t = 0x16 then str ''Handshake''
      else if t = 0x14 then str ''ChangeCipherSpec''
      else if t = 0x17 then str ''ApplicationData''
      else if t = 0x15 then str ''Alert''
      else str ''0x'' @ hex_EncodeToString [t])"

text \<open>The hello's length and, of at most eight records, their number, name and length.\<close>

definition flight_run :: "kex \<Rightarrow> bytes \<Rightarrow> bytes list \<Rightarrow> dialled \<Rightarrow> tape \<Rightarrow> ((string \<times> err) + nat \<times> (nat \<times> bytes \<times> nat) list) option" where
  "flight_run K host pool c t =
     (case pool of
        [] \<Rightarrow> None
      | rec # _ \<Rightarrow> Some (
          bindE (flight_hello K host rec t) (\<lambda>(wire, t).
          bindE (raised ''dial'' (dl_dial c)) (\<lambda>_.
          bindE (raised ''write'' (dl_write c)) (\<lambda>_.
          Inr (length wire, map (\<lambda>(i, t, n). (i, recordName t, n)) (enumerate 1 (flight_records 8 (dl_in c)))))))))"

text \<open>Both mains: the embedded pool is parsed first, which can panic; \<open>runs\<close> gives a host's connection and the entropy for its hello.\<close>

definition shdump_main :: "kex \<Rightarrow> bytes \<Rightarrow> (bytes \<Rightarrow> dialled \<times> tape) \<Rightarrow> bytes list \<Rightarrow> (bytes \<times> ((string \<times> err) + shown) option) list option" where
  "shdump_main K embeddedPool runs args =
     (let hosts = (if length args = 0 then map str [''www.google.com'', ''www.cloudflare.com'', ''www.microsoft.com'', ''www.amazon.com''] else args)
      in case DefaultPool embeddedPool of
           Inl _ \<Rightarrow> None
         | Inr pool \<Rightarrow> Some (map (\<lambda>h. (h, shdump_run K h pool (fst (runs h)) (snd (runs h)))) hosts))"

definition flight_main :: "kex \<Rightarrow> bytes \<Rightarrow> (bytes \<Rightarrow> dialled \<times> tape) \<Rightarrow> bytes list
    \<Rightarrow> (bytes \<times> ((string \<times> err) + nat \<times> (nat \<times> bytes \<times> nat) list) option) list option" where
  "flight_main K embeddedPool runs args =
     (let hosts = (if length args = 0 then map str [''www.google.com'', ''www.cloudflare.com'', ''www.microsoft.com''] else args)
      in case DefaultPool embeddedPool of
           Inl _ \<Rightarrow> None
         | Inr pool \<Rightarrow> Some (map (\<lambda>h. (h, flight_run K h pool (fst (runs h)) (snd (runs h)))) hosts))"

section \<open>\<^verbatim>\<open>postflight\<close>\<close>

definition typeName :: "byte \<Rightarrow> bytes" where
  "typeName t =
     (if t = 0x14 then str ''ccs      ''
      else if t = 0x15 then str ''ALERT    ''
      else if t = 0x16 then str ''handshake''
      else if t = 0x17 then str ''appdata  ''
      else str ''0x'' @ hex_EncodeToString [t] @ str ''     '')"

text \<open>\<^verbatim>\<open>measure\<close>: the sections printed, and the error, with the text that wraps it.\<close>

definition measure_host :: "(nat \<Rightarrow> int) \<Rightarrow> once_run \<Rightarrow> once_run \<Rightarrow> sections list \<times> (string \<times> err) option" where
  "measure_host clock full resumed =
     (case once clock True full of
        Inl e \<Rightarrow> ([], Some (''full handshake: '', e))
      | Inr s \<Rightarrow> (case once clock False resumed of
          Inl e \<Rightarrow> ([s], Some ([], e))
        | Inr s' \<Rightarrow> ([s, s'], None)))"

text \<open>\<^verbatim>\<open>main\<close>: each named host is measured, \<open>runs\<close> giving its two connections; it exits with 1 if any failed.\<close>

definition postflight_main ::
    "(nat \<Rightarrow> int) \<Rightarrow> (bytes \<Rightarrow> once_run \<times> once_run) \<Rightarrow> bytes \<Rightarrow> (bytes \<times> sections list \<times> (string \<times> err) option) list \<times> nat \<times> int" where
  "postflight_main clock runs hosts =
     foldl (\<lambda>(out, failures, code) host.
        let host = TrimSpace host
        in if host = [] then (out, failures, code)
           else let (ss, e) = measure_host clock (fst (runs host)) (snd (runs host));
                    failures = (if e \<noteq> None then failures + 1 else failures)
                in (out @ [(host, ss, e)], failures, if 0 < failures then 1 else 0))
      ([], 0, 0) (Split hosts 44)"

section \<open>What \<^verbatim>\<open>shresume\<close> finds\<close>

interpretation sh: first_record "\<lambda>b. b" "\<lambda>_. True" sh_read "\<lambda>t. \<not> sh_done t" sh_buf "\<lambda>t. if sh_done t then Some (sh_buf t) else None"
    "\<lambda>x. 5 \<le> length x \<and> 5 + declared x \<le> length x" "\<lambda>_ r. r" "\<lambda>x _. Some x"
  by unfold_locales (auto simp: sh_read_def declared_def Let_def split: if_splits)

lemma sizes_loop_prefix: "ende \<le> length b \<Longrightarrow> sizes_loop (b @ x) ende p = sizes_loop b ende p"
proof (induction b ende p rule: sizes_loop.induct)
  case (1 b ende p)
  show ?case
  proof (cases "p + 4 \<le> ende")
    case True
    then have "slice (b @ x) p (p + 2) = slice b p (p + 2)" "slice (b @ x) (p + 2) (p + 4) = slice b (p + 2) (p + 4)"
      using 1(2) by (simp_all add: slice_prefix)
    moreover have "sizes_loop (b @ x) ende (p + 4 + unat (Uint16 (slice b (p + 2) (p + 4)))) = sizes_loop b ende (p + 4 + unat (Uint16 (slice b (p + 2) (p + 4))))"
      using 1 True by simp
    ultimately show ?thesis using True 1(2) by (subst (1 2) sizes_loop.simps) (simp add: Let_def)
  next
    case False
    then show ?thesis by (subst (1 2) sizes_loop.simps) simp
  qed
qed

text \<open>A record whose extension block ends with it is read the same when more follows.\<close>

lemma exts_prefix:
  fixes rec :: bytes
  defines "b \<equiv> drop 9 rec" and "p \<equiv> 38 + unat (drop 9 rec ! 34)"
  assumes "exts rec spare = Some row" and "\<not> length rec < 9" and "rec ! 5 = 0x02" and "p + 2 + unat (Uint16 (slice b p (p + 2))) \<le> length b"
  shows "exts (rec @ x) spare' = Some row"
proof -
  have i: "(rec @ x) ! 5 = rec ! 5" "drop 9 (rec @ x) = b @ x" "slice (rec @ x) 3 5 = slice rec 3 5"
    using assms(4) by (simp_all add: nth_append slice_prefix b_def)
  have len: "34 < length b" "p + 2 \<le> length b" using assms(6) by (auto simp: p_def)
  have q: "2 + 32 + (1 + unat (b ! 34)) + 3 = p" by (simp add: p_def b_def)
  have w: "index_byte b (2 + 32) = Some (b ! 34)" "index_byte (b @ x) (2 + 32) = Some (b ! 34)"
    "reslice b spare p (p + 2) = Some (slice b p (p + 2))" "reslice (b @ x) spare' p (p + 2) = Some (slice b p (p + 2))"
    using len by (simp_all add: index_byte_def reslice_def slice_prefix nth_append)
  have "exts rec spare = exts (rec @ x) spare'"
    using assms(4,5) unfolding exts_def Let_def i b_def [symmetric] w bind.bind_lunit q sizes_loop_prefix [OF assms(6)] by simp
  then show ?thesis using assms(3) by simp
qed

text \<open>A synthesised ServerHello: its extension block ends it.\<close>

lemma server_wire_block:
  fixes p :: ServerHelloParams and eph ct random :: bytes
  defines "w \<equiv> server_wire p eph ct random"
  assumes "length ct = 1088" and "length eph = 32" and "length random = 32" and "length (sp_SessionIDEcho p) \<le> 32"
  shows "38 + unat (drop 9 w ! 34) + 2 + unat (Uint16 (slice (drop 9 w) (38 + unat (drop 9 w ! 34)) (38 + unat (drop 9 w ! 34) + 2))) = length (drop 9 w)"
    and "w ! 5 = 0x02" and "declared w = length w - 5"
proof -
  let ?sid = "sp_SessionIDEcho p"
  define ext where "ext = exts_bytes (server_exts p eph ct)"
  define b where "b = server_head p random @ PutUint16 (of_nat (length ext)) @ ext"
  have w: "w = [0x16, 0x03, 0x03] @ PutUint16 (of_nat (length b + 4)) @ [0x02] @ nat_be 3 (length b) @ b"
    by (simp add: w_def server_wire_def Let_def b_def ext_def)
  have lext: "length ext = (if sp_FullHandshake p then 1134 else 1140)" using assms by (simp add: ext_def length_server_exts)
  have d: "drop 9 w = b" by (simp add: w)
  have "b ! 34 = of_nat (length ?sid)" using assms(4) by (simp add: b_def server_head_def nth_append)
  then have sl: "unat (b ! 34) = length ?sid" using assms(5) by simp
  have "slice b (38 + length ?sid) (38 + length ?sid + 2) = PutUint16 (of_nat (length ext))"
    using assms(4) unfolding b_def by (intro slice_middle) (simp_all add: length_server_head)
  then show "38 + unat (drop 9 w ! 34) + 2 + unat (Uint16 (slice (drop 9 w) (38 + unat (drop 9 w ! 34)) (38 + unat (drop 9 w ! 34) + 2))) = length (drop 9 w)"
    using lext assms(4) unfolding d sl by (simp add: b_def length_server_head split: if_splits)
  show "w ! 5 = 0x02" by (simp add: w PutUint16_def)
  have "slice w 3 5 = PutUint16 (of_nat (length b + 4))" unfolding w by (simp add: slice_def)
  moreover have "length b + 4 < 65536" using lext assms(4,5) by (simp add: b_def length_server_head)
  ultimately show "declared w = length w - 5" unfolding declared_def by (simp add: w del: of_nat_add)
qed

text \<open>
  Pointed at a server of this library, \<open>shresume\<close> finds what the library promises: a full opening whose ServerHello is
  1215 bytes without pre_shared_key, a resumed one of 1221 bytes with it, and a difference of the six bytes of that
  extension; however the network cuts the records, and whatever follows them.
\<close>

theorem shresume_delta:
  assumes "SynthesizeServerHello p0 t0 = Inr (w0, t0')" and "SynthesizeServerHello p1 t1 = Inr (w1, t1')"
    and "sp_FullHandshake p0" and "\<not> sp_FullHandshake p1"
    and "\<forall>p\<in>{p0, p1}. length (sp_SessionIDEcho p) = 32 \<and> (\<forall>e. sp_ServerEphemeral p = Some e \<longrightarrow> length e = 32)"
    and "\<forall>c\<in>{c0, c1}. sc_dial c = None \<and> sc_handshake c = None"
    and "concat (sc_opening c0 @ sc_more c0) = w0 @ rest0" and "concat (sc_opening c1 @ sc_more c1) = w1 @ rest1"
  shows "\<exists>f0 f1. shresume_run c0 c1 = ([(1215, f0, False), (1221, f1, True)], Sh_Delta (Some 6))"
proof -
  have row: "\<exists>found. sh_conn_row c = Inr (if sp_FullHandshake p then 1215 else 1221, found, \<not> sp_FullHandshake p)"
    if syn: "SynthesizeServerHello p t = Inr (w, t')" and p: "length (sp_SessionIDEcho p) = 32" "\<forall>e. sp_ServerEphemeral p = Some e \<longrightarrow> length e = 32"
      and c: "sc_dial c = None" "sc_handshake c = None" "concat (sc_opening c @ sc_more c) = w @ rest" for p t w t' c rest
  proof -
    obtain eph where e: "length eph = 32" "1120 \<le> length t" "w = server_wire p eph (take 1088 t) (slice t 1088 1120)"
      using syn p(2) by (auto simp: synth_cases)
    have l: "length (take 1088 t) = 1088" "length (slice t 1088 1120) = 32" using e(2) by simp_all
    have len: "length w = (if sp_FullHandshake p then 1215 else 1221)" using l e(1) p(1) by (simp add: e(3) length_server_wire)
    have sid: "length (sp_SessionIDEcho p) \<le> 32" using p(1) by simp
    note block = server_wire_block [OF l(1) e(1) l(2) sid, folded e(3)]
    have "parseServerHelloExtensions w = Inr (ext_map (server_exts p eph (take 1088 t)))"
      unfolding e(3) by (rule parse_server_wire [OF l(1) e(1) l(2) sid])
    then have "parseServerHelloExtensions (take 5 w @ drop 5 w) = Inr (ext_map (server_exts p eph (take 1088 t)))" by simp
    from server_scanners_found [OF this, of "[]"] obtain found where
      "exts w [] = Some (5 + declared w, map (\<lambda>(t, n). (t, 4 + n)) found, ext_map (server_exts p eph (take 1088 t)) ExtPreSharedKey \<noteq> None)"
      using len by auto
    then have row: "exts w [] = Some (if sp_FullHandshake p then 1215 else 1221, map (\<lambda>(t, n). (t, 4 + n)) found, \<not> sp_FullHandshake p)"
      using block(3) len by (simp add: ext_map_server)
    have more: "exts (w @ x) spare = Some (if sp_FullHandshake p then 1215 else 1221, map (\<lambda>(t, n). (t, 4 + n)) found, \<not> sp_FullHandshake p)" for x spare
      using row block len by (intro exts_prefix) auto
    have "w \<noteq> []" using len by (auto split: if_splits)
    moreover have "5 \<le> length x \<and> 5 + declared x \<le> length x \<longleftrightarrow> length w \<le> length x" if "prefix x (w @ rest)" for x
      using declared_of_prefix [OF that] declared_prefix [of w rest] block(3) len by auto
    ultimately obtain tail where
      "sh_buf (foldl (\<lambda>t b. sh_read b t) \<lparr>sh_buf = [], sh_done = False\<rparr> (sc_opening c @ sc_more c)) = w @ tail"
      using sh.acts_at_once [where s = "\<lparr>sh_buf = [], sh_done = False\<rparr>" and cs = "sc_opening c @ sc_more c" and rec = w and more = rest] c(3)
      by (auto split: if_splits)
    then show ?thesis using c more by (simp add: sh_conn_row_def Let_def)
  qed
  have p: "length (sp_SessionIDEcho p0) = 32" "\<forall>e. sp_ServerEphemeral p0 = Some e \<longrightarrow> length e = 32"
      "length (sp_SessionIDEcho p1) = 32" "\<forall>e. sp_ServerEphemeral p1 = Some e \<longrightarrow> length e = 32" using assms(5) by simp_all
  have c: "sc_dial c0 = None" "sc_handshake c0 = None" "sc_dial c1 = None" "sc_handshake c1 = None" using assms(6) by simp_all
  obtain f0 where "sh_conn_row c0 = Inr (1215, f0, False)" using row [OF assms(1) p(1,2) c(1,2) assms(7)] assms(3) by auto
  moreover obtain f1 where "sh_conn_row c1 = Inr (1221, f1, True)" using row [OF assms(2) p(3,4) c(3,4) assms(8)] assms(4) by auto
  ultimately show ?thesis by (simp add: shresume_run_def)
qed

theorem shresume_delta_witness:
  "\<exists>f0 f1 w0 w1. shresume_run \<lparr>sc_dial = None, sc_opening = [take 7 w0, drop 7 w0 @ [1]], sc_handshake = None, sc_more = [], sc_spare = []\<rparr>
       \<lparr>sc_dial = None, sc_opening = [w1], sc_handshake = None, sc_more = [[2]], sc_spare = []\<rparr>
     = ([(1215, f0, False), (1221, f1, True)], Sh_Delta (Some 6))"
proof -
  let ?p0 = "demo_params\<lparr>sp_FullHandshake := True\<rparr>"
  have "SynthesizeServerHello ?p0 (replicate 1120 3) = Inr (server_wire ?p0 (replicate 32 9) (replicate 1088 3) (replicate 32 3), [])"
    by (subst synth_wire [of _ "replicate 32 9"]) (simp_all add: demo_params_def slice_def)
  from shresume_delta [OF this demo_synth, where ?c0.0 = "\<lparr>sc_dial = None, sc_opening = [take 7 (server_wire ?p0 (replicate 32 9) (replicate 1088 3) (replicate 32 3)),
        drop 7 (server_wire ?p0 (replicate 32 9) (replicate 1088 3) (replicate 32 3)) @ [1]], sc_handshake = None, sc_more = [], sc_spare = []\<rparr>"
      and ?c1.0 = "\<lparr>sc_dial = None, sc_opening = [server_wire demo_params (replicate 32 9) (replicate 1088 3) (replicate 32 3)], sc_handshake = None, sc_more = [[2]], sc_spare = []\<rparr>"
      and ?rest0.0 = "[1]" and ?rest1.0 = "[2]"]
  show ?thesis by (fastforce simp: demo_params_def)
qed

end
