(* ===== verification/Provision.thy ===== *)
theory Provision
  imports Pools Cover
begin

text \<open>
  \<^verbatim>\<open>src/cmd/twiddlecred\<close>, the command that provisions a server and a client. What it prints is modelled by the values
  behind the lines, the encodings of the keys and tickets left out. The facts: the credential printed opens under the
  key printed, at the lengths its cover asks for, and a printed pool reads back as one build.
\<close>

record cred_flags =
  cf_clientID :: u64
  cf_cover :: bytes
  cf_printPool :: bool

datatype printed = Printed_Pool bytes | Printed_Credential TicketKey Credential

text \<open>\<open>None\<close> is the panic each failure ends in; \<open>now\<close> is the clock \<^verbatim>\<open>Issue\<close> reads.\<close>

definition Issue :: "TicketKey \<Rightarrow> u64 \<Rightarrow> int \<Rightarrow> int \<Rightarrow> Credential rnd" where
  "Issue k clientID ticketLen now = issueAt k clientID (nat ticketLen) now"

definition twiddlecred :: "(bytes list \<Rightarrow> bytes list) \<Rightarrow> (bytes \<Rightarrow> file_read) \<Rightarrow> bytes \<Rightarrow> int \<Rightarrow> cred_flags \<Rightarrow> bytes \<Rightarrow> printed option" where
  "twiddlecred order readFile embeddedPool now flags tape =
     (if cf_printPool flags
      then (case LoadPool order readFile embeddedPool \<lparr>so_Device = [], so_Config = [], so_ConfigInline = [], so_AllowEmbedded = True\<rparr> of
              Loaded p \<Rightarrow> Some (Printed_Pool (FormatPool (po_Hellos p)))
            | _ \<Rightarrow> None)
      else if cf_cover flags = [] then None
      else case CoverFor (cf_cover flags) of
             Inl _ \<Rightarrow> None
           | Inr profile \<Rightarrow>
               (case bindR NewTicketKey (\<lambda>k. bindR (Issue k (cf_clientID flags) (cp_TicketLen profile) now) (\<lambda>cred. returnR (k, cred))) tape of
                  Inl _ \<Rightarrow> None
                | Inr ((k, cred), _) \<Rightarrow> Some (Printed_Credential k cred)))"

text \<open>
  C28. What is provisioned fits together: both printed tickets open under the printed key to one client, psk and issue
  second, at the length of the cover's tickets and of the full carrier's; a printed pool is read back by the strict reader.
\<close>

theorem provisioned:
  assumes "twiddlecred order readFile embeddedPool now flags tape = Some out" and "instant_ok now" and "\<forall>ks. mset (order ks) = mset ks"
  shows "case out of
      Printed_Credential k cred \<Rightarrow> (\<exists>profile. CoverFor (cf_cover flags) = Inr profile \<and> int (length (cr_Ticket cred)) = cp_TicketLen profile)
        \<and> length (cr_FullTicket cred) = FullTicketLen
        \<and> open_ticket k (cr_Ticket cred) = Inr (cf_clientID flags, cr_PSK cred, time_Unix (unix_of now))
        \<and> open_ticket k (cr_FullTicket cred) = Inr (cf_clientID flags, cr_PSK cred, time_Unix (unix_of now))
    | Printed_Pool text \<Rightarrow> (\<exists>hs. ParsePool text = Inr hs \<and> Coherent hs = Inr ())"
proof (cases "cf_printPool flags")
  case True
  let ?s = "\<lparr>so_Device = [], so_Config = [], so_ConfigInline = [], so_AllowEmbedded = True\<rparr>"
  obtain p where p: "LoadPool order readFile embeddedPool ?s = Loaded p" "out = Printed_Pool (FormatPool (po_Hellos p))"
    using assms(1) True by (auto simp: twiddlecred_def split: loaded.splits)
  then obtain hs where hs: "DefaultPool embeddedPool = Inr hs" "po_Hellos p = fst (largestBuild order hs)"
    by (auto simp: LoadPool_def Let_def split: sum.splits prod.splits)
  note parsed = ParsePool_parses [OF hs(1) [unfolded DefaultPool_def]]
  have kept: "Coherent (po_Hellos p) = Inr ()" "\<forall>r\<in>set (po_Hellos p). \<exists>h. ParseClientHello r = Inr h"
    using kept_usable [OF assms(3), of hs] parsed unfolding hs(2) by auto
  then have "po_Hellos p \<noteq> []" by (auto simp: Coherent_def)
  then have "ParsePool (FormatPool (po_Hellos p)) = Inr (po_Hellos p)" using kept(2) by (rule ParsePool_FormatPool_parses)
  then show ?thesis using p(2) kept(1) by auto
next
  case False
  then obtain profile k cred t' t'' where c: "CoverFor (cf_cover flags) = Inr profile" "rand_Read 32 tape = Inr (k, t')"
      "issueAt k (cf_clientID flags) (nat (cp_TicketLen profile)) now t' = Inr (cred, t'')" "out = Printed_Credential k cred"
    using assms(1) by (auto simp: twiddlecred_def NewTicketKey_def Issue_def bindR_eq_Inr returnR_eq_Inr split: if_splits sum.splits)
  have "length k = 32" using c(2) by (rule rand_Read_length)
  from issue_companions [OF c(3) this assms(2), of undefined undefined undefined]
  have "length (cr_Ticket cred) = nat (cp_TicketLen profile)" "length (cr_FullTicket cred) = FullTicketLen"
    "open_ticket k (cr_Ticket cred) = Inr (cf_clientID flags, cr_PSK cred, time_Unix (unix_of now))"
    "open_ticket k (cr_FullTicket cred) = Inr (cf_clientID flags, cr_PSK cred, time_Unix (unix_of now))" by blast+
  moreover from this(3) have "MinTicketLen \<le> length (cr_Ticket cred)" by (simp add: open_ticket_def split: if_splits)
  ultimately show ?thesis using c(1,4) by auto
qed

theorem provisioned_witness:
  "\<exists>k cred. twiddlecred id (\<lambda>_. Absent) [] 0 \<lparr>cf_clientID = 7, cf_cover = str ''www.google.com'', cf_printPool = False\<rparr> (replicate 500 0)
      = Some (Printed_Credential k cred) \<and> length (cr_Ticket cred) = 230 \<and> open_ticket k (cr_FullTicket cred) = Inr (7, cr_PSK cred, 0)"
proof -
  let ?flags = "\<lparr>cf_clientID = 7, cf_cover = str ''www.google.com'', cf_printPool = False\<rparr>"
  have "case CoverFor (str ''www.google.com'') of Inr p \<Rightarrow> cp_TicketLen p = 230 | Inl _ \<Rightarrow> False" by code_simp
  then obtain profile where p: "CoverFor (str ''www.google.com'') = Inr profile" "cp_TicketLen profile = 230"
    by (auto split: sum.splits)
  have "\<exists>cred t. issueAt (replicate 32 0) 7 230 0 (replicate 468 0) = Inr (cred, t)"
    by (simp add: issueAt_def seal_ticket_def bindR_def liftR_def rand_Read_def returnR_def Let_def)
  then obtain cred t where c: "issueAt (replicate 32 0) 7 230 0 (replicate 468 0) = Inr (cred, t)" by blast
  have "twiddlecred id (\<lambda>_. Absent) [] 0 ?flags (replicate 500 0) = Some (Printed_Credential (replicate 32 0) cred)"
    using p c by (simp add: twiddlecred_def NewTicketKey_def Issue_def bindR_def rand_Read_def returnR_def str_def)
  moreover from provisioned [OF this] have "length (cr_Ticket cred) = 230 \<and> open_ticket (replicate 32 0) (cr_FullTicket cred) = Inr (7, cr_PSK cred, 0)"
    using p by (auto simp: instant_ok_def unix_of_def time_Unix_def)
  ultimately show ?thesis by blast
qed

end
