(* ===== verification/Spec2Isabelle.thy ===== *)
theory Spec2Isabelle
  imports Acceptance Continuity Interleaving Pool_File Own_Traffic Dialers Arrivals Server_Runs Provision
begin

text \<open>
  \<^bold>\<open>A verification library of twiddle.\<close> Twiddle is a transport that looks like TLS 1.3: it opens with a ClientHello
  harvested from a real browser, rewritten in a handful of fields; the server answers with a synthesised
  ServerHello; everything after is an AEAD tunnel framed as application data. This library models the shipped
  package of \<^verbatim>\<open>src/\<close> and the probe and the measuring tools under \<^verbatim>\<open>src/harvest\<close>, and proves what its parts promise one another.

  \<^bold>\<open>How the parts interact.\<close> A pool file holds harvested hellos (\<open>Pools\<close>); the harvester grows it from tapped
  traffic (\<open>Harvester\<close>, \<open>Pool_File\<close>), keeping one browser build and no two hellos of one contribution (\<open>Builds\<close>).
  \<open>Client\<close> takes one, \<open>Twiddle\<close> parses it (\<open>Hello\<close>), redraws what a browser redraws (\<open>Rerand\<close>), and adds an
  authenticator that is a ticket of the server: as a pre_shared_key when it resumes (\<open>Auth\<close>), in the ECH payload when
  it imitates a full handshake (\<open>EchCarrier\<close>); \<open>Contacts\<close> decides which. \<open>Server\<close> checks the hello against its cover
  (\<open>Cover\<close>), the authenticator, and the replay gate (\<open>Replay\<close>); only then it answers (\<open>ServerHello\<close>), with the flight
  lengths that a probe of the cover measured (\<open>Probe\<close>). Both derive a session and speak records (\<open>Conn\<close>) whose
  lengths a shaper chooses (\<open>Shaping\<close>).

  \<^bold>\<open>Theories and sources.\<close>
  \<^item> \<open>Prelude\<close>: results, big-endian words, slices, and the collections \<open>res_simps\<close>, \<open>wire_simps\<close>, \<open>slice_simps\<close>.
    \<open>Entropy\<close>: \<^verbatim>\<open>crypto/rand\<close> over an explicit tape. \<open>Effects\<close>: sockets, clock and failing writes as state.
    \<open>GoCrypto\<close>: SHA-2, HMAC, HKDF, AES-GCM by their standards, behind the locale \<open>aead\<close>. \<open>GoStrings\<close>: what is used of
    \<^verbatim>\<open>strings\<close>, \<^verbatim>\<open>unicode\<close>, \<^verbatim>\<open>encoding/hex\<close> and \<^verbatim>\<open>net.ParseIP\<close>.
  \<^item> \<open>Hello\<close>: \<^verbatim>\<open>hello.go\<close>. What is accepted is exactly a grammar; parsing and printing are inverse where the lengths are true.
  \<^item> \<open>Shaping\<close>: \<^verbatim>\<open>shaping.go\<close>, behind the locale \<open>shaper\<close>, which both shapers interpret. \<open>ServerHello\<close>: \<^verbatim>\<open>serverhello.go\<close>.
  \<^item> \<open>Rerand\<close>, \<open>Twiddle\<close>, \<open>Emission\<close>: \<^verbatim>\<open>twiddle.go\<close>. What is redrawn and what is kept, and that what is emitted is accepted.
  \<^item> \<open>Auth\<close>, \<open>EchCarrier\<close>: \<^verbatim>\<open>auth.go\<close>, \<^verbatim>\<open>echcarrier.go\<close>. The two carriers interpret one locale, \<open>opening_auth\<close>. \<open>Acceptance\<close>:
    what the resumption authenticator accepts, laid out in bytes.
  \<^item> \<open>Replay\<close>, \<open>Contacts\<close>: \<^verbatim>\<open>replay.go\<close>, \<^verbatim>\<open>contacts.go\<close>. The cache interprets the locale \<open>ticket_gate\<close>, in which single use
    is proved for any sequence of calls, up to the horizon and the memory backstop. A Go map is an association list and the order of a range loop a parameter.
  \<^item> \<open>Conn\<close>, \<open>Stream_Layer\<close>, \<open>Interleaving\<close>: \<^verbatim>\<open>conn.go\<close>. A reader refines a byte stream; concurrent writers and a closer
    are a step relation over the critical sections \<open>Write\<close> and \<open>Close\<close> are made of, whose runs by one caller at a time are
    \<open>Write\<close> and \<open>Close\<close>; its invariant gives what is on the wire and the distinctness of the nonces.
  \<^item> \<open>Cover\<close>: \<^verbatim>\<open>cover.go\<close>. \<open>Handshake\<close>: \<^verbatim>\<open>handshake.go\<close>, with \<open>Gatekeeping\<close> (what an unauthenticated or replayed opening
    gets: silence), \<open>Opening\<close> and \<open>Completion\<close> (a provisioned client and its server complete, in both shapes) and
    \<open>Continuity\<close> (over several connections, a client opens in full where it has not been and resumes from there).
  \<^item> \<open>Builds\<close>, \<open>Pools\<close>: the fingerprints, canonical forms, screening, reading, choosing and sanitising of \<^verbatim>\<open>source.go\<close>,
    \<^verbatim>\<open>pool.go\<close> and \<^verbatim>\<open>harvester.go\<close>. The locale \<open>refresh_blind\<close> states what a view of an extension must not see for the
    emitter to keep it; canonical forms and fingerprints interpret it. The origins of a pool are a linear order, and a
    load prefers the greater.
  \<^item> \<open>Harvester\<close>: \<^verbatim>\<open>Harvester\<close> of \<^verbatim>\<open>harvester.go\<close>. An invariant of every harvester reached from \<open>NewHarvester\<close> by offers,
    and the eviction equal to a reference. \<open>Pool_File\<close>: \<^verbatim>\<open>writePoolFile\<close>, as a call and as a machine of system calls that ends
    whatever fails.
  \<^item> \<open>Probe\<close>: \<^verbatim>\<open>harvest/coverprobe\<close>. From the reads of a socket to the range of lengths a profile adopts.
  \<^item> \<open>Own_Traffic\<close>: what the transport emits, a harvester that holds its source refuses.
  \<^item> \<open>Streams\<close>: what the watchers share, as locales. \<open>splitter\<close> cuts a stream into records; \<open>stream_tap\<close> and \<open>loop_tap\<close> do so
    read by read in two directions, and what they note does not depend on the cuts; \<open>first_record\<close> waits for one record and
    acts once. The recorder of \<open>Probe\<close> and the taps, tunnels and readers of the tools interpret them.
  \<^item> \<open>Measure\<close>: the scanners of a hello of the tools under \<^verbatim>\<open>harvest/cmd\<close>, which agree with the parser, and \<^verbatim>\<open>sweep\<close>. \<open>Relays\<close>:
    the tunnels of \<^verbatim>\<open>resumeratio\<close> and \<^verbatim>\<open>records\<close>, which pass everything on. \<open>Ratio\<close>: \<^verbatim>\<open>resumeratio\<close> with many tunnels taking
    turns; the share it reports is the share of the tunnels. \<open>Capture\<close>: \<^verbatim>\<open>capture\<close> and \<^verbatim>\<open>tapproxy\<close>; the file one writes is a
    pool file of the first records of its connections. \<open>Dialers\<close>: \<^verbatim>\<open>burst\<close> and \<^verbatim>\<open>resume\<close>, and what their figures are figures of.
  \<^item> \<open>Measure_Server\<close>: the scanners of a ServerHello with their panics, the hellos two tools send, and the taps of
    \<^verbatim>\<open>postflight\<close>. \<open>Server_Runs\<close>: the runs and the mains of \<^verbatim>\<open>shresume\<close>, \<^verbatim>\<open>shdump\<close>, \<^verbatim>\<open>flight\<close> and \<^verbatim>\<open>postflight\<close>, and that the
    first reports a ServerHello the parser accepts for what it is. \<open>Arrivals\<close>: \<^verbatim>\<open>arrival\<close>.
  \<^item> \<open>Provision\<close>: \<^verbatim>\<open>cmd/twiddlecred\<close>. The key and the credential it prints fit together.

  \<^bold>\<open>State and errors.\<close> Each struct is a record and each method a function from the record to the record, or an action
  of \<open>Effects\<close> where it touches the socket. Errors are values of a sum; the messages keep their constant part, the
  sentinels are constructors. Machine integers are words; Go's \<^verbatim>\<open>int\<close> is \<open>int\<close> or \<open>nat\<close> where it counts what fits in
  memory. A mutex is the atomicity of one step.

  \<^bold>\<open>Loops and bounds.\<close> Loops over a buffer are recursive functions with a measure. \<open>rand.Int\<close>, which redraws until a draw is in range, is a recursion over the tape and fails
  when the tape ends; the theorems that something is emitted state that some tape does it. The loop that enforces the
  bound of \<open>Contacts\<close> deletes an entry a turn, so as many turns as there are entries are enough.

  \<^bold>\<open>Parameters.\<close> X25519 and ML-KEM-768 are the record \<open>kex\<close>, with the laws \<open>kex_ok\<close>; the file system is a function from
  paths to answers for reading and a \<open>Disk\<close> with faults for writing; the embedded pool is its text; the TLS client of the
  probe and of the tools is what it read and wrote, when, and how each call ended. Nothing is assumed of SHA-2, HMAC, HKDF or AES-GCM: they are
  defined, and only their lengths and the opening of what was sealed are used.

  \<^bold>\<open>What the code does not do as it says.\<close> Each of these is a lemma. \<open>Marshal\<close> does not reproduce every accepted record
  (\<open>reproduced_iff\<close>). A full chunk of a browsing client leaves the measured lengths (\<open>flush_on_mode\<close>). At the very second
  of its horizon a ticket is admitted again (\<open>replay_at_horizon\<close>). A hello without an X25519 share is screened in and never
  emitted (\<open>shareless_never_emitted\<close>). The binder leaves the place of pre_shared_key free (\<open>verifyAt_canonical\<close>). Data can
  follow the closing alert (\<open>data_after_alert\<close>). The fingerprint sees the length of the site's name
  (\<open>fingerprint_sees_name_length\<close>). A probe no server can replay is adopted (\<open>adopted_unservable\<close>). A third build can starve
  outside a full pool (\<open>build_starves\<close>). Two writers of the pool file tear it (\<open>writers_tear\<close>). A splitter that gave up on a
  stream starts over at its next read (\<open>feed_starts_over\<close>). A ServerHello cut short makes two tools panic (\<open>short_hello_panics\<close>).
  A path with a newline in it writes a line of its own into the capture file (\<open>path_injects_record\<close>).

  \<^bold>\<open>Not modelled.\<close> Of the programs under \<^verbatim>\<open>src/harvest/cmd\<close> and \<^verbatim>\<open>src/cmd\<close>, the parsing of flags, the opening of listeners
  and output files, certificates, the timers that end a run, and the layout of what is printed, with its decimals and
  timings: what is printed are the values that go into it. The deadlines and addresses of a connection, which only forward
  to the socket. The directory tree, of which only the failure to make a directory is modelled. The secrecy of the
  primitives: no claim here is about an adversary who breaks them.
\<close>

end
